(* ===== verification/Nexus_Prelude.thy ===== *)
theory Nexus_Prelude
  imports Main "HOL-Library.Word"
begin

unbundle bit_operations_syntax

text \<open>
  Shared vocabulary of the development: the machine integer types of the Rust source, the
  outcome of a Rust computation that mutates a state (\<open>Ok\<close>, an \<open>Err\<close> that carries the
  \<open>PduParseErr\<close> of \<^verbatim>\<open>crates/tetra-core/src/pdu_parse_error.rs\<close>, or a panic), the
  combinators that sequence such computations, and the lemmas on bit lists, words and lists
  that the components share.

  Conventions.  \<open>usize\<close> offsets and lengths are \<open>nat\<close>: the buffers of this program are a
  few kilobytes, far from \<open>2 ^ 64\<close>.  A subtraction of \<open>usize\<close> values that would go below
  zero, an index out of range, a failed \<open>assert!\<close> and an \<open>unwrap\<close> of \<open>None\<close> are all
  \<open>Panic\<close> (the build with overflow checks); the theorems show that they do not happen from
  well-formed states, so that the build without overflow checks behaves the same way there.
\<close>

section \<open>Machine integers\<close>

type_synonym u8 = "8 word"
type_synonym u16 = "16 word"
type_synonym u32 = "32 word"
type_synonym u64 = "64 word"

section \<open>Outcomes and their sequencing\<close>

datatype pdu_parse_err =
    InvalidPduType (ipt_expected: u64) (ipt_found: u64)
  | BufferEnded (be_field: "string option")
  | InvalidTrailingMbitValue
  | InvalidElemId (iei_found: u64)
  | FieldNotPresent (fnp_field: "string option")
  | InvalidValue (iv_field: string) (iv_value: u64)
  | InconsistentLength (il_expected: nat) (il_found: nat)
  | Inconsistency (inc_field: string) (inc_reason: string)
  | NotImplemented (ni_field: "string option")

datatype ('a, 's) outcome = Ok 'a 's | Err pdu_parse_err 's | Panic

type_synonym ('s, 'a) comp = "'s \<Rightarrow> ('a, 's) outcome"

definition retM :: "'a \<Rightarrow> ('s, 'a) comp" where
  "retM a = (\<lambda>s. Ok a s)"

definition errM :: "pdu_parse_err \<Rightarrow> ('s, 'a) comp" where
  "errM e = (\<lambda>s. Err e s)"

definition panicM :: "('s, 'a) comp" where
  "panicM = (\<lambda>s. Panic)"

definition bindM :: "('s, 'a) comp \<Rightarrow> ('a \<Rightarrow> ('s, 'b) comp) \<Rightarrow> ('s, 'b) comp" where
  "bindM m f = (\<lambda>s. case m s of Ok a s' \<Rightarrow> f a s' | Err e s' \<Rightarrow> Err e s' | Panic \<Rightarrow> Panic)"

abbreviation thenM :: "('s, unit) comp \<Rightarrow> ('s, 'b) comp \<Rightarrow> ('s, 'b) comp" where
  "thenM m k \<equiv> bindM m (\<lambda>_. k)"

definition assertM :: "bool \<Rightarrow> ('s, unit) comp" where
  "assertM c = (\<lambda>s. if c then Ok () s else Panic)"

definition getM :: "('s \<Rightarrow> 'a) \<Rightarrow> ('s, 'a) comp" where
  "getM f = (\<lambda>s. Ok (f s) s)"

definition modM :: "('s \<Rightarrow> 's) \<Rightarrow> ('s, unit) comp" where
  "modM f = (\<lambda>s. Ok () (f s))"

definition subM :: "nat \<Rightarrow> nat \<Rightarrow> ('s, nat) comp" where
  "subM a b = (\<lambda>s. if b \<le> a then Ok (a - b) s else Panic)"

lemma retM_app [simp]: "retM a s = Ok a s"
  by (simp add: retM_def)

lemma errM_app [simp]: "errM e s = Err e s"
  by (simp add: errM_def)

lemma panicM_app [simp]: "panicM s = Panic"
  by (simp add: panicM_def)

lemma assertM_app: "assertM c s = (if c then Ok () s else Panic)"
  by (simp add: assertM_def)

lemma assertM_True [simp]: "c \<Longrightarrow> assertM c s = Ok () s"
  by (simp add: assertM_def)

lemma assertM_False [simp]: "\<not> c \<Longrightarrow> assertM c s = Panic"
  by (simp add: assertM_def)

lemma getM_app [simp]: "getM f s = Ok (f s) s"
  by (simp add: getM_def)

lemma modM_app [simp]: "modM f s = Ok () (f s)"
  by (simp add: modM_def)

lemma subM_app: "subM a b s = (if b \<le> a then Ok (a - b) s else Panic)"
  by (simp add: subM_def)

lemma subM_Ok [simp]: "b \<le> a \<Longrightarrow> subM a b s = Ok (a - b) s"
  by (simp add: subM_def)

lemma bindM_Ok [simp]: "m s = Ok a s' \<Longrightarrow> bindM m f s = f a s'"
  by (simp add: bindM_def)

lemma bindM_Err [simp]: "m s = Err e s' \<Longrightarrow> bindM m f s = Err e s'"
  by (simp add: bindM_def)

lemma bindM_Panic [simp]: "m s = Panic \<Longrightarrow> bindM m f s = Panic"
  by (simp add: bindM_def)

lemma bindM_assoc: "bindM (bindM m f) g = bindM m (\<lambda>a. bindM (f a) g)"
  by (rule ext) (simp add: bindM_def split: outcome.split)

lemma bindM_retM [simp]: "bindM (retM a) f = f a"
  by (rule ext) simp

lemma assertM_ret [simp]: "c \<Longrightarrow> assertM c = retM ()"
  by (rule ext) simp

lemma bindM_errM [simp]: "bindM (errM e) f = errM e"
  by (rule ext) simp

lemma bindM_eq_Ok:
  "bindM m f s = Ok b t \<longleftrightarrow> (\<exists>a s'. m s = Ok a s' \<and> f a s' = Ok b t)"
  by (simp add: bindM_def split: outcome.split)

lemma bindM_ret_right [simp]: "bindM m retM = m"
  by (rule ext) (simp add: bindM_def split: outcome.split)

text \<open>A loop that runs a computation once per list element, in order.\<close>

fun forM :: "'a list \<Rightarrow> ('a \<Rightarrow> ('s, unit) comp) \<Rightarrow> ('s, unit) comp" where
  "forM [] f = retM ()"
| "forM (x # xs) f = thenM (f x) (forM xs f)"

lemma forM_append: "forM (xs @ ys) f = thenM (forM xs f) (forM ys f)"
  by (induction xs) (simp_all add: bindM_assoc)

section \<open>Bits, most significant first\<close>

definition msb_bits :: "nat \<Rightarrow> 'a::len word \<Rightarrow> bool list" where
  "msb_bits n w = map (bit w) (rev [0..<n])"

definition of_bits :: "bool list \<Rightarrow> 'a::len word" where
  "of_bits bs = horner_sum of_bool 2 (rev bs)"

lemma length_msb_bits [simp]: "length (msb_bits n w) = n"
  by (simp add: msb_bits_def)

lemma nth_msb_bits: "i < n \<Longrightarrow> msb_bits n w ! i = bit w (n - 1 - i)"
  by (simp add: msb_bits_def rev_nth)

lemma msb_bits_0 [simp]: "msb_bits 0 w = []"
  by (simp add: msb_bits_def)

lemma msb_bits_Suc: "msb_bits (Suc n) w = bit w n # msb_bits n w"
  by (simp add: msb_bits_def)

lemma bit_of_bits:
  "bit (of_bits bs :: 'a::len word) i \<longleftrightarrow> i < LENGTH('a) \<and> i < length bs \<and> bs ! (length bs - 1 - i)"
  by (auto simp: of_bits_def bit_horner_sum_bit_word_iff rev_nth)

lemma of_bits_Nil [simp]: "of_bits [] = 0"
  by (simp add: of_bits_def)

lemma of_bits_msb_bits: "of_bits (msb_bits n w) = take_bit n (w :: 'a::len word)"
  by (rule bit_eqI) (auto simp: bit_of_bits nth_msb_bits bit_take_bit_iff)

lemma msb_bits_of_bits:
  assumes "length bs \<le> LENGTH('a)"
  shows "msb_bits (length bs) (of_bits bs :: 'a::len word) = bs"
  using assms by (intro nth_equalityI) (auto simp: nth_msb_bits bit_of_bits)

lemma take_bit_small:
  assumes "drop_bit n w = (0 :: 'a::len word)"
  shows "take_bit n w = w"
proof -
  have "push_bit n (drop_bit n w) + take_bit n w = w"
    by (rule bits_ident)
  then show ?thesis using assms by simp
qed

lemma drop_bit_0_iff: "drop_bit n w = 0 \<longleftrightarrow> unat (w :: 'a::len word) < 2 ^ n"
  by (metis div_eq_0_iff drop_bit_eq_div power_not_zero unat_0 unat_drop_bit_eq
      unsigned_word_eqI zero_neq_numeral)

lemma of_bits_msb_bits_small [simp]:
  "unat w < 2 ^ n \<Longrightarrow> of_bits (msb_bits n w) = (w :: 'a::len word)"
  by (simp add: of_bits_msb_bits take_bit_small drop_bit_0_iff)

lemma of_bits_less: "unat (of_bits bs :: 'a::len word) < 2 ^ length bs"
proof -
  have "drop_bit (length bs) (of_bits bs :: 'a word) = 0"
    by (rule bit_eqI) (auto simp: bit_drop_bit_eq bit_of_bits)
  then show ?thesis by (simp add: drop_bit_0_iff)
qed

lemma msb_bits_append:
  "msb_bits (m + n) w = msb_bits m (drop_bit n w) @ msb_bits n w"
  by (rule nth_equalityI) (auto simp: nth_msb_bits nth_append bit_drop_bit_eq add.commute)

lemma msb_bits_ucast:
  "n \<le> LENGTH('a) \<Longrightarrow> n \<le> LENGTH('b) \<Longrightarrow>
   msb_bits n (ucast (w :: 'a::len word) :: 'b::len word) = msb_bits n w"
  by (rule nth_equalityI) (auto simp: nth_msb_bits bit_ucast_iff)

lemma unat_ucast_widen [simp]:
  "LENGTH('a) \<le> LENGTH('b) \<Longrightarrow> unat (ucast (w :: 'a::len word) :: 'b::len word) = unat w"
  by (simp add: unsigned_ucast_eq take_bit_nat_eq_self_iff order_less_le_trans [OF unsigned_less])

lemma ucast_ucast_narrow [simp]:
  "LENGTH('a) \<le> LENGTH('b) \<Longrightarrow> ucast (ucast (w :: 'a::len word) :: 'b::len word) = w"
  by (rule bit_eqI) (auto simp: bit_ucast_iff dest: bit_imp_le_length)

lemma unat_ucast_small: "unat (w :: 'a::len word) < 2 ^ LENGTH('b) \<Longrightarrow> unat (ucast w :: 'b::len word) = unat w"
  by (simp add: unsigned_ucast_eq take_bit_nat_eq_self_iff)

lemma ucast_ucast_small:
  assumes "unat (w :: 'a::len word) < 2 ^ LENGTH('b)"
  shows "ucast (ucast w :: 'b::len word) = w"
proof -
  have w: "take_bit LENGTH('b) w = w" using assms by (simp add: take_bit_small drop_bit_0_iff)
  have "bit w i \<Longrightarrow> i < LENGTH('b)" for i
    using arg_cong [OF w, of "\<lambda>x. bit x i"] by (simp add: bit_take_bit_iff)
  then show ?thesis by (intro bit_eqI) (auto simp: bit_ucast_iff dest: bit_imp_le_length)
qed

lemma unat_of_nat_word: "n < 2 ^ LENGTH('a) \<Longrightarrow> unat (of_nat n :: 'a::len word) = n"
  by (simp add: unsigned_of_nat take_bit_nat_eq_self_iff)

lemma less_power2_mono: "m \<le> n \<Longrightarrow> x < 2 ^ m \<Longrightarrow> x < (2 :: nat) ^ n"
  by (meson order_less_le_trans one_le_numeral power_increasing)

section \<open>Lists\<close>

lemma map_upt_split:
  "a \<le> b \<Longrightarrow> b \<le> c \<Longrightarrow> map f [a..<c] = map f [a..<b] @ map f [b..<c]"
  by (metis le_add_diff_inverse map_append upt_add_eq_append)

lemma map_upt_eq_append_iff:
  "map f [a..<c] = xs @ ys \<longleftrightarrow>
     length xs \<le> c - a \<and> map f [a..<a + length xs] = xs \<and> map f [a + length xs..<c] = ys"
  (is "?L \<longleftrightarrow> ?R")
proof
  assume L: ?L
  then have "length (map f [a..<c]) = length (xs @ ys)" by simp
  then have len: "length xs \<le> c - a" by simp
  show ?R
  proof (cases "a \<le> c")
    case True
    with len have "map f [a..<c] = map f [a..<a + length xs] @ map f [a + length xs..<c]"
      by (intro map_upt_split) auto
    with L len show ?thesis by simp
  next
    case False
    with L show ?thesis by simp
  qed
next
  assume R: ?R
  show ?L
  proof (cases "a \<le> c")
    case True
    with R have "map f [a..<c] = map f [a..<a + length xs] @ map f [a + length xs..<c]"
      by (intro map_upt_split) auto
    with R show ?thesis by simp
  next
    case False
    with R show ?thesis by simp
  qed
qed

section \<open>Signed arithmetic with overflow\<close>

text \<open>The result of an operation on signed machine integers: the exact value, or \<open>None\<close> when it does not fit.\<close>

definition checked_int :: "int \<Rightarrow> 'a::len word option" where
  "checked_int x = (if sint (word_of_int x :: 'a word) = x then Some (word_of_int x) else None)"

lemma sint_word_of_int: "- (2 ^ (LENGTH('a::len) - 1)) \<le> x \<Longrightarrow> x < 2 ^ (LENGTH('a) - 1) \<Longrightarrow> sint (word_of_int x :: 'a word) = x"
  by (simp add: signed_of_int signed_take_bit_int_eq_self)

lemma checked_int_fits:
  assumes "- (2 ^ (LENGTH('a::len) - 1)) \<le> x" and "x < 2 ^ (LENGTH('a) - 1)"
  shows "checked_int x = Some (word_of_int x :: 'a word)" and "sint (word_of_int x :: 'a word) = x"
  using sint_word_of_int [OF assms] by (simp_all add: checked_int_def)

lemma those_map: "(\<And>x. x \<in> set xs \<Longrightarrow> f x = Some (g x)) \<Longrightarrow> those (map f xs) = Some (map g xs)"
  by (induction xs) auto

end
