(* ===== verification/Bit_Buffer.thy ===== *)
theory Bit_Buffer
  imports Nexus_Prelude
begin

unbundle bit_operations_syntax

text \<open>
  The bit buffer of \<^verbatim>\<open>crates/tetra-core/src/bitbuffer.rs\<close>: a byte vector with a window
  \<open>start .. end\<close> and a cursor \<open>pos\<close>, all counted in bits from the most significant bit of
  byte 0.  Every PDU of the stack is read and written through it, up to 64 bits at a time, by
  the byte-wise routines \<open>read_bits_at_unchecked\<close> and \<open>write_bits\<close> (head bits up to a byte
  boundary, whole bytes, tail bits).  The first half of the theory is the model, operation by
  operation; the second half proves that the byte-wise routines implement the reference
  operations on lists of bits, and that every operation keeps the window invariant.
\<close>

section \<open>The structure and its constructors\<close>

record bitbuf =
  bb_buffer :: "u8 list"
  bb_start :: nat
  bb_pos :: nat
  bb_end :: nat
  bb_autoexpand :: bool

type_synonym 'a bbm = "(bitbuf, 'a) comp"

text \<open>Code that owns several buffers runs an operation on one of them; \<open>None\<close> is a panic.\<close>

definition run_bb :: "'a bbm \<Rightarrow> bitbuf \<Rightarrow> ('a \<times> bitbuf) option" where
  "run_bb m b = (case m b of Ok a b' \<Rightarrow> Some (a, b') | Err _ _ \<Rightarrow> None | Panic \<Rightarrow> None)"

definition bb_new :: "nat \<Rightarrow> bitbuf" where
  "bb_new len_bits =
     \<lparr>bb_buffer = replicate ((len_bits + 7) div 8) 0, bb_start = 0, bb_pos = 0,
      bb_end = len_bits, bb_autoexpand = False\<rparr>"

definition bb_new_autoexpand :: "nat \<Rightarrow> bitbuf" where
  "bb_new_autoexpand initial_max_len_bits =
     \<lparr>bb_buffer = replicate ((initial_max_len_bits + 7) div 8) 0, bb_start = 0, bb_pos = 0,
      bb_end = 0, bb_autoexpand = True\<rparr>"

definition bb_from_vec :: "u8 list \<Rightarrow> bitbuf" where
  "bb_from_vec data =
     \<lparr>bb_buffer = data, bb_start = 0, bb_pos = 0, bb_end = length data * 8, bb_autoexpand = False\<rparr>"

definition bb_from_bytes :: "u8 list \<Rightarrow> bitbuf" where
  "bb_from_bytes data =
     \<lparr>bb_buffer = data, bb_start = 0, bb_pos = 0, bb_end = length data * 8, bb_autoexpand = False\<rparr>"

section \<open>Window and cursor\<close>

definition get_len :: "nat bbm" where
  "get_len b = subM (bb_end b) (bb_start b) b"

definition get_len_remaining :: "nat bbm" where
  "get_len_remaining b = subM (bb_end b) (bb_pos b) b"

definition get_len_written :: "nat bbm" where
  "get_len_written b = subM (bb_pos b) (bb_start b) b"

definition get_pos :: "nat bbm" where
  "get_pos b = subM (bb_pos b) (bb_start b) b"

definition seek :: "nat \<Rightarrow> unit bbm" where
  "seek offset b =
     (if bb_start b + offset \<le> bb_end b then Ok () (b\<lparr>bb_pos := bb_start b + offset\<rparr>) else Panic)"

definition seek_rel :: "int \<Rightarrow> unit bbm" where
  "seek_rel offset b =
     (let new_pos = int (bb_pos b) + offset in
      if int (bb_start b) \<le> new_pos \<and> new_pos \<le> int (bb_end b)
      then Ok () (b\<lparr>bb_pos := nat new_pos\<rparr>) else Panic)"

definition set_raw_start :: "nat \<Rightarrow> unit bbm" where
  "set_raw_start s b =
     (if s \<le> bb_end b \<and> s \<le> bb_pos b then Ok () (b\<lparr>bb_start := s\<rparr>) else Panic)"

definition set_raw_end :: "nat \<Rightarrow> unit bbm" where
  "set_raw_end e b =
     (if e \<le> length (bb_buffer b) * 8 \<and> bb_start b \<le> e \<and> bb_pos b \<le> e
      then Ok () (b\<lparr>bb_end := e\<rparr>) else Panic)"

definition set_raw_pos :: "nat \<Rightarrow> unit bbm" where
  "set_raw_pos p b =
     (if bb_start b \<le> p \<and> p \<le> bb_end b then Ok () (b\<lparr>bb_pos := p\<rparr>) else Panic)"

section \<open>Reading\<close>

text \<open>The masks \<open>(1 << n) - 1\<close> of the source are \<open>mask n\<close>, which is \<open>2 ^ n - 1\<close>.\<close>

definition byte_at :: "nat \<Rightarrow> u8 bbm" where
  "byte_at i b = (if i < length (bb_buffer b) then Ok (bb_buffer b ! i) b else Panic)"

text \<open>The whole-byte loop of \<open>read_bits_at_unchecked\<close>.\<close>

fun read_full_bytes :: "nat \<Rightarrow> nat \<Rightarrow> u64 \<Rightarrow> (nat \<times> nat \<times> u64) bbm" where
  "read_full_bytes bit_pos bits_remaining result b =
     (if bits_remaining \<ge> 8
      then case byte_at (bit_pos div 8) b of
             Ok byte b' \<Rightarrow>
               read_full_bytes (bit_pos + 8) (bits_remaining - 8)
                 (push_bit 8 result OR ucast byte) b'
           | Err e b' \<Rightarrow> Err e b'
           | Panic \<Rightarrow> Panic
      else Ok (bit_pos, bits_remaining, result) b)"

text \<open>The bit-by-bit tail loop: \<open>i\<close> counts up to \<open>bits_remaining\<close>.\<close>

function read_tail_bits :: "u8 \<Rightarrow> nat \<Rightarrow> nat \<Rightarrow> nat \<Rightarrow> u64 \<Rightarrow> u64" where
  "read_tail_bits byte off i bits_remaining result =
     (if i < bits_remaining
      then read_tail_bits byte off (i + 1) bits_remaining
             (push_bit 1 result OR ucast (drop_bit (7 - (off + i)) byte AND 1))
      else result)"
  by pat_completeness auto
termination
  by (relation "measure (\<lambda>(byte, off, i, n, r). n - i)") auto

definition read_head :: "nat \<Rightarrow> nat \<Rightarrow> (nat \<times> nat \<times> u64) bbm" where
  "read_head bit_pos bits_remaining =
     (let head = bit_pos mod 8 in
      if head \<noteq> 0 \<and> bits_remaining > 0
      then let take_n = min (8 - head) bits_remaining;
               shift = 8 - head - take_n;
               msk = mask take_n
           in bindM (byte_at (bit_pos div 8)) (\<lambda>byte.
                retM (bit_pos + take_n, bits_remaining - take_n,
                      ucast (drop_bit shift byte AND msk)))
      else retM (bit_pos, bits_remaining, 0))"

definition read_bits_at_unchecked :: "nat \<Rightarrow> nat \<Rightarrow> u64 bbm" where
  "read_bits_at_unchecked bit_pos num_bits =
     bindM (read_head bit_pos num_bits) (\<lambda>(bit_pos, bits_remaining, result).
     bindM (read_full_bytes bit_pos bits_remaining result) (\<lambda>(bit_pos, bits_remaining, result).
     if bits_remaining > 0
     then bindM (byte_at (bit_pos div 8)) (\<lambda>byte.
            retM (read_tail_bits byte (bit_pos mod 8) 0 bits_remaining result))
     else retM result))"

definition read_bit_at_unchecked :: "nat \<Rightarrow> u8 bbm" where
  "read_bit_at_unchecked bit_pos =
     bindM (byte_at (bit_pos div 8)) (\<lambda>byte. retM (drop_bit (7 - bit_pos mod 8) byte AND 1))"

definition peek_bits_startoffset :: "nat \<Rightarrow> nat \<Rightarrow> u64 option bbm" where
  "peek_bits_startoffset offset num_bits b =
     (let abs_pos = bb_start b + offset in
      if num_bits > 64 \<or> abs_pos + num_bits > bb_end b then Ok None b
      else bindM (read_bits_at_unchecked abs_pos num_bits) (\<lambda>v. retM (Some v)) b)"

text \<open>The \<open>isize\<close> offset of the source is a natural number here: every caller passes a
  non-negative constant.\<close>

definition peek_bits_posoffset :: "nat \<Rightarrow> nat \<Rightarrow> u64 option bbm" where
  "peek_bits_posoffset offset num_bits =
     bindM get_pos (\<lambda>p. peek_bits_startoffset (p + offset) num_bits)"

definition peek_bits :: "nat \<Rightarrow> u64 option bbm" where
  "peek_bits num_bits = peek_bits_posoffset 0 num_bits"

definition read_bits :: "nat \<Rightarrow> u64 option bbm" where
  "read_bits num_bits =
     bindM get_pos (\<lambda>p.
     bindM (peek_bits_startoffset p num_bits) (\<lambda>r.
     case r of
       None \<Rightarrow> retM None
     | Some v \<Rightarrow> thenM (modM (\<lambda>b. b\<lparr>bb_pos := bb_pos b + num_bits\<rparr>)) (retM (Some v))))"

definition read_field :: "nat \<Rightarrow> string \<Rightarrow> u64 bbm" where
  "read_field num_bits error_string =
     bindM (read_bits num_bits) (\<lambda>r.
     case r of None \<Rightarrow> errM (BufferEnded (Some error_string)) | Some v \<Rightarrow> retM v)"

definition read_bit :: "u8 option bbm" where
  "read_bit =
     bindM get_pos (\<lambda>p.
     bindM (peek_bits_startoffset p 1) (\<lambda>r.
     case r of
       None \<Rightarrow> retM None
     | Some v \<Rightarrow> thenM (modM (\<lambda>b. b\<lparr>bb_pos := bb_pos b + 1\<rparr>)) (retM (Some (ucast v)))))"

section \<open>Writing\<close>

definition upd_byte :: "nat \<Rightarrow> (u8 \<Rightarrow> u8) \<Rightarrow> unit bbm" where
  "upd_byte i f b =
     (if i < length (bb_buffer b)
      then Ok () (b\<lparr>bb_buffer := (bb_buffer b)[i := f (bb_buffer b ! i)]\<rparr>) else Panic)"

definition realloc_tail :: "nat \<Rightarrow> unit bbm" where
  "realloc_tail new_cap_bits b =
     (let new_cap_bytes = (new_cap_bits + 7) div 8 in
      if new_cap_bytes \<ge> length (bb_buffer b)
      then Ok () (b\<lparr>bb_buffer := bb_buffer b @ replicate (new_cap_bytes - length (bb_buffer b)) 0\<rparr>)
      else Panic)"

definition move_end :: "nat \<Rightarrow> unit bbm" where
  "move_end needed_extra_bits =
     bindM (\<lambda>b. subM (length (bb_buffer b) * 8) (bb_end b) b) (\<lambda>free_cap_bits.
     thenM
       (\<lambda>b. let needed_total_bits = bb_end b + needed_extra_bits in
            if needed_extra_bits > free_cap_bits
            then realloc_tail (max needed_total_bits (length (bb_buffer b) * 8 * 2)) b
            else Ok () b)
       (modM (\<lambda>b. b\<lparr>bb_end := bb_end b + needed_extra_bits\<rparr>)))"

definition ensure_room :: "nat \<Rightarrow> unit bbm" where
  "ensure_room num_bits b =
     (if bb_pos b + num_bits > bb_end b
      then (if bb_autoexpand b then move_end num_bits b else Panic)
      else Ok () b)"

definition write_bit :: "u8 \<Rightarrow> unit bbm" where
  "write_bit value =
     thenM (assertM (value = 0 \<or> value = 1))
    (thenM (ensure_room 1)
    (bindM (getM bb_pos) (\<lambda>pos.
     thenM (upd_byte (pos div 8) (\<lambda>byte. byte AND NOT (push_bit (7 - pos mod 8) 1)))
    (thenM (upd_byte (pos div 8) (\<lambda>byte. byte OR push_bit (7 - pos mod 8) value))
           (modM (\<lambda>b. b\<lparr>bb_pos := bb_pos b + 1\<rparr>))))))"

definition write_head :: "u64 \<Rightarrow> nat \<Rightarrow> nat \<Rightarrow> (nat \<times> nat) bbm" where
  "write_head v remaining cur =
     (let head_offset = cur mod 8 in
      if head_offset \<noteq> 0 \<and> remaining > 0
      then let h = min remaining (8 - head_offset);
               bits_to_write = ucast (drop_bit (remaining - h) v) AND mask h;
               shift = 8 - (head_offset + h);
               msk = push_bit shift (mask h)
           in thenM (upd_byte (cur div 8) (\<lambda>byte. (byte AND NOT msk) OR push_bit shift bits_to_write))
                    (retM (cur + h, remaining - h))
      else retM (cur, remaining))"

fun write_full_bytes :: "u64 \<Rightarrow> nat \<Rightarrow> nat \<Rightarrow> (nat \<times> nat) bbm" where
  "write_full_bytes v remaining cur b =
     (if remaining \<ge> 8
      then case upd_byte (cur div 8) (\<lambda>_. ucast (drop_bit (remaining - 8) v AND 0xFF)) b of
             Ok _ b' \<Rightarrow> write_full_bytes v (remaining - 8) (cur + 8) b'
           | Err e b' \<Rightarrow> Err e b'
           | Panic \<Rightarrow> Panic
      else Ok (cur, remaining) b)"

definition write_tail :: "u64 \<Rightarrow> nat \<Rightarrow> nat \<Rightarrow> unit bbm" where
  "write_tail v remaining cur =
     (if remaining > 0
      then let bits_to_write = ucast v AND mask remaining;
               shift = 8 - (cur mod 8 + remaining);
               msk = push_bit shift (mask remaining)
           in upd_byte (cur div 8) (\<lambda>byte. (byte AND NOT msk) OR push_bit shift bits_to_write)
      else retM ())"

definition write_bits :: "u64 \<Rightarrow> nat \<Rightarrow> unit bbm" where
  "write_bits value num_bits =
     thenM (assertM (num_bits \<le> 64))
    (thenM (assertM (num_bits = 64 \<or> drop_bit num_bits value = 0))
    (thenM (ensure_room num_bits)
    (bindM (getM bb_pos) (\<lambda>pos.
     let v = (if num_bits = 64 then value else value AND mask num_bits) in
     bindM (write_head v num_bits pos) (\<lambda>(cur, remaining).
     bindM (write_full_bytes v remaining cur) (\<lambda>(cur, remaining).
     thenM (write_tail v remaining cur)
           (modM (\<lambda>b. b\<lparr>bb_pos := bb_pos b + num_bits\<rparr>))))))))"

fun write_zeroes :: "nat \<Rightarrow> unit bbm" where
  "write_zeroes bits_remaining b =
     (if bits_remaining > 0
      then let chunk_size = min bits_remaining 64 in
           case write_bits 0 chunk_size b of
             Ok _ b' \<Rightarrow> write_zeroes (bits_remaining - chunk_size) b'
           | Err e b' \<Rightarrow> Err e b'
           | Panic \<Rightarrow> Panic
      else Ok () b)"

fun write_ones :: "nat \<Rightarrow> unit bbm" where
  "write_ones bits_remaining b =
     (if bits_remaining > 0
      then let chunk_size = min bits_remaining 64 in
           case write_bits (drop_bit (64 - chunk_size) 0xFFFFFFFFFFFFFFFF) chunk_size b of
             Ok _ b' \<Rightarrow> write_ones (bits_remaining - chunk_size) b'
           | Err e b' \<Rightarrow> Err e b'
           | Panic \<Rightarrow> Panic
      else Ok () b)"

definition xor_bit :: "u8 \<Rightarrow> unit bbm" where
  "xor_bit value =
     bindM (getM bb_pos) (\<lambda>pos.
     thenM (upd_byte (pos div 8) (\<lambda>byte. byte XOR push_bit (7 - pos mod 8) value))
           (modM (\<lambda>b. b\<lparr>bb_pos := bb_pos b + 1\<rparr>)))"

text \<open>The inner loop of \<open>xor_bytearr\<close> gathers \<open>db_chunk_bytes\<close> bytes of \<open>data\<close>; \<open>None\<close> is
  the index panic.\<close>

fun gather_bytes :: "u8 list \<Rightarrow> nat \<Rightarrow> nat \<Rightarrow> u64 \<Rightarrow> (nat \<times> u64) option" where
  "gather_bytes data 0 data_pos xor_data = Some (data_pos, xor_data)"
| "gather_bytes data (Suc k) data_pos xor_data =
     (if data_pos < length data
      then gather_bytes data k (data_pos + 1) (push_bit 8 xor_data OR ucast (data ! data_pos))
      else None)"

fun xor_bytearr :: "u8 list \<Rightarrow> nat \<Rightarrow> nat \<Rightarrow> unit option bbm" where
  "xor_bytearr data data_pos bits_remaining b =
     (if bits_remaining > 0
      then let chunk_bits = min bits_remaining 64 in
           case read_bits chunk_bits b of
             Ok None b' \<Rightarrow> Ok None b'
           | Ok (Some val) b' \<Rightarrow>
               (case gather_bytes data ((chunk_bits + 7) div 8) data_pos 0 of
                  None \<Rightarrow> Panic
                | Some (data_pos', xor_data) \<Rightarrow>
                    (case thenM (seek_rel (- int chunk_bits))
                            (write_bits (val XOR drop_bit ((8 - chunk_bits mod 8) mod 8) xor_data) chunk_bits) b' of
                       Ok _ b'' \<Rightarrow> xor_bytearr data data_pos' (bits_remaining - chunk_bits) b''
                     | Err e b'' \<Rightarrow> Err e b''
                     | Panic \<Rightarrow> Panic))
           | Err e b' \<Rightarrow> Err e b'
           | Panic \<Rightarrow> Panic
      else Ok (Some ()) b)"

section \<open>Copies and conversions\<close>

text \<open>\<open>copy_bits\<close> mutates two buffers: the source is an argument and the value returned.\<close>

fun copy_bits :: "bitbuf \<Rightarrow> nat \<Rightarrow> bitbuf bbm" where
  "copy_bits src bits_remaining b =
     (if bits_remaining > 0
      then let bits_to_copy = min bits_remaining 64 in
           case get_len_remaining src of
             Ok left src0 \<Rightarrow>
               (if left \<ge> bits_to_copy
                then case read_bits bits_to_copy src0 of
                       Ok (Some v) src' \<Rightarrow>
                         (case write_bits v bits_to_copy b of
                            Ok _ b' \<Rightarrow> copy_bits src' (bits_remaining - bits_to_copy) b'
                          | Err e b' \<Rightarrow> Err e b'
                          | Panic \<Rightarrow> Panic)
                     | _ \<Rightarrow> Panic
                else Panic)
           | _ \<Rightarrow> Panic
      else Ok src b)"

definition copy_bits_from_bitarr :: "u8 list \<Rightarrow> unit bbm" where
  "copy_bits_from_bitarr buf =
     forM buf (\<lambda>bit. thenM (assertM (bit = 0 \<or> bit = 1)) (write_bit bit))"

text \<open>A constructor that runs a computation on a fresh buffer: \<open>None\<close> is a panic.\<close>

definition run_new :: "unit bbm \<Rightarrow> bitbuf \<Rightarrow> bitbuf option" where
  "run_new m b = (case m b of Ok _ b' \<Rightarrow> Some b' | _ \<Rightarrow> None)"

definition bb_from_bitstr :: "string \<Rightarrow> bitbuf option" where
  "bb_from_bitstr bitstr =
     run_new
       (thenM (forM bitstr (\<lambda>c. if c = CHR ''0'' then write_bit 0
                                else if c = CHR ''1'' then write_bit 1 else panicM))
              (modM (\<lambda>b. b\<lparr>bb_pos := bb_start b\<rparr>)))
       (bb_new (length bitstr))"

definition bb_from_bitarr :: "u8 list \<Rightarrow> bitbuf option" where
  "bb_from_bitarr data =
     run_new (thenM (copy_bits_from_bitarr data) (modM (\<lambda>b. b\<lparr>bb_pos := bb_start b\<rparr>)))
       (bb_new (length data))"

text \<open>\<open>copy_from_slice\<close> of \<open>buffer[start_byte..end_byte]\<close>: the slice panics out of range.\<close>

definition bb_slice_from :: "nat \<Rightarrow> nat \<Rightarrow> bitbuf \<Rightarrow> bitbuf option" where
  "bb_slice_from from len b =
     (let start_byte = from div 8; end_byte = (bb_end b + 7) div 8 in
      if start_byte \<le> end_byte \<and> end_byte \<le> length (bb_buffer b)
      then Some ((bb_new ((end_byte - start_byte) * 8))
             \<lparr>bb_buffer := take (end_byte - start_byte) (drop start_byte (bb_buffer b)),
              bb_start := from mod 8, bb_pos := from mod 8, bb_end := from mod 8 + len\<rparr>)
      else None)"

definition bb_from_bitbuffer :: "bitbuf \<Rightarrow> bitbuf option" where
  "bb_from_bitbuffer b =
     (case get_len b of Ok len _ \<Rightarrow> bb_slice_from (bb_start b) len b | _ \<Rightarrow> None)"

definition bb_from_bitbuffer_pos :: "bitbuf \<Rightarrow> bitbuf option" where
  "bb_from_bitbuffer_pos b =
     (case get_len_remaining b of Ok len _ \<Rightarrow> bb_slice_from (bb_pos b) len b | _ \<Rightarrow> None)"

text \<open>\<open>to_bitarr\<close> fills the whole output slice; the slice is the value returned.\<close>

fun to_bitarr :: "nat \<Rightarrow> u8 list bbm" where
  "to_bitarr bits_remaining b =
     (if bits_remaining > 0
      then let bits_to_read = min bits_remaining 64 in
           case read_bits bits_to_read b of
             Ok (Some v) b' \<Rightarrow>
               (case to_bitarr (bits_remaining - bits_to_read) b' of
                  Ok rest b'' \<Rightarrow>
                    Ok (map (\<lambda>i. ucast (drop_bit (bits_to_read - 1 - i) v AND 1)) [0..<bits_to_read]
                        @ rest) b''
                | Err e b'' \<Rightarrow> Err e b''
                | Panic \<Rightarrow> Panic)
           | _ \<Rightarrow> Panic
      else Ok [] b)"

text \<open>The loop of \<open>read_bits_into_slice\<close> over the bytes of the output slice \<open>buf\<close>.\<close>

fun read_slice_loop :: "nat \<Rightarrow> nat \<Rightarrow> nat \<Rightarrow> u8 list \<Rightarrow> (u8 list \<times> unit option) bbm" where
  "read_slice_loop i 0 bits_remaining buf b = Ok (buf, Some ()) b"
| "read_slice_loop i (Suc k) bits_remaining buf b =
     (let bits_in_byte = min bits_remaining 8 in
      case read_bits bits_in_byte b of
        Ok None b' \<Rightarrow> Ok (buf, None) b'
      | Ok (Some v) b' \<Rightarrow>
          read_slice_loop (i + 1) k (bits_remaining - bits_in_byte)
            (buf[i := push_bit (8 - bits_in_byte) (ucast v)]) b'
      | Err e b' \<Rightarrow> Err e b'
      | Panic \<Rightarrow> Panic)"

definition read_bits_into_slice :: "nat \<Rightarrow> u8 list \<Rightarrow> (u8 list \<times> unit option) bbm" where
  "read_bits_into_slice num_bits buf =
     (let num_bytes = (num_bits + 7) div 8 in
      thenM (assertM (length buf \<ge> num_bytes)) (read_slice_loop 0 num_bytes num_bits buf))"

fun collect_bits :: "nat list \<Rightarrow> u8 list bbm" where
  "collect_bits [] = retM []"
| "collect_bits (i # is) =
     bindM (read_bit_at_unchecked i) (\<lambda>x. bindM (collect_bits is) (\<lambda>xs. retM (x # xs)))"

definition to_bitstr :: "string bbm" where
  "to_bitstr =
     bindM get_len (\<lambda>len. bindM (getM bb_start) (\<lambda>start.
     bindM (collect_bits [start..<start + len]) (\<lambda>xs.
     retM (map (\<lambda>x. if x = 1 then CHR ''1'' else CHR ''0'') xs))))"

definition into_bitvec :: "u8 list bbm" where
  "into_bitvec = bindM get_len (\<lambda>len. collect_bits [0..<len])"

definition into_bytes :: "bitbuf \<Rightarrow> u8 list" where
  "into_bytes b = bb_buffer b"


declare read_full_bytes.simps [simp del] read_tail_bits.simps [simp del]
  write_full_bytes.simps [simp del] write_zeroes.simps [simp del] write_ones.simps [simp del]
  copy_bits.simps [simp del] to_bitarr.simps [simp del] xor_bytearr.simps [simp del]


section \<open>Abstraction to bits\<close>

definition bb_bit :: "u8 list \<Rightarrow> nat \<Rightarrow> bool" where
  "bb_bit buf i = bit (buf ! (i div 8)) (7 - i mod 8)"

definition bb_slice :: "u8 list \<Rightarrow> nat \<Rightarrow> nat \<Rightarrow> bool list" where
  "bb_slice buf a c = map (bb_bit buf) [a..<c]"

definition bb_wf :: "bitbuf \<Rightarrow> bool" where
  "bb_wf b \<longleftrightarrow> bb_start b \<le> bb_pos b \<and> bb_pos b \<le> bb_end b \<and> bb_end b \<le> 8 * length (bb_buffer b)"

definition window :: "bitbuf \<Rightarrow> bool list" where
  "window b = bb_slice (bb_buffer b) (bb_start b) (bb_end b)"

definition unread :: "bitbuf \<Rightarrow> bool list" where
  "unread b = bb_slice (bb_buffer b) (bb_pos b) (bb_end b)"

definition written :: "bitbuf \<Rightarrow> bool list" where
  "written b = bb_slice (bb_buffer b) (bb_start b) (bb_pos b)"

lemma length_bb_slice [simp]: "length (bb_slice buf a c) = c - a"
  by (simp add: bb_slice_def)

lemma bb_slice_empty [simp]: "c \<le> a \<Longrightarrow> bb_slice buf a c = []"
  by (simp add: bb_slice_def)

lemma nth_bb_slice [simp]: "i < c - a \<Longrightarrow> bb_slice buf a c ! i = bb_bit buf (a + i)"
  by (simp add: bb_slice_def)

lemma bb_slice_append:
  "a \<le> m \<Longrightarrow> m \<le> c \<Longrightarrow> bb_slice buf a m @ bb_slice buf m c = bb_slice buf a c"
  unfolding bb_slice_def by (rule map_upt_split [symmetric])

lemma window_split: "bb_wf b \<Longrightarrow> window b = written b @ unread b"
  by (simp add: window_def written_def unread_def bb_wf_def bb_slice_append)

lemma bb_slice_byte: "bb_slice buf (8 * k) (8 * k + 8) = msb_bits 8 (buf ! k)"
  by (rule nth_equalityI) (auto simp: nth_msb_bits bb_bit_def)

lemma bb_bit_split: "r < 8 \<Longrightarrow> bb_bit buf (8 * q + r) = bit (buf ! q) (7 - r)"
  by (simp add: bb_bit_def)

lemma split_8: obtains q r where "p = 8 * q + r" "r < (8::nat)" "p div 8 = q" "p mod 8 = r"
  by (metis mod_less_divisor mult_div_mod_eq zero_less_numeral)

lemma bb_slice_in_byte:
  assumes "p mod 8 + n \<le> 8"
  shows "bb_slice buf p (p + n) = map (\<lambda>j. bit (buf ! (p div 8)) (7 - (p mod 8 + j))) [0..<n]"
proof -
  obtain q r where p: "p = 8 * q + r" "p div 8 = q" "p mod 8 = r" by (rule split_8)
  have "bb_bit buf (p + j) = bit (buf ! q) (7 - (r + j))" if "j < n" for j
    using assms that p bb_bit_split [of "r + j" buf q] by (simp add: add.assoc)
  then show ?thesis by (intro nth_equalityI) (simp_all add: p(2,3))
qed

section \<open>The byte-wise reader implements the bit-list reader\<close>

lemma of_bits_append:
  "of_bits (xs @ ys) = (push_bit (length ys) (of_bits xs) OR of_bits ys :: 'a::len word)"
proof (rule bit_word_eqI)
  fix i assume "i < LENGTH('a)"
  then show "bit (of_bits (xs @ ys) :: 'a word) i
      = bit (push_bit (length ys) (of_bits xs) OR of_bits ys :: 'a word) i"
    by (auto simp: bit_of_bits bit_or_iff bit_push_bit_iff nth_append)
qed

lemma of_bits_msb_bits_cast:
  "of_bits (msb_bits n (w :: 'a::len word)) = (ucast (take_bit n w) :: 'b::len word)"
  by (rule bit_word_eqI) (auto simp: bit_of_bits nth_msb_bits bit_ucast_iff bit_take_bit_iff)

lemma of_bits_byte: "of_bits (msb_bits 8 (w :: u8)) = (ucast w :: u64)"
  by (simp add: of_bits_msb_bits_cast take_bit_word_eq_self)

lemma of_bits_single: "of_bits [x] = (of_bool x :: 'a::len word)"
  by (simp add: of_bits_def)

lemma and_1_bit: "(ucast (drop_bit k (w :: 'a::len word) AND 1) :: 'b::len word) = of_bool (bit w k)"
  by (rule bit_word_eqI, case_tac "n = 0") (auto simp: bit_ucast_iff bit_and_iff bit_drop_bit_eq bit_1_iff)

lemma read_tail_bits_eq:
  "i \<le> m \<Longrightarrow> read_tail_bits byte off i m (of_bits xs)
     = of_bits (xs @ map (\<lambda>j. bit byte (7 - (off + j))) [i..<m])"
proof (induction "m - i" arbitrary: i xs)
  case 0
  then show ?case by (subst read_tail_bits.simps) simp
next
  case (Suc k)
  have "push_bit 1 (of_bits xs) OR ucast (drop_bit (7 - (off + i)) byte AND 1)
      = (of_bits (xs @ [bit byte (7 - (off + i))]) :: u64)"
    by (simp add: of_bits_append of_bits_single and_1_bit )
  moreover have "i < m" using Suc.hyps(2) by simp
  ultimately have "read_tail_bits byte off i m (of_bits xs)
      = read_tail_bits byte off (i + 1) m (of_bits (xs @ [bit byte (7 - (off + i))]))"
    by (subst read_tail_bits.simps) (simp only: if_True)
  also have "\<dots> = of_bits ((xs @ [bit byte (7 - (off + i))])
      @ map (\<lambda>j. bit byte (7 - (off + j))) [i + 1..<m])"
    using Suc.hyps(2) by (intro Suc.hyps(1)) auto
  also have "(xs @ [bit byte (7 - (off + i))]) @ map (\<lambda>j. bit byte (7 - (off + j))) [i + 1..<m]
      = xs @ map (\<lambda>j. bit byte (7 - (off + j))) [i..<m]"
    using Suc.hyps(2) by (simp add: upt_conv_Cons)
  finally show ?case .
qed

lemma field_of_byte:
  assumes "c + t \<le> 8"
  shows "(ucast (drop_bit (8 - c - t) (byte :: u8) AND mask t) :: u64)
       = of_bits (map (\<lambda>j. bit byte (7 - (c + j))) [0..<t])" (is "?l = ?r")
proof (rule bit_word_eqI)
  fix i assume i: "i < LENGTH(64)"
  have "bit ?l i \<longleftrightarrow> i < t \<and> bit byte (8 - c - t + i)"
    using i assms by (auto simp: bit_ucast_iff bit_and_iff bit_drop_bit_eq bit_mask_iff)
  also have "\<dots> \<longleftrightarrow> i < t \<and> bit byte (7 - (c + (t - 1 - i)))"
  proof (cases "i < t")
    case True
    then have "8 - c - t + i = 7 - (c + (t - 1 - i))" using assms by arith
    then show ?thesis by simp
  qed simp
  also have "\<dots> \<longleftrightarrow> bit ?r i"
    using i by (auto simp: bit_of_bits)
  finally show "bit ?l i \<longleftrightarrow> bit ?r i" .
qed

lemma read_head_eq:
  assumes "p + n \<le> 8 * length (bb_buffer b)"
  obtains cur where "read_head p n b = Ok (cur, p + n - cur, of_bits (bb_slice (bb_buffer b) p cur)) b"
    and "p \<le> cur" and "cur \<le> p + n" and "cur mod 8 = 0 \<or> cur = p + n"
proof (cases "p mod 8 \<noteq> 0 \<and> n > 0")
  case False
  then have "read_head p n b = Ok (p, p + n - p, of_bits (bb_slice (bb_buffer b) p p)) b"
    by (auto simp: read_head_def Let_def)
  with False show ?thesis by (intro that [of p]) auto
next
  case True
  define t where "t = min (8 - p mod 8) n"
  have t: "0 < t" "t \<le> n" "p mod 8 + t \<le> 8" using True by (auto simp: t_def)
  have te: "min (8 - p mod 8) n = t" by (simp add: t_def)
  have idx: "p div 8 < length (bb_buffer b)" using assms True by auto
  let ?byte = "bb_buffer b ! (p div 8)"
  have "(ucast (drop_bit (8 - p mod 8 - t) ?byte AND mask t) :: u64)
      = of_bits (bb_slice (bb_buffer b) p (p + t))"
    unfolding bb_slice_in_byte [OF t(3)] by (rule field_of_byte [OF t(3)])
  with True idx t have "read_head p n b
      = Ok (p + t, p + n - (p + t), of_bits (bb_slice (bb_buffer b) p (p + t))) b"
    by (simp add: read_head_def Let_def byte_at_def te)
  moreover have "(p + t) mod 8 = 0 \<or> p + t = p + n"
  proof (cases "8 - p mod 8 \<le> n")
    case le: True
    then have "p + t = p + (8 - p mod 8)" by (simp add: t_def)
    then have "(p + t) mod 8 = 0" by presburger
    then show ?thesis ..
  qed (simp add: t_def)
  ultimately show ?thesis using t by (intro that [of "p + t"]) auto
qed

lemma read_full_bytes_eq:
  assumes "cur mod 8 = 0 \<or> rem < 8" and "p \<le> cur" and "cur + rem \<le> 8 * length (bb_buffer b)"
  shows "read_full_bytes cur rem (of_bits (bb_slice (bb_buffer b) p cur)) b
     = Ok (cur + 8 * (rem div 8), rem mod 8, of_bits (bb_slice (bb_buffer b) p (cur + 8 * (rem div 8)))) b"
  using assms
proof (induction rem arbitrary: cur rule: less_induct)
  case (less rem)
  show ?case
  proof (cases "rem \<ge> 8")
    case False
    then show ?thesis by (subst read_full_bytes.simps) simp
  next
    case True
    then obtain k where k: "cur = 8 * k" using less.prems(1) by fastforce
    have klen: "k < length (bb_buffer b)" using True less.prems(3) k by simp
    have sl: "bb_slice (bb_buffer b) p (cur + 8)
        = bb_slice (bb_buffer b) p cur @ msb_bits 8 (bb_buffer b ! k)"
      using less.prems(2) bb_slice_append [of p cur "cur + 8" "bb_buffer b"]
      by (simp add: k bb_slice_byte)
    have step: "read_full_bytes cur rem (of_bits (bb_slice (bb_buffer b) p cur)) b
        = read_full_bytes (cur + 8) (rem - 8) (of_bits (bb_slice (bb_buffer b) p (cur + 8))) b"
      using True klen k
      by (subst read_full_bytes.simps) (simp add: sl [unfolded k] of_bits_append of_bits_byte byte_at_def)
    obtain m where m: "rem = m + 8" using True le_iff_add by (metis add.commute)
    have "8 * (rem div 8) = 8 + 8 * (m div 8)" "rem mod 8 = m mod 8" by (simp_all add: m div_add_self2)
    then show ?thesis
      unfolding step using less.IH [of m "cur + 8"] less.prems(2,3) k
      by (simp add: m add.assoc)
  qed
qed

lemma read_bits_at_unchecked_eq:
  assumes "p + n \<le> 8 * length (bb_buffer b)"
  shows "read_bits_at_unchecked p n b = Ok (of_bits (bb_slice (bb_buffer b) p (p + n))) b"
proof -
  let ?buf = "bb_buffer b"
  obtain cur where h: "read_head p n b = Ok (cur, p + n - cur, of_bits (bb_slice ?buf p cur)) b"
    and cur: "p \<le> cur" "cur \<le> p + n" "cur mod 8 = 0 \<or> cur = p + n"
    using read_head_eq [OF assms] by blast
  define r where "r = p + n - cur"
  define cur' where "cur' = cur + 8 * (r div 8)"
  have f: "read_full_bytes cur r (of_bits (bb_slice ?buf p cur)) b
      = Ok (cur', r mod 8, of_bits (bb_slice ?buf p cur')) b"
    unfolding cur'_def using cur assms by (intro read_full_bytes_eq) (auto simp: r_def)
  have h': "read_head p n b = Ok (cur, r, of_bits (bb_slice ?buf p cur)) b"
    using h by (simp add: r_def)
  have e: "p + n = cur' + r mod 8" using cur by (simp add: cur'_def r_def)
  show ?thesis
  proof (cases "r mod 8 > 0")
    case False
    then have e': "p + n = cur'" using e by simp
    show ?thesis unfolding e' using False h' f by (simp add: read_bits_at_unchecked_def)
  next
    case True
    then have "r \<noteq> 0" by (metis mod_0 less_irrefl)
    then have m: "cur' mod 8 = 0" using cur(3) by (auto simp: cur'_def r_def)
    have idx: "cur' div 8 < length ?buf" using assms True e by auto
    have "bb_slice ?buf p (p + n) = bb_slice ?buf p cur' @ bb_slice ?buf cur' (cur' + r mod 8)"
      using cur by (simp add: e bb_slice_append cur'_def)
    also have "bb_slice ?buf cur' (cur' + r mod 8)
        = map (\<lambda>j. bit (?buf ! (cur' div 8)) (7 - (0 + j))) [0..<r mod 8]"
      using m bb_slice_in_byte [of cur' "r mod 8"] by simp
    finally have "read_tail_bits (?buf ! (cur' div 8)) 0 0 (r mod 8) (of_bits (bb_slice ?buf p cur'))
        = of_bits (bb_slice ?buf p (p + n))"
      by (simp only: read_tail_bits_eq [of 0])
    with True m h' f idx show ?thesis
      by (simp add: read_bits_at_unchecked_def byte_at_def)
  qed
qed

lemma read_bit_at_unchecked_eq:
  "i < 8 * length (bb_buffer b) \<Longrightarrow> read_bit_at_unchecked i b = Ok (of_bool (bb_bit (bb_buffer b) i)) b"
  using and_1_bit [where 'a = 8 and 'b = 8, of "7 - i mod 8" "bb_buffer b ! (i div 8)"]
  by (auto simp: read_bit_at_unchecked_def byte_at_def bb_bit_def bindM_def)

section \<open>Reads on a well-formed buffer\<close>

definition bb_adv :: "nat \<Rightarrow> bitbuf \<Rightarrow> bitbuf" where
  "bb_adv n b = b\<lparr>bb_pos := bb_pos b + n\<rparr>"

lemma bb_adv_simps [simp]:
  "bb_buffer (bb_adv n b) = bb_buffer b" "bb_start (bb_adv n b) = bb_start b"
  "bb_end (bb_adv n b) = bb_end b" "bb_pos (bb_adv n b) = bb_pos b + n"
  "bb_autoexpand (bb_adv n b) = bb_autoexpand b"
  by (simp_all add: bb_adv_def)

lemma bb_adv_0 [simp]: "bb_adv 0 b = b"
  by (simp add: bb_adv_def)

lemma bb_adv_bb_adv [simp]: "bb_adv m (bb_adv n b) = bb_adv (n + m) b"
  by (simp add: bb_adv_def add.assoc)

lemma length_unread [simp]: "length (unread b) = bb_end b - bb_pos b"
  by (simp add: unread_def)

lemma bb_wf_adv: "bb_wf b \<Longrightarrow> n \<le> length (unread b) \<Longrightarrow> bb_wf (bb_adv n b)"
  by (auto simp: bb_wf_def)

lemma unread_adv: "n \<le> length (unread b) \<Longrightarrow> unread (bb_adv n b) = drop n (unread b)"
  by (intro nth_equalityI) (auto simp: unread_def add.assoc)

lemma take_unread: "n \<le> length (unread b) \<Longrightarrow> take n (unread b) = bb_slice (bb_buffer b) (bb_pos b) (bb_pos b + n)"
  by (intro nth_equalityI) (auto simp: unread_def)

lemma get_pos_eq: "bb_wf b \<Longrightarrow> get_pos b = Ok (bb_pos b - bb_start b) b"
  by (simp add: get_pos_def bb_wf_def)

lemma get_len_eq: "bb_wf b \<Longrightarrow> get_len b = Ok (bb_end b - bb_start b) b"
  by (simp add: get_len_def bb_wf_def)

lemma get_len_remaining_eq: "bb_wf b \<Longrightarrow> get_len_remaining b = Ok (length (unread b)) b"
  by (simp add: get_len_remaining_def bb_wf_def)

lemma get_len_written_eq: "bb_wf b \<Longrightarrow> get_len_written b = Ok (length (written b)) b"
  by (simp add: get_len_written_def bb_wf_def written_def)

lemma peek_bits_posoffset_eq:
  assumes "bb_wf b"
  shows "peek_bits_posoffset k n b =
     Ok (if n \<le> 64 \<and> k + n \<le> length (unread b) then Some (of_bits (take n (drop k (unread b)))) else None) b"
proof (cases "n \<le> 64 \<and> k + n \<le> length (unread b)")
  case True
  with assms have "take n (drop k (unread b)) = bb_slice (bb_buffer b) (bb_pos b + k) (bb_pos b + k + n)"
    by (intro nth_equalityI) (auto simp: unread_def bb_wf_def add.assoc)
  moreover have "read_bits_at_unchecked (bb_pos b + k) n b
      = Ok (of_bits (bb_slice (bb_buffer b) (bb_pos b + k) (bb_pos b + k + n))) b"
    using assms True by (intro read_bits_at_unchecked_eq) (auto simp: bb_wf_def)
  ultimately show ?thesis using assms True
    by (auto simp: peek_bits_posoffset_def get_pos_eq peek_bits_startoffset_def Let_def bb_wf_def)
next
  case False
  with assms show ?thesis
    by (auto simp: peek_bits_posoffset_def get_pos_eq peek_bits_startoffset_def Let_def bb_wf_def)
qed

lemma peek_bits_eq:
  "bb_wf b \<Longrightarrow> peek_bits n b =
     Ok (if n \<le> 64 \<and> n \<le> length (unread b) then Some (of_bits (take n (unread b))) else None) b"
  by (simp add: peek_bits_def peek_bits_posoffset_eq)

lemma read_bits_eq:
  assumes "bb_wf b"
  shows "read_bits n b =
    (if n \<le> 64 \<and> n \<le> length (unread b) then Ok (Some (of_bits (take n (unread b)))) (bb_adv n b)
     else Ok None b)"
proof -
  have "bindM get_pos (\<lambda>p. peek_bits_startoffset p n) b = peek_bits n b"
    by (simp add: peek_bits_def peek_bits_posoffset_def)
  then have pk: "peek_bits_startoffset (bb_pos b - bb_start b) n b = peek_bits n b"
    using assms by (simp add: get_pos_eq)
  show ?thesis
    using assms
    by (cases "n \<le> 64 \<and> n \<le> length (unread b)")
      (auto simp: read_bits_def get_pos_eq pk peek_bits_eq bb_adv_def)
qed

lemma read_field_eq:
  "bb_wf b \<Longrightarrow> read_field n s b =
    (if n \<le> 64 \<and> n \<le> length (unread b) then Ok (of_bits (take n (unread b))) (bb_adv n b)
     else Err (BufferEnded (Some s)) b)"
  by (simp add: read_field_def read_bits_eq bindM_def)

section \<open>The byte-wise writer implements the bit-list writer\<close>

text \<open>\<open>bits_put buf p n v buf'\<close>: \<open>buf'\<close> is \<open>buf\<close> with the \<open>n\<close> bits from \<open>p\<close> replaced by
  the low \<open>n\<close> bits of \<open>v\<close>, most significant first, and nothing else changed.\<close>

definition bits_put :: "u8 list \<Rightarrow> nat \<Rightarrow> nat \<Rightarrow> u64 \<Rightarrow> u8 list \<Rightarrow> bool" where
  "bits_put buf p n v buf' \<longleftrightarrow> length buf' = length buf \<and>
     (\<forall>i < 8 * length buf. bb_bit buf' i = (if p \<le> i \<and> i < p + n then bit v (p + n - 1 - i) else bb_bit buf i))"

lemma bits_put_refl [simp]: "bits_put buf p 0 v buf"
  by (auto simp: bits_put_def)

lemma bits_put_trans:
  assumes "bits_put buf p m (drop_bit n v) buf1" and "bits_put buf1 (p + m) n v buf2"
  shows "bits_put buf p (m + n) v buf2"
  unfolding bits_put_def
proof (intro conjI allI impI)
  show "length buf2 = length buf" using assms by (simp add: bits_put_def)
next
  fix i assume i: "i < 8 * length buf"
  have b1: "bb_bit buf1 i = (if p \<le> i \<and> i < p + m then bit v (n + (p + m - 1 - i)) else bb_bit buf i)"
    using assms(1) i by (simp add: bits_put_def bit_drop_bit_eq)
  have b2: "bb_bit buf2 i = (if p + m \<le> i \<and> i < p + m + n then bit v (p + m + n - 1 - i) else bb_bit buf1 i)"
    using assms i by (simp add: bits_put_def)
  have e: "n + (p + m - 1 - i) = p + (m + n) - 1 - i" if "i < p + m" using that by arith
  show "bb_bit buf2 i = (if p \<le> i \<and> i < p + (m + n) then bit v (p + (m + n) - 1 - i) else bb_bit buf i)"
    unfolding b2 b1 using e by (auto simp: add.assoc)
qed

lemma set_field_bit:
  assumes "off + h \<le> 8" and "j < 8"
  shows "bit (((byte :: u8) AND NOT (push_bit (8 - (off + h)) (mask h)))
               OR push_bit (8 - (off + h)) (w AND mask h)) (7 - j)
     = (if off \<le> j \<and> j < off + h then bit w (off + h - 1 - j) else bit byte (7 - j))"
proof -
  have "bit ((byte AND NOT (push_bit (8 - (off + h)) (mask h))) OR push_bit (8 - (off + h)) (w AND mask h)) (7 - j)
     = (if 8 - (off + h) \<le> 7 - j \<and> 7 - j - (8 - (off + h)) < h
        then bit w (7 - j - (8 - (off + h))) else bit byte (7 - j))"
    using assms(2) by (auto simp: bit_or_iff bit_and_iff bit_not_iff bit_push_bit_iff bit_mask_iff)
  also have "8 - (off + h) \<le> 7 - j \<and> 7 - j - (8 - (off + h)) < h \<longleftrightarrow> off \<le> j \<and> j < off + h"
    using assms by arith
  also have "7 - j - (8 - (off + h)) = off + h - 1 - j" using assms by arith
  finally show ?thesis .
qed

lemma upd_byte_put:
  assumes "p mod 8 + h \<le> 8" and "p div 8 < length buf"
    and "\<And>j. j < 8 \<Longrightarrow> bit (f (buf ! (p div 8))) (7 - j)
       = (if p mod 8 \<le> j \<and> j < p mod 8 + h then bit v (p mod 8 + h - 1 - j) else bit (buf ! (p div 8)) (7 - j))"
  shows "bits_put buf p h v (buf[p div 8 := f (buf ! (p div 8))])"
  unfolding bits_put_def
proof (intro conjI allI impI)
  fix i assume i: "i < 8 * length buf"
  obtain q r where p: "p = 8 * q + r" "p div 8 = q" "p mod 8 = r" by (rule split_8)
  obtain q' j where ij: "i = 8 * q' + j" "j < 8" "i div 8 = q'" "i mod 8 = j" by (rule split_8)
  have q': "q' < length buf" using i ij by simp
  show "bb_bit (buf[p div 8 := f (buf ! (p div 8))]) i
      = (if p \<le> i \<and> i < p + h then bit v (p + h - 1 - i) else bb_bit buf i)"
  proof (cases "q' = q")
    case True
    have "bb_bit (buf[p div 8 := f (buf ! (p div 8))]) i = bit (f (buf ! q)) (7 - j)"
      using True q' by (simp add: bb_bit_def ij(3,4) p(2))
    also have "\<dots> = (if r \<le> j \<and> j < r + h then bit v (r + h - 1 - j) else bit (buf ! q) (7 - j))"
      using assms(3) [OF ij(2)] by (simp add: p(2,3))
    also have "\<dots> = (if p \<le> i \<and> i < p + h then bit v (p + h - 1 - i) else bb_bit buf i)"
      using True by (simp add: p(1) ij(1) bb_bit_split [OF ij(2)] add.assoc)
    finally show ?thesis .
  next
    case False
    have "\<not> (p \<le> i \<and> i < p + h)"
    proof
      assume "p \<le> i \<and> i < p + h"
      then have "8 * q + r \<le> 8 * q' + j" "8 * q' + j < 8 * q + (r + h)"
        using p(1) ij(1) by auto
      moreover have "r + h \<le> 8" using assms(1) p(3) by simp
      ultimately show False using False ij(2) by arith
    qed
    with False show ?thesis by (auto simp: bb_bit_def ij(3,4) p(2))
  qed
qed simp

lemma write_head_put:
  assumes "cur + rem \<le> 8 * length (bb_buffer b)" and "rem \<le> 64"
  obtains h buf' where "write_head v rem cur b = Ok (cur + h, rem - h) (b\<lparr>bb_buffer := buf'\<rparr>)"
    and "bits_put (bb_buffer b) cur h (drop_bit (rem - h) v) buf'" and "h \<le> rem"
    and "(cur + h) mod 8 = 0 \<or> h = rem"
proof (cases "cur mod 8 \<noteq> 0 \<and> rem > 0")
  case False
  then have "write_head v rem cur b = Ok (cur + 0, rem - 0) (b\<lparr>bb_buffer := bb_buffer b\<rparr>)"
    by (auto simp: write_head_def Let_def)
  with False show ?thesis by (intro that [of 0 "bb_buffer b"]) auto
next
  case True
  define h where "h = min rem (8 - cur mod 8)"
  have h: "h \<le> rem" "cur mod 8 + h \<le> 8" "0 < h" "h < 8" using True by (auto simp: h_def)
  let ?w = "ucast (drop_bit (rem - h) v) :: u8"
  let ?f = "\<lambda>byte. (byte AND NOT (push_bit (8 - (cur mod 8 + h)) (mask h)))
                OR push_bit (8 - (cur mod 8 + h)) (?w AND mask h)"
  let ?buf' = "(bb_buffer b)[cur div 8 := ?f (bb_buffer b ! (cur div 8))]"
  have idx: "cur div 8 < length (bb_buffer b)" using assms True by auto
  have "write_head v rem cur b = Ok (cur + h, rem - h) (b\<lparr>bb_buffer := ?buf'\<rparr>)"
    using True idx by (simp add: write_head_def Let_def upd_byte_def flip: h_def)
  moreover have "bits_put (bb_buffer b) cur h (drop_bit (rem - h) v) ?buf'"
  proof (rule upd_byte_put [OF h(2) idx])
    fix j :: nat assume j: "j < 8"
    have "bit ?w k = bit (drop_bit (rem - h) v) k" if "k < 8" for k
      using that by (simp add: bit_ucast_iff)
    then show "bit (?f (bb_buffer b ! (cur div 8))) (7 - j)
      = (if cur mod 8 \<le> j \<and> j < cur mod 8 + h then bit (drop_bit (rem - h) v) (cur mod 8 + h - 1 - j)
         else bit (bb_buffer b ! (cur div 8)) (7 - j))"
      unfolding set_field_bit [OF h(2) j] using h(2) j by simp
  qed
  moreover have "(cur + h) mod 8 = 0 \<or> h = rem"
  proof (cases "8 - cur mod 8 \<le> rem")
    case le: True
    then have "cur + h = cur + (8 - cur mod 8)" by (simp add: h_def)
    then have "(cur + h) mod 8 = 0" by presburger
    then show ?thesis ..
  qed (simp add: h_def)
  ultimately show ?thesis using h(1) by (intro that) auto
qed

lemma byte_mask: "(0xFF :: u64) = mask 8"
  by (simp add: mask_eq_exp_minus_1)

lemma write_full_bytes_put:
  assumes "cur mod 8 = 0 \<or> rem < 8" and "cur + rem \<le> 8 * length (bb_buffer b)" and "rem \<le> 64"
  obtains buf' where "write_full_bytes v rem cur b
      = Ok (cur + 8 * (rem div 8), rem mod 8) (b\<lparr>bb_buffer := buf'\<rparr>)"
    and "bits_put (bb_buffer b) cur (8 * (rem div 8)) (drop_bit (rem mod 8) v) buf'"
proof -
  have "\<exists>buf'. write_full_bytes v rem cur b
      = Ok (cur + 8 * (rem div 8), rem mod 8) (b\<lparr>bb_buffer := buf'\<rparr>)
      \<and> bits_put (bb_buffer b) cur (8 * (rem div 8)) (drop_bit (rem mod 8) v) buf'"
    using assms
  proof (induction rem arbitrary: cur b rule: less_induct)
    case (less rem)
    show ?case
    proof (cases "rem \<ge> 8")
      case False
      then show ?thesis
        by (intro exI [of _ "bb_buffer b"]) (subst write_full_bytes.simps, simp)
    next
      case True
      then obtain k where k: "cur = 8 * k" using less.prems(1) by fastforce
      have klen: "k < length (bb_buffer b)" using True less.prems(2) k by simp
      let ?w = "ucast (drop_bit (rem - 8) v AND 0xFF) :: u8"
      let ?b1 = "b\<lparr>bb_buffer := (bb_buffer b)[cur div 8 := ?w]\<rparr>"
      obtain m where m: "rem = m + 8" using True le_iff_add by (metis add.commute)
      have md: "8 * (rem div 8) = 8 + 8 * (m div 8)" "rem mod 8 = m mod 8"
        by (simp_all add: m div_add_self2)
      have step: "write_full_bytes v rem cur b = write_full_bytes v m (cur + 8) ?b1"
        using True klen k by (subst write_full_bytes.simps) (simp add: upd_byte_def m)
      have p1: "bits_put (bb_buffer b) cur 8 (drop_bit m v) (bb_buffer ?b1)"
      proof -
        have "bits_put (bb_buffer b) cur 8 (drop_bit m v)
            ((bb_buffer b)[cur div 8 := (\<lambda>_. ?w) (bb_buffer b ! (cur div 8))])"
        proof (rule upd_byte_put)
          fix j :: nat assume "j < 8"
          moreover have "7 - j < 8" by simp
          ultimately show "bit ?w (7 - j) = (if cur mod 8 \<le> j \<and> j < cur mod 8 + 8
              then bit (drop_bit m v) (cur mod 8 + 8 - 1 - j) else bit (bb_buffer b ! (cur div 8)) (7 - j))"
            unfolding byte_mask using k m
            by (simp add: bit_ucast_iff bit_and_iff bit_mask_iff del: mask_numeral)
        qed (use k klen in simp_all)
        then show ?thesis by simp
      qed
      have "\<exists>buf'. write_full_bytes v m (cur + 8) ?b1
          = Ok (cur + 8 + 8 * (m div 8), m mod 8) (?b1\<lparr>bb_buffer := buf'\<rparr>)
          \<and> bits_put (bb_buffer ?b1) (cur + 8) (8 * (m div 8)) (drop_bit (m mod 8) v) buf'"
        by (rule less.IH) (use less.prems k m in simp_all)
      then obtain buf' where r: "write_full_bytes v m (cur + 8) ?b1
          = Ok (cur + 8 + 8 * (m div 8), m mod 8) (b\<lparr>bb_buffer := buf'\<rparr>)"
        and p2: "bits_put (bb_buffer ?b1) (cur + 8) (8 * (m div 8)) (drop_bit (m mod 8) v) buf'"
        by auto
      have "drop_bit (8 * (m div 8)) (drop_bit (m mod 8) v) = drop_bit m v"
        by (simp add: drop_bit_drop_bit)
      with p1 have "bits_put (bb_buffer b) cur 8 (drop_bit (8 * (m div 8)) (drop_bit (m mod 8) v)) (bb_buffer ?b1)"
        by (simp only:)
      from bits_put_trans [OF this p2] step r show ?thesis
        unfolding md by (intro exI [of _ buf']) (simp add: add.assoc)
    qed
  qed
  then show ?thesis using that by blast
qed

lemma write_tail_put:
  assumes "cur mod 8 = 0 \<or> rem = 0" and "cur + rem \<le> 8 * length (bb_buffer b)" and "rem < 8"
  obtains buf' where "write_tail v rem cur b = Ok () (b\<lparr>bb_buffer := buf'\<rparr>)"
    and "bits_put (bb_buffer b) cur rem v buf'"
proof (cases "rem > 0")
  case False
  then show ?thesis by (intro that [of "bb_buffer b"]) (simp_all add: write_tail_def)
next
  case True
  then have m: "cur mod 8 = 0" using assms(1) by simp
  let ?f = "\<lambda>byte :: u8. (byte AND NOT (push_bit (8 - (cur mod 8 + rem)) (mask rem)))
                OR push_bit (8 - (cur mod 8 + rem)) (ucast v AND mask rem)"
  have idx: "cur div 8 < length (bb_buffer b)" using assms True by auto
  have fit: "cur mod 8 + rem \<le> 8" using m assms(3) by simp
  have "bits_put (bb_buffer b) cur rem v ((bb_buffer b)[cur div 8 := ?f (bb_buffer b ! (cur div 8))])"
  proof (rule upd_byte_put [OF fit idx])
    fix j :: nat assume j: "j < 8"
    have "bit (ucast v :: u8) k = bit v k" if "k < 8" for k
      using that by (simp add: bit_ucast_iff)
    then show "bit (?f (bb_buffer b ! (cur div 8))) (7 - j) = (if cur mod 8 \<le> j \<and> j < cur mod 8 + rem
        then bit v (cur mod 8 + rem - 1 - j) else bit (bb_buffer b ! (cur div 8)) (7 - j))"
      unfolding set_field_bit [OF fit j] using fit j by simp
  qed
  then show ?thesis using True idx
    by (intro that) (auto simp: write_tail_def Let_def upd_byte_def)
qed

lemma write_bits_no_expand:
  assumes "bb_wf b" and "bb_pos b + n \<le> bb_end b" and "n \<le> 64" and "unat v < 2 ^ n"
  obtains buf' where "write_bits v n b = Ok () (b\<lparr>bb_buffer := buf', bb_pos := bb_pos b + n\<rparr>)"
    and "bits_put (bb_buffer b) (bb_pos b) n v buf'"
proof -
  let ?p = "bb_pos b"
  have cap: "?p + n \<le> 8 * length (bb_buffer b)" using assms by (simp add: bb_wf_def)
  have dz: "drop_bit n v = 0" using assms(4) by (simp add: drop_bit_0_iff)
  have vm: "(if n = 64 then v else v AND mask n) = v"
    using dz by (simp add: take_bit_small flip: take_bit_eq_mask)
  obtain h buf1 where h: "write_head v n ?p b = Ok (?p + h, n - h) (b\<lparr>bb_buffer := buf1\<rparr>)"
    and p1: "bits_put (bb_buffer b) ?p h (drop_bit (n - h) v) buf1" and hn: "h \<le> n"
    and al: "(?p + h) mod 8 = 0 \<or> h = n"
    using write_head_put [OF cap assms(3)] by blast
  define r where "r = n - h"
  define b1 where "b1 = b\<lparr>bb_buffer := buf1\<rparr>"
  have l1: "length buf1 = length (bb_buffer b)" using p1 by (simp add: bits_put_def)
  have cap1: "?p + h + r \<le> 8 * length (bb_buffer b1)"
    using cap hn by (simp add: r_def b1_def l1)
  obtain buf2 where f: "write_full_bytes v r (?p + h) b1
      = Ok (?p + h + 8 * (r div 8), r mod 8) (b1\<lparr>bb_buffer := buf2\<rparr>)"
    and p2: "bits_put buf1 (?p + h) (8 * (r div 8)) (drop_bit (r mod 8) v) buf2"
    by (rule write_full_bytes_put [of "?p + h" r b1 v]) (use al cap1 assms(3) in \<open>auto simp: r_def b1_def\<close>)
  define b2 where "b2 = b1\<lparr>bb_buffer := buf2\<rparr>"
  have l2: "length buf2 = length buf1" using p2 by (simp add: bits_put_def)
  have al2: "(?p + h + 8 * (r div 8)) mod 8 = 0 \<or> r mod 8 = 0"
    using al by (auto simp: r_def)
  obtain buf3 where t: "write_tail v (r mod 8) (?p + h + 8 * (r div 8)) b2 = Ok () (b2\<lparr>bb_buffer := buf3\<rparr>)"
    and p3: "bits_put buf2 (?p + h + 8 * (r div 8)) (r mod 8) v buf3"
    by (rule write_tail_put [OF al2, of b2 v]) (use cap1 l1 l2 in \<open>auto simp: b1_def b2_def\<close>)
  have n: "n = h + r" using hn by (simp add: r_def)
  have "bits_put buf1 (?p + h) (8 * (r div 8) + r mod 8) v buf3"
    by (rule bits_put_trans [OF p2 p3])
  then have "bits_put buf1 (?p + h) r v buf3" by simp
  then have put: "bits_put (bb_buffer b) ?p n v buf3"
    using bits_put_trans [of "bb_buffer b" ?p h r v buf1 buf3] p1 by (simp add: n)
  have "write_bits v n b = Ok () (b\<lparr>bb_buffer := buf3, bb_pos := ?p + n\<rparr>)"
    using assms(2,3) dz h f t
    by (simp add: write_bits_def ensure_room_def vm b1_def b2_def flip: r_def)
  with put show ?thesis by (rule that [rotated])
qed

section \<open>The effect of a write on the window\<close>

text \<open>\<open>wrote b bs b'\<close>: from \<open>b\<close> to \<open>b'\<close> the bits \<open>bs\<close> were written at the cursor.  Bits before the
  cursor and bits of the window after the written ones are unchanged.\<close>

definition wrote :: "bitbuf \<Rightarrow> bool list \<Rightarrow> bitbuf \<Rightarrow> bool" where
  "wrote b bs b' \<longleftrightarrow>
     bb_wf b' \<and> bb_start b' = bb_start b \<and> bb_autoexpand b' = bb_autoexpand b \<and>
     bb_pos b' = bb_pos b + length bs \<and> bb_end b' = max (bb_end b) (bb_pos b + length bs) \<and>
     bb_slice (bb_buffer b') (bb_pos b) (bb_pos b + length bs) = bs \<and>
     (\<forall>i < bb_pos b. bb_bit (bb_buffer b') i = bb_bit (bb_buffer b) i) \<and>
     (\<forall>i. bb_pos b + length bs \<le> i \<longrightarrow> i < bb_end b \<longrightarrow>
        bb_bit (bb_buffer b') i = bb_bit (bb_buffer b) i)"

definition can_write :: "nat \<Rightarrow> bitbuf \<Rightarrow> bool" where
  "can_write n b \<longleftrightarrow> bb_wf b \<and> (bb_pos b + n \<le> bb_end b \<or> bb_autoexpand b \<and> bb_pos b = bb_end b)"

lemma wrote_refl [simp]: "bb_wf b \<Longrightarrow> wrote b [] b"
  by (auto simp: wrote_def bb_wf_def)

lemma wrote_trans:
  assumes "wrote b xs b1" and "wrote b1 ys b2"
  shows "wrote b (xs @ ys) b2"
proof -
  have p1: "bb_pos b1 = bb_pos b + length xs" using assms(1) by (simp add: wrote_def)
  have "bb_slice (bb_buffer b2) (bb_pos b) (bb_pos b1) = bb_slice (bb_buffer b1) (bb_pos b) (bb_pos b1)"
    using assms(2) p1 by (intro nth_equalityI) (auto simp: wrote_def)
  then have "bb_slice (bb_buffer b2) (bb_pos b) (bb_pos b1) = xs"
    using assms(1) p1 by (simp add: wrote_def)
  moreover have "bb_slice (bb_buffer b2) (bb_pos b1) (bb_pos b1 + length ys) = ys"
    using assms(2) by (simp add: wrote_def)
  ultimately have "bb_slice (bb_buffer b2) (bb_pos b) (bb_pos b1 + length ys) = xs @ ys"
    using p1 bb_slice_append [of "bb_pos b" "bb_pos b1" "bb_pos b1 + length ys" "bb_buffer b2"] by simp
  then show ?thesis using assms p1 by (auto simp: wrote_def add.assoc)
qed

lemma can_write_mono: "can_write n b \<Longrightarrow> m \<le> n \<Longrightarrow> can_write m b"
  by (auto simp: can_write_def)

lemma can_write_after:
  "can_write (m + n) b \<Longrightarrow> wrote b bs b' \<Longrightarrow> length bs = m \<Longrightarrow> can_write n b'"
  by (auto simp: can_write_def wrote_def)

lemma bits_put_slice:
  assumes "bits_put buf p n v buf'" and "p + n \<le> 8 * length buf"
  shows "bb_slice buf' p (p + n) = msb_bits n v"
  using assms by (intro nth_equalityI) (auto simp: bits_put_def nth_msb_bits)

text \<open>The growth step of an auto-expanding buffer keeps every bit and makes room.\<close>

lemma move_end_eq:
  assumes "bb_wf b"
  obtains buf' where "move_end n b = Ok () (b\<lparr>bb_buffer := buf', bb_end := bb_end b + n\<rparr>)"
    and "bb_end b + n \<le> 8 * length buf'" and "length (bb_buffer b) \<le> length buf'"
    and "\<forall>i < 8 * length (bb_buffer b). bb_bit buf' i = bb_bit (bb_buffer b) i"
proof (cases "n > length (bb_buffer b) * 8 - bb_end b")
  case False
  with assms show ?thesis
    by (intro that [of "bb_buffer b"]) (auto simp: move_end_def bb_wf_def)
next
  case True
  define cap where "cap = (max (bb_end b + n) (16 * length (bb_buffer b)) + 7) div 8"
  let ?buf' = "bb_buffer b @ replicate (cap - length (bb_buffer b)) 0"
  have c: "length (bb_buffer b) \<le> cap" "bb_end b + n \<le> 8 * cap" by (auto simp: cap_def)
  have "bb_end b \<le> length (bb_buffer b) * 8" using assms by (simp add: bb_wf_def)
  with True c have "move_end n b = Ok () (b\<lparr>bb_buffer := ?buf', bb_end := bb_end b + n\<rparr>)"
    by (simp add: move_end_def realloc_tail_def Let_def bindM_def flip: cap_def)
  moreover have "\<forall>i < 8 * length (bb_buffer b). bb_bit ?buf' i = bb_bit (bb_buffer b) i"
    by (auto simp: bb_bit_def nth_append)
  ultimately show ?thesis using c by (intro that [of ?buf']) auto
qed

lemma ensure_room_eq:
  assumes "can_write n b"
  obtains buf' where "ensure_room n b = Ok () (b\<lparr>bb_buffer := buf', bb_end := max (bb_end b) (bb_pos b + n)\<rparr>)"
    and "max (bb_end b) (bb_pos b + n) \<le> 8 * length buf'"
    and "\<forall>i < 8 * length (bb_buffer b). bb_bit buf' i = bb_bit (bb_buffer b) i"
proof (cases "bb_pos b + n > bb_end b")
  case False
  with assms show ?thesis
    by (intro that [of "bb_buffer b"]) (auto simp: ensure_room_def can_write_def bb_wf_def max_def)
next
  case True
  with assms have e: "bb_wf b" "bb_autoexpand b" "bb_pos b = bb_end b" by (auto simp: can_write_def)
  obtain buf' where "move_end n b = Ok () (b\<lparr>bb_buffer := buf', bb_end := bb_end b + n\<rparr>)"
    and "bb_end b + n \<le> 8 * length buf'"
    and "\<forall>i < 8 * length (bb_buffer b). bb_bit buf' i = bb_bit (bb_buffer b) i"
    using move_end_eq [OF e(1)] by blast
  with True e show ?thesis by (intro that [of buf']) (auto simp: ensure_room_def max_def)
qed

lemma ensure_room_idem: "bb_pos b + n \<le> bb_end b \<Longrightarrow> ensure_room n b = Ok () b"
  by (simp add: ensure_room_def)

lemma write_bits_room:
  assumes "ensure_room n b = Ok () b1" and "bb_pos b1 + n \<le> bb_end b1"
  shows "write_bits v n b = write_bits v n b1"
  using assms ensure_room_idem [OF assms(2)]
  by (simp add: write_bits_def bindM_def assertM_app)

lemma write_bits_wrote:
  assumes "can_write n b" and "n \<le> 64" and "unat v < 2 ^ n"
  obtains b' where "write_bits v n b = Ok () b'" and "wrote b (msb_bits n v) b'"
proof -
  obtain buf1 where er: "ensure_room n b = Ok () (b\<lparr>bb_buffer := buf1, bb_end := max (bb_end b) (bb_pos b + n)\<rparr>)"
    and cap: "max (bb_end b) (bb_pos b + n) \<le> 8 * length buf1"
    and same: "\<forall>i < 8 * length (bb_buffer b). bb_bit buf1 i = bb_bit (bb_buffer b) i"
    using ensure_room_eq [OF assms(1)] by blast
  define b1 where "b1 = b\<lparr>bb_buffer := buf1, bb_end := max (bb_end b) (bb_pos b + n)\<rparr>"
  have wf: "bb_wf b" using assms(1) by (simp add: can_write_def)
  have wf1: "bb_wf b1" using wf cap by (auto simp: b1_def bb_wf_def)
  have room: "bb_pos b1 + n \<le> bb_end b1" by (simp add: b1_def)
  obtain buf' where w: "write_bits v n b1 = Ok () (b1\<lparr>bb_buffer := buf', bb_pos := bb_pos b1 + n\<rparr>)"
    and put: "bits_put buf1 (bb_pos b) n v buf'"
    using write_bits_no_expand [OF wf1 room assms(2,3)] by (auto simp: b1_def)
  have "write_bits v n b = Ok () (b1\<lparr>bb_buffer := buf', bb_pos := bb_pos b1 + n\<rparr>)"
    using write_bits_room [of n b b1 v] er room w by (simp add: b1_def)
  moreover have "wrote b (msb_bits n v) (b1\<lparr>bb_buffer := buf', bb_pos := bb_pos b1 + n\<rparr>)"
  proof -
    have len: "length buf' = length buf1" using put by (simp add: bits_put_def)
    have sl: "bb_slice buf' (bb_pos b) (bb_pos b + n) = msb_bits n v"
      using bits_put_slice [OF put] cap by simp
    have frame: "bb_bit buf' i = bb_bit (bb_buffer b) i"
      if "i < bb_pos b \<or> bb_pos b + n \<le> i" "i < bb_end b" for i
      using that put same wf cap by (auto simp: bits_put_def bb_wf_def)
    show ?thesis using sl frame wf wf1 len
      by (auto simp: wrote_def b1_def bb_wf_def)
  qed
  ultimately show ?thesis by (rule that)
qed


section \<open>The derived writers\<close>

lemma wrote_of_put:
  assumes "bb_wf b" and "bb_pos b + n \<le> bb_end b" and "bits_put (bb_buffer b) (bb_pos b) n v buf'"
  shows "wrote b (msb_bits n v) (b\<lparr>bb_buffer := buf', bb_pos := bb_pos b + n\<rparr>)"
proof -
  have cap: "bb_pos b + n \<le> 8 * length (bb_buffer b)" using assms by (simp add: bb_wf_def)
  have "bb_slice buf' (bb_pos b) (bb_pos b + n) = msb_bits n v"
    using bits_put_slice [OF assms(3) cap] .
  then show ?thesis using assms by (auto simp: wrote_def bits_put_def bb_wf_def)
qed

lemma wrote_grow:
  assumes "bb_wf b" and "max (bb_end b) (bb_pos b + n) \<le> 8 * length buf1"
    and "\<forall>i < 8 * length (bb_buffer b). bb_bit buf1 i = bb_bit (bb_buffer b) i"
    and "wrote (b\<lparr>bb_buffer := buf1, bb_end := max (bb_end b) (bb_pos b + n)\<rparr>) bs b'" and "length bs = n"
  shows "wrote b bs b'"
  using assms by (auto simp: wrote_def bb_wf_def)

lemma write_bit_wrote:
  assumes "can_write 1 b" and "v = 0 \<or> v = 1"
  obtains b' where "write_bit v b = Ok () b'" and "wrote b [v = 1] b'"
proof -
  obtain buf1 where er: "ensure_room 1 b = Ok () (b\<lparr>bb_buffer := buf1, bb_end := max (bb_end b) (bb_pos b + 1)\<rparr>)"
    and cap: "max (bb_end b) (bb_pos b + 1) \<le> 8 * length buf1"
    and same: "\<forall>i < 8 * length (bb_buffer b). bb_bit buf1 i = bb_bit (bb_buffer b) i"
    using ensure_room_eq [OF assms(1)] by blast
  define b1 where "b1 = b\<lparr>bb_buffer := buf1, bb_end := max (bb_end b) (bb_pos b + 1)\<rparr>"
  let ?p = "bb_pos b"
  let ?f = "\<lambda>byte. (byte AND NOT (push_bit (7 - ?p mod 8) 1)) OR push_bit (7 - ?p mod 8) v"
  let ?buf' = "buf1[?p div 8 := ?f (buf1 ! (?p div 8))]"
  have wf: "bb_wf b" using assms(1) by (simp add: can_write_def)
  have wf1: "bb_wf b1" using wf cap by (auto simp: b1_def bb_wf_def)
  have idx: "?p div 8 < length buf1" using cap by auto
  have fit: "?p mod 8 + 1 \<le> 8" by simp
  have vm: "v = v AND mask 1" using assms(2) by auto
  have "bits_put buf1 ?p 1 (ucast v) ?buf'"
  proof (rule upd_byte_put [OF fit idx])
    fix j :: nat assume j: "j < 8"
    have e: "8 - (?p mod 8 + 1) = 7 - ?p mod 8" by simp
    have m1: "mask 1 = (1 :: u8)" by simp
    have "bit (?f (buf1 ! (?p div 8))) (7 - j)
        = (if ?p mod 8 \<le> j \<and> j < ?p mod 8 + 1 then bit v (?p mod 8 + 1 - 1 - j) else bit (buf1 ! (?p div 8)) (7 - j))"
      using set_field_bit [OF fit j, of "buf1 ! (?p div 8)" v] unfolding e m1 vm [unfolded m1, symmetric] .
    then show "bit (?f (buf1 ! (?p div 8))) (7 - j)
        = (if ?p mod 8 \<le> j \<and> j < ?p mod 8 + 1 then bit (ucast v :: u64) (?p mod 8 + 1 - 1 - j)
           else bit (buf1 ! (?p div 8)) (7 - j))"
      by (simp add: bit_ucast_iff)
  qed
  then have "wrote b1 (msb_bits 1 (ucast v :: u64)) (b1\<lparr>bb_buffer := ?buf', bb_pos := ?p + 1\<rparr>)"
    using wrote_of_put [OF wf1, of 1 "ucast v" ?buf'] by (simp add: b1_def)
  moreover have "msb_bits 1 (ucast v :: u64) = [v = 1]"
    using assms(2) by (auto simp: msb_bits_def)
  ultimately have "wrote b [v = 1] (b1\<lparr>bb_buffer := ?buf', bb_pos := ?p + 1\<rparr>)"
    using wrote_grow [OF wf cap same] by (simp add: b1_def)
  moreover have "write_bit v b = Ok () (b1\<lparr>bb_buffer := ?buf', bb_pos := ?p + 1\<rparr>)"
    using assms(2) er idx by (simp add: write_bit_def upd_byte_def b1_def)
  ultimately show ?thesis by (rule that [rotated])
qed

lemma write_zeroes_wrote:
  assumes "can_write n b"
  shows "\<exists>b'. write_zeroes n b = Ok () b' \<and> wrote b (replicate n False) b'"
  using assms
proof (induction n arbitrary: b rule: less_induct)
  case (less n)
  show ?case
  proof (cases "n > 0")
    case False
    with less.prems show ?thesis by (subst write_zeroes.simps) (simp add: can_write_def)
  next
    case True
    let ?k = "min n 64"
    have "can_write ?k b" using less.prems by (rule can_write_mono) simp
    then obtain b1 where w: "write_bits 0 ?k b = Ok () b1" and t: "wrote b (msb_bits ?k (0 :: u64)) b1"
      using write_bits_wrote [of ?k b 0] by auto
    have "can_write (n - ?k) b1"
      by (rule can_write_after [OF _ t, of ?k]) (use less.prems in simp_all)
    then obtain b2 where r: "write_zeroes (n - ?k) b1 = Ok () b2" "wrote b1 (replicate (n - ?k) False) b2"
      using less.IH [of "n - ?k" b1] True by auto
    have "msb_bits ?k (0 :: u64) @ replicate (n - ?k) False = replicate n False"
      by (intro nth_equalityI) (auto simp: nth_append nth_msb_bits)
    with wrote_trans [OF t r(2)] have "wrote b (replicate n False) b2" by simp
    with True w r(1) show ?thesis by (subst write_zeroes.simps) (simp add: Let_def)
  qed
qed

lemma write_ones_wrote:
  assumes "can_write n b"
  shows "\<exists>b'. write_ones n b = Ok () b' \<and> wrote b (replicate n True) b'"
  using assms
proof (induction n arbitrary: b rule: less_induct)
  case (less n)
  show ?case
  proof (cases "n > 0")
    case False
    with less.prems show ?thesis by (subst write_ones.simps) (simp add: can_write_def)
  next
    case True
    let ?k = "min n 64"
    have ones: "(0xFFFFFFFFFFFFFFFF :: u64) = mask 64" by (simp add: mask_eq_exp_minus_1)
    let ?v = "drop_bit (64 - ?k) (0xFFFFFFFFFFFFFFFF :: u64)"
    have v: "?v = mask ?k"
      unfolding ones by (rule bit_word_eqI) (auto simp: bit_drop_bit_eq bit_mask_iff)
    have "can_write ?k b" using less.prems by (rule can_write_mono) simp
    moreover have "unat ?v < 2 ^ ?k"
    proof -
      have "drop_bit ?k ?v = 0"
        unfolding v by (rule bit_word_eqI) (auto simp: bit_drop_bit_eq bit_mask_iff)
      then show ?thesis by (simp only: drop_bit_0_iff)
    qed
    ultimately obtain b1 where w: "write_bits ?v ?k b = Ok () b1" and t: "wrote b (msb_bits ?k ?v) b1"
      using write_bits_wrote [of ?k b ?v] by auto
    have "can_write (n - ?k) b1"
      by (rule can_write_after [OF _ t, of ?k]) (use less.prems in simp_all)
    then obtain b2 where r: "write_ones (n - ?k) b1 = Ok () b2" "wrote b1 (replicate (n - ?k) True) b2"
      using less.IH [of "n - ?k" b1] True by auto
    have "msb_bits ?k ?v @ replicate (n - ?k) True = replicate n True"
      unfolding v by (intro nth_equalityI) (auto simp: nth_append nth_msb_bits bit_mask_iff)
    with wrote_trans [OF t r(2)] have "wrote b (replicate n True) b2" by simp
    with True w r(1) show ?thesis by (subst write_ones.simps) (simp add: Let_def)
  qed
qed

lemma copy_bits_wrote:
  assumes "bb_wf src" and "n \<le> length (unread src)" and "can_write n b"
  shows "\<exists>b'. copy_bits src n b = Ok (bb_adv n src) b' \<and> wrote b (take n (unread src)) b'"
  using assms
proof (induction n arbitrary: src b rule: less_induct)
  case (less n)
  show ?case
  proof (cases "n > 0")
    case False
    with less.prems show ?thesis by (subst copy_bits.simps) (simp add: can_write_def)
  next
    case True
    let ?k = "min n 64"
    let ?v = "of_bits (take ?k (unread src)) :: u64"
    have k: "?k \<le> length (unread src)" using less.prems by simp
    have len: "length (take ?k (unread src)) = ?k" using k by simp
    have bits: "msb_bits ?k ?v = take ?k (unread src)"
      using msb_bits_of_bits [where 'a = 64, of "take ?k (unread src)", unfolded len] by simp
    have "can_write ?k b" using less.prems(3) by (rule can_write_mono) simp
    moreover have "unat ?v < 2 ^ ?k"
      using of_bits_less [where 'a = 64, of "take ?k (unread src)", unfolded len] .
    ultimately obtain b1 where w: "write_bits ?v ?k b = Ok () b1" and t: "wrote b (take ?k (unread src)) b1"
      using write_bits_wrote [of ?k b ?v] unfolding bits by auto
    have "can_write (n - ?k) b1"
      by (rule can_write_after [OF _ t, of ?k]) (use less.prems k in simp_all)
    moreover have "bb_wf (bb_adv ?k src)" using less.prems(1) k by (rule bb_wf_adv)
    moreover have "n - ?k \<le> length (unread (bb_adv ?k src))" using less.prems(2) by simp
    ultimately obtain b2 where c: "copy_bits (bb_adv ?k src) (n - ?k) b1 = Ok (bb_adv n src) b2"
        "wrote b1 (take (n - ?k) (unread (bb_adv ?k src))) b2"
      using less.IH [of "n - ?k" "bb_adv ?k src" b1] True by auto
    moreover have "take ?k (unread src) @ take (n - ?k) (unread (bb_adv ?k src)) = take n (unread src)"
      unfolding unread_adv [OF k] by (metis take_add le_add_diff_inverse min.cobounded1)
    ultimately have "wrote b (take n (unread src)) b2" using wrote_trans [OF t] by metis
    moreover have "copy_bits src n b = copy_bits (bb_adv ?k src) (n - ?k) b1"
      using True less.prems(1) k w
      by (subst copy_bits.simps) (simp add: get_len_remaining_eq read_bits_eq Let_def)
    ultimately show ?thesis using c(1) by auto
  qed
qed

lemma copy_bits_from_bitarr_wrote:
  assumes "can_write (length xs) b" and "set xs \<subseteq> {0, 1}"
  shows "\<exists>b'. copy_bits_from_bitarr xs b = Ok () b' \<and> wrote b (map (\<lambda>x. x = 1) xs) b'"
  using assms
proof (induction xs arbitrary: b)
  case Nil
  then show ?case by (simp add: copy_bits_from_bitarr_def can_write_def)
next
  case (Cons x xs)
  have "can_write 1 b" using Cons.prems(1) by (rule can_write_mono) simp
  moreover have x: "x = 0 \<or> x = 1" using Cons.prems(2) by simp
  ultimately obtain b1 where w: "write_bit x b = Ok () b1" and t: "wrote b [x = 1] b1"
    using write_bit_wrote by blast
  have "can_write (length xs) b1"
    by (rule can_write_after [OF _ t, of 1]) (use Cons.prems(1) in simp_all)
  then obtain b2 where "copy_bits_from_bitarr xs b1 = Ok () b2" "wrote b1 (map (\<lambda>x. x = 1) xs) b2"
    using Cons by auto
  moreover have "copy_bits_from_bitarr (x # xs) b = copy_bits_from_bitarr xs b1"
    using w x by (simp add: copy_bits_from_bitarr_def bindM_assoc)
  ultimately show ?case using wrote_trans [OF t] by auto
qed


section \<open>Conversions\<close>

lemma to_bitarr_eq:
  assumes "bb_wf b" and "n \<le> length (unread b)"
  shows "to_bitarr n b = Ok (map of_bool (take n (unread b))) (bb_adv n b)"
  using assms
proof (induction n arbitrary: b rule: less_induct)
  case (less n)
  show ?case
  proof (cases "n > 0")
    case False
    then show ?thesis by (subst to_bitarr.simps) simp
  next
    case True
    let ?k = "min n 64"
    let ?v = "of_bits (take ?k (unread b)) :: u64"
    have k: "?k \<le> length (unread b)" using less.prems by simp
    have "map (\<lambda>i. ucast (drop_bit (?k - 1 - i) ?v AND 1)) [0..<?k] = (map of_bool (take ?k (unread b)) :: u8 list)"
      using k by (intro nth_equalityI) (auto simp: and_1_bit bit_of_bits min_def)
    moreover have "to_bitarr (n - ?k) (bb_adv ?k b)
        = Ok (map of_bool (take (n - ?k) (unread (bb_adv ?k b)))) (bb_adv (n - ?k) (bb_adv ?k b))"
      using True less.prems k by (intro less.IH) (auto intro: bb_wf_adv)
    moreover have "take ?k (unread b) @ take (n - ?k) (unread (bb_adv ?k b)) = take n (unread b)"
      unfolding unread_adv [OF k] by (metis take_add le_add_diff_inverse min.cobounded1)
    then have "map of_bool (take ?k (unread b)) @ map of_bool (take (n - ?k) (unread (bb_adv ?k b)))
        = (map of_bool (take n (unread b)) :: u8 list)"
      by (metis map_append)
    ultimately show ?thesis using True less.prems(1) k
      by (subst to_bitarr.simps) (simp add: read_bits_eq Let_def)
  qed
qed

lemma collect_bits_eq:
  "\<forall>i \<in> set is. i < 8 * length (bb_buffer b) \<Longrightarrow>
     collect_bits is b = Ok (map (\<lambda>i. of_bool (bb_bit (bb_buffer b) i)) is) b"
  by (induction "is") (simp_all add: read_bit_at_unchecked_eq)

lemma to_bitstr_eq:
  assumes "bb_wf b"
  shows "to_bitstr b = Ok (map (\<lambda>x. if x then CHR ''1'' else CHR ''0'') (window b)) b"
proof -
  have "bb_start b + (bb_end b - bb_start b) = bb_end b" using assms by (simp add: bb_wf_def)
  moreover have "collect_bits [bb_start b..<bb_end b] b
      = Ok (map (\<lambda>i. of_bool (bb_bit (bb_buffer b) i)) [bb_start b..<bb_end b]) b"
    using assms by (intro collect_bits_eq) (auto simp: bb_wf_def)
  ultimately show ?thesis
    by (simp add: to_bitstr_def get_len_eq [OF assms] window_def bb_slice_def)
qed

lemma into_bitvec_eq:
  assumes "bb_wf b"
  shows "into_bitvec b = Ok (map of_bool (bb_slice (bb_buffer b) 0 (bb_end b - bb_start b))) b"
proof -
  have "collect_bits [0..<bb_end b - bb_start b] b
      = Ok (map (\<lambda>i. of_bool (bb_bit (bb_buffer b) i)) [0..<bb_end b - bb_start b]) b"
    using assms by (intro collect_bits_eq) (auto simp: bb_wf_def)
  then show ?thesis by (simp add: into_bitvec_def get_len_eq [OF assms] bb_slice_def)
qed

lemma bb_wf_new [simp]: "bb_wf (bb_new n)" "bb_wf (bb_new_autoexpand n)" "bb_wf (bb_from_vec xs)"
  by (auto simp: bb_wf_def bb_new_def bb_new_autoexpand_def bb_from_vec_def)

lemma can_write_new: "n \<le> m \<Longrightarrow> can_write n (bb_new m)" "can_write n (bb_new_autoexpand k)"
  by (auto simp: can_write_def) (auto simp: bb_new_def bb_new_autoexpand_def)

lemma wrote_unread_from:
  assumes "wrote b bs b'" and "bb_pos b = bb_start b" and "bb_end b' = bb_pos b + length bs"
  shows "unread (b'\<lparr>bb_pos := bb_start b'\<rparr>) = bs"
  using assms by (auto simp: wrote_def unread_def)

lemma bb_from_bitarr_eq:
  assumes "set xs \<subseteq> {0, 1}"
  obtains b where "bb_from_bitarr xs = Some b" and "bb_wf b" and "bb_start b = 0" and "bb_pos b = 0"
    and "bb_end b = length xs" and "unread b = map (\<lambda>x. x = 1) xs" and "\<not> bb_autoexpand b"
proof -
  obtain b' where c: "copy_bits_from_bitarr xs (bb_new (length xs)) = Ok () b'"
    and w: "wrote (bb_new (length xs)) (map (\<lambda>x. x = 1) xs) b'"
    using copy_bits_from_bitarr_wrote [OF can_write_new(1) assms] by auto
  let ?b = "b'\<lparr>bb_pos := bb_start b'\<rparr>"
  have "unread ?b = map (\<lambda>x. x = 1) xs"
    by (rule wrote_unread_from [OF w]) (use w in \<open>auto simp: wrote_def bb_new_def\<close>)
  moreover have "bb_from_bitarr xs = Some ?b" by (simp add: bb_from_bitarr_def run_new_def c)
  ultimately show ?thesis using w
    by (intro that [of ?b]) (auto simp: wrote_def bb_new_def bb_wf_def)
qed

lemma bb_slice_from_eq:
  assumes "bb_wf b" and "a \<le> bb_end b"
  obtains b' where "bb_slice_from a (bb_end b - a) b = Some b'" and "bb_wf b'"
    and "window b' = bb_slice (bb_buffer b) a (bb_end b)" and "bb_pos b' = bb_start b'"
    and "\<not> bb_autoexpand b'"
proof -
  let ?s = "a div 8" and ?e = "(bb_end b + 7) div 8"
  let ?buf = "take (?e - ?s) (drop ?s (bb_buffer b))"
  obtain q r where a: "a = 8 * q + r" "r < 8" "a div 8 = q" "a mod 8 = r" by (rule split_8)
  have "bb_end b + 7 < Suc (length (bb_buffer b)) * 8" using assms(1) unfolding bb_wf_def by simp
  then have e: "?e \<le> length (bb_buffer b)" using less_mult_imp_div_less less_Suc_eq_le by blast
  have "?s \<le> ?e" using assms(2) by (intro div_le_mono) simp
  moreover define b' where "b' = (bb_new ((?e - ?s) * 8))\<lparr>bb_buffer := ?buf, bb_start := a mod 8,
      bb_pos := a mod 8, bb_end := a mod 8 + (bb_end b - a)\<rparr>"
  ultimately have "bb_slice_from a (bb_end b - a) b = Some b'"
    using e by (simp add: bb_slice_from_def Let_def)
  moreover have len: "a mod 8 + (bb_end b - a) \<le> 8 * length ?buf"
    using e assms(2) a by simp
  then have "bb_wf b'" by (simp add: b'_def bb_wf_def)
  moreover have "window b' = bb_slice (bb_buffer b) a (bb_end b)"
  proof (rule nth_equalityI)
    fix i assume "i < length (window b')"
    then have i: "i < bb_end b - a" by (simp add: window_def b'_def)
    obtain q' r' where ri: "r + i = 8 * q' + r'" "r' < 8" by (rule split_8)
    have "8 * q' + r' < 8 * length ?buf" using len i ri a(4) by linarith
    then have q': "q' < length ?buf" by linarith
    have "q \<le> length (bb_buffer b)" using assms a(1) unfolding bb_wf_def by linarith
    then have nth: "?buf ! q' = bb_buffer b ! (q + q')" using q' a(3) by simp
    have "bb_bit ?buf (r + i) = bit (?buf ! q') (7 - r')"
      unfolding ri(1) by (rule bb_bit_split [OF ri(2)])
    also note nth
    also have "bit (bb_buffer b ! (q + q')) (7 - r') = bb_bit (bb_buffer b) (8 * (q + q') + r')"
      by (rule bb_bit_split [OF ri(2), symmetric])
    also have "8 * (q + q') + r' = a + i" using a(1) ri(1) by simp
    finally show "window b' ! i = bb_slice (bb_buffer b) a (bb_end b) ! i"
      using i by (simp add: window_def b'_def a(4))
  qed (simp add: window_def b'_def)
  ultimately show ?thesis by (intro that [of b']) (auto simp: b'_def bb_new_def)
qed

lemma seek_0_eq: "bb_wf b \<Longrightarrow> seek 0 b = Ok () (b\<lparr>bb_pos := bb_start b\<rparr>) \<and> bb_wf (b\<lparr>bb_pos := bb_start b\<rparr>)
    \<and> unread (b\<lparr>bb_pos := bb_start b\<rparr>) = window b"
  by (simp add: seek_def bb_wf_def unread_def window_def)

lemma length_window_new [simp]: "length (window (bb_new n)) = n"
  by (simp add: window_def bb_new_def)

section \<open>Properties\<close>

text \<open>C26: reading up to 64 bits at any bit offset returns the number whose binary digits, most
  significant first, are the next bits of the window, and moves the cursor behind them; when
  fewer bits are left, or more than 64 are asked for, nothing is returned and nothing moves.\<close>

theorem read_bits_refines:
  assumes "bb_wf b"
  shows "read_bits n b =
      (if n \<le> 64 \<and> n \<le> length (unread b) then Ok (Some (of_bits (take n (unread b)))) (bb_adv n b) else Ok None b)
    \<and> (n \<le> length (unread b) \<longrightarrow> bb_wf (bb_adv n b) \<and> unread (bb_adv n b) = drop n (unread b)
         \<and> window (bb_adv n b) = window b)"
  using assms by (simp add: read_bits_eq bb_wf_adv unread_adv window_def del: length_unread)

theorem read_bits_refines_witness:
  "bb_wf (bb_from_vec [0xA5, 0x3C]) \<and> unread (bb_adv 12 (bb_from_vec [0xA5, 0x3C])) = [True, True, False, False]
   \<and> read_bits 12 (bb_from_vec [0xA5, 0x3C]) = Ok (Some 0xA53) (bb_adv 12 (bb_from_vec [0xA5, 0x3C]))"
proof -
  have u: "unread (bb_from_vec [0xA5, 0x3C]) =
      [True, False, True, False, False, True, False, True, False, False, True, True, True, True, False, False]"
    by (simp add: unread_def bb_slice_def bb_from_vec_def bb_bit_def upt_rec)
  have "of_bits (take 12 (unread (bb_from_vec [0xA5, 0x3C]))) = (0xA53 :: u64)"
    unfolding u by (simp add: of_bits_def)
  then show ?thesis using read_bits_refines [of "bb_from_vec [0xA5, 0x3C]" 12] u by simp
qed

text \<open>C27: a value of at most 64 bits that fits its width, written at any bit offset of a buffer
  with room (or of a growing buffer at its end), is read back from there; the bits before it and
  the bits of the window after it are unchanged.\<close>

theorem write_bits_read_back:
  assumes "can_write n b" and "n \<le> 64" and "unat v < 2 ^ n"
  shows "\<exists>b'. write_bits v n b = Ok () b' \<and> bb_wf b' \<and> bb_pos b' = bb_pos b + n
    \<and> read_bits n (b'\<lparr>bb_pos := bb_pos b\<rparr>) = Ok (Some v) b'
    \<and> written (b'\<lparr>bb_pos := bb_pos b\<rparr>) = written b \<and> take (length (unread b) - n) (unread b') = drop n (unread b)"
proof -
  obtain b' where w: "write_bits v n b = Ok () b'" "wrote b (msb_bits n v) b'"
    using write_bits_wrote [OF assms(1) assms(2,3)] by auto
  let ?r = "b'\<lparr>bb_pos := bb_pos b\<rparr>"
  have wf: "bb_wf b" using assms(1) by (simp add: can_write_def)
  have p: "bb_wf b'" "bb_start b' = bb_start b" "bb_pos b' = bb_pos b + n" "bb_end b' = max (bb_end b) (bb_pos b + n)"
    "bb_slice (bb_buffer b') (bb_pos b) (bb_pos b + n) = msb_bits n v"
    "\<And>i. i < bb_pos b \<Longrightarrow> bb_bit (bb_buffer b') i = bb_bit (bb_buffer b) i"
    "\<And>i. bb_pos b + n \<le> i \<Longrightarrow> i < bb_end b \<Longrightarrow> bb_bit (bb_buffer b') i = bb_bit (bb_buffer b) i"
    using w(2) by (simp_all add: wrote_def)
  have wf': "bb_wf ?r" using p wf by (auto simp: bb_wf_def)
  have "take n (unread ?r) = msb_bits n v" using p by (subst take_unread) simp_all
  moreover have "n \<le> length (unread ?r)" using p(4) by simp
  ultimately have "read_bits n ?r = Ok (Some v) b'"
    using assms(2,3) wf' p(3) by (simp add: read_bits_eq bb_adv_def)
  moreover have "written ?r = written b"
    using p wf by (auto simp: written_def bb_slice_def bb_wf_def)
  moreover have "take (length (unread b) - n) (unread b') = drop n (unread b)"
    using p wf by (intro nth_equalityI) (auto simp: unread_def bb_wf_def add.assoc)
  ultimately show ?thesis using w(1) p by blast
qed

theorem write_bits_read_back_witness:
  "\<exists>b'. write_bits 0x5A5A5A5A5 37 (bb_adv 3 (bb_new 45)) = Ok () b'
     \<and> read_bits 37 (b'\<lparr>bb_pos := 3\<rparr>) = Ok (Some 0x5A5A5A5A5) b'"
proof -
  have "can_write 37 (bb_adv 3 (bb_new 45))" by (simp add: can_write_def bb_wf_def bb_new_def bb_adv_def)
  from write_bits_read_back [OF this, of "0x5A5A5A5A5"] show ?thesis
    by (auto simp: bb_new_def bb_adv_def)
qed

end
