(* ===== verification/Codec.thy ===== *)
theory Codec
  imports Bit_Buffer
begin

unbundle bit_operations_syntax

text \<open>
  The proof library for encoders and decoders over the bit buffer.  A decoder \<open>parses\<close> a bit
  string when it consumes exactly that string, from any well-formed buffer that starts with it;
  an encoder \<open>emits\<close> a bit string when it appends exactly that string wherever it can be
  written; a decoder is \<open>safe\<close> when on every well-formed buffer it neither panics nor changes
  anything but the cursor, which only moves forward inside the window.  The rules compose these
  judgments along the sequencing combinators, and the locale \<open>pdu_codec\<close> states what an
  encoder/decoder pair promises; every PDU and information element of the development is an
  interpretation of it.
\<close>

section \<open>The judgments\<close>

definition parses :: "'a bbm \<Rightarrow> bool list \<Rightarrow> 'a \<Rightarrow> bool" where
  "parses p bs v \<longleftrightarrow>
     (\<forall>b rs. bb_wf b \<longrightarrow> unread b = bs @ rs \<longrightarrow> p b = Ok v (bb_adv (length bs) b))"

definition emits :: "unit bbm \<Rightarrow> bool list \<Rightarrow> bool" where
  "emits w bs \<longleftrightarrow>
     (\<forall>b. can_write (length bs) b \<longrightarrow> (\<exists>b'. w b = Ok () b' \<and> wrote b bs b'))"

text \<open>\<open>forward b b'\<close>: \<open>b'\<close> is \<open>b\<close> with the cursor moved forward inside the window.\<close>

definition forward :: "bitbuf \<Rightarrow> bitbuf \<Rightarrow> bool" where
  "forward b b' \<longleftrightarrow> (\<exists>k \<le> length (unread b). b' = bb_adv k b)"

definition safe :: "'a bbm \<Rightarrow> bool" where
  "safe p \<longleftrightarrow>
     (\<forall>b. bb_wf b \<longrightarrow>
        (case p b of Ok v b' \<Rightarrow> forward b b' | Err e b' \<Rightarrow> forward b b' | Panic \<Rightarrow> False))"

named_theorems parse_rules and emit_rules and safe_rules

section \<open>Decoding rules\<close>

lemma parsesD: "parses p bs v \<Longrightarrow> bb_wf b \<Longrightarrow> unread b = bs @ rs \<Longrightarrow> p b = Ok v (bb_adv (length bs) b)"
  by (simp add: parses_def)

lemma parses_ret [parse_rules]: "parses (retM v) [] v"
  by (simp add: parses_def)

lemma parses_Ok [simp]: "parses (Ok v) [] v"
  using parses_ret [of v] by (simp add: retM_def)

lemma parses_bind [parse_rules]:
  assumes "parses p xs a" and "parses (f a) ys v"
  shows "parses (bindM p f) (xs @ ys) v"
  unfolding parses_def
proof (intro allI impI)
  fix b rs assume wf: "bb_wf b" and u: "unread b = (xs @ ys) @ rs"
  have "p b = Ok a (bb_adv (length xs) b)"
    using assms(1) wf u by (simp add: parses_def)
  moreover have le: "length xs \<le> length (unread b)" unfolding u by simp
  have "f a (bb_adv (length xs) b) = Ok v (bb_adv (length ys) (bb_adv (length xs) b))"
    using unread_adv [OF le] u by (intro parsesD [OF assms(2) bb_wf_adv [OF wf le]]) simp
  ultimately show "bindM p f b = Ok v (bb_adv (length (xs @ ys)) b)" by simp
qed

lemma parses_bind_end:
  "parses p xs a \<Longrightarrow> parses (f a) [] v \<Longrightarrow> parses (bindM p f) xs v"
  using parses_bind [of p xs a f "[]" v] by simp

lemma parses_map: "parses p xs a \<Longrightarrow> parses (bindM p (\<lambda>v. retM (g v))) xs (g a)"
  by (erule parses_bind_end) (rule parses_ret)

lemma parses_bind_start:
  "parses p [] a \<Longrightarrow> parses (f a) xs v \<Longrightarrow> parses (bindM p f) xs v"
  using parses_bind [of p "[]" a f xs v] by simp

lemma parses_bind_Cons:
  "parses p [x] a \<Longrightarrow> parses (f a) xs v \<Longrightarrow> parses (bindM p f) (x # xs) v"
  using parses_bind [of p "[x]" a f xs v] by simp

lemma parses_field:
  assumes "n \<le> 64" and "length xs = n"
  shows "parses (read_field n s) xs (of_bits xs)"
  unfolding parses_def using assms by (auto simp: read_field_eq simp flip: length_unread)

lemma parses_field_val:
  "n \<le> 64 \<Longrightarrow> unat w < 2 ^ n \<Longrightarrow> parses (read_field n s) (msb_bits n w) w"
  using parses_field [of n "msb_bits n w" s] by simp

lemma parses_field_bit: "parses (read_field 1 s) [x] (of_bool x)"
  using parses_field [of 1 "[x]" s] by (simp add: of_bits_single)

lemma parses_read_bits:
  assumes "n \<le> 64" and "length xs = n"
  shows "parses (read_bits n) xs (Some (of_bits xs))"
  unfolding parses_def using assms by (auto simp: read_bits_eq simp flip: length_unread)

lemma parses_read_bits_val:
  "n \<le> 64 \<Longrightarrow> unat w < 2 ^ n \<Longrightarrow> parses (read_bits n) (msb_bits n w) (Some w)"
  using parses_read_bits [of n "msb_bits n w"] by simp

lemma parses_cong: "parses p xs a \<Longrightarrow> xs = ys \<Longrightarrow> a = b \<Longrightarrow> parses p ys b"
  by simp

lemma parses_assert: "c \<Longrightarrow> parses (assertM c) [] ()"
  by (simp add: parses_def)

lemma parses_seek_rel: "parses (seek_rel (int n)) xs ()" if "length xs = n"
  unfolding parses_def
proof (intro allI impI)
  fix b rs assume wf: "bb_wf b" and u: "unread b = xs @ rs"
  then have "length (unread b) = n + length rs" using that by simp
  then have "bb_pos b + n \<le> bb_end b" using wf unfolding length_unread bb_wf_def by linarith
  then show "seek_rel (int n) b = Ok () (bb_adv (length xs) b)"
    using wf that by (auto simp: seek_rel_def Let_def bb_adv_def bb_wf_def simp flip: of_nat_add)
qed

section \<open>Encoding rules\<close>

lemma emitsD:
  assumes "emits w bs" and "can_write (length bs) b"
  obtains b' where "w b = Ok () b'" and "wrote b bs b'"
  using assms by (auto simp: emits_def)

lemma emits_ret [emit_rules]: "emits (retM ()) []"
  by (simp add: emits_def can_write_def)

lemma emits_Ok [simp]: "emits (Ok ()) []"
  using emits_ret by (simp add: retM_def)

lemma emits_then [emit_rules]:
  assumes "emits v xs" and "emits w ys"
  shows "emits (thenM v w) (xs @ ys)"
  unfolding emits_def
proof (intro allI impI)
  fix b assume c: "can_write (length (xs @ ys)) b"
  then have "can_write (length xs) b" by (rule can_write_mono) simp
  then obtain b1 where b1: "v b = Ok () b1" "wrote b xs b1" by (rule emitsD [OF assms(1)])
  have "can_write (length ys) b1" using c b1(2) by (auto intro: can_write_after)
  then obtain b2 where b2: "w b1 = Ok () b2" "wrote b1 ys b2" by (rule emitsD [OF assms(2)])
  show "\<exists>b'. thenM v w b = Ok () b' \<and> wrote b (xs @ ys) b'"
    using b1 b2 wrote_trans by auto
qed

lemma emits_then_end: "emits v xs \<Longrightarrow> emits w [] \<Longrightarrow> emits (thenM v w) xs"
  using emits_then [of v xs w "[]"] by simp

lemma emits_then_start: "emits v [] \<Longrightarrow> emits w xs \<Longrightarrow> emits (thenM v w) xs"
  using emits_then [of v "[]" w xs] by simp

lemma emits_then_Cons: "emits v [x] \<Longrightarrow> emits w xs \<Longrightarrow> emits (thenM v w) (x # xs)"
  using emits_then [of v "[x]" w xs] by simp

lemma emits_bits: "n \<le> 64 \<Longrightarrow> unat v < 2 ^ n \<Longrightarrow> emits (write_bits v n) (msb_bits n v)"
  unfolding emits_def by (metis length_msb_bits write_bits_wrote)

lemma emits_bit: "emits (write_bit (of_bool x)) [x]"
  unfolding emits_def
proof (intro allI impI)
  fix b assume "can_write (length [x]) b"
  then obtain b' where "write_bit (of_bool x) b = Ok () b'" "wrote b [of_bool x = (1::u8)] b'"
    using write_bit_wrote [of b "of_bool x"] by auto
  then show "\<exists>b'. write_bit (of_bool x) b = Ok () b' \<and> wrote b [x] b'" by (cases x) auto
qed

lemma emits_bit_0: "emits (write_bit 0) [False]" and emits_bit_1: "emits (write_bit 1) [True]"
  using emits_bit [of False] emits_bit [of True] by simp_all

lemma emits_bits_1: "emits (write_bits (of_bool x) 1) [x]"
  using emits_bits [of 1 "of_bool x"] by (cases x) (simp_all add: msb_bits_Suc)

lemma emits_zeroes: "emits (write_zeroes n) (replicate n False)"
  by (simp add: emits_def write_zeroes_wrote)

lemma emits_ones: "emits (write_ones n) (replicate n True)"
  by (simp add: emits_def write_ones_wrote)

lemma emits_assert: "c \<Longrightarrow> emits (assertM c) []"
  by (simp add: emits_def can_write_def)

lemma emits_copy_bits:
  assumes "bb_wf src" and "n \<le> length (unread src)"
  shows "emits (bindM (copy_bits src n) (\<lambda>_. retM ())) (take n (unread src))"
proof -
  have "length (take n (unread src)) = n" using assms(2) by simp
  then show ?thesis unfolding emits_def using copy_bits_wrote [OF assms] by fastforce
qed

lemma emits_cong: "emits w xs \<Longrightarrow> xs = ys \<Longrightarrow> emits w ys"
  by simp

section \<open>Safety rules\<close>

lemma forward_refl [simp]: "forward b b"
  unfolding forward_def by (intro exI [of _ 0]) simp

lemma forward_trans:
  assumes "forward a b" and "forward b c"
  shows "forward a c"
proof -
  obtain i where i: "i \<le> length (unread a)" "b = bb_adv i a" using assms(1) by (auto simp: forward_def)
  obtain j where j: "j \<le> length (unread b)" "c = bb_adv j b" using assms(2) by (auto simp: forward_def)
  have "i + j \<le> length (unread a)" using i j by (simp add: unread_adv [OF i(1)])
  then show ?thesis using i j by (auto simp: forward_def)
qed

lemma forward_wf: "bb_wf b \<Longrightarrow> forward b b' \<Longrightarrow> bb_wf b'"
  by (auto simp: forward_def bb_wf_adv)

lemma safeD:
  assumes "safe p" and "bb_wf b"
  shows "p b \<noteq> Panic" and "p b = Ok v b' \<Longrightarrow> forward b b'" and "p b = Err e b' \<Longrightarrow> forward b b'"
  using assms by (auto simp: safe_def split: outcome.splits)

lemma safe_ret [safe_rules]: "safe (retM v)"
  by (simp add: safe_def)

lemma safe_err [safe_rules]: "safe (errM e)"
  by (simp add: safe_def)

lemma safe_Ok_Err [simp, safe_rules]: "safe (Ok v)" "safe (Err e)"
  by (simp_all add: safe_def)

text \<open>The continuation may use what is known of the values the first decoder returns.\<close>

lemma safe_bind_strong:
  assumes "safe p" and "\<And>a b b'. bb_wf b \<Longrightarrow> p b = Ok a b' \<Longrightarrow> safe (f a)"
  shows "safe (bindM p f)"
  unfolding safe_def
proof (intro allI impI)
  fix b assume wf: "bb_wf b"
  show "case bindM p f b of Ok v b' \<Rightarrow> forward b b' | Err e b' \<Rightarrow> forward b b' | Panic \<Rightarrow> False"
  proof (cases "p b")
    case (Ok a b1)
    then have fw: "forward b b1" using safeD(2) [OF assms(1) wf] by simp
    have "safe (f a)" using assms(2) [OF wf Ok] .
    then have "case f a b1 of Ok v b' \<Rightarrow> forward b1 b' | Err e b' \<Rightarrow> forward b1 b' | Panic \<Rightarrow> False"
      using forward_wf [OF wf fw] by (simp add: safe_def)
    then show ?thesis using Ok fw by (auto split: outcome.splits intro: forward_trans)
  next
    case (Err e b1)
    then show ?thesis using safeD(3) [OF assms(1) wf] by simp
  next
    case Panic
    then show ?thesis using safeD(1) [OF assms(1) wf] by simp
  qed
qed

lemma safe_bind [safe_rules]: "safe p \<Longrightarrow> (\<And>a. safe (f a)) \<Longrightarrow> safe (bindM p f)"
  by (rule safe_bind_strong)

lemma safe_if [safe_rules]: "(c \<Longrightarrow> safe p) \<Longrightarrow> (\<not> c \<Longrightarrow> safe q) \<Longrightarrow> safe (if c then p else q)"
  by simp

lemma safe_option [safe_rules]:
  "safe p \<Longrightarrow> (\<And>a. safe (f a)) \<Longrightarrow> safe (case x of None \<Rightarrow> p | Some a \<Rightarrow> f a)"
  by (cases x) auto

lemma safe_let [safe_rules]: "safe (f a) \<Longrightarrow> safe (Let a f)"
  by simp

lemma safe_prod [safe_rules]: "(\<And>a b. safe (f a b)) \<Longrightarrow> safe (case x of (a, b) \<Rightarrow> f a b)"
  by (cases x) auto

lemma safe_read_bits [safe_rules]: "safe (read_bits n)"
  by (auto simp: safe_def read_bits_eq forward_def)

lemma safe_read_field [safe_rules]: "safe (read_field n s)"
  by (auto simp: safe_def read_field_eq forward_def)

lemma safe_peek_bits [safe_rules]: "safe (peek_bits n)"
  by (auto simp: safe_def peek_bits_eq)

lemma safe_get_pos [safe_rules]: "safe get_pos"
  by (simp add: safe_def get_pos_eq)

lemma safe_get_len_remaining [safe_rules]: "safe get_len_remaining"
  by (simp add: safe_def get_len_remaining_eq)

lemma read_field_less: "bb_wf b \<Longrightarrow> read_field n s b = Ok v b' \<Longrightarrow> unat v < 2 ^ n"
  by (auto simp: read_field_eq split: if_splits)
    (metis length_take length_unread min.absorb2 of_bits_less)

lemma safe_bind_field:
  "(\<And>v. unat v < 2 ^ n \<Longrightarrow> safe (f v)) \<Longrightarrow> safe (bindM (read_field n s) f)"
  by (rule safe_bind_strong [OF safe_read_field]) (auto dest: read_field_less)

section \<open>From writing to reading\<close>

lemma rewind_parses:
  assumes "wrote b bs b'" and "bb_pos b = bb_start b" and "bb_end b' = bb_pos b + length bs" and "parses p bs v"
  shows "window b' = bs" and "thenM (seek 0) p b' = Ok v (b'\<lparr>bb_pos := bb_end b'\<rparr>)"
proof -
  let ?b = "b'\<lparr>bb_pos := bb_start b'\<rparr>"
  have wf: "bb_wf b'" and st: "bb_start b' = bb_start b" using assms(1) by (simp_all add: wrote_def)
  then have wf': "bb_wf ?b" by (simp add: bb_wf_def)
  have u: "unread ?b = bs @ []" using wrote_unread_from [OF assms(1-3)] by simp
  then show "window b' = bs" by (simp add: window_def unread_def)
  have "p ?b = Ok v (bb_adv (length bs) ?b)" by (rule parsesD [OF assms(4) wf' u])
  moreover have "seek 0 b' = Ok () ?b" using wf by (simp add: seek_def bb_wf_def)
  ultimately show "thenM (seek 0) p b' = Ok v (b'\<lparr>bb_pos := bb_end b'\<rparr>)"
    using assms(2,3) st by (simp add: bb_adv_def)
qed

lemma emits_parses_new:
  assumes "emits w bs" and "parses p bs v"
  shows "\<exists>b. w (bb_new_autoexpand k) = Ok () b \<and> window b = bs \<and>
    thenM (seek 0) p b = Ok v (b\<lparr>bb_pos := bb_end b\<rparr>)"
proof -
  obtain b where b: "w (bb_new_autoexpand k) = Ok () b" "wrote (bb_new_autoexpand k) bs b"
    using assms(1) can_write_new(2) by (rule emitsD)
  have "bb_end b = length bs" using b(2) by (simp add: wrote_def bb_new_autoexpand_def)
  then show ?thesis using b rewind_parses [OF b(2) _ _ assms(2)] by (auto simp: bb_new_autoexpand_def)
qed

section \<open>The contract of an encoder/decoder pair\<close>

text \<open>
  \<open>valid\<close> is the set of values the encoder accepts, \<open>bits\<close> the bit string it writes, and \<open>norm\<close>
  what the decoder returns for it (the identity except where the encoding merges values).
\<close>

locale pdu_codec =
  fixes enc :: "'v \<Rightarrow> unit bbm"
    and dec :: "'v bbm"
    and valid :: "'v \<Rightarrow> bool"
    and bits :: "'v \<Rightarrow> bool list"
    and norm :: "'v \<Rightarrow> 'v"
  assumes enc_emits: "valid v \<Longrightarrow> emits (enc v) (bits v)"
    and dec_parses: "valid v \<Longrightarrow> parses dec (bits v) (norm v)"
begin

text \<open>What is encoded into a growing buffer is read back, and nothing is left over.\<close>

lemma enc_dec:
  "valid v \<Longrightarrow> \<exists>b. enc v (bb_new_autoexpand k) = Ok () b \<and> window b = bits v \<and>
    thenM (seek 0) dec b = Ok (norm v) (b\<lparr>bb_pos := bb_end b\<rparr>)"
  by (intro emits_parses_new enc_emits dec_parses)

text \<open>A decoder in the middle of a message continues behind the element.\<close>

lemma dec_then:
  "valid v \<Longrightarrow> parses (f (norm v)) ys w \<Longrightarrow> parses (bindM dec f) (bits v @ ys) w"
  by (rule parses_bind [OF dec_parses])

text \<open>Two valid values with the same encoding are indistinguishable to the decoder.\<close>

lemma bits_determine:
  assumes "valid v" and "valid w" and "bits v = bits w"
  shows "norm v = norm w"
proof -
  obtain b2 where b2: "wrote (bb_new_autoexpand 0) (bits v) b2" "enc v (bb_new_autoexpand 0) = Ok () b2"
    using enc_emits [OF assms(1)] can_write_new(2) by (rule emitsD)
  let ?b = "b2\<lparr>bb_pos := bb_start b2\<rparr>"
  have wf: "bb_wf ?b" using b2(1) by (auto simp: wrote_def bb_wf_def)
  have u: "unread ?b = bits v @ []"
    using wrote_unread_from [OF b2(1)] b2(1) by (simp add: wrote_def bb_new_autoexpand_def)
  have "dec ?b = Ok (norm v) (bb_adv (length (bits v)) ?b)"
    by (rule parsesD [OF dec_parses [OF assms(1)] wf u])
  moreover have "dec ?b = Ok (norm w) (bb_adv (length (bits w)) ?b)"
    using u by (intro parsesD [OF dec_parses [OF assms(2)] wf]) (simp add: assms(3))
  ultimately show ?thesis by simp
qed

end

end
