(* ===== verification/Typed_Fields.thy ===== *)
theory Typed_Fields
  imports Codec
begin

unbundle bit_operations_syntax

text \<open>
  The optional information elements of \<^verbatim>\<open>crates/tetra-core/src/typed_pdu_fields.rs\<close>: type-2
  elements (a presence bit), type-3 elements (m-bit, 4-bit identifier, 11-bit length, payload)
  and type-4 elements (m-bit, identifier, length, 6-bit count, repeated payload).  The element
  parsers and writers that the source takes as closures are arguments here too.  The lemmas
  show that for every element codec the three element kinds round-trip, that an absent or
  different element leaves the cursor where it was, and which malformed headers are refused.
\<close>

section \<open>Delimiters\<close>

record type4_field_generic =
  t4_field_id :: u64
  t4_len :: nat
  t4_elems :: nat
  t4_data :: u64

record type3_field_generic =
  t3_field_id :: u64
  t3_len :: nat
  t3_data :: "128 word"

definition read_obit :: "bool bbm" where
  "read_obit = bindM (read_field 1 ''obit'') (\<lambda>v. retM (v = 1))"

definition write_obit :: "u8 \<Rightarrow> unit bbm" where
  "write_obit val = write_bit val"

definition read_pbit :: "bool bbm" where
  "read_pbit = bindM (read_field 1 ''pbit'') (\<lambda>v. retM (v = 1))"

definition write_pbit :: "u8 \<Rightarrow> unit bbm" where
  "write_pbit val = write_bit val"

definition read_mbit :: "bool bbm" where
  "read_mbit = bindM (read_field 1 ''mbit'') (\<lambda>v. retM (v = 1))"

definition write_mbit :: "u8 \<Rightarrow> unit bbm" where
  "write_mbit val = write_bit val"

section \<open>Type-2 elements\<close>

definition parse_type2_generic :: "bool \<Rightarrow> nat \<Rightarrow> string \<Rightarrow> u64 option bbm" where
  "parse_type2_generic obit num_bits field_name =
     (if \<not> obit then retM None
      else bindM read_pbit (\<lambda>present.
           if present then bindM (read_field num_bits field_name) (\<lambda>v. retM (Some v))
           else retM None))"

definition parse_type2_struct :: "bool \<Rightarrow> 'a bbm \<Rightarrow> 'a option bbm" where
  "parse_type2_struct obit parser =
     (if \<not> obit then retM None
      else bindM read_pbit (\<lambda>present.
           if present then bindM parser (\<lambda>v. retM (Some v)) else retM None))"

definition write_type2_generic :: "bool \<Rightarrow> u64 option \<Rightarrow> nat \<Rightarrow> unit bbm" where
  "write_type2_generic obit value len =
     (if \<not> obit then thenM (assertM (value = None)) (retM ())
      else case value of
             Some v \<Rightarrow> thenM (write_pbit 1) (write_bits v len)
           | None \<Rightarrow> write_pbit 0)"

definition write_type2_struct :: "bool \<Rightarrow> 'a option \<Rightarrow> ('a \<Rightarrow> unit bbm) \<Rightarrow> unit bbm" where
  "write_type2_struct obit value writer =
     (if \<not> obit then thenM (assertM (value = None)) (retM ())
      else case value of
             Some v \<Rightarrow> thenM (write_pbit 1) (writer v)
           | None \<Rightarrow> write_pbit 0)"

section \<open>Type-3 elements\<close>

definition peek_type34_mbit_and_id :: "u64 \<Rightarrow> bool bbm" where
  "peek_type34_mbit_and_id expected_id =
     bindM (peek_bits 1) (\<lambda>mbit.
     case mbit of
       None \<Rightarrow> errM (BufferEnded (Some ''peek_type34_mbit_and_id mbit''))
     | Some m \<Rightarrow>
         if m = 0 then retM False
         else if m = 1 then
           bindM (peek_bits_posoffset 1 4) (\<lambda>id_bits.
           case id_bits of
             Some i \<Rightarrow> retM (i = expected_id)
           | None \<Rightarrow> errM (BufferEnded (Some ''peek_type34_mbit_and_id id_bits'')))
         else panicM)"

text \<open>The common prefix of the present branch: \<open>seek_rel(5)\<close>, then the 11-bit length.\<close>

definition read_len_bits :: "string \<Rightarrow> nat bbm" where
  "read_len_bits field =
     thenM (seek_rel 5)
    (bindM (read_bits 11) (\<lambda>x. case x of
        Some l \<Rightarrow> retM (unat l)
      | None \<Rightarrow> errM (BufferEnded (Some field))))"

definition read_or_ended :: "nat \<Rightarrow> string \<Rightarrow> u64 bbm" where
  "read_or_ended n field =
     bindM (read_bits n) (\<lambda>x. case x of
        Some v \<Rightarrow> retM v
      | None \<Rightarrow> errM (BufferEnded (Some field)))"

definition parse_type3_generic :: "bool \<Rightarrow> u64 \<Rightarrow> type3_field_generic option bbm" where
  "parse_type3_generic obit expected_id =
     (if \<not> obit then retM None
      else bindM (peek_type34_mbit_and_id expected_id) (\<lambda>field_present.
        if \<not> field_present then retM None
        else
          bindM (read_len_bits ''parse_type3_generic len_bits'') (\<lambda>len_bits.
          let rd = (if len_bits > 128 then 128 else len_bits) in
          bindM
            (if rd \<le> 64
             then bindM (read_or_ended rd ''parse_type3_generic data'') (\<lambda>v. retM (ucast v))
             else bindM (read_or_ended (rd - 64) ''parse_type3_generic data (high)'') (\<lambda>hi.
                  bindM (read_or_ended 64 ''parse_type3_generic data (low)'') (\<lambda>lo.
                  retM (push_bit 64 (ucast hi) OR ucast lo)))) (\<lambda>data.
          thenM (if len_bits > 128 then seek_rel (int len_bits - 128) else retM ())
            (retM (Some \<lparr>t3_field_id = expected_id, t3_len = len_bits, t3_data = data\<rparr>))))))"

definition parse_type3_struct :: "bool \<Rightarrow> u64 \<Rightarrow> 'a bbm \<Rightarrow> 'a option bbm" where
  "parse_type3_struct obit expected_id parser =
     (if \<not> obit then retM None
      else bindM (peek_type34_mbit_and_id expected_id) (\<lambda>field_present.
        if \<not> field_present then retM None
        else
          bindM (read_len_bits ''parse_type3_struct len_bits'') (\<lambda>len_bits.
          bindM get_pos (\<lambda>start_pos.
          bindM parser (\<lambda>result.
          bindM get_pos (\<lambda>end_pos.
          if start_pos + len_bits \<noteq> end_pos
          then bindM (subM end_pos start_pos) (\<lambda>found. errM (InconsistentLength len_bits found))
          else retM (Some result)))))))"

definition write_type34_header_generic :: "u64 \<Rightarrow> unit bbm" where
  "write_type34_header_generic field_type = thenM (write_mbit 1) (write_bits field_type 4)"

definition write_type3_struct :: "bool \<Rightarrow> 'a option \<Rightarrow> u64 \<Rightarrow> ('a \<Rightarrow> unit bbm) \<Rightarrow> unit bbm" where
  "write_type3_struct obit value field_id writer =
     (if \<not> obit \<and> value \<noteq> None then errM (InvalidValue ''write_type3_struct'' field_id)
      else case value of
        Some elem \<Rightarrow>
          thenM (write_type34_header_generic field_id)
         (bindM (getM bb_pos) (\<lambda>pos_len_field.
          thenM (write_bits 0 11)
         (thenM (writer elem)
         (bindM (getM bb_pos) (\<lambda>pos_end.
          bindM (subM pos_end pos_len_field) (\<lambda>d.
          bindM (subM d 11) (\<lambda>len_bits.
          thenM (set_raw_pos pos_len_field)
         (thenM (write_bits (of_nat len_bits) 11)
          (set_raw_pos pos_end)))))))))
      | None \<Rightarrow> retM ())"

definition write_type3_generic :: "bool \<Rightarrow> type3_field_generic option \<Rightarrow> u64 \<Rightarrow> unit bbm" where
  "write_type3_generic obit value field_id =
     (if \<not> obit \<and> value \<noteq> None then errM (InvalidValue ''write_type3_generic'' field_id)
      else case value of
        Some elem \<Rightarrow>
          thenM (write_type34_header_generic field_id)
         (thenM (write_bits (of_nat (t3_len elem)) 11)
         (if t3_len elem \<le> 64 then write_bits (ucast (t3_data elem)) (t3_len elem)
          else thenM (write_bits (ucast (drop_bit 64 (t3_data elem))) (t3_len elem - 64))
                 (write_bits (ucast (t3_data elem)) 64)))
      | None \<Rightarrow> retM ())"

section \<open>Type-4 elements\<close>

definition parse_type4_header :: "u64 \<Rightarrow> (nat \<times> nat) option bbm" where
  "parse_type4_header expected_id =
     bindM (peek_type34_mbit_and_id expected_id) (\<lambda>field_present.
     if \<not> field_present then retM None
     else
       bindM (read_len_bits ''parse_type4_header len_bits'') (\<lambda>len_bits.
       bindM (read_or_ended 6 ''parse_type4_header num_elems'') (\<lambda>n.
       let num_elems = unat n in
       if len_bits < 6 then errM (InconsistentLength 6 len_bits)
       else if num_elems = 0 then errM (InvalidValue ''parse_type4_header num_elems'' 0)
       else retM (Some (num_elems, len_bits - 6)))))"

text \<open>The element loop \<open>for _ in 0..num_elems\<close>.\<close>

fun parse_elems :: "nat \<Rightarrow> 'a bbm \<Rightarrow> 'a list bbm" where
  "parse_elems 0 parser = retM []"
| "parse_elems (Suc n) parser =
     bindM parser (\<lambda>e. bindM (parse_elems n parser) (\<lambda>es. retM (e # es)))"

definition parse_type4_struct :: "bool \<Rightarrow> u64 \<Rightarrow> 'a bbm \<Rightarrow> 'a list option bbm" where
  "parse_type4_struct obit expected_id parser =
     (if \<not> obit then retM None
      else bindM (parse_type4_header expected_id) (\<lambda>h. case h of
        None \<Rightarrow> retM None
      | Some (num_elems, len_bits) \<Rightarrow>
          bindM get_pos (\<lambda>start_pos.
          bindM (parse_elems num_elems parser) (\<lambda>elems.
          bindM get_pos (\<lambda>end_pos.
          if start_pos + len_bits \<noteq> end_pos
          then bindM (subM end_pos start_pos) (\<lambda>found. errM (InconsistentLength len_bits found))
          else retM (Some elems))))))"

definition parse_type4_generic :: "bool \<Rightarrow> u64 \<Rightarrow> type4_field_generic option bbm" where
  "parse_type4_generic obit expected_id =
     (if \<not> obit then retM None
      else bindM (parse_type4_header expected_id) (\<lambda>h. case h of
        None \<Rightarrow> retM None
      | Some (num_elems, len_bits) \<Rightarrow>
          let rd = (if len_bits > 64 then 64 else len_bits) in
          bindM (read_field rd ''parse_type4_header'') (\<lambda>val.
          thenM (if len_bits > 64 then seek_rel (int len_bits - 64) else retM ())
            (retM (Some \<lparr>t4_field_id = expected_id, t4_len = len_bits, t4_elems = num_elems,
                         t4_data = val\<rparr>)))))"

text \<open>The payload of a type-4 element is built in a buffer of its own; an error there leaves the
  destination untouched.\<close>

definition write_type4_struct :: "bool \<Rightarrow> 'a list option \<Rightarrow> u64 \<Rightarrow> ('a \<Rightarrow> unit bbm) \<Rightarrow> unit bbm" where
  "write_type4_struct obit value field_id writer =
     (if \<not> obit \<and> value \<noteq> None then errM (InvalidValue ''write_type4_struct'' field_id)
      else case value of
        Some elems \<Rightarrow>
          if elems = [] then errM (InvalidValue ''write_type4_struct elems'' 0)
          else if length elems > 63
          then errM (InvalidValue ''write_type4_struct elems'' (of_nat (length elems)))
          else (\<lambda>b.
            case forM elems writer (bb_new_autoexpand (max (length elems * 64) 64)) of
              Panic \<Rightarrow> Panic
            | Err e _ \<Rightarrow> Err e b
            | Ok _ payload \<Rightarrow>
               (case get_len payload of
                  Panic \<Rightarrow> Panic
                | Err e _ \<Rightarrow> Err e b
                | Ok payload_len _ \<Rightarrow>
                    let len_bits = payload_len + 6 in
                    if len_bits > 2047
                    then Err (InvalidValue ''write_type4_struct len'' (of_nat len_bits)) b
                    else
                     (case seek 0 payload of
                        Panic \<Rightarrow> Panic
                      | Err e _ \<Rightarrow> Err e b
                      | Ok _ payload' \<Rightarrow>
                          thenM (write_type34_header_generic field_id)
                         (thenM (write_bits (of_nat len_bits) 11)
                         (thenM (write_bits (of_nat (length elems)) 6)
                         (bindM (copy_bits payload' payload_len) (\<lambda>_. retM ())))) b)))
      | None \<Rightarrow> retM ())"

definition write_type4_todo :: "bool \<Rightarrow> type4_field_generic option \<Rightarrow> u64 \<Rightarrow> unit bbm" where
  "write_type4_todo obit value field_id =
     (if \<not> obit \<and> value \<noteq> None then errM (InvalidValue ''write_type4_todo'' field_id)
      else case value of
        Some elem \<Rightarrow>
          if t4_field_id elem \<noteq> field_id
          then errM (InvalidValue ''write_type4_todo field_id'' (t4_field_id elem))
          else if t4_len elem > 64
          then errM (NotImplemented (Some ''write_type4_todo truncated_payload''))
          else if t4_len elem + 6 > 2047
          then errM (InvalidValue ''write_type4_todo len'' (of_nat (t4_len elem)))
          else if t4_elems elem > 63
          then errM (InvalidValue ''write_type4_todo elems'' (of_nat (t4_elems elem)))
          else if t4_len elem < 64 \<and> t4_data elem \<ge> push_bit (t4_len elem) 1
          then errM (InvalidValue ''write_type4_todo data'' (t4_data elem))
          else thenM (write_type34_header_generic field_id)
              (thenM (write_bits (of_nat (t4_len elem + 6)) 11)
              (thenM (write_bits (of_nat (t4_elems elem)) 6)
                (write_bits (t4_data elem) (t4_len elem))))
      | None \<Rightarrow> retM ())"

section \<open>Presence of an element\<close>

definition type34_header :: "u64 \<Rightarrow> bool list" where
  "type34_header i = True # msb_bits 4 i"

definition type34_at :: "u64 \<Rightarrow> bool list \<Rightarrow> bool" where
  "type34_at i bs \<longleftrightarrow> 5 \<le> length bs \<and> hd bs \<and> of_bits (take 4 (tl bs)) = i"

definition type34_next :: "bool list \<Rightarrow> bool" where
  "type34_next bs \<longleftrightarrow> bs \<noteq> [] \<and> (hd bs \<longrightarrow> 5 \<le> length bs)"

lemma type34_header_at [simp]: "unat i < 16 \<Longrightarrow> type34_at j (type34_header i @ rs) \<longleftrightarrow> i = j"
  by (auto simp: type34_at_def type34_header_def)

lemma type34_header_next [simp]: "type34_next (type34_header i @ rs)"
  by (simp add: type34_next_def type34_header_def)

lemma type34_False [simp]: "\<not> type34_at i (False # rs)" "type34_next (False # rs)"
  by (simp_all add: type34_at_def type34_next_def)

lemma type34_at_next: "type34_at i bs \<Longrightarrow> type34_next bs"
  by (auto simp: type34_at_def type34_next_def)

lemma peek_type34_eq:
  assumes "bb_wf b"
  shows "peek_type34_mbit_and_id i b =
    (if unread b = [] then Err (BufferEnded (Some ''peek_type34_mbit_and_id mbit'')) b
     else if \<not> type34_next (unread b) then Err (BufferEnded (Some ''peek_type34_mbit_and_id id_bits'')) b
     else Ok (type34_at i (unread b)) b)"
proof (cases "unread b")
  case Nil
  then have "length (unread b) = 0" by simp
  with Nil show ?thesis
    using peek_bits_eq [OF assms, of 1] by (simp add: peek_type34_mbit_and_id_def)
next
  case (Cons x xs)
  then have "length (unread b) = Suc (length xs)" by simp
  then have "peek_bits 1 b = Ok (Some (of_bool x)) b"
    using peek_bits_eq [OF assms, of 1] Cons by (simp add: of_bits_single)
  moreover have "peek_bits_posoffset 1 4 b
      = Ok (if 4 \<le> length xs then Some (of_bits (take 4 xs)) else None) b"
    using peek_bits_posoffset_eq [OF assms, of 1 4] Cons \<open>length (unread b) = _\<close> by simp
  ultimately show ?thesis
    using Cons by (cases x) (auto simp: peek_type34_mbit_and_id_def type34_at_def type34_next_def)
qed

lemma safe_peek_type34 [safe_rules]: "safe (peek_type34_mbit_and_id i)"
  by (auto simp: safe_def peek_type34_eq)

section \<open>Type-2 elements round-trip\<close>

definition type2_bits :: "('a \<Rightarrow> bool list) \<Rightarrow> 'a option \<Rightarrow> bool list" where
  "type2_bits bits v = (case v of None \<Rightarrow> [False] | Some a \<Rightarrow> True # bits a)"

lemma parses_read_pbit: "parses read_pbit [x] x" "parses read_obit [x] x" "parses read_mbit [x] x"
  unfolding read_pbit_def read_obit_def read_mbit_def
  by (rule parses_bind_end [OF parses_field_bit], cases x; simp add: parses_ret)+

lemma emits_write_pbit:
  "emits (write_pbit (of_bool x)) [x]" "emits (write_obit (of_bool x)) [x]" "emits (write_mbit (of_bool x)) [x]"
  unfolding write_pbit_def write_obit_def write_mbit_def by (rule emits_bit)+

lemmas emits_write_pbit_const =
  emits_write_pbit [of True, simplified] emits_write_pbit [of False, simplified]

lemma safe_read_pbit [safe_rules]: "safe read_pbit" "safe read_obit" "safe read_mbit"
  unfolding read_pbit_def read_obit_def read_mbit_def by (intro safe_rules)+

lemma parses_type2_struct:
  assumes "\<And>a. v = Some a \<Longrightarrow> parses p (bits a) (norm a)"
  shows "parses (parse_type2_struct True p) (type2_bits bits v) (map_option norm v)"
proof (cases v)
  case None
  then show ?thesis
    unfolding parse_type2_struct_def type2_bits_def
    by (auto intro!: parses_bind_end [OF parses_read_pbit(1)] parses_ret)
next
  case (Some a)
  have "parses (parse_type2_struct True p) (True # bits a) (Some (norm a))"
    unfolding parse_type2_struct_def
    by (auto intro!: parses_bind_Cons [OF parses_read_pbit(1)] parses_map assms [OF Some])
  with Some show ?thesis by (simp add: type2_bits_def)
qed

lemma emits_type2_struct:
  assumes "\<And>a. v = Some a \<Longrightarrow> emits (w a) (bits a)"
  shows "emits (write_type2_struct True v w) (type2_bits bits v)"
  using assms emits_then_Cons [OF emits_write_pbit_const(1)] emits_write_pbit_const(4)
  by (cases v) (auto simp: write_type2_struct_def type2_bits_def)

lemma parse_type2_generic_struct: "parse_type2_generic obit n s = parse_type2_struct obit (read_field n s)"
  by (simp add: parse_type2_generic_def parse_type2_struct_def)

lemma write_type2_generic_struct: "write_type2_generic obit v n = write_type2_struct obit v (\<lambda>x. write_bits x n)"
  by (simp add: write_type2_generic_def write_type2_struct_def)

lemma parses_type2_generic:
  "n \<le> 64 \<Longrightarrow> (\<And>a. v = Some a \<Longrightarrow> unat a < 2 ^ n) \<Longrightarrow>
   parses (parse_type2_generic True n s) (type2_bits (msb_bits n) v) v"
  unfolding parse_type2_generic_struct
  using parses_type2_struct [of v "read_field n s" "msb_bits n" id] parses_field_val by (simp add: option.map_id)

lemma emits_type2_generic:
  "n \<le> 64 \<Longrightarrow> (\<And>a. v = Some a \<Longrightarrow> unat a < 2 ^ n) \<Longrightarrow>
   emits (write_type2_generic True v n) (type2_bits (msb_bits n) v)"
  unfolding write_type2_generic_struct by (rule emits_type2_struct) (simp add: emits_bits)

lemma type2_absent: "parses (parse_type2_struct False p) [] None" "emits (write_type2_struct False None w) []"
  "parses (parse_type2_generic False n s) [] None" "emits (write_type2_generic False None n) []"
  unfolding parse_type2_generic_struct write_type2_generic_struct
  by (simp_all add: parse_type2_struct_def write_type2_struct_def parses_ret emits_ret emits_assert)

lemma safe_type2_struct [safe_rules]: "safe p \<Longrightarrow> safe (parse_type2_struct obit p)"
  unfolding parse_type2_struct_def by (intro safe_rules)

lemma safe_type2_generic [safe_rules]: "safe (parse_type2_generic obit n s)"
  unfolding parse_type2_generic_struct by (intro safe_rules)

section \<open>Type-3 elements round-trip\<close>

definition type3_bits :: "u64 \<Rightarrow> bool list \<Rightarrow> bool list" where
  "type3_bits i bs = type34_header i @ msb_bits 11 (of_nat (length bs) :: u64) @ bs"

lemma parses_read_len_bits:
  assumes "n < 2048"
  shows "parses (read_len_bits s) (type34_header i @ msb_bits 11 (of_nat n :: u64)) n"
  unfolding read_len_bits_def
proof (rule parses_bind)
  show "parses (seek_rel 5) (type34_header i) ()"
    using parses_seek_rel [of "type34_header i" 5] by (simp add: type34_header_def)
  show "parses (bindM (read_bits 11) (\<lambda>x. case x of Some l \<Rightarrow> retM (unat l) | None \<Rightarrow> errM (BufferEnded (Some s))))
      (msb_bits 11 (of_nat n :: u64)) n"
    by (rule parses_bind_end [OF parses_read_bits_val])
      (use assms in \<open>simp_all add: unat_of_nat_word parses_ret\<close>)
qed

lemma header_read:
  assumes "bb_wf b" and "unread b = type34_header i @ msb_bits 11 (of_nat n :: u64) @ rs"
    and "unat i < 16" and "n < 2048"
  shows "peek_type34_mbit_and_id i b = Ok True b" and "read_len_bits s b = Ok n (bb_adv 16 b)"
    and "bb_wf (bb_adv 16 b)" and "unread (bb_adv 16 b) = rs"
proof -
  show "peek_type34_mbit_and_id i b = Ok True b"
    using assms by (simp add: peek_type34_eq type34_header_def) (simp add: type34_at_def type34_next_def)
  show "read_len_bits s b = Ok n (bb_adv 16 b)"
    using parsesD [OF parses_read_len_bits [OF assms(4), of s i] assms(1), of rs] assms(2)
    by (simp add: type34_header_def)
  have "length (unread b) = 16 + length rs" unfolding assms(2) by (simp add: type34_header_def)
  then have le: "16 \<le> length (unread b)" by simp
  show "bb_wf (bb_adv 16 b)" using bb_wf_adv [OF assms(1) le] .
  show "unread (bb_adv 16 b) = rs" unfolding unread_adv [OF le] assms(2) by (simp add: type34_header_def)
qed

lemma parses_type3_struct:
  assumes "parses p bs v" and "unat i < 16" and "length bs < 2048"
  shows "parses (parse_type3_struct True i p) (type3_bits i bs) (Some v)"
  unfolding parses_def
proof (intro allI impI)
  fix b rs assume wf: "bb_wf b" and u: "unread b = type3_bits i bs @ rs"
  note h = header_read [OF wf u [unfolded type3_bits_def append_assoc] assms(2,3)]
  have pv: "p (bb_adv 16 b) = Ok v (bb_adv (length bs) (bb_adv 16 b))"
    by (rule parsesD [OF assms(1) h(3,4)])
  have le: "length bs \<le> length (unread (bb_adv 16 b))" unfolding h(4) by simp
  have st: "bb_start b \<le> bb_pos b" using wf by (simp add: bb_wf_def)
  show "parse_type3_struct True i p b = Ok (Some v) (bb_adv (length (type3_bits i bs)) b)"
    using h(1) h(2) pv get_pos_eq [OF h(3)] get_pos_eq [OF bb_wf_adv [OF h(3) le]] st
    by (simp add: parse_type3_struct_def type3_bits_def type34_header_def)
qed

lemma type3_struct_absent:
  assumes "bb_wf b" and "type34_next (unread b)" and "\<not> type34_at i (unread b)"
  shows "parse_type3_struct True i p b = Ok None b"
  using assms by (auto simp: parse_type3_struct_def peek_type34_eq type34_next_def)

text \<open>Overwriting a field inside what has been written, and returning to the end.\<close>

lemma wrote_backfill:
  assumes w1: "wrote b (xs @ ys @ zs) b1"
    and w2: "wrote (b1\<lparr>bb_pos := bb_pos b + length xs\<rparr>) ys' b2" and len: "length ys' = length ys"
  shows "wrote b (xs @ ys' @ zs) (b2\<lparr>bb_pos := bb_pos b1\<rparr>)"
proof -
  let ?p = "bb_pos b" and ?n = "length xs" and ?m = "length ys" and ?k = "length zs"
  have pos1: "bb_pos b1 = ?p + (?n + (?m + ?k))" and end1: "bb_end b1 = max (bb_end b) (?p + (?n + (?m + ?k)))"
    using w1 by (simp_all add: wrote_def)
  have end2: "bb_end b2 = bb_end b1" using w2 end1 by (simp add: wrote_def len)
  have same: "bb_bit (bb_buffer b2) i = bb_bit (bb_buffer b1) i"
    if "i < ?p + ?n \<or> ?p + ?n + ?m \<le> i \<and> i < bb_end b1" for i
    using w2 that by (auto simp: wrote_def len)
  have all1: "bb_slice (bb_buffer b1) ?p (?p + (?n + (?m + ?k))) = xs @ ys @ zs"
    using w1 by (simp add: wrote_def)
  have bit1: "bb_bit (bb_buffer b1) (?p + i) = (xs @ ys @ zs) ! i" if "i < ?n + (?m + ?k)" for i
    unfolding all1 [symmetric] using that by simp
  have s2: "bb_slice (bb_buffer b2) (?p + ?n) (?p + ?n + ?m) = ys'"
    using w2 by (simp add: wrote_def len)
  have bit2: "bb_bit (bb_buffer b2) (?p + ?n + i) = ys' ! i" if "i < ?m" for i
    unfolding s2 [symmetric] using that by simp
  have "bb_slice (bb_buffer b2) ?p (?p + (?n + (?m + ?k))) = xs @ ys' @ zs"
  proof (rule nth_equalityI)
    fix i assume "i < length (bb_slice (bb_buffer b2) ?p (?p + (?n + (?m + ?k))))"
    then have i: "i < ?n + (?m + ?k)" by simp
    show "bb_slice (bb_buffer b2) ?p (?p + (?n + (?m + ?k))) ! i = (xs @ ys' @ zs) ! i"
    proof (cases "?n \<le> i \<and> i < ?n + ?m")
      case True
      then obtain j where "i = ?n + j" "j < ?m" by (metis add_less_cancel_left le_Suc_ex)
      then show ?thesis using bit2 [of j] i len by (simp add: nth_append add.assoc)
    next
      case False
      then have "bb_bit (bb_buffer b2) (?p + i) = bb_bit (bb_buffer b1) (?p + i)"
        using i end1 by (intro same) auto
      then show ?thesis using bit1 [OF i] False i len by (auto simp: nth_append)
    qed
  qed (simp add: len)
  moreover have "bb_wf (b2\<lparr>bb_pos := bb_pos b1\<rparr>)"
    using w1 w2 pos1 end1 end2 by (auto simp: wrote_def bb_wf_def)
  ultimately show ?thesis
    using w1 w2 pos1 end1 end2 same len by (auto simp: wrote_def)
qed

lemma emits_type34_header: "unat i < 16 \<Longrightarrow> emits (write_type34_header_generic i) (type34_header i)"
  unfolding write_type34_header_generic_def type34_header_def
  by (intro emits_then_Cons emits_write_pbit_const emits_bits) simp_all

lemma set_raw_pos_Ok: "bb_start b \<le> p \<Longrightarrow> p \<le> bb_end b \<Longrightarrow> set_raw_pos p b = Ok () (b\<lparr>bb_pos := p\<rparr>)"
  by (simp add: set_raw_pos_def)

lemma emits_type3_struct:
  assumes "emits (w v) bs" and i: "unat i < 16" and "length bs < 2048"
  shows "emits (write_type3_struct True (Some v) i w) (type3_bits i bs)"
  unfolding emits_def
proof (intro allI impI)
  fix b assume c: "can_write (length (type3_bits i bs)) b"
  let ?L = "of_nat (length bs) :: u64" and ?z = "msb_bits 11 (0 :: u64)"
  have c': "can_write (5 + (11 + length bs)) b"
    using c by (simp add: type3_bits_def type34_header_def)
  have h5: "length (type34_header i) = 5" by (simp add: type34_header_def)
  have "can_write (length (type34_header i)) b" using c' h5 by (auto intro: can_write_mono)
  then obtain b1 where b1: "write_type34_header_generic i b = Ok () b1" "wrote b (type34_header i) b1"
    by (rule emitsD [OF emits_type34_header [OF i]])
  have c1: "can_write (11 + length bs) b1" using c' b1(2) h5 by (rule can_write_after)
  then have "can_write (length ?z) b1" by (auto intro: can_write_mono)
  then obtain b2 where b2: "write_bits 0 11 b1 = Ok () b2" "wrote b1 ?z b2"
    by (rule emitsD [OF emits_bits, rotated 2]) simp_all
  have "can_write (length bs) b2" using c1 b2(2) by (rule can_write_after) simp
  then obtain b3 where b3: "w v b2 = Ok () b3" "wrote b2 bs b3" by (rule emitsD [OF assms(1)])
  have w123: "wrote b (type34_header i @ ?z @ bs) b3"
    using wrote_trans [OF b1(2) wrote_trans [OF b2(2) b3(2)]] .
  have pos: "bb_pos b1 = bb_pos b + 5" "bb_pos b3 = bb_pos b + (16 + length bs)"
    using b1(2) w123 h5 by (simp_all add: wrote_def)
  let ?b3 = "b3\<lparr>bb_pos := bb_pos b + length (type34_header i)\<rparr>"
  have wf3: "bb_wf b3" and bnd: "bb_start b3 \<le> bb_pos b" "bb_pos b + (16 + length bs) \<le> bb_end b3"
    using w123 c h5 by (auto simp: wrote_def can_write_def bb_wf_def)
  then have "can_write (length (msb_bits 11 ?L)) ?b3"
    using h5 by (auto simp: can_write_def bb_wf_def)
  then obtain b4 where b4: "write_bits ?L 11 ?b3 = Ok () b4" "wrote ?b3 (msb_bits 11 ?L) b4"
    by (rule emitsD [OF emits_bits, rotated 2]) (use assms(3) in \<open>simp_all add: unat_of_nat_word\<close>)
  have w: "wrote b (type3_bits i bs) (b4\<lparr>bb_pos := bb_pos b3\<rparr>)"
    unfolding type3_bits_def by (rule wrote_backfill [OF w123 b4(2)]) simp
  have st4: "bb_start b4 = bb_start b3" "bb_end b4 = bb_end b3"
    using b4(2) bnd h5 by (auto simp: wrote_def)
  have "set_raw_pos (bb_pos b3) b4 = Ok () (b4\<lparr>bb_pos := bb_pos b3\<rparr>)"
    using bnd pos(2) by (intro set_raw_pos_Ok) (simp_all add: st4)
  moreover have "set_raw_pos (bb_pos b1) b3 = Ok () ?b3"
    using bnd pos(1) h5 set_raw_pos_Ok [of b3 "bb_pos b + 5"] by simp
  ultimately have "write_type3_struct True (Some v) i w b = Ok () (b4\<lparr>bb_pos := bb_pos b3\<rparr>)"
    using b1(1) b2(1) b3(1) b4(1) pos by (simp add: write_type3_struct_def)
  with w show "\<exists>b'. write_type3_struct True (Some v) i w b = Ok () b' \<and> wrote b (type3_bits i bs) b'"
    by blast
qed

lemma emits_type3_absent: "emits (write_type3_struct obit None i w) []" "emits (write_type3_generic obit None i) []"
  by (simp_all add: write_type3_struct_def write_type3_generic_def emits_ret)

section \<open>Generic type-3 elements\<close>

definition type3_generic_bits :: "type3_field_generic \<Rightarrow> bool list" where
  "type3_generic_bits e = type3_bits (t3_field_id e) (msb_bits (t3_len e) (t3_data e))"

definition type3_generic_ok :: "type3_field_generic \<Rightarrow> bool" where
  "type3_generic_ok e \<longleftrightarrow> unat (t3_field_id e) < 16 \<and> t3_len e \<le> 128 \<and> unat (t3_data e) < 2 ^ t3_len e"

lemma parses_read_or_ended:
  "n \<le> 64 \<Longrightarrow> length xs = n \<Longrightarrow> parses (read_or_ended n s) xs (of_bits xs)"
  unfolding read_or_ended_def by (rule parses_bind_end [OF parses_read_bits]) (simp_all add: parses_ret)

lemma of_bits_128:
  assumes "length ys = 64" and "length xs \<le> 64"
  shows "push_bit 64 (ucast (of_bits xs :: u64)) OR ucast (of_bits ys :: u64) = (of_bits (xs @ ys) :: 128 word)"
  using assms by (intro bit_word_eqI)
    (auto simp: bit_or_iff bit_push_bit_iff bit_ucast_iff bit_of_bits nth_append)

lemma of_bits_ucast: "length xs \<le> 64 \<Longrightarrow> ucast (of_bits xs :: u64) = (of_bits xs :: 128 word)"
  by (intro bit_word_eqI) (auto simp: bit_ucast_iff bit_of_bits)

lemma parses_type3_generic:
  assumes "type3_generic_ok e"
  shows "parses (parse_type3_generic True (t3_field_id e)) (type3_generic_bits e) (Some e)"
  unfolding parses_def
proof (intro allI impI)
  fix b rs
  let ?n = "t3_len e" and ?D = "msb_bits (t3_len e) (t3_data e)"
  assume wf: "bb_wf b" and u: "unread b = type3_generic_bits e @ rs"
  have n: "?n \<le> 128" "unat (t3_field_id e) < 16" using assms by (simp_all add: type3_generic_ok_def)
  have data: "of_bits ?D = t3_data e" using assms by (simp add: type3_generic_ok_def)
  have "unread b = type34_header (t3_field_id e) @ msb_bits 11 (of_nat ?n :: u64) @ (?D @ rs)"
    using u by (simp add: type3_generic_bits_def type3_bits_def)
  note h = header_read [OF wf this n(2)]
  let ?rd = "if ?n \<le> 64
             then bindM (read_or_ended ?n ''parse_type3_generic data'') (\<lambda>v. retM (ucast v))
             else bindM (read_or_ended (?n - 64) ''parse_type3_generic data (high)'') (\<lambda>hi.
                  bindM (read_or_ended 64 ''parse_type3_generic data (low)'') (\<lambda>lo.
                  retM (push_bit 64 (ucast hi) OR ucast lo)))"
  have "parses ?rd ?D (t3_data e)"
  proof (cases "?n \<le> 64")
    case True
    then show ?thesis
      using data by (auto intro!: parses_cong [OF parses_map [OF parses_read_or_ended]] simp: of_bits_ucast)
  next
    case False
    define m where "m = ?n - 64"
    have split: "?D = msb_bits m (drop_bit 64 (t3_data e)) @ msb_bits 64 (t3_data e)" and m: "m \<le> 64" "?n = m + 64"
      using False n msb_bits_append [of m 64 "t3_data e"] by (simp_all add: m_def)
    then have "push_bit 64 (ucast (of_bits (msb_bits m (drop_bit 64 (t3_data e))) :: u64))
        OR ucast (of_bits (msb_bits 64 (t3_data e)) :: u64) = t3_data e"
      using of_bits_128 [of "msb_bits 64 (t3_data e)" "msb_bits m (drop_bit 64 (t3_data e))"] data by simp
    then show ?thesis
      unfolding split using False m
      by (auto intro!: parses_bind [OF parses_read_or_ended] parses_cong [OF parses_map [OF parses_read_or_ended]])
  qed
  then have "?rd (bb_adv 16 b) = Ok (t3_data e) (bb_adv (length ?D) (bb_adv 16 b))"
    using h(3,4) n(1) by (intro parsesD) auto
  then show "parse_type3_generic True (t3_field_id e) b = Ok (Some e) (bb_adv (length (type3_generic_bits e)) b)"
    using h(1,2) n(1)
    by (simp add: parse_type3_generic_def Let_def type3_generic_bits_def type3_bits_def type34_header_def
        cong: if_cong split del: if_split)
qed

lemma emits_type3_generic:
  assumes "type3_generic_ok e"
  shows "emits (write_type3_generic True (Some e) (t3_field_id e)) (type3_generic_bits e)"
proof -
  let ?n = "t3_len e" and ?d = "t3_data e"
  have ok: "unat (t3_field_id e) < 16" "?n \<le> 128" "unat ?d < 2 ^ ?n" using assms by (simp_all add: type3_generic_ok_def)
  have len: "emits (write_bits (of_nat ?n) 11) (msb_bits 11 (of_nat ?n :: u64))"
    using ok(2) by (intro emits_bits) (simp_all add: unat_of_nat_word)
  have "emits (if ?n \<le> 64 then write_bits (ucast ?d) ?n
          else thenM (write_bits (ucast (drop_bit 64 ?d)) (?n - 64)) (write_bits (ucast ?d) 64)) (msb_bits ?n ?d)"
  proof (cases "?n \<le> 64")
    case True
    then have "unat ?d < 2 ^ 64" using ok(3) less_power2_mono by blast
    then have "emits (write_bits (ucast ?d) ?n) (msb_bits ?n (ucast ?d :: u64))"
      using True ok(3) by (intro emits_bits) (simp_all add: unat_ucast_small)
    then show ?thesis using True by (simp add: msb_bits_ucast)
  next
    case False
    define m where "m = ?n - 64"
    have m: "m \<le> 64" "?n = m + 64" using False ok(2) by (simp_all add: m_def)
    have "unat (drop_bit 64 ?d) = unat ?d div 2 ^ 64" by (metis drop_bit_eq_div unat_drop_bit_eq)
    moreover have "unat ?d < 2 ^ m * 2 ^ 64" using ok(3) m(2) by (simp add: power_add)
    ultimately have "unat (drop_bit 64 ?d) < 2 ^ m" by (simp only: less_mult_imp_div_less)
    moreover from less_power2_mono [OF m(1) this] have "unat (drop_bit 64 ?d) < 2 ^ LENGTH(64)" by simp
    ultimately have "emits (write_bits (ucast (drop_bit 64 ?d)) m) (msb_bits m (ucast (drop_bit 64 ?d) :: u64))"
      using m(1) by (intro emits_bits) (simp_all add: unat_ucast_small)
    moreover have "emits (write_bits (ucast ?d) 64) (msb_bits 64 (ucast ?d :: u64))"
      using unsigned_less [of "ucast ?d :: u64"] by (intro emits_bits) simp_all
    ultimately have "emits (thenM (write_bits (ucast (drop_bit 64 ?d)) m) (write_bits (ucast ?d) 64))
        (msb_bits m (ucast (drop_bit 64 ?d) :: u64) @ msb_bits 64 (ucast ?d :: u64))"
      by (rule emits_then)
    then show ?thesis using False m by (simp add: msb_bits_ucast msb_bits_append [of m 64])
  qed
  with len ok(1) show ?thesis
    unfolding write_type3_generic_def type3_generic_bits_def type3_bits_def
    by (auto intro!: emits_then emits_type34_header)
qed

text \<open>A payload longer than 128 bits that the buffer does not hold makes the forward seek panic.\<close>

lemma parse_type3_generic_panics:
  assumes wf: "bb_wf b"
    and u: "unread b = type34_header i @ msb_bits 11 (of_nat len :: u64) @ rs"
    and i: "unat i < 16" and len: "len < 2048" "128 \<le> length rs" "length rs < len"
  shows "parse_type3_generic True i b = Panic"
proof -
  note h = header_read [OF wf u i len(1)]
  have l: "128 \<le> length (unread (bb_adv 16 b))" "64 \<le> length (unread (bb_adv 16 b))" unfolding h(4) using len by simp_all
  have "read_or_ended 64 s (bb_adv 16 b) = Ok (of_bits (take 64 rs)) (bb_adv 80 b)" for s
    using read_bits_eq [OF h(3), of 64] l by (simp only: read_or_ended_def h(4)) simp
  moreover have "bb_wf (bb_adv 80 b)" using bb_wf_adv [OF h(3) l(2)] by simp
  moreover have "length (unread (bb_adv 80 b)) = length rs - 64"
    using unread_adv [OF l(2)] h(4) by simp
  then have "64 \<le> length (unread (bb_adv 80 b))" using len by simp
  then have "\<exists>v. read_or_ended 64 s (bb_adv 80 b) = Ok v (bb_adv 144 b)" for s
    using read_bits_eq [OF \<open>bb_wf (bb_adv 80 b)\<close>, of 64] by (simp only: read_or_ended_def) simp
  then obtain v where "read_or_ended 64 ''parse_type3_generic data (low)'' (bb_adv 80 b) = Ok v (bb_adv 144 b)" ..
  moreover have "seek_rel (int len - 128) (bb_adv 144 b) = Panic"
  proof -
    have "length (unread (bb_adv 16 b)) = length rs" using h(4) by simp
    then have "bb_end b = bb_pos b + 16 + length rs" using wf l unfolding bb_wf_def by simp
    then show ?thesis using len by (simp add: seek_rel_def Let_def)
  qed
  ultimately show ?thesis
    using h(1,2) len by (simp add: parse_type3_generic_def Let_def)
qed

section \<open>Type-4 elements round-trip\<close>

definition type4_bits :: "u64 \<Rightarrow> nat \<Rightarrow> bool list \<Rightarrow> bool list" where
  "type4_bits i n bs = type34_header i @ msb_bits 11 (of_nat (length bs + 6) :: u64)
     @ msb_bits 6 (of_nat n :: u64) @ bs"

lemma emits_forM:
  "(\<And>x. x \<in> set xs \<Longrightarrow> emits (w x) (bits x)) \<Longrightarrow> emits (forM xs w) (concat (map bits xs))"
  by (induction xs) (auto intro: emits_ret emits_then)

lemma parses_parse_elems:
  "(\<And>x. x \<in> set xs \<Longrightarrow> parses p (bits x) (norm x)) \<Longrightarrow>
   parses (parse_elems (length xs) p) (concat (map bits xs)) (map norm xs)"
proof (induction xs)
  case Nil
  show ?case by (simp add: parses_ret)
next
  case (Cons x xs)
  then show ?case by (auto intro!: parses_bind [of p "bits x" "norm x"] parses_map)
qed

lemma safe_parse_elems [safe_rules]: "safe p \<Longrightarrow> safe (parse_elems n p)"
  by (induction n) (auto intro: safe_rules)

lemma type4_header_read:
  assumes wf: "bb_wf b" and u: "unread b = type4_bits i n bs @ rs"
    and i: "unat i < 16" and n: "0 < n" "n \<le> 63" and len: "length bs + 6 < 2048"
  shows "parse_type4_header i b = Ok (Some (n, length bs)) (bb_adv 22 b)"
    and "bb_wf (bb_adv 22 b)" and "unread (bb_adv 22 b) = bs @ rs"
proof -
  have "unread b = type34_header i @ msb_bits 11 (of_nat (length bs + 6) :: u64)
      @ (msb_bits 6 (of_nat n :: u64) @ bs @ rs)" using u by (simp add: type4_bits_def)
  note h = header_read [OF wf this i len]
  have n': "unat (of_nat n :: u64) = n" using n by (intro unat_of_nat_word) simp
  have le: "6 \<le> length (unread (bb_adv 16 b))" unfolding h(4) by simp
  have "read_or_ended 6 s (bb_adv 16 b) = Ok (of_nat n) (bb_adv 22 b)" for s
    using parsesD [OF parses_read_or_ended [of 6 "msb_bits 6 (of_nat n :: u64)" s] h(3,4)] n n' by simp
  then show "parse_type4_header i b = Ok (Some (n, length bs)) (bb_adv 22 b)"
    using h(1,2) n n' by (simp add: parse_type4_header_def Let_def)
  show "bb_wf (bb_adv 22 b)" using bb_wf_adv [OF h(3) le] by simp
  show "unread (bb_adv 22 b) = bs @ rs" using unread_adv [OF le] h(4) by simp
qed

lemma parses_type4_struct:
  assumes elems: "\<And>x. x \<in> set xs \<Longrightarrow> parses p (bits x) (norm x)" and i: "unat i < 16"
    and n: "xs \<noteq> []" "length xs \<le> 63" and len: "length (concat (map bits xs)) + 6 < 2048"
  shows "parses (parse_type4_struct True i p) (type4_bits i (length xs) (concat (map bits xs)))
           (Some (map norm xs))"
  unfolding parses_def
proof (intro allI impI)
  let ?B = "concat (map bits xs)"
  fix b rs assume wf: "bb_wf b" and u: "unread b = type4_bits i (length xs) ?B @ rs"
  note h = type4_header_read [OF wf u i _ n(2) len]
  have pos: "0 < length xs" using n(1) by simp
  have pe: "parse_elems (length xs) p (bb_adv 22 b) = Ok (map norm xs) (bb_adv (length ?B) (bb_adv 22 b))"
    by (rule parsesD [OF parses_parse_elems [OF elems] h(2,3)]) (simp_all add: n(1))
  have le: "length ?B \<le> length (unread (bb_adv 22 b))" unfolding h(3) [OF pos] by simp
  have st: "bb_start b \<le> bb_pos b" using wf by (simp add: bb_wf_def)
  show "parse_type4_struct True i p b
      = Ok (Some (map norm xs)) (bb_adv (length (type4_bits i (length xs) ?B)) b)"
    using h(1) [OF pos] pe get_pos_eq [OF h(2) [OF pos]] get_pos_eq [OF bb_wf_adv [OF h(2) [OF pos] le]] st
    by (simp add: parse_type4_struct_def type4_bits_def type34_header_def)
qed

lemma emits_type4_struct:
  assumes elems: "\<And>x. x \<in> set xs \<Longrightarrow> emits (w x) (bits x)" and i: "unat i < 16"
    and n: "xs \<noteq> []" "length xs \<le> 63" and len: "length (concat (map bits xs)) + 6 < 2048"
  shows "emits (write_type4_struct True (Some xs) i w) (type4_bits i (length xs) (concat (map bits xs)))"
  unfolding emits_def
proof (intro allI impI)
  let ?B = "concat (map bits xs)" and ?new = "bb_new_autoexpand (max (length xs * 64) 64)"
  fix b assume c: "can_write (length (type4_bits i (length xs) ?B)) b"
  obtain pl where pl: "forM xs w ?new = Ok () pl" "wrote ?new ?B pl"
    using emits_forM [OF elems] can_write_new(2) by (rule emitsD)
  let ?pl = "pl\<lparr>bb_pos := bb_start pl\<rparr>"
  have z: "bb_start pl = 0" "bb_end pl = length ?B" and wf: "bb_wf pl"
    using pl(2) by (simp_all add: wrote_def bb_new_autoexpand_def)
  have u: "unread ?pl = ?B" using wrote_unread_from [OF pl(2)] z by (simp add: bb_new_autoexpand_def)
  have sk: "seek 0 pl = Ok () ?pl" using wf by (simp add: seek_def bb_wf_def)
  have gl: "get_len pl = Ok (length ?B) pl" using get_len_eq [OF wf] z by simp
  let ?wr = "thenM (write_type34_header_generic i)
      (thenM (write_bits (of_nat (length ?B + 6)) 11)
      (thenM (write_bits (of_nat (length xs)) 6)
      (bindM (copy_bits ?pl (length ?B)) (\<lambda>_. retM ()))))"
  have "bb_wf ?pl" using wf by (simp add: bb_wf_def)
  then have "emits (bindM (copy_bits ?pl (length ?B)) (\<lambda>_. retM ())) ?B"
    using emits_copy_bits [of ?pl "length ?B"] u by simp
  then have "emits ?wr (type4_bits i (length xs) ?B)"
    unfolding type4_bits_def using i n len
    by (intro emits_then emits_type34_header emits_bits) (simp_all add: unat_of_nat_word del: of_nat_add)
  then obtain b' where "?wr b = Ok () b'" "wrote b (type4_bits i (length xs) ?B) b'"
    using c by (rule emitsD)
  moreover have "write_type4_struct True (Some xs) i w b = ?wr b"
    using n len by (simp add: write_type4_struct_def pl(1) gl sk Let_def)
  ultimately show "\<exists>b'. write_type4_struct True (Some xs) i w b = Ok () b' \<and> wrote b (type4_bits i (length xs) ?B) b'"
    by auto
qed

text \<open>What \<open>write_type4_struct\<close> refuses, it refuses before touching the destination.\<close>

lemma write_type4_struct_err_unchanged:
  assumes "write_type4_struct obit v i w b = Err e b'" and "can_write 22 b" and "unat i < 16"
    and "bb_autoexpand b" and "bb_pos b = bb_end b"
    and copy: "\<And>xs pl. v = Some xs \<Longrightarrow> forM xs w (bb_new_autoexpand (max (length xs * 64) 64)) = Ok () pl \<Longrightarrow> bb_wf pl"
  shows "b' = b"
proof (cases v)
  case None
  then show ?thesis using assms(1) by (simp add: write_type4_struct_def)
next
  case (Some xs)
  let ?new = "bb_new_autoexpand (max (length xs * 64) 64)"
  show ?thesis
  proof (cases "obit \<and> xs \<noteq> [] \<and> length xs \<le> 63 \<and> (\<exists>pl. forM xs w ?new = Ok () pl \<and> bb_end pl - bb_start pl + 6 \<le> 2047)")
    case True
    then obtain pl where pl: "forM xs w ?new = Ok () pl" "bb_end pl - bb_start pl + 6 \<le> 2047" by auto
    have wf: "bb_wf pl" using copy [OF Some pl(1)] .
    let ?n = "bb_end pl - bb_start pl" and ?pl = "pl\<lparr>bb_pos := bb_start pl\<rparr>"
    have wf': "bb_wf ?pl" and sk: "seek 0 pl = Ok () ?pl" using wf by (simp_all add: seek_def bb_wf_def)
    let ?wr = "thenM (write_type34_header_generic i)
      (thenM (write_bits (of_nat (?n + 6)) 11)
      (thenM (write_bits (of_nat (length xs)) 6)
      (bindM (copy_bits ?pl ?n) (\<lambda>_. retM ()))))"
    have "emits ?wr (type34_header i @ msb_bits 11 (of_nat (?n + 6) :: u64) @ msb_bits 6 (of_nat (length xs) :: u64)
        @ take ?n (unread ?pl))"
      using assms(3) True pl(2) wf'
      by (intro emits_then emits_type34_header emits_bits emits_copy_bits) (auto simp: unat_of_nat_word simp del: of_nat_add)
    moreover have "can_write k b" for k using assms(2,4,5) by (simp add: can_write_def)
    ultimately obtain b'' where "?wr b = Ok () b''" by (auto elim: emitsD)
    moreover have "write_type4_struct obit v i w b = ?wr b"
      using True Some pl wf get_len_eq [OF wf] sk by (simp add: write_type4_struct_def Let_def)
    ultimately show ?thesis using assms(1) by simp
  next
    case False
    then show ?thesis
    proof (cases "forM xs w ?new")
      case (Ok u pl)
      have wf: "bb_wf pl" using copy [OF Some] Ok by simp
      then show ?thesis using assms(1) Some False Ok get_len_eq [OF wf]
        by (auto simp: write_type4_struct_def Let_def split: if_splits)
    qed (use assms(1) Some False in \<open>auto simp: write_type4_struct_def Let_def split: if_splits\<close>)
  qed
qed

section \<open>Parsers of elements never panic\<close>

text \<open>The length check around an element parser: the subtraction of cursors cannot underflow.\<close>

lemma safe_measured:
  assumes "safe p"
  shows "safe (bindM get_pos (\<lambda>s. bindM p (\<lambda>r. bindM get_pos (\<lambda>e.
    if s + len \<noteq> e then bindM (subM e s) (\<lambda>found. errM (InconsistentLength len found)) else retM (g r)))))"
  unfolding safe_def
proof (intro allI impI)
  fix b assume wf: "bb_wf b"
  let ?M = "bindM get_pos (\<lambda>s. bindM p (\<lambda>r. bindM get_pos (\<lambda>e.
    if s + len \<noteq> e then bindM (subM e s) (\<lambda>found. errM (InconsistentLength len found)) else retM (g r))))"
  show "case ?M b of Ok v b' \<Rightarrow> forward b b' | Err e b' \<Rightarrow> forward b b' | Panic \<Rightarrow> False"
  proof (cases "p b")
    case (Ok r b')
    have fw: "forward b b'" using safeD(2) [OF assms wf Ok] .
    have wf': "bb_wf b'" by (rule forward_wf [OF wf fw])
    have "bb_pos b - bb_start b \<le> bb_pos b' - bb_start b'" using fw by (auto simp: forward_def)
    then show ?thesis using Ok fw get_pos_eq [OF wf] get_pos_eq [OF wf'] by simp
  next
    case (Err e b')
    then show ?thesis using safeD(3) [OF assms wf Err] get_pos_eq [OF wf] by simp
  next
    case Panic
    then show ?thesis using safeD(1) [OF assms wf] by simp
  qed
qed

lemma safe_read_len_bits:
  assumes "bb_wf b" and "5 \<le> length (unread b)"
  shows "case read_len_bits s b of Ok v b' \<Rightarrow> forward b b' | Err e b' \<Rightarrow> forward b b' | Panic \<Rightarrow> False"
proof -
  have "seek_rel 5 b = Ok () (bb_adv 5 b)"
    using parsesD [OF parses_seek_rel [of "take 5 (unread b)" 5] assms(1), of "drop 5 (unread b)"] assms(2)
    by simp
  moreover have "forward b (bb_adv 5 b)" using assms(2) by (auto simp: forward_def)
  moreover have "safe (bindM (read_bits 11) (\<lambda>x. case x of Some l \<Rightarrow> retM (unat l) | None \<Rightarrow> errM (BufferEnded (Some s))))"
    by (intro safe_rules)
  then have "case bindM (read_bits 11) (\<lambda>x. case x of Some l \<Rightarrow> retM (unat l) | None \<Rightarrow> errM (BufferEnded (Some s))) (bb_adv 5 b)
      of Ok v b' \<Rightarrow> forward (bb_adv 5 b) b' | Err e b' \<Rightarrow> forward (bb_adv 5 b) b' | Panic \<Rightarrow> False"
    using bb_wf_adv [OF assms] by (simp add: safe_def)
  ultimately show ?thesis
    by (auto simp: read_len_bits_def split: outcome.splits intro: forward_trans)
qed

lemma safe_present:
  assumes "\<And>n. safe (f n)"
  shows "safe (bindM (peek_type34_mbit_and_id i) (\<lambda>present.
    if \<not> present then retM None else bindM (read_len_bits s) f))"
  unfolding safe_def
proof (intro allI impI)
  fix b assume wf: "bb_wf b"
  let ?M = "bindM (peek_type34_mbit_and_id i) (\<lambda>present.
    if \<not> present then retM None else bindM (read_len_bits s) f)"
  show "case ?M b of Ok v b' \<Rightarrow> forward b b' | Err e b' \<Rightarrow> forward b b' | Panic \<Rightarrow> False"
  proof (cases "type34_at i (unread b)")
    case True
    then have "peek_type34_mbit_and_id i b = Ok True b"
      using wf type34_at_next [OF True] by (auto simp: peek_type34_eq type34_next_def)
    moreover have "5 \<le> length (unread b)" using True by (simp add: type34_at_def)
    then have "case bindM (read_len_bits s) f b of Ok v b' \<Rightarrow> forward b b' | Err e b' \<Rightarrow> forward b b' | Panic \<Rightarrow> False"
      using safe_read_len_bits [OF wf, of s] assms forward_wf [OF wf]
      by (cases "read_len_bits s b") (fastforce simp: safe_def split: outcome.splits intro: forward_trans)+
    ultimately show ?thesis by simp
  next
    case False
    then have "peek_type34_mbit_and_id i b = Ok False b \<or> (\<exists>e. peek_type34_mbit_and_id i b = Err e b)"
      using peek_type34_eq [OF wf, of i] by simp
    then show ?thesis by (auto simp: bindM_def)
  qed
qed

lemma safe_read_or_ended [safe_rules]: "safe (read_or_ended n s)"
  unfolding read_or_ended_def by (intro safe_rules)

lemma safe_type3_struct [safe_rules]: "safe p \<Longrightarrow> safe (parse_type3_struct obit i p)"
  unfolding parse_type3_struct_def by (intro safe_if safe_ret safe_present safe_measured)

lemma safe_type4_header: "safe (parse_type4_header i)"
  unfolding parse_type4_header_def by (intro safe_present safe_rules)

lemma safe_type4_struct [safe_rules]: "safe p \<Longrightarrow> safe (parse_type4_struct obit i p)"
  unfolding parse_type4_struct_def
  by (intro safe_if safe_ret safe_bind [OF safe_type4_header] safe_option safe_prod safe_measured safe_parse_elems)

text \<open>Headers that a type-4 parser refuses.\<close>

lemma type4_header_refused:
  assumes wf: "bb_wf b" and i: "unat i < 16" and l: "l < 2048" and n: "n < 64"
    and u: "unread b = type34_header i @ msb_bits 11 (of_nat l :: u64) @ msb_bits 6 (of_nat n :: u64) @ rs"
  shows "l < 6 \<Longrightarrow> parse_type4_header i b = Err (InconsistentLength 6 l) (bb_adv 22 b)"
    and "6 \<le> l \<Longrightarrow> n = 0 \<Longrightarrow>
      parse_type4_header i b = Err (InvalidValue ''parse_type4_header num_elems'' 0) (bb_adv 22 b)"
proof -
  note h = header_read [OF wf u i l]
  have n': "unat (of_nat n :: u64) = n" using n by (intro unat_of_nat_word) simp
  have "read_or_ended 6 s (bb_adv 16 b) = Ok (of_nat n) (bb_adv 22 b)" for s
    using parsesD [OF parses_read_or_ended [of 6 "msb_bits 6 (of_nat n :: u64)" s] h(3,4)] n n' by simp
  then show "l < 6 \<Longrightarrow> parse_type4_header i b = Err (InconsistentLength 6 l) (bb_adv 22 b)"
    and "6 \<le> l \<Longrightarrow> n = 0 \<Longrightarrow>
      parse_type4_header i b = Err (InvalidValue ''parse_type4_header num_elems'' 0) (bb_adv 22 b)"
    using h(1,2) n' by (simp_all add: parse_type4_header_def Let_def)
qed

section \<open>Generic type-4 elements\<close>

definition type4_generic_ok :: "type4_field_generic \<Rightarrow> bool" where
  "type4_generic_ok e \<longleftrightarrow> unat (t4_field_id e) < 16 \<and> t4_len e \<le> 64 \<and> 0 < t4_elems e \<and> t4_elems e \<le> 63
     \<and> unat (t4_data e) < 2 ^ t4_len e"

definition type4_generic_bits :: "type4_field_generic \<Rightarrow> bool list" where
  "type4_generic_bits e = type4_bits (t4_field_id e) (t4_elems e) (msb_bits (t4_len e) (t4_data e))"

lemma parses_type4_generic:
  assumes "type4_generic_ok e"
  shows "parses (parse_type4_generic True (t4_field_id e)) (type4_generic_bits e) (Some e)"
  unfolding parses_def
proof (intro allI impI)
  fix b rs assume wf: "bb_wf b" and u: "unread b = type4_generic_bits e @ rs"
  have ok: "unat (t4_field_id e) < 16" "t4_len e \<le> 64" "0 < t4_elems e" "t4_elems e \<le> 63"
    "unat (t4_data e) < 2 ^ t4_len e" using assms by (simp_all add: type4_generic_ok_def)
  note h = type4_header_read [OF wf u [unfolded type4_generic_bits_def] ok(1,3,4)]
  have len: "length (msb_bits (t4_len e) (t4_data e)) + 6 < 2048" using ok(2) by simp
  have "read_field (t4_len e) s (bb_adv 22 b) = Ok (t4_data e) (bb_adv (t4_len e) (bb_adv 22 b))" for s
    using parsesD [OF parses_field_val [OF ok(2,5)] h(2,3)] len by simp
  then show "parse_type4_generic True (t4_field_id e) b = Ok (Some e) (bb_adv (length (type4_generic_bits e)) b)"
    using h(1) [OF len] ok(2)
    by (simp add: parse_type4_generic_def type4_generic_bits_def type4_bits_def type34_header_def Let_def)
qed

lemma emits_type4_todo:
  assumes "type4_generic_ok e"
  shows "emits (write_type4_todo True (Some e) (t4_field_id e)) (type4_generic_bits e)"
proof -
  have ok: "unat (t4_field_id e) < 16" "t4_len e \<le> 64" "0 < t4_elems e" "t4_elems e \<le> 63"
    "unat (t4_data e) < 2 ^ t4_len e" using assms by (simp_all add: type4_generic_ok_def)
  have small: "\<not> (t4_len e < 64 \<and> push_bit (t4_len e) 1 \<le> t4_data e)"
  proof
    assume a: "t4_len e < 64 \<and> push_bit (t4_len e) 1 \<le> t4_data e"
    then have "(2 :: nat) ^ t4_len e < 2 ^ LENGTH(64)" by (intro power_strict_increasing) simp_all
    then have "unat (of_nat (2 ^ t4_len e) :: u64) = 2 ^ t4_len e" by (rule unat_of_nat_word)
    then show False using a ok(5) by (simp add: word_le_nat_alt)
  qed
  have "emits (thenM (write_type34_header_generic (t4_field_id e))
              (thenM (write_bits (of_nat (t4_len e + 6)) 11)
              (thenM (write_bits (of_nat (t4_elems e)) 6)
                (write_bits (t4_data e) (t4_len e))))) (type4_generic_bits e)"
    unfolding type4_generic_bits_def type4_bits_def length_msb_bits using ok
    by (intro emits_then emits_type34_header emits_bits) (simp_all add: unat_of_nat_word del: of_nat_add)
  moreover have "write_type4_todo True (Some e) (t4_field_id e)
      = (thenM (write_type34_header_generic (t4_field_id e))
        (thenM (write_bits (of_nat (t4_len e + 6)) 11)
        (thenM (write_bits (of_nat (t4_elems e)) 6)
          (write_bits (t4_data e) (t4_len e)))))"
    using ok small by (auto simp: write_type4_todo_def)
  ultimately show ?thesis by simp
qed

section \<open>Elements as codecs\<close>

context pdu_codec
begin

text \<open>Any codec of short values, wrapped as a type-3 element, is a codec.\<close>

lemma type3_codec:
  assumes "unat i < 16" and "\<And>v. valid v \<Longrightarrow> length (bits v) < 2048"
  shows "pdu_codec (\<lambda>v. write_type3_struct True v i enc) (parse_type3_struct True i dec)
    (\<lambda>v. \<exists>a. v = Some a \<and> valid a) (\<lambda>v. type3_bits i (bits (the v))) (map_option norm)"
  using assms by unfold_locales (auto intro!: emits_type3_struct parses_type3_struct enc_emits dec_parses)

text \<open>Behind a presence bit it is a codec of optional values.\<close>

lemma type2_codec:
  "pdu_codec (\<lambda>v. write_type2_struct True v enc) (parse_type2_struct True dec)
    (\<lambda>v. \<forall>a. v = Some a \<longrightarrow> valid a) (type2_bits bits) (map_option norm)"
  by unfold_locales (auto intro!: emits_type2_struct parses_type2_struct enc_emits dec_parses)

end

interpretation t3_generic: pdu_codec "\<lambda>v. write_type3_generic True v i" "parse_type3_generic True i"
  "\<lambda>v. \<exists>e. v = Some e \<and> t3_field_id e = i \<and> type3_generic_ok e" "\<lambda>v. type3_generic_bits (the v)" "\<lambda>v. v" for i
  by unfold_locales (auto intro: emits_type3_generic parses_type3_generic)

interpretation t4_generic: pdu_codec "\<lambda>v. write_type4_todo True v i" "parse_type4_generic True i"
  "\<lambda>v. \<exists>e. v = Some e \<and> t4_field_id e = i \<and> type4_generic_ok e" "\<lambda>v. type4_generic_bits (the v)" "\<lambda>v. v" for i
  by unfold_locales (auto intro: emits_type4_todo parses_type4_generic)

section \<open>Properties\<close>

text \<open>C28: a list of up to 63 elements of any encoder/decoder pair, written as a type-4 element into
  a growing buffer, is read back element by element, and the announced length is the number of
  bits that follow.\<close>

theorem type4_list_roundtrip:
  assumes enc: "\<And>x. x \<in> set xs \<Longrightarrow> emits (w x) (bits x)" and dec: "\<And>x. x \<in> set xs \<Longrightarrow> parses p (bits x) x"
    and "unat i < 16" and "xs \<noteq> []" and "length xs \<le> 63" and "length (concat (map bits xs)) + 6 < 2048"
  shows "\<exists>b. write_type4_struct True (Some xs) i w (bb_new_autoexpand k) = Ok () b
    \<and> window b = type4_bits i (length xs) (concat (map bits xs))
    \<and> thenM (seek 0) (parse_type4_struct True i p) b = Ok (Some xs) (b\<lparr>bb_pos := bb_end b\<rparr>)"
proof -
  have "parses (parse_type4_struct True i p) (type4_bits i (length xs) (concat (map bits xs))) (Some xs)"
    using parses_type4_struct [where norm = "\<lambda>x. x", OF dec assms(3-6)] by simp
  moreover have "emits (write_type4_struct True (Some xs) i w) (type4_bits i (length xs) (concat (map bits xs)))"
    using enc assms(3-6) by (intro emits_type4_struct)
  ultimately show ?thesis by (intro emits_parses_new)
qed

theorem type4_list_roundtrip_witness:
  "\<exists>b. write_type4_struct True (Some [0x12, 0xFF, 0]) 9 (\<lambda>x. write_bits x 8) (bb_new_autoexpand 16) = Ok () b
    \<and> thenM (seek 0) (parse_type4_struct True 9 (read_field 8 ''elem'')) b = Ok (Some [0x12, 0xFF, 0]) (b\<lparr>bb_pos := bb_end b\<rparr>)"
proof -
  have "emits (write_bits x 8) (msb_bits 8 x)" "parses (read_field 8 ''elem'') (msb_bits 8 x) x" if "x \<in> set [0x12, 0xFF, 0]" for x :: u64
    using that by (auto intro!: emits_bits parses_field_val)
  from type4_list_roundtrip [where bits = "msb_bits 8" and i = 9 and k = 16, OF this] show ?thesis by fastforce
qed

text \<open>A generic type-3 element of up to 128 bits is read back as it was written.\<close>

theorem type3_generic_roundtrip:
  assumes "type3_generic_ok e"
  shows "\<exists>b. write_type3_generic True (Some e) (t3_field_id e) (bb_new_autoexpand k) = Ok () b
    \<and> window b = type3_generic_bits e
    \<and> thenM (seek 0) (parse_type3_generic True (t3_field_id e)) b = Ok (Some e) (b\<lparr>bb_pos := bb_end b\<rparr>)"
  using t3_generic.enc_dec [of "Some e" "t3_field_id e" k] assms by simp

theorem type3_generic_roundtrip_witness:
  "\<exists>b. write_type3_generic True (Some \<lparr>t3_field_id = 4, t3_len = 100, t3_data = 0x123456789ABCDEF012345\<rparr>) 4 (bb_new_autoexpand 8) = Ok () b
    \<and> thenM (seek 0) (parse_type3_generic True 4) b
        = Ok (Some \<lparr>t3_field_id = 4, t3_len = 100, t3_data = 0x123456789ABCDEF012345\<rparr>) (b\<lparr>bb_pos := bb_end b\<rparr>)"
  using type3_generic_roundtrip [of "\<lparr>t3_field_id = 4, t3_len = 100, t3_data = 0x123456789ABCDEF012345\<rparr>" 8]
  by (auto simp: type3_generic_ok_def)

text \<open>C29: whatever bits arrive, the type-3 and type-4 parsers with an element parser that does not
  panic do not panic either; they only move the cursor forward inside the window.\<close>

theorem type34_parsers_safe:
  assumes "safe p"
  shows "safe (parse_type3_struct obit i p) \<and> safe (parse_type4_struct obit i p)"
  by (intro conjI safe_type3_struct safe_type4_struct assms)

theorem type34_parsers_safe_witness:
  "safe (parse_type3_struct True 3 (read_field 24 ''ssi'')) \<and> safe (parse_type4_struct True 3 (read_field 24 ''ssi''))"
  using type34_parsers_safe [OF safe_read_field] by blast

text \<open>C30: a generic type-3 element that announces more bits than the buffer holds behind a payload
  of at least 128 bits makes the parser panic instead of returning \<open>BufferEnded\<close>.\<close>

theorem type3_generic_truncated_panics:
  assumes "bb_wf b" and "unread b = type34_header i @ msb_bits 11 (of_nat len :: u64) @ rs"
    and "unat i < 16" and "len < 2048" and "128 \<le> length rs" and "length rs < len"
  shows "parse_type3_generic True i b = Panic"
  by (rule parse_type3_generic_panics [OF assms])

theorem type3_generic_truncated_panics_witness:
  "\<exists>b. bb_wf b \<and> unread b = type34_header 2 @ msb_bits 11 (200 :: u64) @ replicate 150 False
     \<and> parse_type3_generic True 2 b = Panic"
proof -
  let ?bs = "type34_header 2 @ msb_bits 11 (200 :: u64) @ replicate 150 False"
  obtain b where b: "bb_wf b" "unread b = map (\<lambda>x. x = 1) (map of_bool ?bs :: u8 list)"
    using bb_from_bitarr_eq [of "map of_bool ?bs"] by (auto simp: image_subset_iff)
  have u: "unread b = ?bs" unfolding b(2) map_map o_def of_bool_eq_1_iff list.map_ident ..
  then have "parse_type3_generic True 2 b = Panic"
    by (intro type3_generic_truncated_panics [OF b(1), of 2 200 "replicate 150 False"]) simp_all
  then show ?thesis using b(1) u by blast
qed

end
