(* ===== verification/Crc.thy ===== *)
theory Crc
  imports Codec
begin

unbundle bit_operations_syntax

text \<open>
  The two checksums of the stack: the CRC-16 of the lower MAC
  (\<^verbatim>\<open>crates/tetra-entities/src/lmac/components/crc16.rs\<close>) and the 32-bit frame check sequence of the
  LLC (\<^verbatim>\<open>crates/tetra-entities/src/llc/components/fcs.rs\<close>).  Both are instances of one polynomial
  shift register, for which the theory proves that appending the complemented remainder leads
  to a fixed final state and that two messages which differ only inside a window no longer than
  the register never have the same remainder.
\<close>

section \<open>CRC-16: the model\<close>

definition GEN_POLY :: u16 where
  "GEN_POLY = 0x1021"

definition TETRA_CRC_OK :: u16 where
  "TETRA_CRC_OK = 0x1d0f"

definition get_nth_bit :: "u8 list \<Rightarrow> nat \<Rightarrow> u16 option" where
  "get_nth_bit input b =
     (let byte = b div 8; bit_in_byte = 7 - b mod 8 in
      if byte < length input then Some (ucast (drop_bit bit_in_byte (input ! byte) AND 1)) else None)"

definition crc16_step :: "u16 \<Rightarrow> u16 \<Rightarrow> u16" where
  "crc16_step crc b =
     (let crc = crc XOR push_bit 15 b in
      if crc AND 0x8000 \<noteq> 0 then (push_bit 1 crc + 0) XOR GEN_POLY else push_bit 1 crc)"

fun crc16_bytes_loop :: "u16 \<Rightarrow> u8 list \<Rightarrow> nat list \<Rightarrow> u16 option" where
  "crc16_bytes_loop crc input [] = Some crc"
| "crc16_bytes_loop crc input (i # is) =
     (case get_nth_bit input i of
        None \<Rightarrow> None
      | Some b \<Rightarrow> crc16_bytes_loop (crc16_step crc b) input is)"

definition crc16_itut_bytes :: "u16 \<Rightarrow> u8 list \<Rightarrow> nat \<Rightarrow> u16 option" where
  "crc16_itut_bytes crc input number_bits = crc16_bytes_loop crc input [0..<number_bits]"

definition crc16_itut_bits :: "u16 \<Rightarrow> u8 list \<Rightarrow> nat \<Rightarrow> u16" where
  "crc16_itut_bits crc input number_bits =
     foldl (\<lambda>crc b. crc16_step crc (ucast (b AND 1))) crc (take number_bits input)"

definition crc16_ccitt_bits :: "u8 list \<Rightarrow> nat \<Rightarrow> u16" where
  "crc16_ccitt_bits input len = crc16_itut_bits 0xffff input len"

section \<open>LLC frame check sequence: the model\<close>

fun fcs_loop :: "nat list \<Rightarrow> u32 \<Rightarrow> u32 bbm" where
  "fcs_loop [] crc = retM crc"
| "fcs_loop (bit_pos # ps) crc =
     bindM (peek_bits_startoffset bit_pos 1) (\<lambda>r. case r of
       None \<Rightarrow> panicM
     | Some v \<Rightarrow>
         let b = ucast v :: u8;
             feedback = (b XOR ucast (drop_bit 31 crc)) AND 1;
             crc = push_bit 1 crc
         in fcs_loop ps (if feedback \<noteq> 0 then crc XOR 0x04C11DB7 else crc))"

text \<open>The shift by \<open>32 - len\<close> overflows for an empty range.\<close>

definition compute_fcs :: "nat \<Rightarrow> nat \<Rightarrow> u32 bbm" where
  "compute_fcs start_at end_at =
     thenM (assertM (start_at \<le> end_at))
    (bindM get_len (\<lambda>total.
     thenM (assertM (end_at \<le> total))
    (let len = end_at - start_at in
     thenM (assertM (len > 0))
    (bindM (fcs_loop [start_at..<start_at + len] (if len < 32 then push_bit (32 - len) 0xFFFFFFFF else 0xFFFFFFFF))
       (\<lambda>crc. retM (NOT crc))))))"

definition check_fcs :: "bool bbm" where
  "check_fcs =
     bindM get_len_remaining (\<lambda>remaining.
     if remaining < 32 then retM False
     else
       bindM get_pos (\<lambda>pos.
       bindM get_len (\<lambda>total.
       bindM (compute_fcs pos (total - 32)) (\<lambda>fcs_computed.
       bindM (peek_bits_startoffset (total - 32) 32) (\<lambda>r. case r of
         None \<Rightarrow> panicM
       | Some v \<Rightarrow> retM (fcs_computed = ucast v))))))"

section \<open>Shift registers over a polynomial\<close>

definition crc_shift :: "'a::len word \<Rightarrow> 'a word \<Rightarrow> 'a word" where
  "crc_shift poly c = (if bit c (LENGTH('a) - 1) then (2 * c) XOR poly else 2 * c)"

definition top_bit :: "bool \<Rightarrow> 'a::len word" where
  "top_bit b = (if b then 2 ^ (LENGTH('a) - 1) else 0)"

definition crc_feed :: "'a::len word \<Rightarrow> 'a word \<Rightarrow> bool \<Rightarrow> 'a word" where
  "crc_feed poly c b = crc_shift poly (c XOR top_bit b)"

definition crc_run :: "'a::len word \<Rightarrow> 'a word \<Rightarrow> bool list \<Rightarrow> 'a word" where
  "crc_run poly c bs = foldl (crc_feed poly) c bs"

lemma crc_run_simps [simp]:
  "crc_run poly c [] = c" "crc_run poly c (b # bs) = crc_run poly (crc_feed poly c b) bs"
  "crc_run poly c (xs @ ys) = crc_run poly (crc_run poly c xs) ys"
  by (simp_all add: crc_run_def)

lemma crc_shift_xor: "crc_shift poly (x XOR y) = crc_shift poly x XOR crc_shift poly y"
  by (rule bit_word_eqI) (auto simp: crc_shift_def bit_xor_iff bit_double_iff)

lemma crc_shift_0 [simp]: "crc_shift poly 0 = 0"
  by (simp add: crc_shift_def)

lemma crc_shift_eq_0:
  assumes "bit poly 0" and "crc_shift poly c = 0"
  shows "c = (0 :: 'a::len word)"
proof -
  have "\<not> bit (crc_shift poly c) 0" using assms(2) by simp
  then have top: "\<not> bit c (LENGTH('a) - 1)"
    using assms(1) by (auto simp: crc_shift_def bit_xor_iff bit_double_iff split: if_splits)
  then have "2 * c = 0" using assms(2) by (simp add: crc_shift_def)
  then have "bit (2 * c) (Suc i) = bit (0 :: 'a word) (Suc i)" for i by simp
  then have "\<not> bit c i" if "Suc i < LENGTH('a)" for i
    using that by (simp add: bit_double_iff)
  then show ?thesis using top
    by (intro bit_word_eqI) (metis Suc_lessI bit_0_eq bot_apply diff_Suc_1 bot_bool_def)
qed

lemma crc_shift_inj:
  assumes "bit poly 0" and "crc_shift poly x = crc_shift poly y"
  shows "x = y"
proof -
  have "crc_shift poly (x XOR y) = 0" using assms(2) by (simp add: crc_shift_xor)
  then have "x XOR y = 0" by (rule crc_shift_eq_0 [OF assms(1)])
  then show ?thesis by (metis xor.left_neutral xor.assoc xor_self_eq xor.right_neutral)
qed

lemma crc_feed_inj: "bit poly 0 \<Longrightarrow> crc_feed poly x b = crc_feed poly y b \<Longrightarrow> x = y"
  unfolding crc_feed_def by (drule (1) crc_shift_inj) (metis xor.assoc xor_self_eq xor.right_neutral)

lemma crc_run_inj: "bit poly 0 \<Longrightarrow> crc_run poly x bs = crc_run poly y bs \<Longrightarrow> x = y"
  by (induction bs arbitrary: x y) (auto dest: crc_feed_inj)

lemma crc_shift_funpow_0 [simp]: "(crc_shift poly ^^ n) 0 = 0"
  by (induction n) simp_all

lemma crc_shift_funpow_xor:
  "(crc_shift poly ^^ n) (x XOR y) = (crc_shift poly ^^ n) x XOR (crc_shift poly ^^ n) y"
  by (induction n) (simp_all add: crc_shift_xor)

lemma crc_shift_funpow_inj: "bit poly 0 \<Longrightarrow> (crc_shift poly ^^ n) x = (crc_shift poly ^^ n) y \<Longrightarrow> x = y"
  by (induction n) (auto dest: crc_shift_inj)

text \<open>A single bit below the top travels up unchanged.\<close>

lemma crc_shift_funpow_bit:
  "n < LENGTH('a) \<Longrightarrow> (crc_shift poly ^^ n) (2 ^ (LENGTH('a) - 1 - n)) = (2 ^ (LENGTH('a) - 1) :: 'a::len word)"
proof (induction n)
  case (Suc n)
  let ?k = "LENGTH('a) - 1 - Suc n"
  have k: "Suc ?k = LENGTH('a) - 1 - n" using Suc.prems by simp
  have "crc_shift poly (2 ^ ?k) = (2 ^ Suc ?k :: 'a word)"
    using Suc.prems by (auto simp: crc_shift_def bit_exp_iff)
  then show ?case using Suc by (simp only: funpow_Suc_right o_apply k)
qed simp

definition left_bits :: "bool list \<Rightarrow> 'a::len word" where
  "left_bits bs = push_bit (LENGTH('a) - length bs) (of_bits bs)"

lemma bit_left_bits:
  assumes "length bs \<le> LENGTH('a)" and "i < LENGTH('a)"
  shows "bit (left_bits bs :: 'a::len word) i \<longleftrightarrow> LENGTH('a) - 1 - i < length bs \<and> bs ! (LENGTH('a) - 1 - i)"
proof (cases "LENGTH('a) - length bs \<le> i")
  case True
  have "length bs - 1 - (i - (LENGTH('a) - length bs)) = LENGTH('a) - 1 - i" using True assms by arith
  moreover have "i - (LENGTH('a) - length bs) < length bs" using True assms by arith
  moreover have "i - (LENGTH('a) - length bs) < LENGTH('a)" using assms by arith
  moreover have "LENGTH('a) - 1 - i < length bs" using True assms by arith
  ultimately show ?thesis using True assms by (simp add: left_bits_def bit_push_bit_iff bit_of_bits)
next
  case False
  then have "\<not> LENGTH('a) - 1 - i < length bs" using assms by arith
  then show ?thesis using False by (simp add: left_bits_def bit_push_bit_iff)
qed

lemma left_bits_inj:
  assumes "length xs = length ys" and "length xs \<le> LENGTH('a)" and "(left_bits xs :: 'a::len word) = left_bits ys"
  shows "xs = ys"
proof (rule nth_equalityI)
  fix i assume i: "i < length xs"
  let ?j = "LENGTH('a) - 1 - i"
  have "?j < LENGTH('a)" "LENGTH('a) - 1 - ?j = i" using i assms by arith+
  then show "xs ! i = ys ! i"
    using arg_cong [OF assms(3), of "\<lambda>w. bit w ?j"] assms(1,2) i by (simp add: bit_left_bits)
qed (rule assms(1))

lemma left_bits_snoc:
  assumes "length bs < LENGTH('a)"
  shows "(left_bits (bs @ [b]) :: 'a::len word)
     = left_bits bs XOR (if b then 2 ^ (LENGTH('a) - 1 - length bs) else 0)"
proof (rule bit_word_eqI)
  fix i assume i: "i < LENGTH('a)"
  have "bit (2 ^ (LENGTH('a) - 1 - length bs) :: 'a word) i \<longleftrightarrow> LENGTH('a) - 1 - i = length bs"
    using i assms by (auto simp: bit_exp_iff)
  then show "bit (left_bits (bs @ [b]) :: 'a word) i
      = bit (left_bits bs XOR (if b then 2 ^ (LENGTH('a) - 1 - length bs) else 0) :: 'a word) i"
    using i assms by (auto simp: bit_left_bits bit_xor_iff nth_append)
qed

lemma crc_run_word:
  "length bs \<le> LENGTH('a) \<Longrightarrow> crc_run poly c bs = (crc_shift poly ^^ length bs) (c XOR (left_bits bs :: 'a::len word))"
proof (induction bs rule: rev_induct)
  case Nil
  then show ?case by (simp add: left_bits_def)
next
  case (snoc b bs)
  let ?n = "length bs"
  have n: "?n < LENGTH('a)" using snoc.prems by simp
  have top: "(crc_shift poly ^^ ?n) (if b then 2 ^ (LENGTH('a) - 1 - ?n) else 0) = (top_bit b :: 'a word)"
    using crc_shift_funpow_bit [OF n, of poly] crc_shift_funpow_0 [of ?n poly]
    by (auto simp: top_bit_def)
  have "crc_run poly c (bs @ [b]) = crc_shift poly ((crc_shift poly ^^ ?n) (c XOR left_bits bs) XOR top_bit b)"
    using snoc.IH n by (simp add: crc_feed_def)
  also have "\<dots> = crc_shift poly ((crc_shift poly ^^ ?n) (c XOR left_bits (bs @ [b])))"
    by (simp only: left_bits_snoc [OF n] top [symmetric] xor.assoc [symmetric]) (simp add: crc_shift_funpow_xor)
  finally show ?case by simp
qed

text \<open>Appending the complemented register drives it into a state that does not depend on it.\<close>

lemma crc_run_complement:
  "crc_run poly c (msb_bits LENGTH('a) (NOT c)) = (crc_shift poly ^^ LENGTH('a)) (- 1 :: 'a::len word)"
proof -
  have "left_bits (msb_bits LENGTH('a) (NOT c)) = NOT c"
    by (rule bit_word_eqI) (simp add: bit_left_bits nth_msb_bits)
  moreover have "c XOR NOT c = - 1" by (rule bit_word_eqI) (simp add: bit_xor_iff bit_not_iff)
  ultimately show ?thesis by (simp add: crc_run_word)
qed

text \<open>Two messages that differ inside a window of at most the register's width differ in their
  remainder.\<close>

lemma crc_run_burst:
  assumes "bit poly 0" and "length u = length v" and "length u \<le> LENGTH('a)" and "u \<noteq> v"
  shows "crc_run poly (c :: 'a::len word) (p @ u @ s) \<noteq> crc_run poly c (p @ v @ s)"
proof
  let ?d = "crc_run poly c p"
  assume "crc_run poly c (p @ u @ s) = crc_run poly c (p @ v @ s)"
  then have "crc_run poly (crc_run poly ?d u) s = crc_run poly (crc_run poly ?d v) s" by simp
  then have "crc_run poly ?d u = crc_run poly ?d v" by (rule crc_run_inj [OF assms(1)])
  then have "?d XOR left_bits u = ?d XOR left_bits v"
    using assms by (simp add: crc_run_word crc_shift_funpow_inj)
  then have "left_bits u = (left_bits v :: 'a word)" by (metis xor.assoc xor_self_eq xor.left_neutral)
  then show False using left_bits_inj [OF assms(2,3)] assms(4) by blast
qed

section \<open>CRC-16 is such a register\<close>

lemma push_bit_1_double: "push_bit 1 c = 2 * (c :: 'a::len word)"
  by (simp add: mult.commute)

lemma bit_top_bit: "bit (top_bit b :: 'a::len word) i \<longleftrightarrow> b \<and> i = LENGTH('a) - 1"
  by (auto simp: top_bit_def bit_exp_iff)

lemma funpow_numeral: "(f ^^ numeral k) x = (f ^^ pred_numeral k) (f x)"
  by (simp only: numeral_eq_Suc funpow_Suc_right o_apply)

lemma crc_and_top: "c AND 0x8000 \<noteq> 0 \<longleftrightarrow> bit (c :: u16) 15"
proof -
  have "(0x8000 :: u16) = 2 ^ 15" by simp
  then show ?thesis by (simp only: and_exp_eq_0_iff_not_bit not_not)
qed

lemma crc16_step_feed: "crc16_step crc (of_bool b) = crc_feed GEN_POLY crc b"
proof -
  have "push_bit 15 (of_bool b) = (top_bit b :: u16)" by (simp add: top_bit_def)
  moreover have "crc_shift GEN_POLY c = (if c AND 0x8000 \<noteq> 0 then (push_bit 1 c + 0) XOR GEN_POLY else push_bit 1 c)" for c
    unfolding crc_and_top crc_shift_def push_bit_1_double by simp
  ultimately show ?thesis by (simp only: crc16_step_def crc_feed_def Let_def)
qed

lemma byte_and_1: "(ucast ((b :: u8) AND 1) :: u16) = of_bool (bit b 0)"
  using and_1_bit [of 0 b] by simp

lemma crc16_itut_bits_run:
  "crc16_itut_bits crc input n = crc_run GEN_POLY crc (map (\<lambda>b. bit b 0) (take n input))"
proof -
  have "foldl (\<lambda>crc b. crc16_step crc (ucast (b AND 1))) crc xs = crc_run GEN_POLY crc (map (\<lambda>b. bit b 0) xs)" for xs :: "u8 list"
    by (induction xs arbitrary: crc) (simp_all add: byte_and_1 crc16_step_feed)
  then show ?thesis by (simp add: crc16_itut_bits_def)
qed

text \<open>The byte-stream variant computes the same register over the bits of the bytes.\<close>

lemma crc16_bytes_loop_run:
  "\<forall>i \<in> set is. i < 8 * length input \<Longrightarrow>
   crc16_bytes_loop crc input is = Some (crc_run GEN_POLY crc (map (bb_bit input) is))"
proof (induction "is" arbitrary: crc)
  case (Cons i "is")
  have "i div 8 < length input" using Cons.prems by (simp add: less_mult_imp_div_less mult.commute)
  then have "get_nth_bit input i = Some (of_bool (bb_bit input i))"
    by (simp add: get_nth_bit_def Let_def bb_bit_def and_1_bit)
  then show ?case using Cons by (simp add: crc16_step_feed)
qed simp

lemma crc16_itut_bytes_run:
  "n \<le> 8 * length input \<Longrightarrow> crc16_itut_bytes crc input n = Some (crc_run GEN_POLY crc (bb_slice input 0 n))"
  unfolding crc16_itut_bytes_def bb_slice_def by (intro crc16_bytes_loop_run) auto

lemma GEN_POLY_odd: "bit GEN_POLY 0"
  by (simp add: GEN_POLY_def)

lemma crc16_residue: "(crc_shift GEN_POLY ^^ 16) (- 1) = TETRA_CRC_OK"
  by (simp add: crc_shift_def GEN_POLY_def TETRA_CRC_OK_def funpow_numeral)

section \<open>The frame check sequence is such a register\<close>

definition FCS_POLY :: u32 where
  "FCS_POLY = 0x04C11DB7"

definition fcs_init :: "nat \<Rightarrow> u32" where
  "fcs_init len = (if len < 32 then push_bit (32 - len) 0xFFFFFFFF else 0xFFFFFFFF)"

definition fcs_of :: "bool list \<Rightarrow> u32" where
  "fcs_of bs = NOT (crc_run FCS_POLY (fcs_init (length bs)) bs)"

lemma fcs_feedback:
  "(if (of_bool b XOR ucast (drop_bit 31 crc)) AND 1 \<noteq> (0 :: u8) then push_bit 1 crc XOR 0x04C11DB7 else push_bit 1 crc)
     = crc_feed FCS_POLY crc b"
proof -
  have "(of_bool b XOR ucast (drop_bit 31 crc)) AND 1 = (of_bool (b \<noteq> bit crc 31) :: u8)"
    by (rule bit_word_eqI) (auto simp: bit_and_iff bit_xor_iff bit_1_iff bit_ucast_iff bit_drop_bit_eq bit_of_bool_iff)
  moreover have "bit (crc XOR top_bit b) 31 = (b \<noteq> bit crc 31)"
    by (auto simp: bit_xor_iff bit_top_bit)
  moreover have "2 * (crc XOR top_bit b) = push_bit 1 crc"
    unfolding push_bit_1_double by (rule bit_word_eqI) (auto simp: bit_double_iff bit_xor_iff bit_top_bit)
  ultimately show ?thesis by (cases b; cases "bit crc 31"; simp add: crc_feed_def crc_shift_def FCS_POLY_def)
qed

lemma peek_bit_startoffset:
  assumes "bb_wf b" and "bb_start b + p < bb_end b"
  shows "peek_bits_startoffset p 1 b = Ok (Some (of_bool (window b ! p))) b"
proof -
  have "read_bits_at_unchecked (bb_start b + p) 1 b = Ok (of_bits (bb_slice (bb_buffer b) (bb_start b + p) (bb_start b + p + 1))) b"
    using assms by (intro read_bits_at_unchecked_eq) (auto simp: bb_wf_def)
  moreover have "bb_slice (bb_buffer b) (bb_start b + p) (bb_start b + p + 1) = [window b ! p]"
    using assms by (simp add: window_def bb_slice_def)
  ultimately show ?thesis using assms by (simp add: peek_bits_startoffset_def Let_def of_bits_single)
qed

lemma fcs_loop_run:
  assumes "bb_wf b" and "\<forall>p \<in> set ps. bb_start b + p < bb_end b"
  shows "fcs_loop ps crc b = Ok (crc_run FCS_POLY crc (map (\<lambda>p. window b ! p) ps)) b"
  using assms(2)
proof (induction ps arbitrary: crc)
  case (Cons p ps)
  have "peek_bits_startoffset p 1 b = Ok (Some (of_bool (window b ! p))) b"
    using Cons.prems by (intro peek_bit_startoffset [OF assms(1)]) simp
  moreover have "(ucast (of_bool x :: u64) :: u8) = of_bool x" for x by simp
  ultimately show ?case
    using Cons by (simp add: Let_def fcs_feedback del: One_nat_def)
qed simp

lemma compute_fcs_eq:
  assumes "bb_wf b" and "s < e" and "e \<le> length (window b)"
  shows "compute_fcs s e b = Ok (fcs_of (take (e - s) (drop s (window b)))) b"
proof -
  have len: "length (window b) = bb_end b - bb_start b" by (simp add: window_def)
  have "map (\<lambda>p. window b ! p) [s..<e] = take (e - s) (drop s (window b))"
    using assms(2,3) by (intro nth_equalityI) auto
  moreover have "fcs_loop [s..<e] c b = Ok (crc_run FCS_POLY c (map (\<lambda>p. window b ! p) [s..<e])) b" for c
    using assms len by (intro fcs_loop_run) auto
  moreover have "length (take (e - s) (drop s (window b))) = e - s" using assms by simp
  ultimately show ?thesis
    using assms len get_len_eq [OF assms(1)]
    by (simp add: compute_fcs_def Let_def fcs_of_def fcs_init_def)
qed

lemma window_drop_unread: "bb_wf b \<Longrightarrow> drop (bb_pos b - bb_start b) (window b) = unread b"
  using window_split [of b] by (simp add: written_def)

lemma check_fcs_short: "bb_wf b \<Longrightarrow> length (unread b) < 32 \<Longrightarrow> check_fcs b = Ok False b"
  by (simp add: check_fcs_def get_len_remaining_eq)

lemma check_fcs_eq:
  assumes wf: "bb_wf b" and u: "unread b = body @ tail" and tl: "length tail = 32" and nz: "body \<noteq> []"
  shows "check_fcs b = Ok (tail = msb_bits 32 (fcs_of body)) b"
proof -
  let ?p = "bb_pos b - bb_start b" and ?l = "bb_end b - bb_start b"
  have len: "length (unread b) = length body + 32" using u tl by simp
  then have pl: "?p + length body + 32 = ?l" "bb_end b - bb_pos b = length body + 32"
    using wf unfolding bb_wf_def length_unread by linarith+
  have lw: "length (window b) = ?l" by (simp add: window_def)
  have "take (?l - 32 - ?p) (drop ?p (window b)) = body"
    unfolding window_drop_unread [OF wf] u using pl(1) by (simp add: flip: pl(1))
  moreover have "compute_fcs ?p (?l - 32) b = Ok (fcs_of (take (?l - 32 - ?p) (drop ?p (window b)))) b"
    using pl nz lw by (intro compute_fcs_eq [OF wf]) (auto simp flip: pl(1))
  moreover have "peek_bits_startoffset (?l - 32) 32 b = Ok (Some (of_bits tail)) b"
  proof -
    have "bindM get_pos (\<lambda>p. peek_bits_startoffset (p + length body) 32) b = peek_bits_posoffset (length body) 32 b"
      by (simp add: peek_bits_posoffset_def)
    then have "peek_bits_startoffset (?p + length body) 32 b = Ok (Some (of_bits (take 32 (drop (length body) (unread b))))) b"
      using wf len by (simp add: get_pos_eq peek_bits_posoffset_eq)
    moreover have "?p + length body = ?l - 32" using pl(1) by simp
    ultimately show ?thesis using u tl by simp
  qed
  moreover have "ucast (of_bits tail :: u64) = (of_bits tail :: u32)"
    using tl by (intro bit_word_eqI) (auto simp: bit_ucast_iff bit_of_bits)
  ultimately have "check_fcs b = Ok (fcs_of body = of_bits tail) b"
    using pl(2) by (simp add: check_fcs_def get_len_remaining_eq [OF wf] get_pos_eq [OF wf] get_len_eq [OF wf] len)
  moreover have "fcs_of body = of_bits tail \<longleftrightarrow> tail = msb_bits 32 (fcs_of body)"
    using tl msb_bits_of_bits [of tail, where ?'a = 32] of_bits_msb_bits [of 32 "fcs_of body"]
    by (auto simp: take_bit_word_eq_self)
  ultimately show ?thesis by simp
qed

lemma FCS_POLY_odd: "bit FCS_POLY 0"
  by (simp add: FCS_POLY_def)

lemma fcs_burst:
  assumes "length u = length v" and "length u \<le> 32" and "u \<noteq> v"
  shows "fcs_of (p @ u @ s) \<noteq> fcs_of (p @ v @ s)"
proof -
  have "crc_run FCS_POLY c (p @ u @ s) \<noteq> crc_run FCS_POLY c (p @ v @ s)" for c
    using assms by (intro crc_run_burst [OF FCS_POLY_odd]) simp_all
  then show ?thesis using assms(1) by (simp add: fcs_of_def bit.compl_eq_compl_iff)
qed

section \<open>Properties\<close>

text \<open>C31: the CRC-16 that the encoder appends (the complemented register, most significant bit
  first) makes the decoder's check over the block and its CRC succeed, and a received block of
  which any 16 consecutive bits were corrupted fails the check.\<close>

theorem crc16_detects_bursts:
  assumes "length u = length v" and "length u \<le> 16"
    and sent: "map (\<lambda>b. bit b 0) msg @ msb_bits 16 (NOT (crc16_ccitt_bits msg (length msg))) = p @ u @ s"
  shows "crc16_ccitt_bits (map of_bool (p @ v @ s)) (length (p @ v @ s)) = TETRA_CRC_OK \<longleftrightarrow> u = v"
proof -
  let ?c = "0xFFFF :: u16"
  have run: "crc16_ccitt_bits (map of_bool xs) (length xs) = crc_run GEN_POLY ?c xs" for xs
    by (simp add: crc16_ccitt_bits_def crc16_itut_bits_run o_def)
  have "crc_run GEN_POLY ?c (p @ u @ s) = TETRA_CRC_OK"
    unfolding sent [symmetric] crc16_residue [symmetric]
    using crc_run_complement [of GEN_POLY "crc16_ccitt_bits msg (length msg)"]
    by (simp add: crc16_ccitt_bits_def crc16_itut_bits_run)
  moreover have "u \<noteq> v \<Longrightarrow> crc_run GEN_POLY ?c (p @ u @ s) \<noteq> crc_run GEN_POLY ?c (p @ v @ s)"
    using assms(2) by (intro crc_run_burst [OF GEN_POLY_odd assms(1)]) simp
  ultimately show ?thesis unfolding run by metis
qed

theorem crc16_detects_bursts_witness:
  "crc16_ccitt_bits (map of_bool ([True] @ [False, True] @ msb_bits 16 (NOT (crc16_ccitt_bits [1, 1, 0] 3)))) 19 \<noteq> TETRA_CRC_OK"
  using crc16_detects_bursts [of "[True, False]" "[False, True]" "[1, 1, 0]" "[True]"
      "msb_bits 16 (NOT (crc16_ccitt_bits [1, 1, 0] 3))"]
  by (simp add: numeral_3_eq_3)

text \<open>C32: the LLC frame check sequence accepts exactly the frames whose last 32 bits are the FCS of
  the bits before them; a frame of at most 32 changed consecutive bits has another FCS.\<close>

theorem check_fcs_exact:
  assumes "bb_wf b" and "unread b = (p @ u @ s) @ tail" and "length tail = 32" and "p @ u @ s \<noteq> []"
    and "length u = length v" and "length u \<le> 32" and "u \<noteq> v"
  shows "check_fcs b = Ok (tail = msb_bits 32 (fcs_of (p @ u @ s))) b
    \<and> (tail = msb_bits 32 (fcs_of (p @ v @ s)) \<longrightarrow> check_fcs b = Ok False b)"
proof -
  have 1: "check_fcs b = Ok (tail = msb_bits 32 (fcs_of (p @ u @ s))) b"
    by (rule check_fcs_eq [OF assms(1-4)])
  have "of_bits (msb_bits 32 x) = (x :: u32)" for x
    by (simp add: of_bits_msb_bits take_bit_word_eq_self)
  then have "msb_bits 32 (fcs_of (p @ v @ s)) \<noteq> msb_bits 32 (fcs_of (p @ u @ s))"
    using fcs_burst [OF assms(5-7), of p s] by metis
  then show ?thesis unfolding 1 by simp
qed

theorem check_fcs_exact_witness:
  "\<exists>b. bb_wf b \<and> unread b = [True] @ msb_bits 32 (fcs_of [False]) \<and> check_fcs b = Ok False b"
proof -
  let ?xs = "map of_bool ([True] @ msb_bits 32 (fcs_of [False])) :: u8 list"
  obtain b where b: "bb_wf b" "unread b = map (\<lambda>x. x = 1) ?xs"
    using bb_from_bitarr_eq [of ?xs] by (auto simp: image_subset_iff)
  then have u: "unread b = ([] @ [True] @ []) @ msb_bits 32 (fcs_of [False])"
    by (simp add: o_def)
  have "check_fcs b = Ok False b"
    using check_fcs_exact [OF b(1) u, of "[False]", THEN conjunct2] by simp
  then show ?thesis using b(1) u unfolding append_Nil append_Nil2 by blast
qed

end
