(* ===== verification/Scrambler.thy ===== *)
theory Scrambler
  imports Codec
begin

unbundle bit_operations_syntax

text \<open>
  Scrambling (\<^verbatim>\<open>crates/tetra-entities/src/lmac/components/scrambler.rs\<close>): a 32-bit linear feedback
  shift register whose output is XORed over the unread part of a bit buffer.  The lemmas show
  that exactly the unread bits change, each by its keystream bit, and that descrambling with the
  same code restores the buffer bit for bit.
\<close>

section \<open>The model\<close>

definition SCRAMB_INIT :: u32 where
  "SCRAMB_INIT = 3"

definition next_lfsr_bit :: "u32 \<Rightarrow> u8 \<times> u32" where
  "next_lfsr_bit x =
     (let b = (x XOR drop_bit (32 - 26) x XOR drop_bit (32 - 23) x XOR drop_bit (32 - 22) x
               XOR drop_bit (32 - 16) x XOR drop_bit (32 - 12) x XOR drop_bit (32 - 11) x
               XOR drop_bit (32 - 10) x XOR drop_bit (32 - 8) x XOR drop_bit (32 - 7) x
               XOR drop_bit (32 - 5) x XOR drop_bit (32 - 4) x XOR drop_bit (32 - 2) x
               XOR drop_bit (32 - 1) x) AND 1
      in (ucast b, drop_bit 1 x OR push_bit 31 b))"

text \<open>The loop over the output slice.\<close>

fun tetra_scramb_get_bits :: "u32 \<Rightarrow> u8 list \<Rightarrow> u8 list" where
  "tetra_scramb_get_bits lfsr [] = []"
| "tetra_scramb_get_bits lfsr (slot # out) =
     (let (b, lfsr') = next_lfsr_bit lfsr in b # tetra_scramb_get_bits lfsr' out)"

fun scramb_loop :: "nat \<Rightarrow> u32 \<Rightarrow> unit bbm" where
  "scramb_loop 0 lfsr = retM ()"
| "scramb_loop (Suc n) lfsr =
     (let (b, lfsr') = next_lfsr_bit lfsr in thenM (xor_bit b) (scramb_loop n lfsr'))"

definition tetra_scramb_bits :: "u32 \<Rightarrow> unit bbm" where
  "tetra_scramb_bits lfsr_init =
     bindM get_len_remaining (\<lambda>num_bits.
     thenM (scramb_loop num_bits lfsr_init) (seek_rel (- int num_bits)))"

definition tetra_scramb_get_init :: "u16 \<Rightarrow> u16 \<Rightarrow> u8 \<Rightarrow> u32" where
  "tetra_scramb_get_init mcc mnc colour =
     (if colour = 0 then 0
      else push_bit 2 (ucast colour OR push_bit 6 (ucast mnc) OR push_bit 20 (ucast mcc)) OR SCRAMB_INIT)"

section \<open>One bit\<close>

lemma xor_bit_put:
  assumes "bb_pos b < 8 * length (bb_buffer b)"
  obtains buf where "xor_bit (of_bool x) b = Ok () (b\<lparr>bb_buffer := buf, bb_pos := bb_pos b + 1\<rparr>)"
    and "length buf = length (bb_buffer b)"
    and "\<And>i. i < 8 * length (bb_buffer b) \<Longrightarrow>
           bb_bit buf i = (if i = bb_pos b then bb_bit (bb_buffer b) i \<noteq> x else bb_bit (bb_buffer b) i)"
proof -
  let ?p = "bb_pos b" and ?B = "bb_buffer b"
  let ?f = "\<lambda>byte :: u8. byte XOR push_bit (7 - ?p mod 8) (of_bool x)"
  have q: "?p div 8 < length ?B" using assms by (simp add: less_mult_imp_div_less mult.commute)
  have "bit (?f (?B ! (?p div 8))) (7 - j) =
      (if ?p mod 8 \<le> j \<and> j < ?p mod 8 + 1 then bit (of_bool (bb_bit ?B ?p \<noteq> x) :: u64) (?p mod 8 + 1 - 1 - j)
       else bit (?B ! (?p div 8)) (7 - j))" if "j < 8" for j
  proof -
    have r: "?p mod 8 < 8" by simp
    have "bit (push_bit (7 - ?p mod 8) (of_bool x) :: u8) (7 - j) \<longleftrightarrow> x \<and> j = ?p mod 8"
      using that r by (cases x) (auto simp: bit_exp_iff)
    moreover have "?p mod 8 \<le> j \<and> j < ?p mod 8 + 1 \<longleftrightarrow> j = ?p mod 8" by auto
    ultimately show ?thesis using that by (auto simp: bit_xor_iff bb_bit_def bit_of_bool_iff)
  qed
  then have "bits_put ?B ?p 1 (of_bool (bb_bit ?B ?p \<noteq> x)) (?B[?p div 8 := ?f (?B ! (?p div 8))])"
    using q by (intro upd_byte_put) auto
  then have put: "length (?B[?p div 8 := ?f (?B ! (?p div 8))]) = length ?B"
    "\<And>i. i < 8 * length ?B \<Longrightarrow> bb_bit (?B[?p div 8 := ?f (?B ! (?p div 8))]) i
       = (if i = ?p then bb_bit ?B i \<noteq> x else bb_bit ?B i)"
    unfolding bits_put_def by (auto simp: bit_of_bool_iff)
  have "xor_bit (of_bool x) b = Ok () (b\<lparr>bb_buffer := ?B[?p div 8 := ?f (?B ! (?p div 8))], bb_pos := ?p + 1\<rparr>)"
    using q by (simp add: xor_bit_def upd_byte_def)
  then show ?thesis using put by (rule that)
qed

lemma bytes_eqI:
  assumes "length xs = length ys" and "\<And>i. i < 8 * length xs \<Longrightarrow> bb_bit xs i = bb_bit ys i"
  shows "xs = ys"
proof (rule nth_equalityI)
  fix k assume k: "k < length xs"
  show "xs ! k = ys ! k"
  proof (rule bit_word_eqI)
    fix n assume "n < LENGTH(8)"
    then have n: "n < 8" by simp
    have "bb_bit xs (8 * k + (7 - n)) = bb_bit ys (8 * k + (7 - n))"
      using k n by (intro assms(2)) simp
    moreover have "7 - n < 8" "7 - (7 - n) = n" using n by simp_all
    ultimately show "bit (xs ! k) n = bit (ys ! k) n" by (simp only: bb_bit_split)
  qed
qed (rule assms(1))

section \<open>The keystream\<close>

fun keystream :: "nat \<Rightarrow> u32 \<Rightarrow> bool list" where
  "keystream 0 lfsr = []"
| "keystream (Suc n) lfsr = (fst (next_lfsr_bit lfsr) = 1) # keystream n (snd (next_lfsr_bit lfsr))"

lemma length_keystream [simp]: "length (keystream n l) = n"
  by (induction n l rule: keystream.induct) simp_all

lemma next_lfsr_bit_cases: "fst (next_lfsr_bit l) = of_bool (fst (next_lfsr_bit l) = 1)"
proof -
  have "ucast (w AND 1) = (of_bool (bit w 0) :: u8)" for w :: u32
    using and_1_bit [of 0 w] by simp
  then show ?thesis unfolding next_lfsr_bit_def Let_def fst_conv by auto
qed

lemma tetra_scramb_get_bits_eq: "tetra_scramb_get_bits l out = map of_bool (keystream (length out) l)"
  by (induction out arbitrary: l)
    (auto simp: split_beta Let_def next_lfsr_bit_cases [symmetric])

definition xored :: "bitbuf \<Rightarrow> nat \<Rightarrow> bool list \<Rightarrow> u8 list \<Rightarrow> bool" where
  "xored b p ks buf \<longleftrightarrow> length buf = length (bb_buffer b) \<and>
     (\<forall>i < 8 * length buf. bb_bit buf i =
        (if p \<le> i \<and> i < p + length ks then bb_bit (bb_buffer b) i \<noteq> ks ! (i - p) else bb_bit (bb_buffer b) i))"

lemma scramb_loop_xored:
  "bb_pos b + n \<le> 8 * length (bb_buffer b) \<Longrightarrow>
   \<exists>buf. scramb_loop n l b = Ok () (b\<lparr>bb_buffer := buf, bb_pos := bb_pos b + n\<rparr>) \<and> xored b (bb_pos b) (keystream n l) buf"
proof (induction n arbitrary: l b)
  case 0
  then show ?case by (intro exI [of _ "bb_buffer b"]) (auto simp: xored_def)
next
  case (Suc n)
  let ?x = "fst (next_lfsr_bit l) = 1" and ?l = "snd (next_lfsr_bit l)"
  obtain buf1 where 1: "xor_bit (of_bool ?x) b = Ok () (b\<lparr>bb_buffer := buf1, bb_pos := bb_pos b + 1\<rparr>)"
    and len1: "length buf1 = length (bb_buffer b)"
    and bits1: "\<And>i. i < 8 * length (bb_buffer b) \<Longrightarrow>
           bb_bit buf1 i = (if i = bb_pos b then bb_bit (bb_buffer b) i \<noteq> ?x else bb_bit (bb_buffer b) i)"
    using Suc.prems xor_bit_put [of b ?x] by auto
  let ?b1 = "b\<lparr>bb_buffer := buf1, bb_pos := bb_pos b + 1\<rparr>"
  obtain buf2 where 2: "scramb_loop n ?l ?b1 = Ok () (?b1\<lparr>bb_buffer := buf2, bb_pos := bb_pos ?b1 + n\<rparr>)"
    and x2: "xored ?b1 (bb_pos ?b1) (keystream n ?l) buf2"
    using Suc.IH [of ?b1 ?l] Suc.prems len1 by auto
  have "scramb_loop (Suc n) l b = Ok () (b\<lparr>bb_buffer := buf2, bb_pos := bb_pos b + Suc n\<rparr>)"
    using 1 2 next_lfsr_bit_cases [of l] by (simp add: split_beta)
  moreover have "xored b (bb_pos b) (keystream (Suc n) l) buf2"
    using x2 bits1 len1 by (auto simp: xored_def nth_Cons')
  ultimately show ?case by blast
qed

text \<open>What scrambling does to a well-formed buffer.\<close>

lemma tetra_scramb_bits_eq:
  assumes "bb_wf b"
  obtains buf where "tetra_scramb_bits l b = Ok () (b\<lparr>bb_buffer := buf\<rparr>)"
    and "xored b (bb_pos b) (keystream (length (unread b)) l) buf"
proof -
  let ?n = "length (unread b)"
  have n: "bb_pos b + ?n = bb_end b" "bb_end b \<le> 8 * length (bb_buffer b)" using assms by (simp_all add: bb_wf_def)
  then obtain buf where 1: "scramb_loop ?n l b = Ok () (b\<lparr>bb_buffer := buf, bb_pos := bb_pos b + ?n\<rparr>)"
    and x: "xored b (bb_pos b) (keystream ?n l) buf"
    using scramb_loop_xored [of b ?n l] by auto
  have "seek_rel (- int ?n) (b\<lparr>bb_buffer := buf, bb_pos := bb_pos b + ?n\<rparr>) = Ok () (b\<lparr>bb_buffer := buf\<rparr>)"
    using assms by (simp add: seek_rel_def Let_def bb_wf_def)
  then have "tetra_scramb_bits l b = Ok () (b\<lparr>bb_buffer := buf\<rparr>)"
    using 1 get_len_remaining_eq [OF assms] by (simp add: tetra_scramb_bits_def)
  then show ?thesis using x by (rule that)
qed

lemma scramble_unread:
  assumes "bb_wf b" and "xored b (bb_pos b) (keystream (length (unread b)) l) buf"
  shows "unread (b\<lparr>bb_buffer := buf\<rparr>) = map2 (\<noteq>) (unread b) (keystream (length (unread b)) l)"
    and "bb_wf (b\<lparr>bb_buffer := buf\<rparr>)"
proof -
  show "unread (b\<lparr>bb_buffer := buf\<rparr>) = map2 (\<noteq>) (unread b) (keystream (length (unread b)) l)"
  proof (rule nth_equalityI)
    fix i assume "i < length (unread (b\<lparr>bb_buffer := buf\<rparr>))"
    then have i: "i < bb_end b - bb_pos b" "bb_pos b + i < bb_end b" by simp_all
    then have "bb_bit buf (bb_pos b + i) = (bb_bit (bb_buffer b) (bb_pos b + i) \<noteq> keystream (length (unread b)) l ! i)"
      using assms by (simp add: xored_def bb_wf_def)
    then show "unread (b\<lparr>bb_buffer := buf\<rparr>) ! i = map2 (\<noteq>) (unread b) (keystream (length (unread b)) l) ! i"
      using i by (simp add: unread_def)
  qed simp
  show "bb_wf (b\<lparr>bb_buffer := buf\<rparr>)" using assms by (simp add: xored_def bb_wf_def)
qed

lemma scramble_twice:
  assumes "bb_wf b" and "tetra_scramb_bits l b = Ok () b'"
  shows "tetra_scramb_bits l b' = Ok () b"
proof -
  obtain buf where 1: "tetra_scramb_bits l b = Ok () (b\<lparr>bb_buffer := buf\<rparr>)"
    and x1: "xored b (bb_pos b) (keystream (length (unread b)) l) buf" using assms(1) by (rule tetra_scramb_bits_eq)
  have b': "b' = b\<lparr>bb_buffer := buf\<rparr>" using assms(2) 1 by simp
  have wf': "bb_wf b'" unfolding b' by (rule scramble_unread(2) [OF assms(1) x1])
  obtain buf' where 2: "tetra_scramb_bits l b' = Ok () (b'\<lparr>bb_buffer := buf'\<rparr>)"
    and x2: "xored b' (bb_pos b') (keystream (length (unread b')) l) buf'" using wf' by (rule tetra_scramb_bits_eq)
  have "buf' = bb_buffer b"
    using x1 x2 by (intro bytes_eqI) (auto simp: xored_def b')
  then show ?thesis using 2 by (simp add: b')
qed

section \<open>Properties\<close>

text \<open>C33: scrambling adds a key stream that depends only on the scrambling code and the length to
  the bits from the cursor to the end of the window, and nothing else; so that applying it a
  second time with the same code restores the buffer.\<close>

theorem scrambling_is_an_involution:
  assumes "bb_wf b"
  shows "\<exists>b'. tetra_scramb_bits l b = Ok () b' \<and> unread b' = map2 (\<noteq>) (unread b) (keystream (length (unread b)) l)
    \<and> written b' = written b \<and> tetra_scramb_bits l b' = Ok () b"
proof -
  obtain buf where s: "tetra_scramb_bits l b = Ok () (b\<lparr>bb_buffer := buf\<rparr>)"
    and x: "xored b (bb_pos b) (keystream (length (unread b)) l) buf"
    using assms by (rule tetra_scramb_bits_eq)
  have "written (b\<lparr>bb_buffer := buf\<rparr>) = written b"
    using x assms by (auto simp: written_def bb_slice_def xored_def bb_wf_def)
  then show ?thesis
    using s scramble_twice [OF assms s] scramble_unread [OF assms x] by blast
qed

theorem scrambling_is_an_involution_witness:
  "\<exists>b'. tetra_scramb_bits SCRAMB_INIT (bb_from_vec [0x12, 0x34]) = Ok () b'
     \<and> tetra_scramb_bits SCRAMB_INIT b' = Ok () (bb_from_vec [0x12, 0x34])"
  using scrambling_is_an_involution [of "bb_from_vec [0x12, 0x34]" SCRAMB_INIT] by auto

end
