(* ===== verification/Interleaver.thy ===== *)
theory Interleaver
  imports Nexus_Prelude
begin

text \<open>
  Block and matrix interleaving (\<^verbatim>\<open>crates/tetra-entities/src/lmac/components/interleaver.rs\<close>).  Both
  write every element of the output once, at an index computed from the loop counters; the
  theory proves one lemma on such scatter loops and derives from it that each deinterleaver
  inverts its interleaver.  The block index is \<open>u32\<close> arithmetic with a wrapping product.
\<close>

section \<open>The model\<close>

definition block_interl_func :: "u32 \<Rightarrow> u32 \<Rightarrow> u32 \<Rightarrow> u32" where
  "block_interl_func k a i = 1 + (a * i) mod k"

definition block_index :: "nat \<Rightarrow> nat \<Rightarrow> nat \<Rightarrow> nat" where
  "block_index k a i = unat (block_interl_func (of_nat k) (of_nat a) (of_nat i))"

definition block_interleave :: "nat \<Rightarrow> nat \<Rightarrow> u8 list \<Rightarrow> u8 list \<Rightarrow> u8 list option" where
  "block_interleave k a input output =
     (if length input \<ge> k \<and> length output \<ge> k
      then Some (foldl (\<lambda>out i. out[block_index k a i - 1 := input ! (i - 1)]) output [1..<k + 1])
      else None)"

definition block_deinterleave :: "nat \<Rightarrow> nat \<Rightarrow> u8 list \<Rightarrow> u8 list \<Rightarrow> u8 list option" where
  "block_deinterleave k a input output =
     (if length input \<ge> k \<and> length output \<ge> k
      then Some (foldl (\<lambda>out i. out[i - 1 := input ! (block_index k a i - 1)]) output [1..<k + 1])
      else None)"

text \<open>The nested loops \<open>for i in 0..columns { for j in 0..lines { .. } }\<close>.\<close>

definition matrix_steps :: "nat \<Rightarrow> nat \<Rightarrow> (nat \<times> nat) list" where
  "matrix_steps lines columns = List.product [0..<columns] [0..<lines]"

definition matrix_interleave :: "nat \<Rightarrow> nat \<Rightarrow> u8 list \<Rightarrow> u8 list \<Rightarrow> u8 list option" where
  "matrix_interleave lines columns input output =
     (let total = lines * columns in
      if length input \<ge> total \<and> length output \<ge> total
      then Some (foldl (\<lambda>out (i, j). out[i * lines + j := input ! (j * columns + i)]) output (matrix_steps lines columns))
      else None)"

definition matrix_deinterleave :: "nat \<Rightarrow> nat \<Rightarrow> u8 list \<Rightarrow> u8 list \<Rightarrow> u8 list option" where
  "matrix_deinterleave lines columns input output =
     (let total = lines * columns in
      if length input \<ge> total \<and> length output \<ge> total
      then Some (foldl (\<lambda>out (i, j). out[j * columns + i := input ! (i * lines + j)]) output (matrix_steps lines columns))
      else None)"

section \<open>Scatter loops\<close>

definition scatter :: "('p \<Rightarrow> nat) \<Rightarrow> ('p \<Rightarrow> nat) \<Rightarrow> 'a list \<Rightarrow> 'p list \<Rightarrow> 'a list \<Rightarrow> 'a list" where
  "scatter f g x ps out = foldl (\<lambda>out p. out[f p := x ! g p]) out ps"

lemma length_scatter [simp]: "length (scatter f g x ps out) = length out"
  unfolding scatter_def by (induction ps arbitrary: out) auto

lemma scatter_nth:
  assumes "inj_on f (set ps)" and "p \<in> set ps" and "f p < length out"
  shows "scatter f g x ps out ! f p = x ! g p"
  using assms
proof (induction ps rule: rev_induct)
  case (snoc q ps)
  have step: "scatter f g x (ps @ [q]) out = (scatter f g x ps out)[f q := x ! g q]"
    by (simp add: scatter_def)
  show ?case
  proof (cases "f p = f q")
    case True
    then have "p = q" using inj_onD [OF snoc.prems(1) True] snoc.prems(2) by simp
    then show ?thesis using step snoc.prems(3) by simp
  next
    case False
    then have "p \<in> set ps" using snoc.prems(2) by auto
    moreover have "inj_on f (set ps)" using snoc.prems(1) by (rule inj_on_subset) auto
    ultimately show ?thesis using step snoc.IH snoc.prems(3) False by simp
  qed
qed simp

text \<open>Gathering through the same indices undoes the scatter.\<close>

lemma scatter_gather:
  assumes "inj_on f (set ps)" and "inj_on g (set ps)" and "f ` set ps \<subseteq> {..<length out}"
    and "g ` set ps = {..<n}" and "length out' = n" and "length x = n"
  shows "scatter g f (scatter f g x ps out) ps out' = x"
proof (rule nth_equalityI)
  fix i assume "i < length (scatter g f (scatter f g x ps out) ps out')"
  then have "i \<in> g ` set ps" using assms(4,5) by simp
  then obtain p where p: "p \<in> set ps" "i = g p" by auto
  have "g p < length out'" using p assms(4,5) by auto
  then have "scatter g f (scatter f g x ps out) ps out' ! g p = scatter f g x ps out ! f p"
    by (rule scatter_nth [OF assms(2) p(1)])
  also have "f p < length out" using p(1) assms(3) by auto
  then have "scatter f g x ps out ! f p = x ! g p" by (rule scatter_nth [OF assms(1) p(1)])
  finally show "scatter g f (scatter f g x ps out) ps out' ! i = x ! i" using p by simp
qed (simp add: assms)

section \<open>Block interleaving\<close>

lemma block_index_eq:
  assumes "0 < k" and "k < 2 ^ 32" and "a * i < 2 ^ 32" and "a < 2 ^ 32" and "i < 2 ^ 32"
  shows "block_index k a i = 1 + (a * i) mod k"
proof -
  have "unat (of_nat a * of_nat i :: u32) = a * i"
    using assms(3) unat_of_nat_word [of "a * i", where ?'a = 32] by simp
  moreover have "unat (of_nat k :: u32) = k" using assms(2) by (intro unat_of_nat_word) simp
  ultimately have m: "unat ((of_nat a * of_nat i) mod of_nat k :: u32) = (a * i) mod k"
    by (simp add: unat_mod_distrib)
  have "(a * i) mod k < k" using assms(1) by simp
  then have "1 + (a * i) mod k < 2 ^ 32" using assms(2) by linarith
  then have "unat (1 + (of_nat a * of_nat i) mod of_nat k :: u32) = 1 + (a * i) mod k"
    by (subst unat_word_ariths(1)) (simp add: m)
  then show ?thesis unfolding block_index_def block_interl_func_def .
qed

lemma mult_mod_cancel:
  assumes "coprime a k" and "(a * i) mod k = (a * j) mod (k :: nat)" and "j \<le> i" and "1 \<le> j" and "i \<le> k"
  shows "i = j"
proof -
  have "k dvd a * i - a * j" using assms(2,3) by (simp add: mod_eq_dvd_iff_nat)
  then have "k dvd a * (i - j)" by (simp add: diff_mult_distrib2)
  then have "k dvd i - j" using assms(1) by (simp add: coprime_commute coprime_dvd_mult_right_iff)
  moreover have "i - j < k" using assms(3-5) by linarith
  ultimately show ?thesis using assms(3) by (auto dest: dvd_imp_le)
qed

lemma block_index_bij:
  assumes k: "0 < k" and fits: "a * k < 2 ^ 32" and cop: "coprime a k" and a: "0 < a"
  shows "inj_on (\<lambda>i. block_index k a i - 1) {1..k}" and "(\<lambda>i. block_index k a i - 1) ` {1..k} \<subseteq> {..<k}"
proof -
  have eq: "block_index k a i - 1 = (a * i) mod k" if "i \<in> {1..k}" for i
  proof -
    have "a * i \<le> a * k" using that by simp
    moreover have "k \<le> a * k" "a \<le> a * k" using a k by simp_all
    moreover have "i \<le> k" using that by simp
    ultimately have "k < 2 ^ 32" "a * i < 2 ^ 32" "a < 2 ^ 32" "i < 2 ^ 32" using fits by linarith+
    then have "block_index k a i = 1 + (a * i) mod k" by (intro block_index_eq [OF k])
    then show ?thesis by simp
  qed
  show "(\<lambda>i. block_index k a i - 1) ` {1..k} \<subseteq> {..<k}" using eq k by auto
  show "inj_on (\<lambda>i. block_index k a i - 1) {1..k}"
  proof (rule inj_onI)
    fix i j assume i: "i \<in> {1..k}" and j: "j \<in> {1..k}" and "block_index k a i - 1 = block_index k a j - 1"
    then have "(a * i) mod k = (a * j) mod k" using eq by simp
    then show "i = j"
      using mult_mod_cancel [OF cop, of i j] mult_mod_cancel [OF cop, of j i] i j by (cases "j \<le> i") auto
  qed
qed

lemma block_roundtrip:
  assumes k: "0 < k" "0 < a" and fits: "a * k < 2 ^ 32" and cop: "coprime a k"
    and len: "length x = k" "length out \<ge> k" "length out' = k"
  obtains y where "block_interleave k a x out = Some y" and "block_deinterleave k a y out' = Some x"
proof -
  let ?f = "\<lambda>i. block_index k a i - 1" and ?g = "\<lambda>i :: nat. i - 1" and ?ps = "[1..<k + 1]"
  have set: "set ?ps = {1..k}" by auto
  have "?g ` {1..k} = {..<k}"
  proof
    show "{..<k} \<subseteq> ?g ` {1..k}"
    proof
      fix i assume "i \<in> {..<k}"
      then have "Suc i \<in> {1..k}" "i = ?g (Suc i)" by auto
      then show "i \<in> ?g ` {1..k}" by blast
    qed
  qed auto
  moreover have "inj_on ?g {1..k}" by (rule inj_onI) auto
  moreover have "?f ` {1..k} \<subseteq> {..<length out}"
    using block_index_bij(2) [OF k(1) fits cop k(2)] len(2) by fastforce
  ultimately have "scatter ?g ?f (scatter ?f ?g x ?ps out) ?ps out' = x"
    using len block_index_bij(1) [OF k(1) fits cop k(2)]
    by (intro scatter_gather [where n = k]) (simp_all only: set)
  moreover have "block_interleave k a x out = Some (scatter ?f ?g x ?ps out)"
    using len by (simp add: block_interleave_def scatter_def)
  moreover have "block_deinterleave k a y out' = Some (scatter ?g ?f y ?ps out')" if "length y \<ge> k" for y
    using that len by (simp add: block_deinterleave_def scatter_def)
  ultimately show ?thesis using len that [of "scatter ?f ?g x ?ps out"] by simp
qed

section \<open>Matrix interleaving\<close>

lemma set_matrix_steps: "set (matrix_steps l c) = {..<c} \<times> {..<l}"
  by (auto simp: matrix_steps_def)

lemma index_pair_inj:
  assumes "b < n" and "d < n" and "a * n + b = c * n + (d :: nat)"
  shows "a = c \<and> b = d"
proof -
  have "(a * n + b) div n = a" "(c * n + d) div n = c" "(a * n + b) mod n = b" "(c * n + d) mod n = d"
    using assms(1,2) by simp_all
  then show ?thesis using assms(3) by metis
qed

lemma index_pair_less: "a < m \<Longrightarrow> b < n \<Longrightarrow> a * n + b < m * (n :: nat)"
  by (metis add.commute add_less_cancel_left less_le_trans mult.commute mult_Suc_right mult_le_mono2 Suc_leI)

lemma matrix_roundtrip:
  assumes "length x = l * c" and "length out \<ge> l * c" and "length out' = l * c"
  obtains y where "matrix_interleave l c x out = Some y" and "matrix_deinterleave l c y out' = Some x"
proof -
  let ?f = "\<lambda>(i, j). i * l + j" and ?g = "\<lambda>(i, j). j * c + i" and ?ps = "matrix_steps l c"
  have f: "inj_on ?f (set ?ps)" and g: "inj_on ?g (set ?ps)"
    by (auto simp: set_matrix_steps inj_on_def dest: index_pair_inj)
  have fl: "?f ` set ?ps \<subseteq> {..<length out}"
    using assms(2) index_pair_less [of _ c _ l] by (fastforce simp: set_matrix_steps mult.commute)
  have "?g ` set ?ps = {..<l * c}"
  proof
    show "?g ` set ?ps \<subseteq> {..<l * c}" using index_pair_less [of _ l _ c] by (auto simp: set_matrix_steps)
    show "{..<l * c} \<subseteq> ?g ` set ?ps"
    proof
      fix n assume n: "n \<in> {..<l * c}"
      then have "0 < c" by (cases c) auto
      then have "n mod c < c" "n div c < l" "n = ?g (n mod c, n div c)"
        using n by (auto simp: less_mult_imp_div_less)
      then show "n \<in> ?g ` set ?ps" by (auto simp: set_matrix_steps simp del: mod_less_divisor intro!: image_eqI [of _ _ "(n mod c, n div c)"])
    qed
  qed
  then have "scatter ?g ?f (scatter ?f ?g x ?ps out) ?ps out' = x"
    using assms(1,3) by (intro scatter_gather [OF f g fl]) simp_all
  moreover have "matrix_interleave l c x out = Some (scatter ?f ?g x ?ps out)"
    using assms by (simp add: matrix_interleave_def scatter_def split_def)
  moreover have "matrix_deinterleave l c y out' = Some (scatter ?g ?f y ?ps out')" if "length y \<ge> l * c" for y
    using that assms by (simp add: matrix_deinterleave_def scatter_def split_def)
  ultimately show ?thesis using assms that [of "scatter ?f ?g x ?ps out"] by simp
qed

section \<open>Blocks inside larger arrays\<close>

text \<open>The callers pass arrays of the largest block size; only the first \<open>k\<close> elements count.\<close>

lemma set_scatter: "\<forall>p \<in> set ps. g p < length x \<Longrightarrow> set (scatter f g x ps out) \<subseteq> set x \<union> set out"
  unfolding scatter_def
proof (induction ps arbitrary: out)
  case (Cons p ps)
  have "set (foldl (\<lambda>out p. out[f p := x ! g p]) (out[f p := x ! g p]) ps) \<subseteq> set x \<union> set (out[f p := x ! g p])"
    using Cons.prems by (intro Cons.IH) simp
  also have "\<dots> \<subseteq> set x \<union> set out"
    using Cons.prems set_update_subset_insert [of out "f p" "x ! g p"] by fastforce
  finally show ?case by simp
qed simp

lemma block_prefix_roundtrip:
  assumes k: "0 < k" "0 < a" and fits: "a * k < 2 ^ 32" and cop: "coprime a k"
    and len: "k \<le> length x" "k \<le> length out"
  obtains y where "block_interleave k a x out = Some y" and "length y = length out" and "set y \<subseteq> set x \<union> set out"
    and "\<And>z out'. take k z = take k y \<Longrightarrow> k \<le> length z \<Longrightarrow> k \<le> length out' \<Longrightarrow>
      \<exists>w. block_deinterleave k a z out' = Some w \<and> length w = length out' \<and> take k w = take k x"
proof -
  let ?f = "\<lambda>i. block_index k a i - 1" and ?g = "\<lambda>i :: nat. i - 1" and ?ps = "[1..<k + 1]"
  define y where "y = scatter ?f ?g x ?ps out"
  have set: "set ?ps = {1..k}" by auto
  note bij = block_index_bij [OF k(1) fits cop k(2)]
  have inj_f: "inj_on ?f (set ?ps)" unfolding set by (rule bij(1))
  have inj_g: "inj_on ?g (set ?ps)" unfolding set by (rule inj_onI) auto
  have "block_interleave k a x out = Some y" using len by (simp add: block_interleave_def scatter_def y_def)
  moreover have "set y \<subseteq> set x \<union> set out" unfolding y_def using len by (intro set_scatter) auto
  moreover have "\<exists>w. block_deinterleave k a z out' = Some w \<and> length w = length out' \<and> take k w = take k x"
    if z: "take k z = take k y" "k \<le> length z" "k \<le> length out'" for z out'
  proof (intro exI conjI)
    let ?w = "scatter ?g ?f z ?ps out'"
    show "block_deinterleave k a z out' = Some ?w" using z by (simp add: block_deinterleave_def scatter_def)
    show "length ?w = length out'" by simp
    have "?w ! i = x ! i" if i: "i < k" for i
    proof -
      have m: "Suc i \<in> set ?ps" using i by auto
      have "?f (Suc i) \<in> ?f ` {1..k}" using i by (intro imageI) simp
      then have fi: "?f (Suc i) < k" using bij(2) by blast
      have "?w ! ?g (Suc i) = z ! ?f (Suc i)"
        using z(3) i by (intro scatter_nth [OF inj_g m]) simp
      also have "\<dots> = take k z ! ?f (Suc i)" using fi by simp
      also have "\<dots> = y ! ?f (Suc i)" unfolding z(1) using fi by simp
      also have "\<dots> = x ! ?g (Suc i)"
        unfolding y_def using fi len(2) by (intro scatter_nth [OF inj_f m]) simp
      finally show ?thesis by simp
    qed
    then show "take k ?w = take k x" using z(3) len(1) by (intro nth_equalityI) simp_all
  qed
  ultimately show ?thesis using that [of y] by (simp add: y_def)
qed

lemma matrix_bits: "l * c \<le> length x \<Longrightarrow> matrix_interleave l c x out = Some y \<Longrightarrow> set y \<subseteq> set x \<union> set out \<and> length y = length out"
proof -
  assume len: "l * c \<le> length x" and m: "matrix_interleave l c x out = Some y"
  have y: "y = scatter (\<lambda>(i, j). i * l + j) (\<lambda>(i, j). j * c + i) x (matrix_steps l c) out"
    using m by (auto simp: matrix_interleave_def scatter_def Let_def split_def split: if_splits)
  have "\<forall>p \<in> set (matrix_steps l c). (\<lambda>(i, j). j * c + i) p < length x"
  proof
    fix p assume "p \<in> set (matrix_steps l c)"
    then obtain i j where "p = (i, j)" "i < c" "j < l" by (auto simp: set_matrix_steps)
    then show "(\<lambda>(i, j). j * c + i) p < length x" using index_pair_less [of j l i c] len by simp
  qed
  then show ?thesis unfolding y by (intro conjI set_scatter length_scatter)
qed

section \<open>Properties\<close>

text \<open>For every block length and coprime multiplier whose product stays below \<open>2 ^ 32\<close>, block
  interleaving is a permutation that de-interleaving inverts; this covers the four pairs the
  error control parameters use.\<close>

theorem block_interleaving_inverts:
  assumes "0 < k" and "0 < a" and "a * k < 2 ^ 32" and "coprime a k"
    and "length x = k" and "length out \<ge> k" and "length out' = k"
  shows "\<exists>y. block_interleave k a x out = Some y \<and> block_deinterleave k a y out' = Some x"
  using block_roundtrip [OF assms] by metis

theorem block_interleaving_inverts_witness:
  "\<exists>y. block_interleave 120 11 (replicate 60 1 @ replicate 60 0) (replicate 432 0) = Some y
     \<and> block_deinterleave 120 11 y (replicate 120 0) = Some (replicate 60 1 @ replicate 60 0)"
proof -
  have "coprime (11 :: nat) 120" by (simp add: coprime_iff_gcd_eq_1 gcd_nat.simps)
  then show ?thesis
    using block_interleaving_inverts [of 120 11 "replicate 60 1 @ replicate 60 0" "replicate 432 0" "replicate 120 0"]
    by simp
qed

text \<open>The matrix interleaver of the speech channel is inverted by the matrix de-interleaver of
  the same shape.\<close>

theorem matrix_interleaving_inverts:
  assumes "length x = lines * columns" and "length out \<ge> lines * columns" and "length out' = lines * columns"
  shows "\<exists>y. matrix_interleave lines columns x out = Some y \<and> matrix_deinterleave lines columns y out' = Some x"
  using matrix_roundtrip [OF assms] by metis

theorem matrix_interleaving_inverts_witness:
  "\<exists>y. matrix_interleave 24 18 (replicate 200 1 @ replicate 232 0) (replicate 432 0) = Some y
     \<and> matrix_deinterleave 24 18 y (replicate 432 0) = Some (replicate 200 1 @ replicate 232 0)"
  using matrix_interleaving_inverts [of "replicate 200 1 @ replicate 232 0" 24 18 "replicate 432 0" "replicate 432 0"]
  by simp

end
