(* ===== verification/Conv_Code.thy ===== *)
theory Conv_Code
  imports Nexus_Prelude
begin

unbundle bit_operations_syntax

text \<open>
  The convolutional encoders and the rate-compatible puncturing of
  \<^verbatim>\<open>crates/tetra-entities/src/lmac/components/convenc.rs\<close>.  Bits are bytes 0 and 1 as in the source.
  The puncturing index arithmetic is on small positive numbers and modelled with naturals; an
  index outside a slice is \<open>None\<close>.
\<close>

section \<open>Control channel encoder\<close>

record conv_enc_state =
  delayed :: "u8 \<times> u8 \<times> u8 \<times> u8"

definition conv_new :: conv_enc_state where
  "conv_new = \<lparr>delayed = (0, 0, 0, 0)\<rparr>"

definition conv_reset :: "conv_enc_state \<Rightarrow> conv_enc_state" where
  "conv_reset st = st\<lparr>delayed := (0, 0, 0, 0)\<rparr>"

definition encode_bit :: "u8 \<Rightarrow> conv_enc_state \<Rightarrow> u8 list \<times> u8 \<times> conv_enc_state" where
  "encode_bit b st =
     (case delayed st of (d0, d1, d2, d3) \<Rightarrow>
        let g1 = b XOR d0 XOR d3;
            g2 = b XOR d1 XOR d2 XOR d3;
            g3 = b XOR d0 XOR d1 XOR d3;
            g4 = b XOR d0 XOR d2 XOR d3
        in ([g1, g2, g3, g4],
            g1 OR push_bit 1 g2 OR push_bit 2 g3 OR push_bit 3 g4,
            st\<lparr>delayed := (b, d0, d1, d2)\<rparr>))"

text \<open>The chunks that the loop of \<open>encode\<close> writes, in order, and the final state.\<close>

fun encode_chunks :: "u8 list \<Rightarrow> conv_enc_state \<Rightarrow> u8 list \<times> conv_enc_state" where
  "encode_chunks [] st = ([], st)"
| "encode_chunks (b # bs) st =
     (let (out, _, st') = encode_bit b st; (rest, st'') = encode_chunks bs st' in (out @ rest, st''))"

definition encode :: "u8 list \<Rightarrow> u8 list \<Rightarrow> conv_enc_state \<Rightarrow> (u8 list \<times> conv_enc_state) option" where
  "encode input output st =
     (if length output \<ge> length input * 4
      then let (written, st') = encode_chunks input st in
           Some (written @ drop (length input * 4) output, st')
      else None)"

fun encode3_chunks :: "u8 list \<Rightarrow> conv_enc_state \<Rightarrow> u8 list \<times> conv_enc_state" where
  "encode3_chunks [] st = ([], st)"
| "encode3_chunks (b # bs) st =
     (let (g4, _, st') = encode_bit b st; (rest, st'') = encode3_chunks bs st'
      in ([g4 ! 0, g4 ! 1, g4 ! 2] @ rest, st''))"

definition encode_rate1_3 :: "u8 list \<Rightarrow> u8 list \<Rightarrow> conv_enc_state \<Rightarrow> (u8 list \<times> conv_enc_state) option" where
  "encode_rate1_3 input output st =
     (if length output \<ge> length input * 3
      then let (written, st') = encode3_chunks input st in
           Some (written @ drop (length input * 3) output, st')
      else None)"

section \<open>Speech encoder\<close>

record speech_conv_enc_state =
  sdelayed :: "u8 \<times> u8 \<times> u8 \<times> u8"

definition speech_new :: speech_conv_enc_state where
  "speech_new = \<lparr>sdelayed = (0, 0, 0, 0)\<rparr>"

definition speech_encode_bit :: "u8 \<Rightarrow> speech_conv_enc_state \<Rightarrow> u8 list \<times> speech_conv_enc_state" where
  "speech_encode_bit b st =
     (case sdelayed st of (d0, d1, d2, d3) \<Rightarrow>
        let g1 = b XOR d0 XOR d1 XOR d2 XOR d3;
            g2 = b XOR d0 XOR d2 XOR d3;
            g3 = b XOR d1 XOR d3
        in ([g1, g2, g3], st\<lparr>sdelayed := (b, d0, d1, d2)\<rparr>))"

fun speech_chunks :: "u8 list \<Rightarrow> speech_conv_enc_state \<Rightarrow> u8 list \<times> speech_conv_enc_state" where
  "speech_chunks [] st = ([], st)"
| "speech_chunks (b # bs) st =
     (let (out, st') = speech_encode_bit b st; (rest, st'') = speech_chunks bs st' in (out @ rest, st''))"

definition speech_encode ::
  "u8 list \<Rightarrow> u8 list \<Rightarrow> speech_conv_enc_state \<Rightarrow> (u8 list \<times> speech_conv_enc_state) option" where
  "speech_encode input output st =
     (if length output \<ge> length input * 3
      then let (written, st') = speech_chunks input st in
           Some (written @ drop (length input * 3) output, st')
      else None)"

section \<open>Puncturing\<close>

datatype rcpc_punct_mode =
  Rate2_3 | Rate1_3 | Rate292_432 | Rate148_432 | Rate112_168 | Rate72_162 | Rate38_80

definition i_equals :: "nat \<Rightarrow> nat" where
  "i_equals j = j"

definition i_292 :: "nat \<Rightarrow> nat" where
  "i_292 j = j + (j - 1) div 65"

definition i_148 :: "nat \<Rightarrow> nat" where
  "i_148 j = j + (j - 1) div 35"

record puncturer =
  pu_p :: "nat list"
  pu_t :: nat
  pu_period :: nat
  pu_i_func :: "nat \<Rightarrow> nat"

definition P_RATE2_3 :: "nat list" where
  "P_RATE2_3 = [0, 1, 2, 5]"

definition P_RATE1_3 :: "nat list" where
  "P_RATE1_3 = [0, 1, 2, 3, 5, 6, 7]"

definition P_RATE8_12 :: "nat list" where
  "P_RATE8_12 = [0, 1, 2, 4]"

definition P_RATE8_18 :: "nat list" where
  "P_RATE8_18 = [0, 1, 2, 3, 4, 5, 7, 8, 10, 11]"

definition P_RATE8_17 :: "nat list" where
  "P_RATE8_17 = [0, 1, 2, 3, 4, 5, 7, 8, 10, 11, 13, 14, 16, 17, 19, 20, 22, 23]"

fun get_puncturer :: "rcpc_punct_mode \<Rightarrow> puncturer" where
  "get_puncturer Rate2_3 = \<lparr>pu_p = P_RATE2_3, pu_t = 3, pu_period = 8, pu_i_func = i_equals\<rparr>"
| "get_puncturer Rate1_3 = \<lparr>pu_p = P_RATE1_3, pu_t = 6, pu_period = 8, pu_i_func = i_equals\<rparr>"
| "get_puncturer Rate292_432 = \<lparr>pu_p = P_RATE2_3, pu_t = 3, pu_period = 8, pu_i_func = i_292\<rparr>"
| "get_puncturer Rate148_432 = \<lparr>pu_p = P_RATE1_3, pu_t = 6, pu_period = 8, pu_i_func = i_148\<rparr>"
| "get_puncturer Rate112_168 = \<lparr>pu_p = P_RATE8_12, pu_t = 3, pu_period = 6, pu_i_func = i_equals\<rparr>"
| "get_puncturer Rate72_162 = \<lparr>pu_p = P_RATE8_18, pu_t = 9, pu_period = 12, pu_i_func = i_equals\<rparr>"
| "get_puncturer Rate38_80 = \<lparr>pu_p = P_RATE8_17, pu_t = 17, pu_period = 24, pu_i_func = i_equals\<rparr>"

text \<open>The index computation at the head of both loops: the 1-based mother-code position of the
  \<open>j\<close>-th transmitted bit.\<close>

definition punct_index :: "rcpc_punct_mode \<Rightarrow> nat \<Rightarrow> nat" where
  "punct_index pu j =
     (let puncturer = get_puncturer pu;
          i = pu_i_func puncturer j;
          blk = (i - 1) div pu_t puncturer;
          ix = i - pu_t puncturer * blk
      in pu_period puncturer * blk + pu_p puncturer ! ix)"

fun punct_loop :: "rcpc_punct_mode \<Rightarrow> u8 list \<Rightarrow> nat list \<Rightarrow> u8 list \<Rightarrow> u8 list option" where
  "punct_loop pu input [] output = Some output"
| "punct_loop pu input (j # js) output =
     (let k = punct_index pu j in
      if k - 1 < length input \<and> j - 1 < length output
      then punct_loop pu input js (output[j - 1 := input ! (k - 1)])
      else None)"

definition get_punctured_rate :: "rcpc_punct_mode \<Rightarrow> u8 list \<Rightarrow> u8 list \<Rightarrow> u8 list option" where
  "get_punctured_rate pu input output = punct_loop pu input [1..<length output + 1] output"

fun depunct_loop :: "rcpc_punct_mode \<Rightarrow> u8 list \<Rightarrow> nat list \<Rightarrow> u8 list \<Rightarrow> u8 list option" where
  "depunct_loop pu input [] output = Some output"
| "depunct_loop pu input (j # js) output =
     (let k = punct_index pu j in
      if j - 1 < length input \<and> k - 1 < length output
      then depunct_loop pu input js (output[k - 1 := input ! (j - 1)])
      else None)"

definition tetra_rcpc_depunct :: "rcpc_punct_mode \<Rightarrow> u8 list \<Rightarrow> nat \<Rightarrow> u8 list \<Rightarrow> u8 list option" where
  "tetra_rcpc_depunct pu input len output = depunct_loop pu input [1..<len + 1] output"

text \<open>\<open>mother_memcmp\<close>: \<open>None\<close> is the \<open>Err(())\<close> of a mismatch.\<close>

fun memcmp_loop :: "(u8 \<times> u8) list \<Rightarrow> nat \<Rightarrow> nat option" where
  "memcmp_loop [] matched = Some matched"
| "memcmp_loop ((m, d) # rest) matched =
     (if d = 0xff then memcmp_loop rest matched
      else if d \<noteq> m then None
      else memcmp_loop rest (matched + 1))"

definition mother_memcmp :: "u8 list \<Rightarrow> u8 list \<Rightarrow> nat option" where
  "mother_memcmp mother depunct = memcmp_loop (zip mother depunct) 0"

section \<open>Lengths\<close>

lemma length_encode_bit: "length (fst (encode_bit b st)) = 4"
  by (simp add: encode_bit_def Let_def split: prod.split)

lemma length_encode_chunks: "length (fst (encode_chunks bs st)) = 4 * length bs"
  by (induction bs arbitrary: st)
    (auto simp: split_beta Let_def length_encode_bit)

lemma length_speech_chunks: "length (fst (speech_chunks bs st)) = 3 * length bs"
  by (induction bs arbitrary: st)
    (auto simp: split_beta Let_def speech_encode_bit_def split: prod.split)

lemma speech_chunks_append:
  "speech_chunks (xs @ ys) st =
     (let (a, st') = speech_chunks xs st; (b, st'') = speech_chunks ys st' in (a @ b, st''))"
  by (induction xs arbitrary: st) (simp_all add: split_beta Let_def)

section \<open>Puncturing and depuncturing\<close>

lemma punct_loop_eq:
  assumes "distinct js" and "\<forall>j \<in> set js. 1 \<le> j \<and> j \<le> length out \<and> punct_index pu j - 1 < length input"
  shows "\<exists>out'. punct_loop pu input js out = Some out' \<and> length out' = length out \<and>
    (\<forall>j \<in> set js. out' ! (j - 1) = input ! (punct_index pu j - 1)) \<and>
    (\<forall>i < length out. Suc i \<notin> set js \<longrightarrow> out' ! i = out ! i)"
  using assms
proof (induction js arbitrary: out)
  case (Cons j js)
  let ?o = "out[j - 1 := input ! (punct_index pu j - 1)]"
  obtain out' where o: "punct_loop pu input js ?o = Some out'" "length out' = length ?o"
    "\<forall>j \<in> set js. out' ! (j - 1) = input ! (punct_index pu j - 1)"
    "\<forall>i < length ?o. Suc i \<notin> set js \<longrightarrow> out' ! i = ?o ! i"
    using Cons.IH [of ?o] Cons.prems by auto
  have j: "1 \<le> j" "j - 1 < length out" "punct_index pu j - 1 < length input" using Cons.prems(2) by auto
  have at_j: "out' ! (j - 1) = input ! (punct_index pu j - 1)"
    using o(4) j Cons.prems(1) by simp
  have keep: "out' ! i = out ! i" if "i < length out" "Suc i \<notin> set (j # js)" for i
  proof -
    have "i \<noteq> j - 1" using that(2) j(1) by auto
    then show ?thesis using o(4) that by simp
  qed
  have run: "punct_loop pu input (j # js) out = Some out'" using o(1) j by (simp add: Let_def)
  have all: "\<forall>q \<in> set (j # js). out' ! (q - 1) = input ! (punct_index pu q - 1)"
    using at_j o(3) by simp
  show ?case
    by (intro exI [of _ out'] conjI run all allI impI keep) (use o(2) in simp_all)
qed simp

lemma get_punctured_rate_eq:
  assumes "\<And>j. 1 \<le> j \<Longrightarrow> j \<le> length out \<Longrightarrow> punct_index pu j - 1 < length input"
  shows "get_punctured_rate pu input out = Some (map (\<lambda>i. input ! (punct_index pu (Suc i) - 1)) [0..<length out])"
proof -
  have b: "\<forall>j \<in> set [1..<length out + 1]. 1 \<le> j \<and> j \<le> length out \<and> punct_index pu j - 1 < length input"
    using assms by (simp del: upt_Suc)
  obtain out' where out': "punct_loop pu input [1..<length out + 1] out = Some out'" "length out' = length out"
    "\<forall>j \<in> set [1..<length out + 1]. out' ! (j - 1) = input ! (punct_index pu j - 1)"
    using punct_loop_eq [OF distinct_upt b] by blast
  have "out' ! i = input ! (punct_index pu (Suc i) - 1)" if "i < length out" for i
    using bspec [OF out'(3), of "Suc i"] that by (simp del: upt_Suc)
  then have "out' = map (\<lambda>i. input ! (punct_index pu (Suc i) - 1)) [0..<length out]"
    using out'(2) by (intro nth_equalityI) simp_all
  then show ?thesis using out'(1) by (simp add: get_punctured_rate_def)
qed

lemma depunct_loop_eq:
  assumes "inj_on (\<lambda>j. punct_index pu j - 1) (set js)" and "distinct js"
    and "\<forall>j \<in> set js. j - 1 < length input \<and> punct_index pu j - 1 < length out"
  shows "\<exists>out'. depunct_loop pu input js out = Some out' \<and> length out' = length out \<and>
    (\<forall>j \<in> set js. out' ! (punct_index pu j - 1) = input ! (j - 1)) \<and>
    (\<forall>i < length out. i \<notin> (\<lambda>j. punct_index pu j - 1) ` set js \<longrightarrow> out' ! i = out ! i)"
  using assms
proof (induction js arbitrary: out)
  case (Cons j js)
  let ?k = "\<lambda>j. punct_index pu j - 1"
  let ?o = "out[?k j := input ! (j - 1)]"
  obtain out' where o: "depunct_loop pu input js ?o = Some out'" "length out' = length ?o"
    "\<forall>j \<in> set js. out' ! ?k j = input ! (j - 1)"
    "\<forall>i < length ?o. i \<notin> ?k ` set js \<longrightarrow> out' ! i = ?o ! i"
    using Cons.IH [of ?o] Cons.prems inj_on_subset [OF Cons.prems(1), of "set js"] by auto
  have j: "j - 1 < length input" "?k j < length out" using Cons.prems(3) by auto
  have "?k j \<notin> ?k ` set js" using Cons.prems(1,2) by (auto simp: inj_on_def)
  then have at_j: "out' ! ?k j = input ! (j - 1)" using o(4) j by simp
  have keep: "out' ! i = out ! i" if "i < length out" "i \<notin> ?k ` set (j # js)" for i
    using o(4) that by auto
  have run: "depunct_loop pu input (j # js) out = Some out'" using o(1) j by (simp add: Let_def)
  have all: "\<forall>q \<in> set (j # js). out' ! ?k q = input ! (q - 1)" using at_j o(3) by simp
  show ?case
    by (intro exI [of _ out'] conjI run all allI impI keep) (use o(2) in simp_all)
qed simp

end
