(* ===== verification/Viterbi.thy ===== *)
theory Viterbi
  imports Conv_Code "HOL-Library.Monad_Syntax"
begin

unbundle bit_operations_syntax

text \<open>
  The Viterbi decoder of \<^verbatim>\<open>crates/tetra-entities/src/lmac/components/viterbi.rs\<close>: path metrics over the 16
  states of a constraint-length-5 code, one decision bit per state and step, and a traceback
  from state 0.  Soft bits are \<open>i8\<close> and metrics \<open>i16\<close>, as in the source; \<open>None\<close> is an overflow, which
  panics with overflow checks and gives a wrong metric without.  The same algorithm on integers is
  the reference: \<open>viterbi_decode_eq\<close> shows that no product, sum or difference overflows, and that the
  decoder returns what the reference returns, as long as no soft bit is \<open>-128\<close> and the magnitudes add
  up to at most 16383.  The reference returns a maximum-likelihood message: among all messages of
  the right length that drive the encoder back to state 0, none correlates better with the received
  soft bits.  When the received bits are an encoded message with erasures that leave at least one
  bit per step, that message is returned.
\<close>

section \<open>The model\<close>

definition K :: nat where
  "K = 5"

definition num_states :: "nat \<Rightarrow> nat" where
  "num_states k = push_bit (k - 1) 1"

definition NUM_STATES :: nat where
  "NUM_STATES = num_states K"

type_synonym soft_bit = "8 word"
type_synonym metric = "16 word"

definition METRIC_MAX :: metric where
  "METRIC_MAX = 32767"

text \<open>One entry of the look-up table: the expected output for the given state number.\<close>

definition expected_bit :: "bool list \<Rightarrow> nat \<Rightarrow> soft_bit" where
  "expected_bit poly state =
     (let encoder_output =
            foldl (\<lambda>out bit_i.
              let past_input_bit = (state AND push_bit (K - 2 - bit_i) 1 \<noteq> 0) in
              if past_input_bit \<and> poly ! bit_i then \<not> out else out) False [0..<K - 1]
      in if encoder_output then 1 else - 1)"

definition new_with_polynomials :: "bool list list \<Rightarrow> soft_bit list list" where
  "new_with_polynomials generator_polynomials =
     map (\<lambda>poly. map (expected_bit poly) [0..<NUM_STATES]) generator_polynomials"

function chunks_exact :: "nat \<Rightarrow> 'a list \<Rightarrow> 'a list list" where
  "chunks_exact n xs =
     (if n = 0 \<or> length xs < n then [] else take n xs # chunks_exact n (drop n xs))"
  by pat_completeness auto
termination
  by (relation "measure (\<lambda>(n, xs). length xs)") auto

declare chunks_exact.simps [simp del]

text \<open>The product is an \<open>i8\<close>, widened to \<open>i16\<close> before it is subtracted.\<close>

definition branch_metrics :: "soft_bit list list \<Rightarrow> soft_bit list \<Rightarrow> metric list option" where
  "branch_metrics expected_0 chunk =
     foldl (\<lambda>acc (received_bit, expected). do {
         bms \<leftarrow> acc;
         those (map2 (\<lambda>m e. do {
             p \<leftarrow> (checked_int (sint received_bit * sint e) :: soft_bit option);
             checked_int (sint m - sint (scast p :: metric)) }) bms expected) })
       (Some (replicate NUM_STATES 0)) (zip chunk expected_0)"

definition candidate :: "metric list \<Rightarrow> metric list \<Rightarrow> nat \<Rightarrow> (bool \<times> metric) option" where
  "candidate metrics bms state = do {
     let predecessor_0 = (state * 2) mod NUM_STATES;
     let predecessor_1 = predecessor_0 + 1;
     metric_0 \<leftarrow> checked_int (sint (metrics ! predecessor_0) + sint (bms ! state));
     metric_1 \<leftarrow> checked_int (sint (metrics ! predecessor_1) - sint (bms ! state));
     Some (if sint metric_1 < sint metric_0 then (True, metric_1) else (False, metric_0)) }"

definition trellis_step :: "soft_bit list list \<Rightarrow> soft_bit list \<Rightarrow> metric list \<Rightarrow> (metric list \<times> u16) option" where
  "trellis_step expected_0 chunk metrics = do {
     bms \<leftarrow> branch_metrics expected_0 chunk;
     cands \<leftarrow> those (map (candidate metrics bms) [0..<NUM_STATES]);
     Some (map snd cands,
           foldl (\<lambda>decisions (state, c). if fst c then decisions OR push_bit state 1 else decisions)
             0 (zip [0..<NUM_STATES] cands)) }"

fun trellis :: "soft_bit list list \<Rightarrow> soft_bit list list \<Rightarrow> metric list \<Rightarrow> (metric list \<times> u16 list) option" where
  "trellis expected_0 [] metrics = Some (metrics, [])"
| "trellis expected_0 (chunk # chunks) metrics = do {
     (metrics', decisions) \<leftarrow> trellis_step expected_0 chunk metrics;
     (final, rest) \<leftarrow> trellis expected_0 chunks metrics';
     Some (final, decisions # rest) }"

text \<open>The traceback loop over the reversed decisions; the bits come out last first.\<close>

fun traceback :: "u16 list \<Rightarrow> nat \<Rightarrow> u8 list \<times> nat" where
  "traceback [] best_state = ([], best_state)"
| "traceback (decisions # rest) best_state =
     (let b = of_nat (drop_bit (K - 2) best_state AND 1);
          best_state' = best_state * 2 mod NUM_STATES + unat (drop_bit best_state decisions AND 1);
          (bits, final) = traceback rest best_state'
      in (b # bits, final))"

definition initial_metrics :: "metric list" where
  "initial_metrics = (replicate NUM_STATES (METRIC_MAX div 2))[0 := 0]"

definition viterbi_decode :: "soft_bit list list \<Rightarrow> soft_bit list \<Rightarrow> u8 list option" where
  "viterbi_decode expected_0 received_bits = do {
     (_, decisions) \<leftarrow> trellis expected_0 (chunks_exact (length expected_0) received_bits) initial_metrics;
     Some (rev (fst (traceback (rev decisions) 0))) }"

definition tetra_polynomials :: "bool list list" where
  "tetra_polynomials =
     [[True, True, False, False, True],
      [True, False, True, True, True],
      [True, True, True, False, True],
      [True, True, False, True, True]]"

definition codec_polynomials :: "bool list list" where
  "codec_polynomials =
     [[True, True, True, True, True],
      [True, True, False, True, True],
      [True, False, True, False, True]]"

definition soft_of :: "u8 \<Rightarrow> soft_bit" where
  "soft_of b = (if b = 0x00 then - 1 else if b = 0x01 then 1 else 0)"

definition dec_sb1 :: "u8 list \<Rightarrow> u8 list \<Rightarrow> nat \<Rightarrow> u8 list option" where
  "dec_sb1 in_buf out_buf sym_count =
     (if sym_count \<le> 864 \<and> length in_buf \<ge> sym_count * 4 \<and> length out_buf \<ge> sym_count
      then do {
        let soft = map soft_of (take (sym_count * 4) in_buf);
        decoded \<leftarrow> viterbi_decode (new_with_polynomials tetra_polynomials) soft;
        if length decoded \<ge> sym_count
        then Some (take sym_count decoded @ drop sym_count out_buf) else None }
      else None)"

section \<open>The decoder on exact integers\<close>

text \<open>The reference: the same steps on integers, which do not overflow.\<close>

definition exact_bit :: "bool list \<Rightarrow> nat \<Rightarrow> int" where
  "exact_bit poly state = sint (expected_bit poly state)"

definition exact_table :: "bool list list \<Rightarrow> int list list" where
  "exact_table polys = map (\<lambda>poly. map (exact_bit poly) [0..<NUM_STATES]) polys"

definition exact_initial :: "int list" where
  "exact_initial = map sint initial_metrics"

definition exact_branch_metrics :: "int list list \<Rightarrow> int list \<Rightarrow> int list" where
  "exact_branch_metrics expected_0 chunk =
     foldl (\<lambda>bms (received_bit, expected). map2 (\<lambda>m e. m - received_bit * e) bms expected)
       (replicate NUM_STATES 0) (zip chunk expected_0)"

definition exact_candidate :: "int list \<Rightarrow> int list \<Rightarrow> nat \<Rightarrow> bool \<times> int" where
  "exact_candidate metrics bms state =
     (let predecessor_0 = (state * 2) mod NUM_STATES;
          predecessor_1 = predecessor_0 + 1;
          metric_0 = metrics ! predecessor_0 + bms ! state;
          metric_1 = metrics ! predecessor_1 - bms ! state
      in if metric_1 < metric_0 then (True, metric_1) else (False, metric_0))"

definition exact_step :: "int list list \<Rightarrow> int list \<Rightarrow> int list \<Rightarrow> int list \<times> u16" where
  "exact_step expected_0 chunk metrics =
     (let bms = exact_branch_metrics expected_0 chunk in
      (map (\<lambda>state. snd (exact_candidate metrics bms state)) [0..<NUM_STATES],
       foldl (\<lambda>decisions state. if fst (exact_candidate metrics bms state) then decisions OR push_bit state 1 else decisions)
         0 [0..<NUM_STATES]))"

fun exact_trellis :: "int list list \<Rightarrow> int list list \<Rightarrow> int list \<Rightarrow> int list \<times> u16 list" where
  "exact_trellis expected_0 [] metrics = (metrics, [])"
| "exact_trellis expected_0 (chunk # chunks) metrics =
     (let (metrics', decisions) = exact_step expected_0 chunk metrics;
          (final, rest) = exact_trellis expected_0 chunks metrics'
      in (final, decisions # rest))"

definition exact_decode :: "int list list \<Rightarrow> int list \<Rightarrow> u8 list" where
  "exact_decode expected_0 received_bits =
     (let (_, decisions) = exact_trellis expected_0 (chunks_exact (length expected_0) received_bits) exact_initial
      in rev (fst (traceback (rev decisions) 0)))"

section \<open>States and branches\<close>

lemma NUM_STATES_16 [simp]: "NUM_STATES = 16"
  by (simp add: NUM_STATES_def num_states_def K_def)

definition next_state :: "nat \<Rightarrow> bool \<Rightarrow> nat" where
  "next_state s b = (if b then 8 else 0) + s div 2"

lemma next_state_less: "s < 16 \<Longrightarrow> next_state s b < 16"
  by (auto simp: next_state_def)

lemma next_state_pred:
  assumes "s < 16"
  shows "next_state s b * 2 mod 16 = s - s mod 2" and "s - s mod 2 + s mod 2 = s" and "next_state s b \<ge> 8 \<longleftrightarrow> b"
proof -
  have "2 * (s div 2) = s - s mod 2" by presburger
  moreover have "s div 2 < 8" using assms by simp
  ultimately show "next_state s b * 2 mod 16 = s - s mod 2" "next_state s b \<ge> 8 \<longleftrightarrow> b"
    by (auto simp: next_state_def)
qed simp

lemma double_mod_16: "s * 2 mod 16 = 2 * (s mod 8)" for s :: nat
  using mult_mod_right [of 2 s 8] by (simp add: mult.commute)

lemma pred_next:
  assumes "s < 16"
  shows "next_state (s * 2 mod 16 + of_bool d) (8 \<le> s) = s" and "s * 2 mod 16 + of_bool d < 16"
proof -
  have "(s * 2 mod 16 + of_bool d) div 2 = s mod 8" unfolding double_mod_16 by (cases d) simp_all
  moreover have "s mod 8 = (if 8 \<le> s then s - 8 else s)" using assms by (simp add: mod_if)
  ultimately show "next_state (s * 2 mod 16 + of_bool d) (8 \<le> s) = s" by (simp add: next_state_def)
  have "s mod 8 < 8" by simp
  then have "s * 2 mod 16 < 15" unfolding double_mod_16 by linarith
  then show "s * 2 mod 16 + of_bool d < 16" by (cases d) auto
qed

definition branch :: "int list list \<Rightarrow> int list \<Rightarrow> nat \<Rightarrow> bool \<Rightarrow> int" where
  "branch ex chunk s b =
     (if odd s then - (exact_branch_metrics ex chunk ! next_state s b) else exact_branch_metrics ex chunk ! next_state s b)"

fun cost :: "int list list \<Rightarrow> int list list \<Rightarrow> nat \<Rightarrow> bool list \<Rightarrow> int" where
  "cost ex (c # cs) s (b # bs) = branch ex c s b + cost ex cs (next_state s b) bs"
| "cost ex _ s _ = 0"

definition end_state :: "nat \<Rightarrow> bool list \<Rightarrow> nat" where
  "end_state s bs = foldl next_state s bs"

lemma end_state_simps [simp]: "end_state s [] = s" "end_state s (b # bs) = end_state (next_state s b) bs"
  "end_state s (bs @ [b]) = next_state (end_state s bs) b"
  by (simp_all add: end_state_def)

lemma end_state_less: "s < 16 \<Longrightarrow> end_state s bs < 16"
  by (induction bs arbitrary: s) (simp_all add: next_state_less)

lemma length_exact_step [simp]: "length (fst (exact_step ex c m)) = 16"
  by (simp add: exact_step_def Let_def)

lemma exact_candidate_step:
  assumes "s < 16"
  shows "snd (exact_candidate m (exact_branch_metrics ex c) (next_state s b)) \<le> m ! s + branch ex c s b"
proof -
  note p = next_state_pred [OF assms]
  show ?thesis
  proof (cases "odd s")
    case True
    then have "next_state s b * 2 mod 16 + 1 = s" using p(1) by presburger
    then show ?thesis using True by (simp add: exact_candidate_def branch_def Let_def)
  next
    case False
    then have "next_state s b * 2 mod 16 = s" using p(1) by presburger
    then show ?thesis using False by (simp add: exact_candidate_def branch_def Let_def)
  qed
qed

lemma exact_candidate_pred:
  assumes "s < 16"
  shows "snd (exact_candidate m (exact_branch_metrics ex c) s)
    = m ! (s * 2 mod 16 + of_bool (fst (exact_candidate m (exact_branch_metrics ex c) s)))
      + branch ex c (s * 2 mod 16 + of_bool (fst (exact_candidate m (exact_branch_metrics ex c) s))) (8 \<le> s)"
proof -
  have "even (s * 2 mod 16)" unfolding double_mod_16 by simp
  moreover have n: "next_state (s * 2 mod 16) (8 \<le> s) = s" "next_state (s * 2 mod 16 + 1) (8 \<le> s) = s"
    using pred_next(1) [OF assms, of False] pred_next(1) [OF assms, of True] by simp_all
  ultimately show ?thesis by (simp add: exact_candidate_def branch_def Let_def)
qed

lemma decisions_bit:
  "bit (foldl (\<lambda>d i. if P i then d OR push_bit i 1 else d) (w :: u16) is) s \<longleftrightarrow> bit w s \<or> s < 16 \<and> s \<in> set is \<and> P s"
  by (induction "is" arbitrary: w) (auto simp: bit_or_iff bit_exp_iff)

lemma exact_step_decision:
  assumes "s < 16"
  shows "unat (drop_bit s (snd (exact_step ex c m)) AND 1) = of_bool (fst (exact_candidate m (exact_branch_metrics ex c) s))"
proof -
  have "bit (snd (exact_step ex c m)) s = fst (exact_candidate m (exact_branch_metrics ex c) s)"
    using assms by (simp only: exact_step_def Let_def snd_conv decisions_bit) simp
  then show ?thesis by (simp add: and_one_eq mod_2_eq_odd bit_iff_odd_drop_bit [symmetric])
qed

section \<open>Optimality\<close>

lemma exact_trellis_lower:
  "s < 16 \<Longrightarrow> length bs = length cs \<Longrightarrow> fst (exact_trellis ex cs m) ! end_state s bs \<le> m ! s + cost ex cs s bs"
proof (induction cs arbitrary: m s bs)
  case (Cons c cs)
  then obtain b bs' where bs: "bs = b # bs'" "length bs' = length cs" by (cases bs) auto
  let ?m = "fst (exact_step ex c m)"
  have "fst (exact_trellis ex (c # cs) m) ! end_state s bs = fst (exact_trellis ex cs ?m) ! end_state (next_state s b) bs'"
    by (simp add: bs(1) split_beta Let_def)
  also have "\<dots> \<le> ?m ! next_state s b + cost ex cs (next_state s b) bs'"
    using Cons.prems bs by (intro Cons.IH next_state_less) auto
  also have "?m ! next_state s b = snd (exact_candidate m (exact_branch_metrics ex c) (next_state s b))"
    using next_state_less [OF Cons.prems(1), of b] by (simp add: exact_step_def Let_def)
  also have "\<dots> \<le> m ! s + branch ex c s b" by (rule exact_candidate_step [OF Cons.prems(1)])
  finally show ?case by (simp add: bs(1))
qed simp

text \<open>The traceback from a final state gives the bits of a path that attains its metric.\<close>

lemma traceback_append:
  "traceback (xs @ ys) s = (let (a, s') = traceback xs s; (b, s'') = traceback ys s' in (a @ b, s''))"
  by (induction xs arbitrary: s) (simp_all add: split_beta Let_def)

lemma state_top_bit: "s < 16 \<Longrightarrow> (of_nat (drop_bit (K - 2) s AND 1) :: u8) = of_bool (8 \<le> s)"
proof -
  assume s: "s < 16"
  have "drop_bit 3 s = (if 8 \<le> s then 1 else 0)" using s by (auto simp: drop_bit_eq_div div_if)
  then show ?thesis by (simp add: K_def)
qed

lemma exact_trellis_traceback:
  assumes "s < 16"
  shows "\<exists>s0 bs. s0 < 16 \<and> length bs = length cs \<and> end_state s0 bs = s \<and>
    fst (exact_trellis ex cs m) ! s = m ! s0 + cost ex cs s0 bs \<and>
    traceback (rev (snd (exact_trellis ex cs m))) s = (rev (map of_bool bs), s0)"
  using assms
proof (induction cs arbitrary: m)
  case Nil
  then show ?case by (intro exI [of _ s] exI [of _ "[]"]) simp
next
  case (Cons c cs)
  let ?m = "fst (exact_step ex c m)" and ?d = "snd (exact_step ex c m)"
  obtain s1 bs where IH: "s1 < 16" "length bs = length cs" "end_state s1 bs = s"
    "fst (exact_trellis ex cs ?m) ! s = ?m ! s1 + cost ex cs s1 bs"
    "traceback (rev (snd (exact_trellis ex cs ?m))) s = (rev (map of_bool bs), s1)"
    using Cons.IH [of ?m] Cons.prems by auto
  define dec where "dec = fst (exact_candidate m (exact_branch_metrics ex c) s1)"
  define s0 where "s0 = s1 * 2 mod 16 + of_bool dec"
  have s0: "next_state s0 (8 \<le> s1) = s1" "s0 < 16" unfolding s0_def by (rule pred_next [OF IH(1)])+
  have "?m ! s1 = m ! s0 + branch ex c s0 (8 \<le> s1)"
    using exact_candidate_pred [OF IH(1), of m ex c] IH(1)
    by (simp add: exact_step_def Let_def s0_def dec_def)
  moreover have "traceback [?d] s1 = ([of_bool (8 \<le> s1)], s0)"
    using exact_step_decision [OF IH(1), of ex c m] state_top_bit [OF IH(1)]
    by (simp add: s0_def dec_def Let_def)
  then have "traceback (rev (snd (exact_trellis ex (c # cs) m))) s = (rev (map of_bool ((8 \<le> s1) # bs)), s0)"
    using IH(5) by (simp add: split_beta Let_def traceback_append)
  ultimately show ?case
    using IH s0 by (intro exI [of _ s0] exI [of _ "(8 \<le> s1) # bs"]) (simp add: split_beta Let_def)
qed

section \<open>Branch metrics are correlations\<close>

definition sgn_bit :: "bool \<Rightarrow> int" where
  "sgn_bit b = (if b then 1 else - 1)"

text \<open>The output of one generator polynomial for a state and an input bit.\<close>

definition conv_out :: "bool list \<Rightarrow> nat \<Rightarrow> bool \<Rightarrow> bool" where
  "conv_out poly s b \<longleftrightarrow>
     (((((b \<and> poly ! 0) \<noteq> (bit s 3 \<and> poly ! 1)) \<noteq> (bit s 2 \<and> poly ! 2)) \<noteq> (bit s 1 \<and> poly ! 3))
        \<noteq> (bit s 0 \<and> poly ! 4))"

definition conv_outs :: "bool list list \<Rightarrow> nat \<Rightarrow> bool \<Rightarrow> bool list" where
  "conv_outs polys s b = map (\<lambda>poly. conv_out poly s b) polys"

definition polys_ok :: "bool list list \<Rightarrow> bool" where
  "polys_ok polys \<longleftrightarrow> polys \<noteq> [] \<and> (\<forall>poly \<in> set polys. length poly = 5 \<and> poly ! 4)"

lemma polys_ok_tetra: "polys_ok tetra_polynomials" "polys_ok codec_polynomials"
  by (simp_all add: polys_ok_def tetra_polynomials_def codec_polynomials_def)

lemma next_state_bits:
  assumes "s < 16"
  shows "bit (next_state s b) 3 = b" "bit (next_state s b) 2 = bit s 3" "bit (next_state s b) 1 = bit s 2"
    "bit (next_state s b) 0 = bit s 1"
proof -
  have "s \<in> {..<16}" using assms by simp
  then have "s \<in> {0, 1, 2, 3, 4, 5, 6, 7, 8, 9, 10, 11, 12, 13, 14, 15}"
    by (simp add: lessThan_nat_numeral lessThan_Suc) blast
  then show "bit (next_state s b) 3 = b" "bit (next_state s b) 2 = bit s 3" "bit (next_state s b) 1 = bit s 2"
    "bit (next_state s b) 0 = bit s 1"
    by (cases b; auto simp: next_state_def bit_0)+
qed

lemma exact_bit_eq:
  "exact_bit poly s = sgn_bit ((((bit s 3 \<and> poly ! 0) \<noteq> (bit s 2 \<and> poly ! 1)) \<noteq> (bit s 1 \<and> poly ! 2))
     \<noteq> (bit s 0 \<and> poly ! 3))"
proof -
  have a: "s AND push_bit n 1 \<noteq> 0 \<longleftrightarrow> bit s n" for n
    by (simp add: and_exp_eq_0_iff_not_bit)
  have x: "(if c then \<not> out else out) \<longleftrightarrow> out \<noteq> c" for c out by auto
  have "[0..<K - 1] = [0, 1, 2, 3]" by (simp add: K_def upt_rec)
  then show ?thesis unfolding exact_bit_def expected_bit_def a Let_def x by (simp add: K_def sgn_bit_def) blast
qed

lemma expected_next:
  assumes "s < 16" and "poly ! 4"
  shows "(if odd s then - 1 else 1) * exact_bit poly (next_state s b) = sgn_bit (conv_out poly s b)"
  unfolding exact_bit_eq conv_out_def next_state_bits [OF assms(1)]
  using assms(2) by (simp add: sgn_bit_def bit_0)

lemma exact_branch_metrics_nth:
  assumes "\<forall>e \<in> set ex. length e = 16" and "s < 16"
  shows "exact_branch_metrics ex c ! s = - (\<Sum>(r, e) \<leftarrow> zip c ex. r * e ! s)"
proof -
  have "length acc = 16 \<Longrightarrow> \<forall>(r, e) \<in> set zs. length e = 16 \<Longrightarrow>
      foldl (\<lambda>bms (r, e). map2 (\<lambda>m x. m - r * x) bms e) acc zs ! s = acc ! s - (\<Sum>(r, e) \<leftarrow> zs. r * e ! s)"
    for acc and zs :: "(int \<times> int list) list"
  proof (induction zs arbitrary: acc)
    case (Cons z zs)
    obtain r e where z: "z = (r, e)" by (cases z)
    have "length (map2 (\<lambda>m x. m - r * x) acc e) = 16" using Cons.prems z by simp
    from Cons.IH [OF this] show ?case using Cons.prems z assms(2) by simp
  qed simp
  moreover have "\<forall>(r, e) \<in> set (zip c ex). length e = 16" using assms(1) by (auto dest: set_zip_rightD)
  ultimately show ?thesis unfolding exact_branch_metrics_def using assms(2) by simp
qed

lemma branch_corr:
  assumes "polys_ok polys" and "s < 16"
  shows "branch (exact_table polys) c s b = - (\<Sum>(r, x) \<leftarrow> zip c (conv_outs polys s b). r * sgn_bit x)"
proof -
  let ?ex = "exact_table polys" and ?sg = "if odd s then - 1 else 1 :: int"
  have "branch ?ex c s b = ?sg * exact_branch_metrics ?ex c ! next_state s b" by (simp add: branch_def)
  also have "exact_branch_metrics ?ex c ! next_state s b = - (\<Sum>(r, e) \<leftarrow> zip c ?ex. r * e ! next_state s b)"
    using next_state_less [OF assms(2)] by (intro exact_branch_metrics_nth) (auto simp: exact_table_def)
  also have "(\<Sum>(r, e) \<leftarrow> zip c ?ex. r * e ! next_state s b) = (\<Sum>(r, p) \<leftarrow> zip c polys. r * exact_bit p (next_state s b))"
    using next_state_less [OF assms(2), of b]
    by (simp add: exact_table_def zip_map2 split_def o_def)
  also have "?sg * - \<dots> = - (\<Sum>(r, p) \<leftarrow> zip c polys. r * (?sg * exact_bit p (next_state s b)))"
    by (induction c polys rule: list_induct2') (auto simp: algebra_simps)
  also have "(\<Sum>(r, p) \<leftarrow> zip c polys. r * (?sg * exact_bit p (next_state s b)))
      = (\<Sum>(r, p) \<leftarrow> zip c polys. r * sgn_bit (conv_out p s b))"
  proof (rule arg_cong [of _ _ sum_list], rule map_cong [OF refl])
    fix z assume z: "z \<in> set (zip c polys)"
    obtain r p where rp: "z = (r, p)" by (cases z)
    then have "p ! 4" using z assms(1) by (auto simp: polys_ok_def dest: set_zip_rightD)
    then show "(case z of (r, p) \<Rightarrow> r * (?sg * exact_bit p (next_state s b))) = (case z of (r, p) \<Rightarrow> r * sgn_bit (conv_out p s b))"
      unfolding rp prod.case using expected_next [OF assms(2)] by simp
  qed
  finally show ?thesis by (simp add: conv_outs_def zip_map2 split_def o_def)
qed

section \<open>Maximum likelihood\<close>

definition abs_sum :: "int list \<Rightarrow> int" where
  "abs_sum xs = (\<Sum>x \<leftarrow> xs. \<bar>x\<bar>)"

definition agree :: "int list \<Rightarrow> bool list \<Rightarrow> bool" where
  "agree c outs \<longleftrightarrow> (\<forall>(r, x) \<in> set (zip c outs). r * sgn_bit x = \<bar>r\<bar>)"

definition corr :: "int list \<Rightarrow> bool list \<Rightarrow> int" where
  "corr c outs = (\<Sum>(r, x) \<leftarrow> zip c outs. r * sgn_bit x)"

lemma corr_simps: "corr [] outs = 0" "corr (r # c) (x # outs) = r * sgn_bit x + corr c outs"
  by (simp_all add: corr_def)

lemma agree_simps:
  "agree [] outs" "agree (r # c) (x # outs) \<longleftrightarrow> r * sgn_bit x = \<bar>r\<bar> \<and> agree c outs"
  by (simp_all add: agree_def)

lemma abs_sum_simps: "abs_sum [] = 0" "abs_sum (r # c) = \<bar>r\<bar> + abs_sum c"
  by (simp_all add: abs_sum_def)

lemma corr_all:
  "length outs = length c \<Longrightarrow> corr c outs \<le> abs_sum c \<and> - abs_sum c \<le> corr c outs \<and> (corr c outs = abs_sum c \<longleftrightarrow> agree c outs)"
proof (induction c arbitrary: outs)
  case (Cons r c)
  then obtain x outs' where o: "outs = x # outs'" "length outs' = length c" by (cases outs) auto
  have "r * sgn_bit x \<le> \<bar>r\<bar>" "- \<bar>r\<bar> \<le> r * sgn_bit x" by (auto simp: sgn_bit_def)
  then show ?case using Cons.IH [OF o(2)] unfolding o(1) corr_simps abs_sum_simps agree_simps by linarith
qed (simp add: corr_simps abs_sum_simps agree_simps)

lemma branch_bounds:
  assumes "polys_ok polys" and "s < 16" and "length c = length polys"
  shows "- abs_sum c \<le> branch (exact_table polys) c s b"
    and "branch (exact_table polys) c s b \<le> abs_sum c"
    and "branch (exact_table polys) c s b = - abs_sum c \<longleftrightarrow> agree c (conv_outs polys s b)"
proof -
  have "length (conv_outs polys s b) = length c" using assms(3) by (simp add: conv_outs_def)
  note a = corr_all [OF this]
  have "branch (exact_table polys) c s b = - corr c (conv_outs polys s b)"
    unfolding branch_corr [OF assms(1,2)] corr_def ..
  then show "- abs_sum c \<le> branch (exact_table polys) c s b"
    "branch (exact_table polys) c s b \<le> abs_sum c"
    "branch (exact_table polys) c s b = - abs_sum c \<longleftrightarrow> agree c (conv_outs polys s b)"
    using a by linarith+
qed

fun agrees :: "bool list list \<Rightarrow> int list list \<Rightarrow> nat \<Rightarrow> bool list \<Rightarrow> bool" where
  "agrees polys (c # cs) s (b # bs) \<longleftrightarrow> agree c (conv_outs polys s b) \<and> agrees polys cs (next_state s b) bs"
| "agrees polys _ s _ \<longleftrightarrow> True"

lemma cost_bounds:
  assumes "polys_ok polys"
  shows "s < 16 \<Longrightarrow> length bs = length cs \<Longrightarrow> \<forall>c \<in> set cs. length c = length polys \<Longrightarrow>
    - (\<Sum>c \<leftarrow> cs. abs_sum c) \<le> cost (exact_table polys) cs s bs
    \<and> cost (exact_table polys) cs s bs \<le> (\<Sum>c \<leftarrow> cs. abs_sum c)
    \<and> (cost (exact_table polys) cs s bs = - (\<Sum>c \<leftarrow> cs. abs_sum c) \<longleftrightarrow> agrees polys cs s bs)"
proof (induction cs arbitrary: s bs)
  case (Cons c cs)
  then obtain b bs' where bs: "bs = b # bs'" "length bs' = length cs" by (cases bs) auto
  have "length c = length polys" using Cons.prems by simp
  note br = branch_bounds [OF assms Cons.prems(1) this, of b]
  note ih = Cons.IH [OF next_state_less [OF Cons.prems(1)] bs(2), of b]
  have "\<forall>c \<in> set cs. length c = length polys" using Cons.prems by simp
  from ih [OF this] show ?case using br unfolding bs(1) cost.simps agrees.simps list.map sum_list.Cons by linarith
qed simp

lemma end_state_zeros: "end_state 0 (replicate n False) = 0"
  by (induction n) (simp_all add: next_state_def)

text \<open>Two paths into the same state that both agree with the received bits are the same path, as
  soon as every step has a bit that was not erased.\<close>

lemma conv_out_flip:
  assumes "polys_ok polys" and "s < 16" and "s' < 16" and "s \<noteq> s'" and "s div 2 = s' div 2" and "poly \<in> set polys"
  shows "conv_out poly s b \<noteq> conv_out poly s' b"
proof -
  have "bit s (Suc i) = bit s' (Suc i)" for i using assms(5) by (simp add: bit_Suc)
  from this [of 0] this [of 1] this [of 2]
  have "bit s 1 = bit s' 1" "bit s 2 = bit s' 2" "bit s 3 = bit s' 3" by (simp_all add: numeral_eq_Suc)
  moreover have "bit s 0 \<noteq> bit s' 0" using assms(4,5) by (auto simp: bit_0) presburger+
  moreover have "poly ! 4" using assms(1,6) by (auto simp: polys_ok_def)
  ultimately show ?thesis by (auto simp: conv_out_def)
qed

lemma next_state_eq:
  assumes "s < 16" and "s' < 16" and "next_state s b = next_state s' b'"
  shows "b = b'" and "s div 2 = s' div 2"
proof -
  have "s div 2 < 8" "s' div 2 < 8" using assms by simp_all
  then show "b = b'" "s div 2 = s' div 2" using assms(3) by (auto simp: next_state_def split: if_splits)
qed

lemma agree_unique_step:
  assumes "polys_ok polys" and s: "s < 16" "s' < 16" and "next_state s b = next_state s' b'"
    and "agree c (conv_outs polys s b)" and "agree c (conv_outs polys s' b')"
    and "length c = length polys" and "\<exists>r \<in> set c. r \<noteq> 0"
  shows "s = s' \<and> b = b'"
proof (rule ccontr)
  have b: "b = b'" and half: "s div 2 = s' div 2" using next_state_eq [OF s assms(4)] by auto
  assume "\<not> (s = s' \<and> b = b')"
  then have ne: "s \<noteq> s'" using b by simp
  obtain i where i: "i < length c" "c ! i \<noteq> 0" using assms(8) by (metis in_set_conv_nth)
  let ?p = "polys ! i"
  have p: "?p \<in> set polys" using i assms(7) by simp
  have "(c ! i, conv_out ?p s b) \<in> set (zip c (conv_outs polys s b))"
    "(c ! i, conv_out ?p s' b) \<in> set (zip c (conv_outs polys s' b))"
    using i assms(7) by (auto simp: set_zip conv_outs_def intro!: exI [of _ i])
  then have "c ! i * sgn_bit (conv_out ?p s b) = \<bar>c ! i\<bar>" "c ! i * sgn_bit (conv_out ?p s' b) = \<bar>c ! i\<bar>"
    using assms(5,6) b by (auto simp: agree_def)
  moreover have "conv_out ?p s b \<noteq> conv_out ?p s' b" by (rule conv_out_flip [OF assms(1) s ne half p])
  ultimately show False using i(2) by (auto simp: sgn_bit_def split: if_splits)
qed

lemma agrees_unique:
  assumes "polys_ok polys" and "\<forall>c \<in> set cs. length c = length polys \<and> (\<exists>r \<in> set c. r \<noteq> 0)"
  shows "s < 16 \<Longrightarrow> s' < 16 \<Longrightarrow> length bs = length cs \<Longrightarrow> length bs' = length cs \<Longrightarrow>
    end_state s bs = end_state s' bs' \<Longrightarrow> agrees polys cs s bs \<Longrightarrow> agrees polys cs s' bs' \<Longrightarrow> s = s' \<and> bs = bs'"
  using assms(2)
proof (induction cs arbitrary: s s' bs bs')
  case (Cons c cs)
  obtain b t b' t' where bs: "bs = b # t" "bs' = b' # t'" using Cons.prems by (cases bs; cases bs') auto
  have "next_state s b = next_state s' b' \<and> t = t'"
    using Cons.prems bs by (intro Cons.IH next_state_less) auto
  moreover from this have "s = s' \<and> b = b'"
    using Cons.prems bs by (intro agree_unique_step [OF assms(1)]) auto
  ultimately show ?case using bs by simp
qed simp

section \<open>The decoder\<close>

text \<open>The code words of the generator polynomials, from a given encoder state.\<close>

fun conv_encode :: "bool list list \<Rightarrow> nat \<Rightarrow> bool list \<Rightarrow> bool list" where
  "conv_encode polys s [] = []"
| "conv_encode polys s (b # bs) = conv_outs polys s b @ conv_encode polys (next_state s b) bs"

lemma length_conv_outs [simp]: "length (conv_outs polys s b) = length polys"
  by (simp add: conv_outs_def)

lemma length_conv_encode [simp]: "length (conv_encode polys s bs) = length polys * length bs"
  by (induction bs arbitrary: s) simp_all

lemma conv_encode_append:
  "conv_encode polys s (xs @ ys) = conv_encode polys s xs @ conv_encode polys (end_state s xs) ys"
  by (induction xs arbitrary: s) simp_all

lemma chunks_exact_all:
  "0 < n \<Longrightarrow> length (chunks_exact n xs) = length xs div n \<and> (\<forall>c \<in> set (chunks_exact n xs). length c = n)
     \<and> concat (chunks_exact n xs) = take (n * (length xs div n)) xs"
proof (induction n xs rule: chunks_exact.induct)
  case (1 n xs)
  show ?case
  proof (cases "length xs < n")
    case True
    then have "chunks_exact n xs = []" by (subst chunks_exact.simps) simp
    then show ?thesis using True by simp
  next
    case False
    then have l: "length xs div n = Suc ((length xs - n) div n)" using "1.prems" by (intro le_div_geq) simp_all
    have "chunks_exact n xs = take n xs # chunks_exact n (drop n xs)"
      using False "1.prems" by (subst chunks_exact.simps) simp
    moreover have ih: "length (chunks_exact n (drop n xs)) = length (drop n xs) div n"
      "\<forall>c \<in> set (chunks_exact n (drop n xs)). length c = n"
      "concat (chunks_exact n (drop n xs)) = take (n * (length (drop n xs) div n)) (drop n xs)"
      using "1.IH" False "1.prems" by blast+
    moreover have "take n xs @ take (n * ((length xs - n) div n)) (drop n xs) = take (n * Suc ((length xs - n) div n)) xs"
      by (simp only: mult_Suc_right take_add)
    moreover have "length (take n xs) = n" using False by simp
    ultimately show ?thesis
      unfolding l length_drop by (simp only: list.size concat.simps list.set ball_simps) simp
  qed
qed

lemmas chunks_exact_props =
  chunks_exact_all [THEN conjunct1] chunks_exact_all [THEN conjunct2, THEN conjunct1]
  chunks_exact_all [THEN conjunct2, THEN conjunct2]

lemma corr_append: "length c = length o1 \<Longrightarrow> corr (c @ d) (o1 @ o2) = corr c o1 + corr d o2"
  by (simp add: corr_def)

lemma agree_append: "length c = length o1 \<Longrightarrow> agree (c @ d) (o1 @ o2) \<longleftrightarrow> agree c o1 \<and> agree d o2"
  by (auto simp: agree_def)

lemma cost_corr:
  assumes "polys_ok polys"
  shows "s < 16 \<Longrightarrow> length bs = length cs \<Longrightarrow> \<forall>c \<in> set cs. length c = length polys \<Longrightarrow>
    cost (exact_table polys) cs s bs = - corr (concat cs) (conv_encode polys s bs)"
proof (induction cs arbitrary: s bs)
  case (Cons c cs)
  then obtain b bs' where bs: "bs = b # bs'" "length bs' = length cs" by (cases bs) auto
  have "length c = length (conv_outs polys s b)" using Cons.prems by simp
  from corr_append [OF this] show ?case
    using Cons.IH [OF next_state_less bs(2)] Cons.prems branch_corr [OF assms Cons.prems(1), of c b]
    by (simp add: bs(1) corr_def)
qed (simp add: corr_def)

lemma agrees_concat:
  "length bs = length cs \<Longrightarrow> \<forall>c \<in> set cs. length c = length polys \<Longrightarrow>
    agrees polys cs s bs \<longleftrightarrow> agree (concat cs) (conv_encode polys s bs)"
proof (induction cs arbitrary: s bs)
  case (Cons c cs)
  then obtain b bs' where bs: "bs = b # bs'" "length bs' = length cs" by (cases bs) auto
  then show ?case using Cons by (simp add: agree_append)
qed (simp add: agree_def)

lemma corr_take: "corr (take (length outs) r) outs = corr r outs"
proof -
  have "zip (take (length outs) r) outs = zip r outs"
    by (induction r outs rule: list_induct2') simp_all
  then show ?thesis by (simp add: corr_def)
qed

lemma abs_sum_concat: "(\<Sum>c \<leftarrow> cs. abs_sum c) = abs_sum (concat cs)"
  by (induction cs) (simp_all add: abs_sum_def)

lemma abs_sum_take: "abs_sum (take n r) \<le> abs_sum r"
proof -
  have "abs_sum r = abs_sum (take n r) + abs_sum (drop n r)"
    unfolding abs_sum_def by (metis append_take_drop_id map_append sum_list_append)
  moreover have "0 \<le> abs_sum (drop n r)" unfolding abs_sum_def by (rule sum_list_nonneg) auto
  ultimately show ?thesis by simp
qed

lemma exact_initial_nth: "s < 16 \<Longrightarrow> exact_initial ! s = (if s = 0 then 0 else 16383)"
  by (simp add: exact_initial_def initial_metrics_def METRIC_MAX_def nth_list_update)

lemma metrics_bounded:
  assumes "polys_ok polys" and "\<forall>c \<in> set cs. length c = length polys" and "s < 16"
  shows "- abs_sum (concat cs) \<le> fst (exact_trellis (exact_table polys) cs exact_initial) ! s"
    and "fst (exact_trellis (exact_table polys) cs exact_initial) ! s \<le> 16383 + abs_sum (concat cs)"
proof -
  obtain s0 bs where t: "s0 < 16" "length bs = length cs"
    "fst (exact_trellis (exact_table polys) cs exact_initial) ! s
       = exact_initial ! s0 + cost (exact_table polys) cs s0 bs"
    using exact_trellis_traceback [OF assms(3)] by blast
  show "- abs_sum (concat cs) \<le> fst (exact_trellis (exact_table polys) cs exact_initial) ! s"
    "fst (exact_trellis (exact_table polys) cs exact_initial) ! s \<le> 16383 + abs_sum (concat cs)"
    using cost_bounds [OF assms(1) t(1,2) assms(2)] t(3) exact_initial_nth [OF t(1)]
    by (auto simp: abs_sum_concat split: if_splits)
qed

text \<open>The decoder returns the bits of a path from state 0 to state 0 of least cost.\<close>

lemma exact_decode_path:
  assumes "polys_ok polys" and "\<forall>c \<in> set cs. length c = length polys" and "2 * abs_sum (concat cs) < 16383"
  obtains bs where "length bs = length cs" and "end_state 0 bs = 0"
    and "rev (fst (traceback (rev (snd (exact_trellis (exact_table polys) cs exact_initial))) 0)) = map of_bool bs"
    and "\<And>bs'. length bs' = length cs \<Longrightarrow> end_state 0 bs' = 0 \<Longrightarrow>
      cost (exact_table polys) cs 0 bs \<le> cost (exact_table polys) cs 0 bs'"
proof -
  let ?ex = "exact_table polys"
  obtain s0 bs where t: "s0 < 16" "length bs = length cs" "end_state s0 bs = 0"
    "fst (exact_trellis ?ex cs exact_initial) ! 0 = exact_initial ! s0 + cost ?ex cs s0 bs"
    "traceback (rev (snd (exact_trellis ?ex cs exact_initial))) 0 = (rev (map of_bool bs), s0)"
    using exact_trellis_traceback [of 0 cs ?ex exact_initial] by auto
  have low: "exact_initial ! s0 + cost ?ex cs s0 bs \<le> cost ?ex cs 0 bs'"
    if "length bs' = length cs" "end_state 0 bs' = 0" for bs'
    using exact_trellis_lower [of 0 bs' cs ?ex exact_initial] that t(4) by (simp add: exact_initial_nth)
  have "s0 = 0"
  proof (rule ccontr)
    assume "s0 \<noteq> 0"
    then have "16383 + cost ?ex cs s0 bs \<le> cost ?ex cs 0 (replicate (length cs) False)"
      using low [of "replicate (length cs) False"] t(1) by (simp add: exact_initial_nth end_state_zeros)
    moreover have "cost ?ex cs 0 (replicate (length cs) False) \<le> abs_sum (concat cs)"
      using cost_bounds [OF assms(1) _ _ assms(2), of 0 "replicate (length cs) False"] by (simp add: abs_sum_concat)
    moreover have "- abs_sum (concat cs) \<le> cost ?ex cs s0 bs"
      using cost_bounds [OF assms(1) t(1,2) assms(2)] by (simp add: abs_sum_concat)
    ultimately show False using assms(3) by linarith
  qed
  then show thesis using that [of bs] t low by (simp add: exact_initial_nth)
qed

lemma length_exact_table [simp]: "length (exact_table polys) = length polys"
  by (simp add: exact_table_def)

lemma exact_decode_ml:
  assumes ok: "polys_ok polys" and small: "2 * abs_sum r < 16383"
  obtains bs where "exact_decode (exact_table polys) r = map of_bool bs"
    and "length bs = length r div length polys" and "end_state 0 bs = 0"
    and "\<And>bs'. length bs' = length r div length polys \<Longrightarrow> end_state 0 bs' = 0 \<Longrightarrow>
      corr r (conv_encode polys 0 bs') \<le> corr r (conv_encode polys 0 bs)"
proof -
  let ?ex = "exact_table polys" and ?cs = "chunks_exact (length polys) r"
  have n: "0 < length polys" using ok by (simp add: polys_ok_def)
  note ch = chunks_exact_props [OF n, of r]
  have "2 * abs_sum (concat ?cs) < 16383" using small abs_sum_take [of "length polys * (length r div length polys)" r] ch(3) by simp
  from exact_decode_path [OF ok ch(2) this] obtain bs where bs: "length bs = length ?cs" "end_state 0 bs = 0"
    "rev (fst (traceback (rev (snd (exact_trellis ?ex ?cs exact_initial))) 0)) = map of_bool bs"
    "\<And>bs'. length bs' = length ?cs \<Longrightarrow> end_state 0 bs' = 0 \<Longrightarrow> cost ?ex ?cs 0 bs \<le> cost ?ex ?cs 0 bs'"
    by blast
  have c: "cost ?ex ?cs 0 bs' = - corr r (conv_encode polys 0 bs')" if "length bs' = length ?cs" for bs'
    using cost_corr [OF ok _ that ch(2), of 0] corr_take [of "conv_encode polys 0 bs'" r] that
    by (simp add: ch(1,3))
  have "corr r (conv_encode polys 0 bs') \<le> corr r (conv_encode polys 0 bs)"
    if "length bs' = length r div length polys" "end_state 0 bs' = 0" for bs'
    using bs(4) [of bs'] that c [of bs] c [of bs'] bs(1) ch(1) by simp
  then show thesis using that [of bs] bs ch(1) by (simp add: exact_decode_def split_beta Let_def)
qed

text \<open>A code word with erasures, at least one bit of every step kept, is decoded to its message.\<close>

lemma exact_decode_exact:
  assumes ok: "polys_ok polys" and small: "2 * abs_sum r < 16383"
    and len: "length r = length polys * length bs" and tail: "end_state 0 bs = 0"
    and agree: "agree r (conv_encode polys 0 bs)"
    and kept: "\<forall>c \<in> set (chunks_exact (length polys) r). \<exists>x \<in> set c. x \<noteq> 0"
  shows "exact_decode (exact_table polys) r = map of_bool bs"
proof -
  let ?ex = "exact_table polys" and ?cs = "chunks_exact (length polys) r"
  have n: "0 < length polys" using ok by (simp add: polys_ok_def)
  note ch = chunks_exact_props [OF n, of r]
  have r: "concat ?cs = r" "length bs = length ?cs" using ch n len by simp_all
  from exact_decode_path [OF ok ch(2)] small r(1) obtain bs2 where b2: "length bs2 = length ?cs" "end_state 0 bs2 = 0"
    "rev (fst (traceback (rev (snd (exact_trellis ?ex ?cs exact_initial))) 0)) = map of_bool bs2"
    "\<And>bs'. length bs' = length ?cs \<Longrightarrow> end_state 0 bs' = 0 \<Longrightarrow> cost ?ex ?cs 0 bs2 \<le> cost ?ex ?cs 0 bs'"
    by metis
  have a1: "agrees polys ?cs 0 bs" using agrees_concat [OF r(2) ch(2), of 0] agree r(1) by simp
  then have "cost ?ex ?cs 0 bs = - abs_sum r" using cost_bounds [OF ok _ r(2) ch(2), of 0] by (simp add: abs_sum_concat r(1))
  then have "agrees polys ?cs 0 bs2"
    using cost_bounds [OF ok _ b2(1) ch(2), of 0] b2(4) [OF r(2) tail] unfolding abs_sum_concat r(1) by linarith
  then have "bs = bs2"
    using agrees_unique [OF ok _ _ _ r(2) b2(1), of 0 0] a1 tail b2(2) ch(2) kept by simp
  then show ?thesis using b2(3) by (simp add: exact_decode_def split_beta Let_def)
qed

section \<open>The encoders produce code words\<close>

definition enc_regs :: "nat \<Rightarrow> u8 \<times> u8 \<times> u8 \<times> u8" where
  "enc_regs s = (of_bool (bit s 3), of_bool (bit s 2), of_bool (bit s 1), of_bool (bit s 0))"

lemma encode_chunks_eq:
  "s < 16 \<Longrightarrow> delayed st = enc_regs s \<Longrightarrow>
    fst (encode_chunks (map of_bool bs) st) = map of_bool (conv_encode tetra_polynomials s bs)
    \<and> delayed (snd (encode_chunks (map of_bool bs) st)) = enc_regs (end_state s bs)"
proof (induction bs arbitrary: s st)
  case (Cons b bs)
  let ?e = "encode_bit (of_bool b) st"
  have "fst ?e = map of_bool (conv_outs tetra_polynomials s b)"
    using Cons.prems(2)
    by (cases "bit s 3"; cases "bit s 2"; cases "bit s 1"; cases "bit s 0"; cases b)
      (simp_all add: encode_bit_def enc_regs_def conv_outs_def tetra_polynomials_def conv_out_def)
  moreover have "delayed (snd (snd ?e)) = enc_regs (next_state s b)"
    using Cons.prems(2) unfolding enc_regs_def next_state_bits [OF Cons.prems(1)] by (simp add: encode_bit_def Let_def)
  ultimately show ?case
    using Cons.IH [OF next_state_less [OF Cons.prems(1)], of "snd (snd ?e)" b] by (simp add: split_beta Let_def)
qed simp

lemma speech_chunks_eq:
  "s < 16 \<Longrightarrow> sdelayed st = enc_regs s \<Longrightarrow>
    fst (speech_chunks (map of_bool bs) st) = map of_bool (conv_encode codec_polynomials s bs)
    \<and> sdelayed (snd (speech_chunks (map of_bool bs) st)) = enc_regs (end_state s bs)"
proof (induction bs arbitrary: s st)
  case (Cons b bs)
  let ?e = "speech_encode_bit (of_bool b) st"
  have "fst ?e = map of_bool (conv_outs codec_polynomials s b)"
    using Cons.prems(2)
    by (cases "bit s 3"; cases "bit s 2"; cases "bit s 1"; cases "bit s 0"; cases b)
      (simp_all add: speech_encode_bit_def enc_regs_def conv_outs_def codec_polynomials_def conv_out_def)
  moreover have "sdelayed (snd ?e) = enc_regs (next_state s b)"
    using Cons.prems(2) unfolding enc_regs_def next_state_bits [OF Cons.prems(1)] by (simp add: speech_encode_bit_def Let_def)
  ultimately show ?case
    using Cons.IH [OF next_state_less [OF Cons.prems(1)], of "snd ?e" b] by (simp add: split_beta Let_def)
qed simp

lemma conv_new_regs: "delayed conv_new = enc_regs 0" "sdelayed speech_new = enc_regs 0"
  by (simp_all add: conv_new_def speech_new_def enc_regs_def)

lemma end_state_tail:
  assumes "s < 16"
  shows "end_state s (bs @ [False, False, False, False]) = 0"
proof -
  have "end_state s bs < 16" by (rule end_state_less [OF assms])
  then show ?thesis by (simp add: end_state_def next_state_def)
qed

section \<open>The decoder implements the reference\<close>

lemma exact_table_eq: "exact_table polys = map (map sint) (new_with_polynomials polys)"
  by (simp add: exact_table_def new_with_polynomials_def exact_bit_def)

definition signs :: "soft_bit list \<Rightarrow> bool" where
  "signs row \<longleftrightarrow> length row = 16 \<and> (\<forall>e \<in> set row. sint e = 1 \<or> sint e = - 1)"

lemma signs_table: "row \<in> set (new_with_polynomials polys) \<Longrightarrow> signs row"
  by (auto simp: new_with_polynomials_def signs_def expected_bit_def Let_def)

definition moderate :: "soft_bit list \<Rightarrow> bool" where
  "moderate c \<longleftrightarrow> (\<forall>x \<in> set c. x \<noteq> - 128)"

lemma moderate_abs:
  assumes "(x :: soft_bit) \<noteq> - 128"
  shows "\<bar>sint x\<bar> \<le> 127"
proof -
  have "sint x \<noteq> sint (- 128 :: soft_bit)" using assms signed_word_eqI by blast
  moreover have "- 128 \<le> sint x" "sint x \<le> 127"
    using sint_greater_eq [of x] sint_less [of x] by simp_all
  ultimately show ?thesis by simp
qed

text \<open>One row of the table: the product is exact, and the metrics grow by at most the magnitude of the
  soft bit.\<close>

lemma row_exact:
  assumes "(r :: soft_bit) \<noteq> - 128" and "signs row" and "length (bms :: metric list) = 16" and "\<forall>m \<in> set bms. \<bar>sint m\<bar> \<le> B" and "B + \<bar>sint r\<bar> \<le> 32767"
  shows "\<exists>bms'. those (map2 (\<lambda>m e. do {
             p \<leftarrow> (checked_int (sint r * sint e) :: soft_bit option);
             (checked_int (sint m - sint (scast p :: metric)) :: metric option) }) bms row) = Some bms'
    \<and> length bms' = 16 \<and> (\<forall>m \<in> set bms'. \<bar>sint m\<bar> \<le> B + \<bar>sint r\<bar>)
    \<and> map sint bms' = map2 (\<lambda>m e. m - sint r * e) (map sint bms) (map sint row)"
proof -
  define g :: "metric \<times> soft_bit \<Rightarrow> metric" where "g = (\<lambda>(m, e). word_of_int (sint m - sint r * sint e))"
  have r: "\<bar>sint r\<bar> \<le> 127" using assms(1) by (rule moderate_abs)
  have one: "(case z of (m, e) \<Rightarrow> do {
             p \<leftarrow> (checked_int (sint r * sint e) :: soft_bit option);
             (checked_int (sint m - sint (scast p :: metric)) :: metric option) }) = Some (g z) \<and> sint (g z) = sint (fst z) - sint r * sint (snd z)
      \<and> \<bar>sint (g z)\<bar> \<le> B + \<bar>sint r\<bar>" if "z \<in> set (zip bms row)" for z
  proof -
    obtain m e where z: "z = (m, e)" by (cases z)
    then have me: "\<bar>sint m\<bar> \<le> B" "sint e = 1 \<or> sint e = - 1"
      using that assms(2,4) by (auto simp: signs_def dest: set_zip_leftD set_zip_rightD)
    have p: "\<bar>sint r * sint e\<bar> = \<bar>sint r\<bar>" using me(2) by auto
    have p8: "checked_int (sint r * sint e) = Some (word_of_int (sint r * sint e) :: soft_bit)"
      "sint (word_of_int (sint r * sint e) :: soft_bit) = sint r * sint e"
      using r p by (intro checked_int_fits; simp; linarith)+
    have w: "sint (scast (word_of_int (sint r * sint e) :: soft_bit) :: metric) = sint r * sint e"
      using p8(2) sint_up_scast [of "word_of_int (sint r * sint e) :: soft_bit", where ?'b = 16] by (simp add: is_up)
    have d: "\<bar>sint m - sint r * sint e\<bar> \<le> B + \<bar>sint r\<bar>" using me(1) p by linarith
    have "checked_int (sint m - sint r * sint e) = Some (word_of_int (sint m - sint r * sint e) :: metric)"
      "sint (word_of_int (sint m - sint r * sint e) :: metric) = sint m - sint r * sint e"
      using d assms(5) by (intro checked_int_fits; simp; linarith)+
    then show ?thesis using p8 w d by (simp add: z g_def)
  qed
  have "those (map (\<lambda>z. case z of (m, e) \<Rightarrow> do {
             p \<leftarrow> (checked_int (sint r * sint e) :: soft_bit option);
             (checked_int (sint m - sint (scast p :: metric)) :: metric option) }) (zip bms row)) = Some (map g (zip bms row))"
    by (rule those_map) (use one in blast)
  moreover have "map sint (map g (zip bms row)) = map2 (\<lambda>m e. m - sint r * e) (map sint bms) (map sint row)"
    using one by (auto simp: zip_map1 zip_map2 split_beta)
  moreover have "\<forall>m \<in> set (map g (zip bms row)). \<bar>sint m\<bar> \<le> B + \<bar>sint r\<bar>" using one by fastforce
  moreover have "length (map g (zip bms row)) = 16" using assms(2,3) by (simp add: signs_def)
  ultimately show ?thesis by blast
qed

lemma rows_exact:
  assumes "\<forall>(r :: soft_bit, row) \<in> set rows. r \<noteq> - 128 \<and> signs row" and "length (bms :: metric list) = 16" and "\<forall>m \<in> set bms. \<bar>sint m\<bar> \<le> B"
    and "B + abs_sum (map (\<lambda>(r, row). sint r) rows) \<le> 32767"
  shows "\<exists>bms'. foldl (\<lambda>acc (received_bit, expected). do {
         bms \<leftarrow> acc;
         those (map2 (\<lambda>m e. do {
             p \<leftarrow> (checked_int (sint received_bit * sint e) :: soft_bit option);
             (checked_int (sint m - sint (scast p :: metric)) :: metric option) }) bms expected) }) (Some bms) rows = Some bms'
    \<and> length bms' = 16 \<and> (\<forall>m \<in> set bms'. \<bar>sint m\<bar> \<le> B + abs_sum (map (\<lambda>(r, row). sint r) rows))
    \<and> map sint bms' = foldl (\<lambda>bms (r, row). map2 (\<lambda>m e. m - r * e) bms row) (map sint bms) (map (\<lambda>(r, row). (sint r, map sint row)) rows)"
  using assms
proof (induction rows arbitrary: bms B)
  case (Cons x rows)
  obtain r row where x: "x = (r, row)" by (cases x)
  have pos: "0 \<le> abs_sum (map (\<lambda>(r, row). sint r) rows)" by (auto simp: abs_sum_def intro!: sum_list_nonneg)
  have "r \<noteq> - 128" "signs row" "B + \<bar>sint r\<bar> \<le> 32767" using Cons.prems pos by (auto simp: x abs_sum_simps)
  from row_exact [OF this(1,2) Cons.prems(2,3) this(3)] obtain bms1 where b: "those (map2 (\<lambda>m e. do {
             p \<leftarrow> (checked_int (sint r * sint e) :: soft_bit option);
             (checked_int (sint m - sint (scast p :: metric)) :: metric option) }) bms row) = Some bms1"
    "length bms1 = 16" "\<forall>m \<in> set bms1. \<bar>sint m\<bar> \<le> B + \<bar>sint r\<bar>" "map sint bms1 = map2 (\<lambda>m e. m - sint r * e) (map sint bms) (map sint row)"
    by blast
  have "\<forall>(r, row) \<in> set rows. r \<noteq> - 128 \<and> signs row" "B + \<bar>sint r\<bar> + abs_sum (map (\<lambda>(r, row). sint r) rows) \<le> 32767"
    using Cons.prems by (auto simp: x abs_sum_simps add.assoc)
  from Cons.IH [OF this(1) b(2,3) this(2)] show ?case
    unfolding x by (simp only: foldl_Cons prod.case Option.bind.bind_lunit list.map b(1,4) abs_sum_simps add.assoc)
qed (simp add: abs_sum_def)

lemma branch_metrics_exact:
  assumes "moderate c" and "abs_sum (map sint c) \<le> 32767"
  shows "\<exists>bms. branch_metrics (new_with_polynomials polys) c = Some bms \<and> length bms = 16
    \<and> (\<forall>m \<in> set bms. \<bar>sint m\<bar> \<le> abs_sum (map sint c))
    \<and> map sint bms = exact_branch_metrics (exact_table polys) (map sint c)"
proof -
  let ?t = "new_with_polynomials polys" and ?rows = "zip c (new_with_polynomials polys)"
  have rows: "\<forall>(r, row) \<in> set ?rows. r \<noteq> - 128 \<and> signs row"
    using assms(1) signs_table [of _ polys] by (auto simp: moderate_def dest: set_zip_leftD set_zip_rightD)
  have "map (\<lambda>(r, row). sint r) ?rows = map sint (map fst ?rows)" by (simp add: split_beta)
  then have r: "map (\<lambda>(r, row). sint r) ?rows = take (min (length c) (length ?t)) (map sint c)"
    by (simp only: map_fst_zip_take take_map)
  have le: "abs_sum (map (\<lambda>(r, row). sint r) ?rows) \<le> abs_sum (map sint c)" unfolding r by (rule abs_sum_take)
  have z: "map (\<lambda>(r, row). (sint r, map sint row)) ?rows = zip (map sint c) (exact_table polys)"
    by (simp add: exact_table_eq zip_map_map split_beta)
  from rows_exact [OF rows, of "replicate 16 0" 0] obtain bms where
    "branch_metrics ?t c = Some bms" "length bms = 16" "\<forall>m \<in> set bms. \<bar>sint m\<bar> \<le> abs_sum (map (\<lambda>(r, row). sint r) ?rows)"
    "map sint bms = exact_branch_metrics (exact_table polys) (map sint c)"
    using le assms(2) unfolding branch_metrics_def exact_branch_metrics_def z by auto
  then show ?thesis using le by fastforce
qed

text \<open>The metrics of a step: at least \<open>-A\<close> and at most \<open>16383 + A\<close>, where \<open>A\<close> is the magnitude received
  so far.\<close>

definition within :: "int \<Rightarrow> metric list \<Rightarrow> bool" where
  "within A ms \<longleftrightarrow> length ms = 16 \<and> (\<forall>m \<in> set ms. - A \<le> sint m \<and> sint m \<le> 16383 + A)"

lemma candidate_exact:
  assumes "within A ms" and "length bms = 16" and "\<forall>b \<in> set bms. \<bar>sint b\<bar> \<le> B" and "A + B \<le> 16383" and "state < 16"
  shows "\<exists>d m. candidate ms bms state = Some (d, m) \<and> exact_candidate (map sint ms) (map sint bms) state = (d, sint m)
    \<and> - (A + B) \<le> sint m \<and> sint m \<le> 16383 + (A + B)"
proof -
  define p where "p = state * 2 mod 16"
  have p: "p < 16" "Suc p < 16" unfolding p_def double_mod_16 by auto
  define b where "b = sint (bms ! state)"
  have b: "\<bar>b\<bar> \<le> B" using assms(2,3,5) by (simp add: b_def)
  have m: "- A \<le> sint (ms ! q)" "sint (ms ! q) \<le> 16383 + A" if "q < 16" for q
    using assms(1) that by (auto simp: within_def)
  define x0 where "x0 = sint (ms ! p) + b"
  define x1 where "x1 = sint (ms ! Suc p) - b"
  have x: "- (A + B) \<le> x0" "x0 \<le> 16383 + (A + B)" "- (A + B) \<le> x1" "x1 \<le> 16383 + (A + B)"
    using m [OF p(1)] m [OF p(2)] b unfolding x0_def x1_def by linarith+
  have f0: "checked_int x0 = Some (word_of_int x0 :: metric)" "sint (word_of_int x0 :: metric) = x0"
    using x assms(4) by (intro checked_int_fits; simp; linarith)+
  have f1: "checked_int x1 = Some (word_of_int x1 :: metric)" "sint (word_of_int x1 :: metric) = x1"
    using x assms(4) by (intro checked_int_fits; simp; linarith)+
  have "candidate ms bms state = Some (if x1 < x0 then (True, word_of_int x1) else (False, word_of_int x0))"
    using f0 f1 by (simp add: candidate_def Let_def p_def [symmetric] b_def [symmetric] x0_def [symmetric] x1_def [symmetric])
  moreover have "exact_candidate (map sint ms) (map sint bms) state = (if x1 < x0 then (True, x1) else (False, x0))"
    using p assms(1,2,5) by (simp add: exact_candidate_def Let_def within_def p_def [symmetric] b_def x0_def x1_def)
  ultimately show ?thesis using f0(2) f1(2) x by (cases "x1 < x0") auto
qed

lemma step_exact:
  assumes "moderate c" and "within A ms" and "0 \<le> A" and "A + abs_sum (map sint c) \<le> 16383"
  shows "\<exists>ms' d. trellis_step (new_with_polynomials polys) c ms = Some (ms', d) \<and> within (A + abs_sum (map sint c)) ms'
    \<and> exact_step (exact_table polys) (map sint c) (map sint ms) = (map sint ms', d)"
proof -
  let ?B = "abs_sum (map sint c)"
  obtain bms where bms: "branch_metrics (new_with_polynomials polys) c = Some bms" "length bms = 16" "\<forall>m \<in> set bms. \<bar>sint m\<bar> \<le> ?B"
    "map sint bms = exact_branch_metrics (exact_table polys) (map sint c)"
    using branch_metrics_exact [OF assms(1), of polys] assms(3,4) by auto
  define g where "g = (\<lambda>state. the (candidate ms bms state))"
  have g: "candidate ms bms state = Some (g state)" "fst (exact_candidate (map sint ms) (map sint bms) state) = fst (g state)"
    "snd (exact_candidate (map sint ms) (map sint bms) state) = sint (snd (g state))"
    "- (A + ?B) \<le> sint (snd (g state))" "sint (snd (g state)) \<le> 16383 + (A + ?B)" if "state \<in> set [0..<NUM_STATES]" for state
    using candidate_exact [OF assms(2) bms(2,3) assms(4), of state] that by (auto simp: g_def)
  have cands: "those (map (candidate ms bms) [0..<NUM_STATES]) = Some (map g [0..<NUM_STATES])"
    by (rule those_map) (use g(1) in blast)
  let ?f = "\<lambda>decisions (state :: nat). if fst (g state) then decisions OR push_bit state 1 else (decisions :: u16)"
  have z: "zip [0..<NUM_STATES] (map g [0..<NUM_STATES]) = map (\<lambda>state. (state, g state)) [0..<NUM_STATES]"
    by (simp add: zip_map2 zip_same_conv_map)
  have step: "trellis_step (new_with_polynomials polys) c ms = Some (map (\<lambda>state. snd (g state)) [0..<NUM_STATES], foldl ?f 0 [0..<NUM_STATES])"
    unfolding trellis_step_def bms(1) Option.bind.bind_lunit cands z foldl_map prod.case map_map o_def ..
  have d: "foldl (\<lambda>decisions state. if fst (exact_candidate (map sint ms) (map sint bms) state) then decisions OR push_bit state 1 else decisions)
      0 [0..<NUM_STATES] = foldl ?f 0 [0..<NUM_STATES]"
    by (rule foldl_cong) (use g(2) in auto)
  have "map (\<lambda>state. snd (exact_candidate (map sint ms) (map sint bms) state)) [0..<NUM_STATES]
      = map sint (map (\<lambda>state. snd (g state)) [0..<NUM_STATES])"
    unfolding map_map o_def by (rule map_cong) (use g(3) in auto)
  then have "exact_step (exact_table polys) (map sint c) (map sint ms)
      = (map sint (map (\<lambda>state. snd (g state)) [0..<NUM_STATES]), foldl ?f 0 [0..<NUM_STATES])"
    unfolding exact_step_def Let_def bms(4) [symmetric] d by simp
  moreover have "within (A + ?B) (map (\<lambda>state. snd (g state)) [0..<NUM_STATES])"
    using g(4,5) by (auto simp: within_def)
  ultimately show ?thesis using step by blast
qed

lemma trellis_exact:
  assumes "\<forall>c \<in> set cs. moderate c" and "within A ms" and "0 \<le> A" and "A + abs_sum (map sint (concat cs)) \<le> 16383"
  shows "\<exists>ms' ds. trellis (new_with_polynomials polys) cs ms = Some (ms', ds) \<and> within (A + abs_sum (map sint (concat cs))) ms'
    \<and> exact_trellis (exact_table polys) (map (map sint) cs) (map sint ms) = (map sint ms', ds)"
  using assms
proof (induction cs arbitrary: ms A)
  case (Cons c cs)
  have pos: "0 \<le> abs_sum xs" for xs by (auto simp: abs_sum_def intro!: sum_list_nonneg)
  have sum: "abs_sum (map sint (concat (c # cs))) = abs_sum (map sint c) + abs_sum (map sint (concat cs))"
    by (simp add: abs_sum_def)
  have "moderate c" "A + abs_sum (map sint c) \<le> 16383" using Cons.prems(1,4) pos [of "map sint (concat cs)"] sum by auto
  from step_exact [OF this(1) Cons.prems(2,3) this(2), of polys] obtain ms1 d where
    s: "trellis_step (new_with_polynomials polys) c ms = Some (ms1, d)" "within (A + abs_sum (map sint c)) ms1"
      "exact_step (exact_table polys) (map sint c) (map sint ms) = (map sint ms1, d)" by blast
  have "0 \<le> A + abs_sum (map sint c)" "A + abs_sum (map sint c) + abs_sum (map sint (concat cs)) \<le> 16383"
    using Cons.prems(3,4) pos sum by (simp_all add: add.assoc)
  from Cons.IH [OF _ s(2) this] Cons.prems(1) show ?case
    using s(1,3) sum by (auto simp: add.assoc)
qed (simp add: abs_sum_def)

lemma within_initial: "within 0 initial_metrics"
  by (auto simp: within_def initial_metrics_def METRIC_MAX_def dest!: set_update_subset_insert [THEN subsetD])

lemma chunks_exact_map: "chunks_exact n (map f xs) = map (map f) (chunks_exact n xs)"
proof (induction n xs rule: chunks_exact.induct)
  case (1 n xs)
  then show ?case by (subst (1 2) chunks_exact.simps) (simp add: take_map drop_map)
qed

lemma viterbi_decode_eq:
  assumes "polys_ok polys" and "moderate r" and "abs_sum (map sint r) \<le> 16383"
  shows "viterbi_decode (new_with_polynomials polys) r = Some (exact_decode (exact_table polys) (map sint r))"
proof -
  have n: "0 < length polys" using assms(1) by (simp add: polys_ok_def)
  let ?cs = "chunks_exact (length polys) r"
  have c: "concat ?cs = take (length polys * (length r div length polys)) r" using chunks_exact_props(3) [OF n] .
  then have "set (concat ?cs) \<subseteq> set r" by (simp add: set_take_subset)
  then have m: "\<forall>c \<in> set ?cs. moderate c" using assms(2) by (auto simp: moderate_def)
  have "abs_sum (map sint (concat ?cs)) \<le> 16383"
    using assms(3) abs_sum_take [of _ "map sint r"] unfolding c by (metis order_trans take_map)
  then obtain ms ds where "trellis (new_with_polynomials polys) ?cs initial_metrics = Some (ms, ds)"
    "exact_trellis (exact_table polys) (map (map sint) ?cs) exact_initial = (map sint ms, ds)"
    using trellis_exact [OF m within_initial, of polys] by (auto simp: exact_initial_def)
  moreover have "length (new_with_polynomials polys) = length polys" by (simp add: new_with_polynomials_def)
  ultimately show ?thesis by (simp add: viterbi_decode_def exact_decode_def chunks_exact_map)
qed

section \<open>Properties\<close>

text \<open>C24: the Viterbi decoder is a maximum-likelihood decoder on every block whose soft bits are above
  \<open>-128\<close> and whose magnitudes add up to less than 8192, which all blocks of the program do: nothing
  overflows, its output is a message of the right length whose encoding ends in state 0, and no other
  such message's code word correlates better with the received soft bits.\<close>

theorem viterbi_maximum_likelihood:
  assumes "polys_ok polys" and "\<forall>x \<in> set r. x \<noteq> - 128" and "2 * abs_sum (map sint r) < 16383"
    and "length other = length r div length polys" and "end_state 0 other = 0"
  shows "\<exists>msg. viterbi_decode (new_with_polynomials polys) r = Some (map of_bool msg)
    \<and> length msg = length r div length polys \<and> end_state 0 msg = 0
    \<and> corr (map sint r) (conv_encode polys 0 other) \<le> corr (map sint r) (conv_encode polys 0 msg)"
proof -
  have "viterbi_decode (new_with_polynomials polys) r = Some (exact_decode (exact_table polys) (map sint r))"
    using assms(2,3) by (intro viterbi_decode_eq [OF assms(1)]) (simp_all add: moderate_def)
  moreover obtain msg where "exact_decode (exact_table polys) (map sint r) = map of_bool msg"
    "length msg = length (map sint r) div length polys" "end_state 0 msg = 0"
    "\<And>bs'. length bs' = length (map sint r) div length polys \<Longrightarrow> end_state 0 bs' = 0 \<Longrightarrow>
      corr (map sint r) (conv_encode polys 0 bs') \<le> corr (map sint r) (conv_encode polys 0 msg)"
    using exact_decode_ml [OF assms(1,3)] by blast
  ultimately show ?thesis using assms(4,5) by auto
qed

theorem viterbi_maximum_likelihood_witness:
  "\<exists>msg. viterbi_decode (new_with_polynomials tetra_polynomials)
       [5, 1, 127, -1, 0, 1, 1, 0, 1, -1, -127, 1, -1, 1, 0, 0, 1, 1, 1, 1] = Some (map of_bool msg)
    \<and> corr [5, 1, 127, -1, 0, 1, 1, 0, 1, -1, -127, 1, -1, 1, 0, 0, 1, 1, 1, 1]
        (conv_encode tetra_polynomials 0 [True, False, False, False, False])
      \<le> corr [5, 1, 127, -1, 0, 1, 1, 0, 1, -1, -127, 1, -1, 1, 0, 0, 1, 1, 1, 1] (conv_encode tetra_polynomials 0 msg)"
proof -
  let ?r = "[5, 1, 127, -1, 0, 1, 1, 0, 1, -1, -127, 1, -1, 1, 0, 0, 1, 1, 1, 1] :: soft_bit list"
  have "length tetra_polynomials = 4" by (simp add: tetra_polynomials_def)
  moreover have "end_state 0 [True, False, False, False, False] = 0" by (simp add: next_state_def)
  ultimately show ?thesis
    using viterbi_maximum_likelihood [OF polys_ok_tetra(1), of ?r "[True, False, False, False, False]"]
    by (auto simp: abs_sum_def)
qed

text \<open>C25: no arithmetic of the decoder overflows on soft bits other than -128 whose magnitudes sum to at most
  3456, among them the blocks the program decodes (magnitude at most 1, up to 864 steps of the rate 1/4
  code): the trellis is computed, and the path metrics stay inside the \<open>i16\<close> range, also for the
  candidates that are not selected.\<close>

theorem viterbi_metrics_fit_i16:
  assumes "polys_ok polys" and "\<forall>c \<in> set (cs @ [c']). length c = length polys" and "\<forall>x \<in> set (concat cs). x \<noteq> - 128"
    and "abs_sum (map sint (concat (cs @ [c']))) \<le> 3456" and "s < 16" and "t < 16"
  shows "\<exists>ms ds. trellis (new_with_polynomials polys) cs initial_metrics = Some (ms, ds)
    \<and> - 32768 \<le> sint (ms ! s) + branch (exact_table polys) (map sint c') t x
    \<and> sint (ms ! s) + branch (exact_table polys) (map sint c') t x \<le> 32767"
proof -
  have sum: "abs_sum (map sint (concat cs)) + abs_sum (map sint c') \<le> 3456" using assms(4) by (simp add: abs_sum_def)
  moreover have pos: "0 \<le> abs_sum xs" for xs by (auto simp: abs_sum_def intro!: sum_list_nonneg)
  ultimately have "0 + abs_sum (map sint (concat cs)) \<le> 16383" using pos [of "map sint c'"] by linarith
  moreover have "\<forall>c \<in> set cs. moderate c" using assms(3) by (auto simp: moderate_def)
  ultimately obtain ms ds where ms: "trellis (new_with_polynomials polys) cs initial_metrics = Some (ms, ds)"
    "within (0 + abs_sum (map sint (concat cs))) ms"
    using trellis_exact [OF _ within_initial order_refl, of cs polys] by blast
  have "- abs_sum (map sint c') \<le> branch (exact_table polys) (map sint c') t x" "branch (exact_table polys) (map sint c') t x \<le> abs_sum (map sint c')"
    using assms(2) by (intro branch_bounds [OF assms(1,6)]; simp)+
  moreover have "- abs_sum (map sint (concat cs)) \<le> sint (ms ! s)" "sint (ms ! s) \<le> 16383 + abs_sum (map sint (concat cs))"
    using ms(2) assms(5) by (auto simp: within_def)
  ultimately have "- 32768 \<le> sint (ms ! s) + branch (exact_table polys) (map sint c') t x"
    "sint (ms ! s) + branch (exact_table polys) (map sint c') t x \<le> 32767"
    using sum by linarith+
  then show ?thesis using ms(1) by blast
qed

theorem viterbi_metrics_fit_i16_witness:
  "\<exists>ms ds. trellis (new_with_polynomials tetra_polynomials) [[1, 1, 1, 1]] initial_metrics = Some (ms, ds)
    \<and> sint (ms ! 3) + branch (exact_table tetra_polynomials) [1, -1, 0, 1] 5 True \<le> 32767"
  using viterbi_metrics_fit_i16 [OF polys_ok_tetra(1), of "[[1, 1, 1, 1]]" "[1, -1, 0, 1]" 3 5 True]
  by (auto simp: tetra_polynomials_def abs_sum_def)

end
