(* ===== verification/Punctured_Code.thy ===== *)
theory Punctured_Code
  imports Viterbi
begin

text \<open>
  What the encoders, the puncturing of \<^verbatim>\<open>convenc.rs\<close> and the decoder of \<^verbatim>\<open>viterbi.rs\<close> do together.
  A puncturing mode whose pattern keeps the first bit of every step loses nothing: the
  de-punctured block is the code word with erasures, and the decoder returns the message.
\<close>

section \<open>Puncturing patterns\<close>

text \<open>The parameters of a mode without index function, and what makes them a pattern: the listed
  positions are distinct and inside the period.\<close>

definition plain_mode :: "rcpc_punct_mode \<Rightarrow> bool" where
  "plain_mode pu \<longleftrightarrow>
     (let p = get_puncturer pu in
      pu_i_func p = i_equals \<and> 0 < pu_t p \<and> length (pu_p p) = pu_t p + 1 \<and> distinct (tl (pu_p p))
      \<and> (\<forall>k \<in> set (tl (pu_p p)). 1 \<le> k \<and> k \<le> pu_period p))"

lemma plain_modes: "plain_mode Rate2_3" "plain_mode Rate1_3" "plain_mode Rate112_168" "plain_mode Rate72_162" "plain_mode Rate38_80"
  by (simp_all add: plain_mode_def Let_def P_RATE2_3_def P_RATE1_3_def P_RATE8_12_def P_RATE8_18_def P_RATE8_17_def)

text \<open>The 0-based mother-code position of the transmitted bit with 0-based number \<open>i\<close>.\<close>

definition kept_pos :: "rcpc_punct_mode \<Rightarrow> nat \<Rightarrow> nat" where
  "kept_pos pu i = punct_index pu (Suc i) - 1"

lemma kept_pos_eq:
  assumes "plain_mode pu" and "r < pu_t (get_puncturer pu)"
  defines "p \<equiv> get_puncturer pu"
  shows "kept_pos pu (pu_t p * blk + r) = pu_period p * blk + (tl (pu_p p) ! r - 1)"
    and "1 \<le> tl (pu_p p) ! r" and "tl (pu_p p) ! r \<le> pu_period p"
proof -
  have p: "pu_i_func p = i_equals" "0 < pu_t p" "length (pu_p p) = pu_t p + 1"
    "\<forall>k \<in> set (tl (pu_p p)). 1 \<le> k \<and> k \<le> pu_period p"
    using assms(1) unfolding plain_mode_def p_def Let_def by auto
  have r: "r < pu_t p" using assms(2) by (simp add: p_def)
  then have "tl (pu_p p) ! r \<in> set (tl (pu_p p))" using p(3) by (intro nth_mem) simp
  then show b: "1 \<le> tl (pu_p p) ! r" "tl (pu_p p) ! r \<le> pu_period p" using p(4) by auto
  have "(pu_t p * blk + r) div pu_t p = blk" using r by simp
  moreover have "pu_p p ! Suc r = tl (pu_p p) ! r" using p(3) r by (simp add: nth_tl)
  ultimately show "kept_pos pu (pu_t p * blk + r) = pu_period p * blk + (tl (pu_p p) ! r - 1)"
    using b(1) p(1) by (simp add: kept_pos_def punct_index_def Let_def i_equals_def flip: p_def)
qed

lemma split_index:
  assumes "0 < (t :: nat)"
  obtains blk r where "i = t * blk + r" and "r < t" and "blk = i div t"
  using assms that [of "i div t" "i mod t"] by (simp add: mult.commute)

lemma kept_pos_inj:
  assumes pm: "plain_mode pu"
  shows "inj (kept_pos pu)"
proof (rule injI)
  fix i j assume eq: "kept_pos pu i = kept_pos pu j"
  define p where "p = get_puncturer pu"
  have t: "0 < pu_t p" and d: "distinct (tl (pu_p p))" "length (tl (pu_p p)) = pu_t p"
    using pm unfolding plain_mode_def Let_def p_def by simp_all
  obtain a r where i: "i = pu_t p * a + r" "r < pu_t p" using t by (rule split_index)
  obtain b s where j: "j = pu_t p * b + s" "s < pu_t p" using t by (rule split_index)
  note i' = i(2) [unfolded p_def] and j' = j(2) [unfolded p_def]
  note ki = kept_pos_eq(1) [OF pm i', of a, folded p_def] kept_pos_eq(2,3) [OF pm i', folded p_def]
  note kj = kept_pos_eq(1) [OF pm j', of b, folded p_def] kept_pos_eq(2,3) [OF pm j', folded p_def]
  let ?x = "tl (pu_p p) ! r - 1" and ?y = "tl (pu_p p) ! s - 1"
  have xy: "?x < pu_period p" "?y < pu_period p" using ki(2,3) kj(2,3) by linarith+
  have e: "pu_period p * a + ?x = pu_period p * b + ?y" using eq ki(1) kj(1) i(1) j(1) by simp
  have "(pu_period p * a + ?x) div pu_period p = a" "(pu_period p * b + ?y) div pu_period p = b"
    using xy by simp_all
  then have ab: "a = b" using e by metis
  then have "?x = ?y" using e by simp
  then have "tl (pu_p p) ! r = tl (pu_p p) ! s" using ki(2) kj(2) by linarith
  then have "r = s" using d i(2) j(2) by (simp add: nth_eq_iff_index_eq)
  then show "i = j" using ab i(1) j(1) by simp
qed

lemma kept_pos_less:
  assumes pm: "plain_mode pu" and "i < pu_t (get_puncturer pu) * m"
  shows "kept_pos pu i < pu_period (get_puncturer pu) * m"
proof -
  define p where "p = get_puncturer pu"
  have t: "0 < pu_t p" using pm by (simp add: plain_mode_def Let_def p_def)
  obtain a r where i: "i = pu_t p * a + r" "r < pu_t p" "a = i div pu_t p" using t by (rule split_index)
  have "a < m" using assms(2) i(3) by (simp add: p_def [symmetric] less_mult_imp_div_less mult.commute)
  then have "pu_period p * a + pu_period p \<le> pu_period p * m"
    by (metis Suc_leI mult_Suc_right mult_le_mono2 add.commute)
  then show ?thesis
    using kept_pos_eq(1) [OF pm i(2) [unfolded p_def], of a, folded p_def]
      kept_pos_eq(2,3) [OF pm i(2) [unfolded p_def], folded p_def] unfolding i(1) p_def [symmetric] by linarith
qed

section \<open>Puncturing, then de-puncturing\<close>

lemma get_punctured_rate_kept:
  assumes pm: "plain_mode pu" and n: "length out = pu_t (get_puncturer pu) * m"
    and len: "pu_period (get_puncturer pu) * m \<le> length input"
  shows "get_punctured_rate pu input out = Some (map (\<lambda>i. input ! kept_pos pu i) [0..<length out])"
proof -
  have "punct_index pu j - 1 < length input" if "1 \<le> j" "j \<le> length out" for j
  proof -
    have "kept_pos pu (j - 1) < pu_period (get_puncturer pu) * m"
      using that n by (intro kept_pos_less [OF pm]) simp
    then show ?thesis using that len by (simp add: kept_pos_def)
  qed
  then show ?thesis unfolding kept_pos_def by (rule get_punctured_rate_eq)
qed

lemma depunct_kept:
  assumes pm: "plain_mode pu" and n: "n = pu_t (get_puncturer pu) * m" and "n \<le> length input"
    and len: "pu_period (get_puncturer pu) * m \<le> L"
  obtains out where "tetra_rcpc_depunct pu input n (replicate L 0xFF) = Some out" and "length out = L"
    and "\<And>i. i < n \<Longrightarrow> out ! kept_pos pu i = input ! i"
    and "\<And>q. q < L \<Longrightarrow> q \<notin> kept_pos pu ` {..<n} \<Longrightarrow> out ! q = 0xFF"
proof -
  let ?js = "[1..<n + 1]" and ?k = "\<lambda>j. punct_index pu j - 1"
  have k: "?k j = kept_pos pu (j - 1)" if "j \<in> set ?js" for j
  proof -
    have "Suc (j - 1) = j" using that by auto
    then show ?thesis unfolding kept_pos_def by simp
  qed
  have im: "?k ` set ?js = kept_pos pu ` {..<n}"
  proof -
    have "?k ` set ?js = kept_pos pu ` ((\<lambda>j. j - 1) ` set ?js)" using k by (auto simp: image_image)
    also have "(\<lambda>j. j - 1) ` set ?js = {..<n}"
    proof
      show "{..<n} \<subseteq> (\<lambda>j. j - 1) ` set ?js"
      proof
        fix i assume "i \<in> {..<n}"
        then have "Suc i \<in> set ?js" "i = Suc i - 1" by auto
        then show "i \<in> (\<lambda>j. j - 1) ` set ?js" by blast
      qed
    qed auto
    finally show ?thesis .
  qed
  have "inj_on ?k (set ?js)"
  proof (rule inj_onI)
    fix a b assume ab: "a \<in> set ?js" "b \<in> set ?js" "?k a = ?k b"
    then have "a - 1 = b - 1" using k kept_pos_inj [OF pm] by (metis injD)
    then show "a = b" using ab(1,2) by auto
  qed
  moreover have "\<forall>j \<in> set ?js. j - 1 < length input \<and> ?k j < length (replicate L (0xFF :: u8))"
  proof
    fix j assume j: "j \<in> set ?js"
    then have "kept_pos pu (j - 1) < pu_period (get_puncturer pu) * m"
      using n by (intro kept_pos_less [OF pm]) auto
    then show "j - 1 < length input \<and> ?k j < length (replicate L (0xFF :: u8))"
      using j k [OF j] assms(3) len by auto
  qed
  ultimately obtain out where out: "depunct_loop pu input ?js (replicate L 0xFF) = Some out"
    "length out = length (replicate L (0xFF :: u8))"
    "\<forall>j \<in> set ?js. out ! ?k j = input ! (j - 1)"
    "\<forall>i < length (replicate L (0xFF :: u8)). i \<notin> ?k ` set ?js \<longrightarrow> out ! i = replicate L 0xFF ! i"
    using depunct_loop_eq [OF _ distinct_upt] by blast
  show thesis
  proof (rule that [of out])
    show "tetra_rcpc_depunct pu input n (replicate L 0xFF) = Some out" using out(1) by (simp add: tetra_rcpc_depunct_def)
    show "length out = L" using out(2) by simp
    show "out ! kept_pos pu i = input ! i" if "i < n" for i
      using out(3) [rule_format, of "Suc i"] that by (simp add: kept_pos_def del: upt_Suc)
    show "out ! q = 0xFF" if "q < L" "q \<notin> kept_pos pu ` {..<n}" for q
      using out(4) that im by simp
  qed
qed
section \<open>Decoding a code word with erasures\<close>

lemma chunks_exact_nth:
  "0 < n \<Longrightarrow> i < length xs div n \<Longrightarrow> chunks_exact n xs ! i = take n (drop (n * i) xs)"
proof (induction n xs arbitrary: i rule: chunks_exact.induct)
  case (1 n xs)
  have "\<not> length xs < n" using 1(2,3) by (metis div_less less_nat_zero_code)
  then have unf: "chunks_exact n xs = take n xs # chunks_exact n (drop n xs)"
    using 1(2) by (subst chunks_exact.simps) simp
  show ?case
  proof (cases i)
    case 0
    then show ?thesis by (simp add: unf)
  next
    case (Suc k)
    have "length xs div n = Suc (length (drop n xs) div n)"
      using \<open>\<not> length xs < n\<close> 1(2) le_div_geq [of n "length xs"] by simp
    then have "k < length (drop n xs) div n" using 1(3) Suc by linarith
    then have "chunks_exact n (drop n xs) ! k = take n (drop (n * k) (drop n xs))"
      using 1(1) [OF _ 1(2)] \<open>\<not> length xs < n\<close> 1(2) by blast
    then show ?thesis by (simp add: unf Suc add.commute)
  qed
qed

definition erased :: "bool list \<Rightarrow> u8 list \<Rightarrow> bool" where
  "erased code rx \<longleftrightarrow> length rx = length code \<and>
     (\<forall>q < length code. rx ! q = of_bool (code ! q) \<or> rx ! q = 0xFF)"

text \<open>The soft bit as a number.\<close>

definition soft_int :: "u8 \<Rightarrow> int" where
  "soft_int b = sint (soft_of b)"

lemma soft_int_simps [simp]: "soft_int (of_bool x) = sgn_bit x" "soft_int 0xFF = 0"
  by (auto simp: soft_int_def soft_of_def sgn_bit_def)

lemma abs_soft: "\<bar>soft_int b\<bar> \<le> 1"
  by (simp add: soft_int_def soft_of_def)

lemma abs_sum_soft: "abs_sum (map soft_int xs) \<le> int (length xs)"
proof (induction xs)
  case (Cons x xs)
  then show ?case using abs_soft [of x] by (simp add: abs_sum_def)
qed (simp add: abs_sum_def)

lemma erased_agree:
  assumes "erased code rx"
  shows "agree (map soft_int rx) code"
  unfolding agree_def
proof (clarify)
  fix r x assume "(r, x) \<in> set (zip (map soft_int rx) code)"
  then obtain q where "q < length code" "r = soft_int (rx ! q)" "x = code ! q"
    using assms by (auto simp: set_zip erased_def)
  moreover from this have "rx ! q = of_bool x \<or> rx ! q = 0xFF" using assms by (simp add: erased_def)
  ultimately have "r = sgn_bit x \<or> r = 0" by (auto simp del: of_bool_eq)
  then show "r * sgn_bit x = \<bar>r\<bar>" by (auto simp: sgn_bit_def)
qed

lemma erased_decodes_exact:
  assumes ok: "polys_ok polys" and tail: "end_state 0 bs = 0" and er: "erased (conv_encode polys 0 bs) rx"
    and small: "length rx \<le> 3456" and kept: "\<And>c. c < length bs \<Longrightarrow> rx ! (length polys * c) \<noteq> 0xFF"
  shows "exact_decode (exact_table polys) (map soft_int rx) = map of_bool bs"
proof (rule exact_decode_exact [OF ok _ _ tail erased_agree [OF er]])
  let ?n = "length polys"
  have n: "0 < ?n" using ok by (simp add: polys_ok_def)
  have len: "length rx = ?n * length bs" using er by (simp add: erased_def)
  then show "length (map soft_int rx) = ?n * length bs" by simp
  show "2 * abs_sum (map soft_int rx) < 16383" using abs_sum_soft [of rx] small by linarith
  show "\<forall>c \<in> set (chunks_exact ?n (map soft_int rx)). \<exists>x \<in> set c. x \<noteq> 0"
  proof
    fix ch assume "ch \<in> set (chunks_exact ?n (map soft_int rx))"
    then obtain c where c: "c < length bs" "ch = chunks_exact ?n (map soft_int rx) ! c"
      using chunks_exact_props(1) [OF n, of "map soft_int rx"] len n by (auto simp: in_set_conv_nth)
    then have ch: "ch = take ?n (drop (?n * c) (map soft_int rx))"
      using chunks_exact_nth [OF n, of c "map soft_int rx"] len n by simp
    have lt: "?n * c < ?n * length bs" using c(1) n by simp
    then have "ch ! 0 = soft_int (rx ! (?n * c))" "ch \<noteq> []" using ch len n by auto
    moreover have "rx ! (?n * c) = of_bool (conv_encode polys 0 bs ! (?n * c))"
      using er kept [OF c(1)] lt unfolding erased_def length_conv_encode by blast
    ultimately have "ch ! 0 \<noteq> 0" by (simp add: sgn_bit_def soft_int_def soft_of_def)
    moreover have "ch ! 0 \<in> set ch" using \<open>ch \<noteq> []\<close> by (intro nth_mem) simp
    ultimately show "\<exists>x \<in> set ch. x \<noteq> 0" by blast
  qed
qed

lemma erased_decodes:
  assumes "polys_ok polys" and "end_state 0 bs = 0" and "erased (conv_encode polys 0 bs) rx"
    and "length rx \<le> 3456" and "\<And>c. c < length bs \<Longrightarrow> rx ! (length polys * c) \<noteq> 0xFF"
  shows "viterbi_decode (new_with_polynomials polys) (map soft_of rx) = Some (map of_bool bs)"
proof -
  have m: "map sint (map soft_of rx) = map soft_int rx" by (simp add: soft_int_def)
  have "soft_of b \<noteq> - 128" for b by (simp add: soft_of_def)
  then have "moderate (map soft_of rx)" by (auto simp: moderate_def)
  moreover have "abs_sum (map sint (map soft_of rx)) \<le> 16383" unfolding m using abs_sum_soft [of rx] assms(4) by linarith
  ultimately show ?thesis
    using viterbi_decode_eq [OF assms(1)] erased_decodes_exact [OF assms] unfolding m [symmetric] by simp
qed

lemma dec_sb1_erased:
  assumes tail: "end_state 0 bs = 0" and er: "erased (conv_encode tetra_polynomials 0 bs) (take (4 * length bs) rx)"
    and len: "length bs \<le> 864" "4 * length bs \<le> length rx" "length bs \<le> length out"
    and kept: "\<And>c. c < length bs \<Longrightarrow> rx ! (4 * c) \<noteq> 0xFF"
  shows "dec_sb1 rx out (length bs) = Some (map of_bool bs @ drop (length bs) out)"
proof -
  have four: "length tetra_polynomials = 4" by (simp add: tetra_polynomials_def)
  have "viterbi_decode (new_with_polynomials tetra_polynomials) (map soft_of (take (4 * length bs) rx)) = Some (map of_bool bs)"
    using len kept by (intro erased_decodes [OF polys_ok_tetra(1) tail er]) (simp_all add: four)
  then show ?thesis using len by (simp add: dec_sb1_def Let_def mult.commute)
qed

section \<open>Transmission over the punctured channel\<close>

text \<open>The pattern keeps the first of the \<open>n\<close> bits of every step.\<close>

definition keeps_first :: "rcpc_punct_mode \<Rightarrow> nat \<Rightarrow> bool" where
  "keeps_first pu n \<longleftrightarrow>
     (let p = get_puncturer pu in
      0 < n \<and> n dvd pu_period p \<and> (\<forall>c \<in> set [0..<pu_period p div n]. n * c + 1 \<in> set (tl (pu_p p))))"

lemma keeps_first_modes: "keeps_first Rate2_3 4" "keeps_first Rate112_168 3" "keeps_first Rate72_162 3"
  by (simp_all add: keeps_first_def Let_def P_RATE2_3_def P_RATE8_12_def P_RATE8_18_def atLeast0LessThan
      lessThan_nat_numeral lessThan_Suc)

lemma first_kept:
  assumes pm: "plain_mode pu" and kf: "keeps_first pu n" and c: "n * c < pu_period (get_puncturer pu) * m"
  shows "n * c \<in> kept_pos pu ` {..<pu_t (get_puncturer pu) * m}"
proof -
  define p where "p = get_puncturer pu"
  have n: "0 < n" and dv: "n dvd pu_period p" and k: "\<forall>c < pu_period p div n. n * c + 1 \<in> set (tl (pu_p p))"
    and t: "0 < pu_t p" "length (tl (pu_p p)) = pu_t p"
    using pm kf by (simp_all add: keeps_first_def plain_mode_def Let_def p_def)
  obtain d where d: "pu_period p = n * d" using dv by (auto elim: dvdE)
  have dpos: "0 < d" using c d n by (cases d) (simp_all add: p_def)
  obtain blk e where ce: "c = d * blk + e" "e < d" "blk = c div d" using dpos by (rule split_index)
  have "n * e + 1 \<in> set (tl (pu_p p))" using k ce(2) d n by simp
  then obtain r where r: "r < pu_t p" "tl (pu_p p) ! r = n * e + 1" using t(2) by (auto simp: in_set_conv_nth)
  have "kept_pos pu (pu_t p * blk + r) = n * c"
    using kept_pos_eq(1) [OF pm r(1) [unfolded p_def], of blk, folded p_def] r(2) d ce(1)
    by (simp add: algebra_simps)
  moreover have "pu_t p * blk + r < pu_t p * m"
  proof -
    have "n * c < n * (d * m)" using c d by (simp add: p_def [symmetric] mult.assoc)
    then have "c < d * m" using n by simp
    then have "blk < m" using ce(3) by (simp add: less_mult_imp_div_less mult.commute)
    then have "pu_t p * blk + pu_t p \<le> pu_t p * m" by (metis Suc_leI mult_Suc_right mult_le_mono2 add.commute)
    then show ?thesis using r(1) by linarith
  qed
  ultimately show ?thesis unfolding p_def by (metis imageI lessThan_iff)
qed

text \<open>A block that carries the kept bits of a code word is de-punctured to the code word with
  erasures, the first bit of every step present.\<close>

lemma depunct_erased:
  assumes pm: "plain_mode pu" and kf: "keeps_first pu n" and N: "N = pu_t (get_puncturer pu) * m" "N \<le> length input"
    and code: "length code = pu_period (get_puncturer pu) * m" "length code \<le> L"
    and input: "\<And>i. i < N \<Longrightarrow> input ! i = of_bool (code ! kept_pos pu i)"
  obtains out where "tetra_rcpc_depunct pu input N (replicate L 0xFF) = Some out" and "length out = L"
    and "erased code (take (length code) out)" and "\<And>c. n * c < length code \<Longrightarrow> out ! (n * c) \<noteq> 0xFF"
proof -
  obtain out where out: "tetra_rcpc_depunct pu input N (replicate L 0xFF) = Some out" "length out = L"
    "\<And>i. i < N \<Longrightarrow> out ! kept_pos pu i = input ! i"
    "\<And>q. q < L \<Longrightarrow> q \<notin> kept_pos pu ` {..<N} \<Longrightarrow> out ! q = 0xFF"
    using depunct_kept [OF pm N(1,2), of L] code by auto
  have kept: "out ! q = of_bool (code ! q)" if "q \<in> kept_pos pu ` {..<N}" for q
    using that out(3) input by auto
  show thesis
  proof (rule that [OF out(1,2)])
    show "erased code (take (length code) out)"
      unfolding erased_def
    proof (intro conjI allI impI)
      fix q assume q: "q < length code"
      show "take (length code) out ! q = of_bool (code ! q) \<or> take (length code) out ! q = 0xFF"
        using q kept [of q] out(4) [of q] code(2) by (cases "q \<in> kept_pos pu ` {..<N}") auto
    qed (use out(2) code(2) in simp)
    show "out ! (n * c) \<noteq> 0xFF" if "n * c < length code" for c
      using kept [of "n * c"] first_kept [OF pm kf, of c m] that code(1) N(1) by (simp add: of_bool_def)
  qed
qed

end
