(* ===== verification/Rm3014.thy ===== *)
theory Rm3014
  imports Nexus_Prelude
begin

unbundle bit_operations_syntax

text \<open>
  The shortened (30,14) Reed-Muller code of the access assignment channel,
  \<^verbatim>\<open>crates/tetra-entities/src/lmac/components/rm3014.rs\<close>: the encoder from precomputed rows, the
  syndrome, and the decoder that corrects one wrong bit.  Everything is linear over exclusive
  or; the lemmas use that to reduce the code to its 14 rows and 30 column syndromes, which are
  evaluated.
\<close>

section \<open>The model\<close>

definition RM_30_14_GEN :: "u8 list list" where
  "RM_30_14_GEN =
     [[1, 0, 0, 1, 1, 0, 1, 1, 0, 1, 1, 0, 0, 0, 0, 0],
      [0, 0, 1, 0, 1, 1, 0, 1, 1, 1, 1, 0, 0, 0, 0, 0],
      [1, 1, 1, 1, 1, 1, 0, 0, 0, 0, 1, 0, 0, 0, 0, 0],
      [1, 1, 1, 0, 0, 0, 0, 0, 0, 0, 1, 1, 1, 1, 0, 0],
      [1, 0, 0, 1, 1, 0, 0, 0, 0, 0, 1, 1, 1, 0, 1, 0],
      [0, 1, 0, 1, 0, 1, 0, 0, 0, 0, 1, 1, 0, 1, 1, 0],
      [0, 0, 1, 0, 1, 1, 0, 0, 0, 0, 1, 0, 1, 1, 1, 0],
      [1, 1, 1, 1, 1, 1, 1, 1, 1, 1, 0, 1, 1, 1, 1, 1],
      [1, 0, 0, 0, 0, 0, 1, 1, 0, 0, 1, 1, 1, 0, 0, 1],
      [0, 1, 0, 0, 0, 0, 1, 0, 1, 0, 1, 1, 0, 1, 0, 1],
      [0, 0, 1, 0, 0, 0, 0, 1, 1, 0, 1, 0, 1, 1, 0, 1],
      [0, 0, 0, 1, 0, 0, 1, 0, 0, 1, 1, 1, 0, 0, 1, 1],
      [0, 0, 0, 0, 1, 0, 0, 1, 0, 1, 1, 0, 1, 0, 1, 1],
      [0, 0, 0, 0, 0, 1, 0, 0, 1, 1, 1, 0, 0, 1, 1, 1]]"

definition RM_30_14_ROWS_PRECOMPUTED :: "u32 list" where
  "RM_30_14_ROWS_PRECOMPUTED =
     [0x20009b60, 0x10002de0, 0x0800fc20, 0x0400e03c, 0x0200983a, 0x01005436, 0x00802c2e, 0x0040ffdf,
      0x00208339, 0x001042b5, 0x000821ad, 0x00041273, 0x0002096b, 0x000104e7]"

definition tetra_rm3014_compute :: "u16 \<Rightarrow> u32" where
  "tetra_rm3014_compute input =
     foldl (\<lambda>val i. if drop_bit (13 - i) input AND 1 = 1 then val XOR RM_30_14_ROWS_PRECOMPUTED ! i else val)
       0 [0..<14]"

definition tetra_rm3014_decode_naive :: "u32 \<Rightarrow> u16" where
  "tetra_rm3014_decode_naive codeword = ucast (drop_bit 16 codeword)"

definition compute_col_syndromes :: "u16 list" where
  "compute_col_syndromes =
     map (\<lambda>k. foldl (\<lambda>syn j.
            let b = (if k < 14 then ucast (RM_30_14_GEN ! k ! j) else of_bool (k - 14 = j))
            in syn OR push_bit j b) 0 [0..<16]) [0..<30]"

definition COL_SYNDROMES :: "u16 list" where
  "COL_SYNDROMES = compute_col_syndromes"

definition syndrome_sum :: "u32 \<Rightarrow> nat \<Rightarrow> u8" where
  "syndrome_sum codeword j =
     foldl (\<lambda>sum i. sum XOR (ucast (drop_bit (29 - i) codeword AND 1) AND RM_30_14_GEN ! i ! j)) 0 [0..<14]
       XOR ucast (drop_bit (29 - (14 + j)) codeword AND 1)"

definition compute_syndrome :: "u32 \<Rightarrow> u16" where
  "compute_syndrome codeword =
     foldl (\<lambda>syn j. if syndrome_sum codeword j AND 1 \<noteq> 0 then syn OR push_bit j 1 else syn) 0 [0..<16]"

text \<open>The correction loop: the first column whose syndrome is the one found, if any.\<close>

fun flip_error :: "u16 \<Rightarrow> nat \<Rightarrow> u16 list \<Rightarrow> u32 \<Rightarrow> u32" where
  "flip_error syn k [] corrected = corrected"
| "flip_error syn k (col_syn # rest) corrected =
     (if col_syn = syn then corrected XOR push_bit (29 - k) 1 else flip_error syn (k + 1) rest corrected)"

definition tetra_rm3014_decode_limited_ecc :: "u32 \<Rightarrow> u16" where
  "tetra_rm3014_decode_limited_ecc codeword =
     (let syn = compute_syndrome codeword;
          corrected = (if syn \<noteq> 0 then flip_error syn 0 COL_SYNDROMES codeword else codeword)
      in ucast (drop_bit 16 corrected))"

section \<open>Linearity\<close>

lemma xor_foldl_shift: "foldl (\<lambda>s i. s XOR f i) z xs = z XOR foldl (\<lambda>s i. s XOR f i) 0 xs"
  for z :: "'a::len word"
  by (induction xs rule: rev_induct) (simp_all add: xor.assoc)

lemma xor_foldl_add:
  "foldl (\<lambda>s i. s XOR (f i XOR g i)) 0 xs = foldl (\<lambda>s i. s XOR f i) 0 xs XOR foldl (\<lambda>s i. s XOR g i) 0 xs"
  for f :: "'b \<Rightarrow> 'a::len word"
  by (induction xs rule: rev_induct) (simp_all add: ac_simps)

lemma ucast_bit_xor: "ucast (drop_bit n (a XOR b) AND 1) = ucast (drop_bit n a AND 1) XOR (ucast (drop_bit n b AND 1) :: u8)"
  for a :: u32
  by (rule bit_word_eqI) (auto simp: bit_ucast_iff bit_xor_iff bit_and_iff bit_drop_bit_eq bit_1_iff)

lemma syndrome_sum_xor: "syndrome_sum (a XOR b) j = syndrome_sum a j XOR syndrome_sum b j"
  unfolding syndrome_sum_def ucast_bit_xor and.commute [of "_ XOR _"] bit.conj_xor_distrib
  by (simp add: xor_foldl_add ac_simps)

lemma bit_compute_syndrome: "bit (compute_syndrome c) j \<longleftrightarrow> j < 16 \<and> bit (syndrome_sum c j) 0"
proof -
  have "bit (foldl (\<lambda>syn j. if P j then syn OR push_bit j 1 else syn) (w :: u16) js) j
      \<longleftrightarrow> bit w j \<or> j < 16 \<and> j \<in> set js \<and> P j" for P w js
    by (induction js arbitrary: w) (auto simp: bit_or_iff bit_exp_iff)
  moreover have "syndrome_sum c j AND 1 \<noteq> 0 \<longleftrightarrow> bit (syndrome_sum c j) 0"
    by (simp add: and_one_eq bit_0 mod_2_eq_odd)
  ultimately show ?thesis by (simp add: compute_syndrome_def)
qed

lemma compute_syndrome_xor: "compute_syndrome (a XOR b) = compute_syndrome a XOR compute_syndrome b"
  by (rule bit_word_eqI) (simp add: bit_compute_syndrome bit_xor_iff syndrome_sum_xor)

lemma compute_syndrome_0: "compute_syndrome 0 = 0"
  using compute_syndrome_xor [of 0 0] by simp

lemma col_syndromes_eval:
  "COL_SYNDROMES = [1753, 1972, 1087, 15367, 23577, 27690, 29748, 64511, 40129, 44354, 46468, 52808, 54928, 59168, 1, 2, 4, 8, 16, 32, 64, 128, 256, 512, 1024, 2048, 4096, 8192, 16384, 32768]"
  unfolding COL_SYNDROMES_def compute_col_syndromes_def RM_30_14_GEN_def
  by (simp add: upt_rec)

lemma distinct_col_syndromes: "distinct COL_SYNDROMES" "0 \<notin> set COL_SYNDROMES" "length COL_SYNDROMES = 30"
  by (simp_all add: col_syndromes_eval)

lemma gen_bits: "\<forall>row \<in> set RM_30_14_GEN. \<forall>x \<in> set row. x = of_bool (bit x 0)"
  by (simp add: RM_30_14_GEN_def)

lemma gen_entry: "k < 14 \<Longrightarrow> j < 16 \<Longrightarrow> RM_30_14_GEN ! k ! j = of_bool (bit (RM_30_14_GEN ! k ! j) 0)"
proof -
  have "length RM_30_14_GEN = 14" "\<forall>row \<in> set RM_30_14_GEN. length row = 16" by (simp_all add: RM_30_14_GEN_def)
  then show "k < 14 \<Longrightarrow> j < 16 \<Longrightarrow> ?thesis" by (intro gen_bits [THEN bspec, THEN bspec, of "RM_30_14_GEN ! k"]) simp_all
qed

section \<open>Unit vectors and rows\<close>

lemma foldl_single:
  "distinct xs \<Longrightarrow> foldl (\<lambda>s i. s XOR (if i = k then f i else 0)) 0 xs = (if k \<in> set xs then f k else (0 :: 'a::len word))"
  by (induction xs rule: rev_induct) auto

lemma syndrome_sum_eq:
  assumes "\<And>i. i < 14 \<Longrightarrow> bit c (29 - i) \<longleftrightarrow> i = k" and that: "j < 16"
  shows "syndrome_sum c j = (if k < 14 then RM_30_14_GEN ! k ! j else 0) XOR of_bool (bit c (29 - (14 + j)))"
proof -
  have "foldl (\<lambda>sum i. sum XOR (ucast (drop_bit (29 - i) c AND 1) AND RM_30_14_GEN ! i ! j)) 0 [0..<14]
      = foldl (\<lambda>sum i. sum XOR (if i = k then RM_30_14_GEN ! i ! j else 0)) 0 [0..<14]"
  proof (rule foldl_cong [OF refl refl])
    fix sum i assume "i \<in> set [0..<14]"
    then have i: "i < 14" by simp
    have "(ucast (drop_bit (29 - i) c AND 1) :: u8) = of_bool (i = k)"
      using assms(1) [OF i] by (simp add: and_one_eq mod_2_eq_odd flip: bit_iff_odd_drop_bit)
    moreover have "of_bool (i = k) AND RM_30_14_GEN ! i ! j = (if i = k then RM_30_14_GEN ! i ! j else 0)"
      using gen_entry [OF i that] by (cases "bit (RM_30_14_GEN ! i ! j) 0"; cases "i = k") simp_all
    ultimately show "sum XOR (ucast (drop_bit (29 - i) c AND 1) AND RM_30_14_GEN ! i ! j)
        = sum XOR (if i = k then RM_30_14_GEN ! i ! j else 0)" by simp
  qed
  then show ?thesis
    unfolding syndrome_sum_def by (simp add: foldl_single and_one_eq mod_2_eq_odd flip: bit_iff_odd_drop_bit)
qed

lemma bit_col_syndrome:
  assumes "k < 30" and "j < 16"
  shows "bit (COL_SYNDROMES ! k) j \<longleftrightarrow> (if k < 14 then bit (RM_30_14_GEN ! k ! j) 0 else k - 14 = j)"
proof -
  let ?b = "\<lambda>j. if k < 14 then bit (RM_30_14_GEN ! k ! j) 0 else k - 14 = j"
  have pb: "bit (push_bit i (of_bool b) :: u16) j \<longleftrightarrow> b \<and> i = j" for i b
    using assms(2) by (cases b) (auto simp: bit_exp_iff)
  have or: "bit (foldl (\<lambda>syn j. syn OR push_bit j (of_bool (P j))) (w :: u16) js) j \<longleftrightarrow> bit w j \<or> j \<in> set js \<and> P j" for P w js
    by (induction js arbitrary: w) (auto simp: bit_or_iff pb)
  have "foldl (\<lambda>syn j. syn OR push_bit j (if k < 14 then ucast (RM_30_14_GEN ! k ! j) else of_bool (k - 14 = j))) (0 :: u16) [0..<16]
      = foldl (\<lambda>syn j. syn OR push_bit j (of_bool (?b j))) 0 [0..<16]"
  proof (rule foldl_cong [OF refl refl])
    fix syn :: u16 and j assume j: "j \<in> set [0..<16]"
    then have "k < 14 \<Longrightarrow> ucast (RM_30_14_GEN ! k ! j) = (of_bool (bit (RM_30_14_GEN ! k ! j) 0) :: u16)"
      using gen_entry [of k j] by (cases "bit (RM_30_14_GEN ! k ! j) 0") simp_all
    then show "syn OR push_bit j (if k < 14 then ucast (RM_30_14_GEN ! k ! j) else of_bool (k - 14 = j))
        = syn OR push_bit j (of_bool (?b j))" by simp
  qed
  then have "COL_SYNDROMES ! k = foldl (\<lambda>syn j. syn OR push_bit j (of_bool (?b j))) 0 [0..<16]"
    using assms(1) nth_upt [of 0 k 30]
    by (simp only: COL_SYNDROMES_def compute_col_syndromes_def Let_def nth_map length_upt add_0 diff_zero)
  then show ?thesis using assms(2) by (simp only: or) simp
qed

lemma unit_syndrome:
  assumes "k < 30"
  shows "compute_syndrome (push_bit (29 - k) 1) = COL_SYNDROMES ! k"
proof (rule bit_word_eqI)
  fix j assume "j < LENGTH(16)"
  then have j: "j < 16" by simp
  define e :: u32 where "e = push_bit (29 - k) 1"
  have b: "bit e (29 - i) \<longleftrightarrow> i = k" if "i < 30" for i
    using assms that by (auto simp: e_def bit_exp_iff)
  have "syndrome_sum e j = (if k < 14 then RM_30_14_GEN ! k ! j else 0) XOR of_bool (14 + j = k)"
    using j b [of "14 + j"] b by (subst syndrome_sum_eq [of _ k]) simp_all
  then show "bit (compute_syndrome (push_bit (29 - k) 1)) j \<longleftrightarrow> bit (COL_SYNDROMES ! k) j"
    unfolding e_def [symmetric]
    using j assms by (auto simp: bit_compute_syndrome bit_col_syndrome bit_xor_iff bit_0)
qed

lemma row_bits:
  "\<forall>r \<in> {..<14}. \<forall>i \<in> {..<14}. bit (RM_30_14_ROWS_PRECOMPUTED ! r) (29 - i) \<longleftrightarrow> i = r"
  "\<forall>r \<in> {..<14}. \<forall>j \<in> {..<16}. bit (RM_30_14_ROWS_PRECOMPUTED ! r) (29 - (14 + j)) \<longleftrightarrow> bit (RM_30_14_GEN ! r ! j) 0"
  "\<forall>r \<in> {..<14}. drop_bit 16 (RM_30_14_ROWS_PRECOMPUTED ! r) = push_bit (13 - r) 1"
  by (simp_all add: lessThan_nat_numeral lessThan_Suc RM_30_14_ROWS_PRECOMPUTED_def RM_30_14_GEN_def)

lemma row_syndrome:
  assumes "r < 14"
  shows "compute_syndrome (RM_30_14_ROWS_PRECOMPUTED ! r) = 0"
proof (rule bit_word_eqI)
  fix j assume "j < LENGTH(16)"
  then have j: "j < 16" by simp
  have "syndrome_sum (RM_30_14_ROWS_PRECOMPUTED ! r) j = RM_30_14_GEN ! r ! j XOR of_bool (bit (RM_30_14_GEN ! r ! j) 0)"
    using assms j row_bits(1,2) by (subst syndrome_sum_eq [of _ r]) auto
  also have "\<dots> = 0" using gen_entry [OF assms j] by (metis xor_self_eq)
  finally show "bit (compute_syndrome (RM_30_14_ROWS_PRECOMPUTED ! r)) j \<longleftrightarrow> bit (0 :: u16) j"
    by (simp add: bit_compute_syndrome)
qed

section \<open>Code words\<close>

lemma compute_induct:
  assumes "P 0" and "\<And>v i. i < 14 \<Longrightarrow> P v \<Longrightarrow> P (v XOR RM_30_14_ROWS_PRECOMPUTED ! i)"
  shows "P (tetra_rm3014_compute x)"
proof -
  have "set is \<subseteq> {..<14} \<Longrightarrow> P v \<Longrightarrow> P (foldl (\<lambda>val i. if drop_bit (13 - i) x AND 1 = 1
      then val XOR RM_30_14_ROWS_PRECOMPUTED ! i else val) v is)" for v "is"
    using assms(2) by (induction "is" arbitrary: v) auto
  from this [OF _ assms(1), of "[0..<14]"] show ?thesis by (simp add: tetra_rm3014_compute_def lessThan_atLeast0)
qed

lemma codeword_syndrome: "compute_syndrome (tetra_rm3014_compute x) = 0"
  by (rule compute_induct) (simp_all add: compute_syndrome_0 compute_syndrome_xor row_syndrome)

lemma codeword_systematic:
  assumes "unat x < 2 ^ 14"
  shows "ucast (drop_bit 16 (tetra_rm3014_compute x)) = x"
proof -
  have "bit (drop_bit 16 (foldl (\<lambda>val i. if drop_bit (13 - i) x AND 1 = 1
      then val XOR RM_30_14_ROWS_PRECOMPUTED ! i else val) v is)) n
      \<longleftrightarrow> (bit (drop_bit 16 v) n \<noteq> (n < 14 \<and> 13 - n \<in> set is \<and> bit x n))" if "set is \<subseteq> {..<14}" "distinct is" for v "is" n
    using that
  proof (induction "is" arbitrary: v)
    case (Cons i "is")
    have i: "i < 14" "i \<notin> set is" using Cons.prems by auto
    have "drop_bit 16 (v XOR RM_30_14_ROWS_PRECOMPUTED ! i) = drop_bit 16 v XOR push_bit (13 - i) 1"
      using row_bits(3) i(1) by (simp add: drop_bit_xor)
    moreover have "drop_bit (13 - i) x AND 1 = 1 \<longleftrightarrow> bit x (13 - i)"
      by (simp add: and_one_eq mod_2_eq_odd flip: bit_iff_odd_drop_bit)
    moreover have "bit (push_bit (13 - i) 1 :: u32) n \<longleftrightarrow> n = 13 - i"
      using i(1) by (auto simp: bit_exp_iff)
    moreover have "13 - n = i \<and> n < 14 \<longleftrightarrow> n = 13 - i" using i(1) by auto
    ultimately show ?case
      using Cons.IH Cons.prems i by (auto simp: bit_xor_iff)
  qed simp
  note b = this [of "[0..<14]" 0]
  have x: "bit x n \<Longrightarrow> n < 14" for n
    using assms by (metis bit_take_bit_iff drop_bit_0_iff take_bit_small)
  show ?thesis
    by (rule bit_word_eqI) (use x in \<open>auto simp: bit_ucast_iff tetra_rm3014_compute_def b lessThan_atLeast0\<close>)
qed

lemma flip_error_eq:
  "k < length cols \<Longrightarrow> distinct cols \<Longrightarrow> flip_error (cols ! k) n cols c = c XOR push_bit (29 - (n + k)) 1"
proof (induction cols arbitrary: n k)
  case (Cons col cols)
  show ?case
  proof (cases k)
    case (Suc k')
    then have "col \<noteq> cols ! k'" using Cons.prems by auto
    then show ?thesis using Cons.IH [of k' "n + 1"] Cons.prems Suc by simp
  qed simp
qed simp

lemma corrects_single_error:
  assumes "unat x < 2 ^ 14" and "k < 30"
  shows "tetra_rm3014_decode_limited_ecc (tetra_rm3014_compute x XOR push_bit (29 - k) 1) = x"
proof -
  have "compute_syndrome (tetra_rm3014_compute x XOR push_bit (29 - k) 1) = COL_SYNDROMES ! k"
    unfolding compute_syndrome_xor codeword_syndrome unit_syndrome [OF assms(2)] by simp
  moreover have "COL_SYNDROMES ! k \<noteq> 0" using distinct_col_syndromes(2,3) assms(2) by (metis nth_mem)
  moreover have "flip_error (COL_SYNDROMES ! k) 0 COL_SYNDROMES c = c XOR push_bit (29 - k) 1" for c
    using flip_error_eq [of k COL_SYNDROMES 0 c] distinct_col_syndromes assms(2) by simp
  ultimately show ?thesis
    unfolding tetra_rm3014_decode_limited_ecc_def Let_def
    using codeword_systematic [OF assms(1)] by (simp add: xor.assoc)
qed

lemma decodes_codeword:
  "unat x < 2 ^ 14 \<Longrightarrow> tetra_rm3014_decode_limited_ecc (tetra_rm3014_compute x) = x"
  by (simp add: tetra_rm3014_decode_limited_ecc_def codeword_syndrome codeword_systematic)

end
