(* ===== verification/Tch_Reorder.thy ===== *)
theory Tch_Reorder
  imports Nexus_Prelude
begin

text \<open>
  The reordering of the 274 speech codec bits into the three sensitivity classes of the TCH/S
  channel, \<^verbatim>\<open>crates/tetra-entities/src/lmac/components/tch_reorder.rs\<close>, and its reverse.  The class
  tables together name every position of the 137-bit subframe once, so that the two functions
  are inverse to each other.
\<close>

section \<open>The model\<close>

definition NUM_ACELP_BITS :: nat where
  "NUM_ACELP_BITS = 137"

definition CLASS0_POS :: "nat list" where
  "CLASS0_POS =
     [35, 36, 37, 38, 39, 40, 41, 42, 43, 47, 48, 56, 61, 62, 63, 64, 65, 66, 67, 68, 69, 70, 74, 75, 83, 88,
      89, 90, 91, 92, 93, 94, 95, 96, 97, 101, 102, 110, 115, 116, 117, 118, 119, 120, 121, 122, 123, 124, 128,
      129, 137]"

definition CLASS1_POS :: "nat list" where
  "CLASS1_POS =
     [58, 85, 112, 54, 81, 108, 135, 50, 77, 104, 131, 45, 72, 99, 126, 55, 82, 109, 136, 5, 13, 34, 8, 16, 17,
      22, 23, 24, 25, 26, 6, 14, 7, 15, 60, 87, 114, 46, 73, 100, 127, 44, 71, 98, 125, 33, 49, 76, 103, 130, 59,
      86, 113, 57, 84, 111]"

definition CLASS2_POS :: "nat list" where
  "CLASS2_POS =
     [18, 19, 20, 21, 31, 32, 53, 80, 107, 134, 1, 2, 3, 4, 9, 10, 11, 12, 27, 28, 29, 30, 52, 79, 106, 133, 51,
      78, 105, 132]"

text \<open>One of the three loops of each direction; the running index is carried from loop to loop.\<close>

fun gather_loop :: "nat list \<Rightarrow> u8 list \<Rightarrow> nat \<times> u8 list \<Rightarrow> nat \<times> u8 list" where
  "gather_loop [] codec_bits (out_idx, channel) = (out_idx, channel)"
| "gather_loop (p # ps) codec_bits (out_idx, channel) =
     (let pos = p - 1;
          channel = channel[out_idx := codec_bits ! (0 * NUM_ACELP_BITS + pos)];
          channel = channel[out_idx + 1 := codec_bits ! (1 * NUM_ACELP_BITS + pos)]
      in gather_loop ps codec_bits (out_idx + 2, channel))"

definition codec_to_channel :: "u8 list \<Rightarrow> u8 list" where
  "codec_to_channel codec_bits =
     snd (gather_loop CLASS2_POS codec_bits
       (gather_loop CLASS1_POS codec_bits
         (gather_loop CLASS0_POS codec_bits (0, replicate 274 0))))"

fun spread_loop :: "nat list \<Rightarrow> u8 list \<Rightarrow> nat \<times> u8 list \<Rightarrow> nat \<times> u8 list" where
  "spread_loop [] channel_bits (in_idx, codec) = (in_idx, codec)"
| "spread_loop (p # ps) channel_bits (in_idx, codec) =
     (let pos = p - 1;
          codec = codec[0 * NUM_ACELP_BITS + pos := channel_bits ! in_idx];
          codec = codec[1 * NUM_ACELP_BITS + pos := channel_bits ! (in_idx + 1)]
      in spread_loop ps channel_bits (in_idx + 2, codec))"

definition channel_to_codec :: "u8 list \<Rightarrow> u8 list" where
  "channel_to_codec channel_bits =
     snd (spread_loop CLASS2_POS channel_bits
       (spread_loop CLASS1_POS channel_bits
         (spread_loop CLASS0_POS channel_bits (0, replicate 274 0))))"

section \<open>One table\<close>

definition POS :: "nat list" where
  "POS = CLASS0_POS @ CLASS1_POS @ CLASS2_POS"

lemma POS_props: "length POS = 137" "distinct POS" "\<forall>p \<in> set POS. 1 \<le> p \<and> p \<le> 137"
  by (simp_all add: POS_def CLASS0_POS_def CLASS1_POS_def CLASS2_POS_def)

lemma gather_loop_append: "gather_loop (ps @ qs) x st = gather_loop qs x (gather_loop ps x st)"
  by (induction ps x st rule: gather_loop.induct) (simp_all add: Let_def)

lemma spread_loop_append: "spread_loop (ps @ qs) x st = spread_loop qs x (spread_loop ps x st)"
  by (induction ps x st rule: spread_loop.induct) (simp_all add: Let_def)

lemma set_POS: "set POS = {1..137}"
proof (rule card_subset_eq)
  show "set POS \<subseteq> {1..137}" using POS_props(3) by auto
  show "card (set POS) = card {1..137 :: nat}" using POS_props(1,2) by (simp add: distinct_card)
qed simp

text \<open>The codec position of a channel position.\<close>

definition codec_pos :: "nat \<Rightarrow> nat" where
  "codec_pos t = t mod 2 * 137 + (POS ! (t div 2) - 1)"

lemma gather_loop_nth:
  "o1 + 2 * length ps \<le> length ch \<Longrightarrow>
   (let r = snd (gather_loop ps x (o1, ch)) in length r = length ch \<and>
     (\<forall>t < length ch. r ! t = (if o1 \<le> t \<and> t < o1 + 2 * length ps
        then x ! ((t - o1) mod 2 * 137 + (ps ! ((t - o1) div 2) - 1)) else ch ! t)))"
proof (induction ps arbitrary: o1 ch)
  case (Cons p ps)
  let ?ch = "ch[o1 := x ! (p - 1), o1 + 1 := x ! (137 + (p - 1))]"
  have ih: "let r = snd (gather_loop ps x (o1 + 2, ?ch)) in length r = length ?ch \<and>
     (\<forall>t < length ?ch. r ! t = (if o1 + 2 \<le> t \<and> t < o1 + 2 + 2 * length ps
        then x ! ((t - (o1 + 2)) mod 2 * 137 + (ps ! ((t - (o1 + 2)) div 2) - 1)) else ?ch ! t))"
    using Cons.prems by (intro Cons.IH) simp
  have step: "snd (gather_loop (p # ps) x (o1, ch)) = snd (gather_loop ps x (o1 + 2, ?ch))"
    by (simp add: NUM_ACELP_BITS_def Let_def)
  have at: "x ! ((t - o1) mod 2 * 137 + ((p # ps) ! ((t - o1) div 2) - 1))
      = x ! ((t - (o1 + 2)) mod 2 * 137 + (ps ! ((t - (o1 + 2)) div 2) - 1))" if "o1 + 2 \<le> t" for t
  proof -
    have "t - o1 = t - (o1 + 2) + 2" using that by simp
    then show ?thesis by simp
  qed
  have "snd (gather_loop (p # ps) x (o1, ch)) ! t = (if o1 \<le> t \<and> t < o1 + 2 * length (p # ps)
        then x ! ((t - o1) mod 2 * 137 + ((p # ps) ! ((t - o1) div 2) - 1)) else ch ! t)" if t: "t < length ch" for t
  proof (cases "o1 + 2 \<le> t")
    case True
    then show ?thesis using ih t at [OF True] unfolding step Let_def by simp
  next
    case False
    then consider "t < o1" | "t = o1" | "t = o1 + 1" by linarith
    then show ?thesis using ih t Cons.prems unfolding step Let_def by cases (simp_all add: nth_list_update)
  qed
  then show ?case using ih unfolding step Let_def by simp
qed auto

lemma codec_to_channel_eq: "codec_to_channel x = map (\<lambda>t. x ! codec_pos t) [0..<274]"
proof -
  have c: "codec_to_channel x = snd (gather_loop POS x (0, replicate 274 0))"
    by (simp add: codec_to_channel_def POS_def gather_loop_append)
  have "0 + 2 * length POS \<le> length (replicate 274 0 :: u8 list)" by (simp add: POS_props)
  from gather_loop_nth [OF this, of x] show ?thesis
    unfolding c Let_def by (intro nth_equalityI) (simp_all add: POS_props codec_pos_def)
qed

lemma codec_pos_inj: "inj_on codec_pos {..<274}" "codec_pos ` {..<274} \<subseteq> {..<274}"
proof -
  have p: "POS ! (t div 2) \<in> {1..137}" if "t < 274" for t
    using that nth_mem [of "t div 2" POS] by (simp add: POS_props set_POS)
  show "codec_pos ` {..<274} \<subseteq> {..<274}"
  proof
    fix n assume "n \<in> codec_pos ` {..<274}"
    then obtain t where t: "t < 274" "n = codec_pos t" by auto
    have "POS ! (t div 2) - 1 < 137" using p [OF t(1)] by auto
    moreover have "t mod 2 * 137 \<le> 137" by (cases "even t") (auto simp: odd_iff_mod_2_eq_one)
    ultimately show "n \<in> {..<274}" unfolding t(2) codec_pos_def lessThan_iff by linarith
  qed
  show "inj_on codec_pos {..<274}"
  proof (rule inj_onI)
    fix s t assume "s \<in> {..<274}" "t \<in> {..<274 :: nat}" and eq: "codec_pos s = codec_pos t"
    then have st: "s < 274" "t < 274" by auto
    have b: "POS ! (s div 2) - 1 < 137" "POS ! (t div 2) - 1 < 137" using p st by fastforce+
    have e: "s mod 2 * 137 + (POS ! (s div 2) - 1) = t mod 2 * 137 + (POS ! (t div 2) - 1)"
      using eq by (simp add: codec_pos_def)
    have m: "s mod 2 = t mod 2" using arg_cong [OF e, of "\<lambda>n. n div 137"] b by simp
    then have "POS ! (s div 2) - 1 = POS ! (t div 2) - 1" using e by simp
    moreover have "1 \<le> POS ! (s div 2)" "1 \<le> POS ! (t div 2)" using p st by simp_all
    ultimately have "POS ! (s div 2) = POS ! (t div 2)" by linarith
    then have "s div 2 = t div 2" using POS_props(1,2) st by (simp add: nth_eq_iff_index_eq)
    then show "s = t" using m by (metis div_mult_mod_eq)
  qed
qed

lemma spread_loop_nth:
  "distinct ps \<Longrightarrow> \<forall>p \<in> set ps. 1 \<le> p \<and> p \<le> 137 \<Longrightarrow> length cd = 274 \<Longrightarrow>
   (let r = snd (spread_loop ps y (i, cd)) in length r = 274 \<and>
     (\<forall>k < length ps. r ! (ps ! k - 1) = y ! (i + 2 * k) \<and> r ! (137 + (ps ! k - 1)) = y ! (i + 2 * k + 1)) \<and>
     (\<forall>q. 1 \<le> q \<longrightarrow> q \<le> 137 \<longrightarrow> q \<notin> set ps \<longrightarrow> r ! (q - 1) = cd ! (q - 1) \<and> r ! (137 + (q - 1)) = cd ! (137 + (q - 1))))"
proof (induction ps arbitrary: i cd)
  case (Cons p ps)
  let ?cd = "cd[p - 1 := y ! i, 137 + (p - 1) := y ! (i + 1)]"
  define r where "r = snd (spread_loop ps y (i + 2, ?cd))"
  have p: "1 \<le> p" "p \<le> 137" "p \<notin> set ps" using Cons.prems by auto
  have step: "snd (spread_loop (p # ps) y (i, cd)) = r"
    by (simp add: NUM_ACELP_BITS_def Let_def r_def)
  have ih: "length r = 274"
    "\<forall>k < length ps. r ! (ps ! k - 1) = y ! (i + 2 + 2 * k) \<and> r ! (137 + (ps ! k - 1)) = y ! (i + 2 + 2 * k + 1)"
    "\<forall>q. 1 \<le> q \<longrightarrow> q \<le> 137 \<longrightarrow> q \<notin> set ps \<longrightarrow> r ! (q - 1) = ?cd ! (q - 1) \<and> r ! (137 + (q - 1)) = ?cd ! (137 + (q - 1))"
    using Cons.IH [of ?cd "i + 2"] Cons.prems unfolding r_def Let_def by auto
  have at: "r ! (p - 1) = y ! i" "r ! (137 + (p - 1)) = y ! (i + 1)"
    using ih(3) [rule_format, OF p] p Cons.prems(3) by (auto simp: nth_list_update)
  have "r ! ((p # ps) ! k - 1) = y ! (i + 2 * k) \<and> r ! (137 + ((p # ps) ! k - 1)) = y ! (i + 2 * k + 1)"
    if "k < length (p # ps)" for k
    using that at ih(2) by (cases k) auto
  moreover have "r ! (q - 1) = cd ! (q - 1) \<and> r ! (137 + (q - 1)) = cd ! (137 + (q - 1))"
    if q: "1 \<le> q" "q \<le> 137" "q \<notin> set (p # ps)" for q
  proof -
    have "q - 1 \<noteq> p - 1" "q - 1 \<noteq> 137 + (p - 1)" "p - 1 \<noteq> 137 + (q - 1)" using q p by auto
    then show ?thesis using ih(3) q by (simp add: nth_list_update)
  qed
  ultimately show ?case using ih(1) unfolding step Let_def by blast
qed simp

lemma channel_to_codec_nth:
  assumes "t < 274"
  shows "channel_to_codec y ! codec_pos t = y ! t" and "length (channel_to_codec y) = 274"
proof -
  have c: "channel_to_codec y = snd (spread_loop POS y (0, replicate 274 0))"
    by (simp add: channel_to_codec_def POS_def spread_loop_append)
  define r where "r = snd (spread_loop POS y (0, replicate 274 0))"
  have s: "length r = 274"
    "\<And>k. k < length POS \<Longrightarrow> r ! (POS ! k - 1) = y ! (0 + 2 * k) \<and> r ! (137 + (POS ! k - 1)) = y ! (0 + 2 * k + 1)"
    using spread_loop_nth [OF POS_props(2,3), of "replicate 274 0" y 0] unfolding Let_def r_def by auto
  show "length (channel_to_codec y) = 274" using s(1) unfolding c r_def .
  have k: "t div 2 < length POS" using assms by (simp add: POS_props)
  have "r ! codec_pos t = y ! t"
  proof (cases "even t")
    case True
    then have t: "0 + 2 * (t div 2) = t" "t mod 2 * 137 + (POS ! (t div 2) - 1) = POS ! (t div 2) - 1" by auto
    show ?thesis unfolding codec_pos_def t(2) using s(2) [OF k] unfolding t(1) by blast
  next
    case False
    then have t: "0 + 2 * (t div 2) + 1 = t" "t mod 2 * 137 + (POS ! (t div 2) - 1) = 137 + (POS ! (t div 2) - 1)"
      by (auto simp: odd_iff_mod_2_eq_one)
    show ?thesis unfolding codec_pos_def t(2) using s(2) [OF k] unfolding t(1) by blast
  qed
  then show "channel_to_codec y ! codec_pos t = y ! t" unfolding c r_def .
qed

lemma codec_channel_codec:
  assumes "length x = 274"
  shows "channel_to_codec (codec_to_channel x) = x"
proof (rule nth_equalityI)
  show len: "length (channel_to_codec (codec_to_channel x)) = length x"
    using channel_to_codec_nth(2) [of 0] assms by simp
  have onto: "codec_pos ` {..<274} = {..<274}"
    using codec_pos_inj by (intro card_subset_eq) (simp_all add: card_image)
  fix n assume "n < length (channel_to_codec (codec_to_channel x))"
  then have "n \<in> codec_pos ` {..<274}" using len assms onto by simp
  then obtain t where t: "t < 274" "n = codec_pos t" by auto
  then show "channel_to_codec (codec_to_channel x) ! n = x ! n"
    using channel_to_codec_nth(1) [OF t(1)] by (simp add: codec_to_channel_eq)
qed

lemma channel_codec_channel:
  assumes "length y = 274"
  shows "codec_to_channel (channel_to_codec y) = y"
  unfolding codec_to_channel_eq
  by (rule nth_equalityI) (simp_all add: assms channel_to_codec_nth)

lemma length_codec_to_channel [simp]: "length (codec_to_channel x) = 274"
  by (simp add: codec_to_channel_eq)

lemma set_codec_to_channel:
  assumes "length x = 274"
  shows "set (codec_to_channel x) \<subseteq> set x"
proof
  fix v assume "v \<in> set (codec_to_channel x)"
  then obtain t where "t < 274" "v = x ! codec_pos t" by (auto simp: codec_to_channel_eq)
  then show "v \<in> set x" using codec_pos_inj(2) assms by (auto intro!: nth_mem)
qed

end
