(* ===== verification/Error_Control.thy ===== *)
theory Error_Control
  imports Punctured_Code Crc Scrambler Interleaver Rm3014 Tch_Reorder "HOL-Library.Monad_Syntax"
begin

unbundle bit_operations_syntax

text \<open>
  The channel coding chains of the lower MAC: \<^verbatim>\<open>crates/tetra-entities/src/lmac/components/errorcontrol.rs\<close>
  with its parameters (\<^verbatim>\<open>errorcontrol_params.rs\<close>) and the logical channels
  (\<^verbatim>\<open>crates/tetra-saps/src/tmv/enums/logical_chans.rs\<close>).  Each chain composes the models of the
  other theories in the order of the source; an outer \<open>None\<close> is a panic (a slice out of range, a
  failed assertion), the inner values are the source's results.  The main results are that
  decoding inverts encoding on every control channel, on the speech channel and on the access
  assignment channel.
\<close>

section \<open>Logical channels and parameters\<close>

datatype logical_channel =
  Aach | SchHd | SchF | Stch | SchHu | TchS | Tch24 | Tch48 | Tch72 | Bsch | Bnch | Blch | Clch

fun is_traffic :: "logical_channel \<Rightarrow> bool" where
  "is_traffic TchS = True" | "is_traffic Tch24 = True" | "is_traffic Tch48 = True" | "is_traffic Tch72 = True"
| "is_traffic _ = False"

fun is_control_channel :: "logical_channel \<Rightarrow> bool" where
  "is_control_channel Aach = True" | "is_control_channel Bsch = True" | "is_control_channel Bnch = True"
| "is_control_channel SchHd = True" | "is_control_channel SchF = True" | "is_control_channel Stch = True"
| "is_control_channel SchHu = True" | "is_control_channel _ = False"

definition is_linearization_channel :: "logical_channel \<Rightarrow> bool" where
  "is_linearization_channel c \<longleftrightarrow> c = Clch \<or> c = Blch"

fun is_dl_channel :: "logical_channel \<Rightarrow> bool" where
  "is_dl_channel SchHu = False" | "is_dl_channel Clch = False" | "is_dl_channel _ = True"

fun is_ul_channel :: "logical_channel \<Rightarrow> bool" where
  "is_ul_channel Aach = False" | "is_ul_channel SchHd = False" | "is_ul_channel Bsch = False"
| "is_ul_channel Bnch = False" | "is_ul_channel Blch = False" | "is_ul_channel _ = True"

record error_control_params =
  type345_bits :: nat
  type2_len :: nat
  type1_bits :: nat
  interleave_a :: nat
  have_crc16 :: bool

definition BSCH_PARAMS :: error_control_params where
  "BSCH_PARAMS = \<lparr>type345_bits = 120, type2_len = 80, type1_bits = 60, interleave_a = 11, have_crc16 = True\<rparr>"

definition SCH_HD_PARAMS :: error_control_params where
  "SCH_HD_PARAMS = \<lparr>type345_bits = 216, type2_len = 144, type1_bits = 124, interleave_a = 101, have_crc16 = True\<rparr>"

definition AACH_PARAMS :: error_control_params where
  "AACH_PARAMS = \<lparr>type345_bits = 30, type2_len = 30, type1_bits = 14, interleave_a = 0, have_crc16 = False\<rparr>"

definition SCH_F_PARAMS :: error_control_params where
  "SCH_F_PARAMS = \<lparr>type345_bits = 432, type2_len = 288, type1_bits = 268, interleave_a = 103, have_crc16 = True\<rparr>"

definition SCH_HU_PARAMS :: error_control_params where
  "SCH_HU_PARAMS = \<lparr>type345_bits = 168, type2_len = 112, type1_bits = 92, interleave_a = 13, have_crc16 = True\<rparr>"

definition TCH_S_PARAMS :: error_control_params where
  "TCH_S_PARAMS = \<lparr>type345_bits = 432, type2_len = 288, type1_bits = 274, interleave_a = 103, have_crc16 = False\<rparr>"

fun get_params :: "logical_channel \<Rightarrow> error_control_params option" where
  "get_params Bsch = Some BSCH_PARAMS"
| "get_params SchHd = Some SCH_HD_PARAMS"
| "get_params Stch = Some SCH_HD_PARAMS"
| "get_params Bnch = Some SCH_HD_PARAMS"
| "get_params Aach = Some AACH_PARAMS"
| "get_params SchF = Some SCH_F_PARAMS"
| "get_params SchHu = Some SCH_HU_PARAMS"
| "get_params TchS = Some TCH_S_PARAMS"
| "get_params _ = None"

section \<open>Primitives and slices\<close>

record tmv_unitdata_req =
  mac_block :: bitbuf
  logical_channel :: logical_channel
  scrambling_code :: u32

datatype phy_block_type = BBK | SB1 | SB2 | NDB | NUB | SSN1 | SSN2

text \<open>The fields of \<open>TpUnitdataInd\<close> that the decoders read.\<close>

record tp_unitdata_ind =
  block_type :: phy_block_type
  phy_block :: bitbuf

text \<open>\<open>&xs[a..b]\<close> and \<open>xs[a..a + ys.len()].copy_from_slice(ys)\<close>.\<close>

definition slice :: "nat \<Rightarrow> nat \<Rightarrow> 'a list \<Rightarrow> 'a list option" where
  "slice a b xs = (if a \<le> b \<and> b \<le> length xs then Some (take (b - a) (drop a xs)) else None)"

definition put :: "nat \<Rightarrow> 'a list \<Rightarrow> 'a list \<Rightarrow> 'a list option" where
  "put a ys xs = (if a + length ys \<le> length xs then Some (take a xs @ ys @ drop (a + length ys) xs) else None)"

definition MAX_TYPE1_BITS :: nat where
  "MAX_TYPE1_BITS = 274"

definition MAX_TYPE2_BITS :: nat where
  "MAX_TYPE2_BITS = 288"

definition MAX_TYPE345_BITS :: nat where
  "MAX_TYPE345_BITS = 432"

definition MAX_TYPE345_HALFSLOT_BITS :: nat where
  "MAX_TYPE345_HALFSLOT_BITS = 216"

section \<open>Control plane\<close>

definition encode_cp :: "tmv_unitdata_req \<Rightarrow> bitbuf option option" where
  "encode_cp prim =
     (let lchan = logical_channel prim in
      if \<not> is_control_channel lchan \<or> lchan = Aach then Some None
      else case get_params lchan of
        None \<Rightarrow> Some None
      | Some params \<Rightarrow> do {
          (len, blk) \<leftarrow> run_bb get_len (mac_block prim);
          if len \<noteq> type1_bits params then Some None
          else do {
            (_, blk) \<leftarrow> run_bb (seek 0) blk;
            (type1, blk) \<leftarrow> run_bb (to_bitarr (type1_bits params)) blk;
            type2_arr \<leftarrow> put 0 type1 (replicate MAX_TYPE2_BITS 0);
            if \<not> have_crc16 params then Some None
            else do {
              type1 \<leftarrow> slice 0 (type1_bits params) type2_arr;
              let crc = NOT (crc16_ccitt_bits type1 (type1_bits params));
              type2_arr \<leftarrow> put (type1_bits params) (map (\<lambda>i. ucast (drop_bit (15 - i) crc AND 1)) [0..<16]) type2_arr;
              type2 \<leftarrow> slice 0 (type2_len params) type2_arr;
              (type3dp_arr, _) \<leftarrow> encode type2 (replicate (MAX_TYPE345_BITS * 4) 0) conv_new;
              type3_arr \<leftarrow> get_punctured_rate Rate2_3 type3dp_arr (replicate MAX_TYPE345_BITS 0);
              type4_arr \<leftarrow> block_interleave (type345_bits params) (interleave_a params) type3_arr (replicate MAX_TYPE345_BITS 0);
              type4_slice \<leftarrow> slice 0 (type345_bits params) type4_arr;
              type4 \<leftarrow> bb_from_bitarr type4_slice;
              (_, type5) \<leftarrow> run_bb (tetra_scramb_bits (scrambling_code prim)) type4;
              Some (Some type5)
            }
          }
        })"

definition decode_cp :: "logical_channel \<Rightarrow> tp_unitdata_ind \<Rightarrow> u32 option \<Rightarrow> (bitbuf option \<times> bool) option" where
  "decode_cp lchan prim default_scramb_code =
     (if \<not> is_control_channel lchan \<or> lchan = Aach then Some (None, False)
      else case get_params lchan of
        None \<Rightarrow> Some (None, False)
      | Some params \<Rightarrow>
          (case (if block_type prim = SB1 then Some SCRAMB_INIT else default_scramb_code) of
             None \<Rightarrow> Some (None, False)
           | Some code \<Rightarrow> do {
               (_, type4) \<leftarrow> run_bb (tetra_scramb_bits code) (phy_block prim);
               (type4_bits, _) \<leftarrow> run_bb (to_bitarr (type345_bits params)) type4;
               type4_arr \<leftarrow> put 0 type4_bits (replicate MAX_TYPE345_BITS 0);
               type3_arr \<leftarrow> block_deinterleave (type345_bits params) (interleave_a params) type4_arr (replicate MAX_TYPE345_BITS 0);
               type3dp_arr \<leftarrow> tetra_rcpc_depunct Rate2_3 type3_arr (type345_bits params) (replicate (MAX_TYPE345_BITS * 4) 0xFF);
               type2_arr \<leftarrow> dec_sb1 type3dp_arr (replicate MAX_TYPE2_BITS 0) (type2_len params);
               if \<not> have_crc16 params then Some (None, False)
               else do {
                 type1_arr \<leftarrow> slice 0 (type1_bits params) type2_arr;
                 let crc = crc16_ccitt_bits type2_arr (type1_bits params + 16);
                 type1 \<leftarrow> bb_from_bitarr type1_arr;
                 Some (Some type1, crc = TETRA_CRC_OK)
               }
             }))"

section \<open>Speech CRC\<close>

definition speech_reduce :: "u8 list \<Rightarrow> nat \<Rightarrow> u8 list" where
  "speech_reduce w d =
     (if w ! d = 1
      then let w = w[d := w ! d XOR 1]; w = w[d - 4 := w ! (d - 4) XOR 1] in w[d - 7 := w ! (d - 7) XOR 1]
      else w)"

definition speech_crc :: "u8 list \<Rightarrow> u8 list option" where
  "speech_crc class2_bits =
     (if length class2_bits \<noteq> 60 then None
      else
        let w = foldl (\<lambda>w k. w[k + 7 := class2_bits ! k AND 1]) (replicate 67 0) [0..<60];
            w = foldl speech_reduce w (rev [7..<67]);
            result = foldl (\<lambda>r i. r[i := w ! i]) (replicate 8 0) [0..<7];
            parity = foldl (\<lambda>p b. p XOR (b AND 1)) 0 class2_bits;
            parity = foldl (\<lambda>p i. p XOR result ! i) parity [0..<7]
        in Some (result[7 := parity]))"

section \<open>Traffic plane\<close>

definition CLASS0_BITS :: nat where
  "CLASS0_BITS = 102"

definition CLASS1_BITS :: nat where
  "CLASS1_BITS = 112"

definition CLASS2_BITS :: nat where
  "CLASS2_BITS = 60"

definition CLASS2_TYPE2 :: nat where
  "CLASS2_TYPE2 = 72"

definition CLASS1_TYPE3 :: nat where
  "CLASS1_TYPE3 = 168"

definition CLASS2_TYPE3 :: nat where
  "CLASS2_TYPE3 = 162"

definition encode_tp :: "tmv_unitdata_req \<Rightarrow> u8 \<Rightarrow> bitbuf option option" where
  "encode_tp prim blk_num =
     (let lchan = logical_channel prim in
      if lchan \<noteq> TchS then Some None
      else case get_params lchan of
        None \<Rightarrow> Some None
      | Some params \<Rightarrow> do {
          (_, blk) \<leftarrow> run_bb (seek 0) (mac_block prim);
          (len, blk) \<leftarrow> run_bb get_len blk;
          let type1_len = min len (type1_bits params);
          (bits, _) \<leftarrow> run_bb (to_bitarr type1_len) blk;
          type1_arr \<leftarrow> put 0 bits (replicate MAX_TYPE1_BITS 0);
          type1_arr \<leftarrow> (if lchan = TchS \<and> type1_len = 274
             then do { codec_bits \<leftarrow> slice 0 274 type1_arr; put 0 (codec_to_channel codec_bits) type1_arr }
             else Some type1_arr);
          class0 \<leftarrow> slice 0 CLASS0_BITS type1_arr;
          type3_arr \<leftarrow> put 0 class0 (replicate MAX_TYPE345_BITS 0);
          class1_input \<leftarrow> slice CLASS0_BITS (CLASS0_BITS + CLASS1_BITS) type1_arr;
          (mother_buf, ces) \<leftarrow> speech_encode class1_input (replicate (CLASS1_BITS * 3) 0) speech_new;
          punct_buf \<leftarrow> get_punctured_rate Rate112_168 mother_buf (replicate 168 0);
          type3_arr \<leftarrow> put CLASS0_BITS punct_buf type3_arr;
          class2_data \<leftarrow> slice (CLASS0_BITS + CLASS1_BITS) (CLASS0_BITS + CLASS1_BITS + CLASS2_BITS) type1_arr;
          class2_type2 \<leftarrow> put 0 class2_data (replicate CLASS2_TYPE2 0);
          crc_bits \<leftarrow> speech_crc class2_data;
          class2_type2 \<leftarrow> put CLASS2_BITS crc_bits class2_type2;
          (mother_buf, _) \<leftarrow> speech_encode class2_type2 (replicate (CLASS2_TYPE2 * 3) 0) ces;
          punct_buf \<leftarrow> get_punctured_rate Rate72_162 mother_buf (replicate 162 0);
          type3_arr \<leftarrow> put (CLASS0_BITS + 168) punct_buf type3_arr;
          type4_arr \<leftarrow> matrix_interleave 24 18 type3_arr (replicate MAX_TYPE345_BITS 0);
          type4_slice \<leftarrow> slice 0 (type345_bits params) type4_arr;
          type4 \<leftarrow> bb_from_bitarr type4_slice;
          (_, type4) \<leftarrow> run_bb (tetra_scramb_bits (scrambling_code prim)) type4;
          if blk_num = 1 then Some (Some type4)
          else do {
            (_, type4) \<leftarrow> run_bb (seek 0) type4;
            (bits, _) \<leftarrow> run_bb (to_bitarr (type345_bits params)) type4;
            full_arr \<leftarrow> put 0 bits (replicate MAX_TYPE345_BITS 0);
            half \<leftarrow> slice MAX_TYPE345_HALFSLOT_BITS (type345_bits params) full_arr;
            half_buf \<leftarrow> bb_from_bitarr half;
            Some (Some half_buf)
          }
        })"

definition decode_tp :: "logical_channel \<Rightarrow> bitbuf \<Rightarrow> u32 \<Rightarrow> (bitbuf option \<times> bool) option" where
  "decode_tp lchan type5_block code =
     (if lchan \<noteq> TchS then Some (None, False)
      else case get_params lchan of
        None \<Rightarrow> Some (None, False)
      | Some params \<Rightarrow> do {
          (_, type4) \<leftarrow> run_bb (tetra_scramb_bits code) type5_block;
          (_, type4) \<leftarrow> run_bb (seek 0) type4;
          (bits, _) \<leftarrow> run_bb (to_bitarr (type345_bits params)) type4;
          type4_arr \<leftarrow> put 0 bits (replicate MAX_TYPE345_BITS 0);
          type3_arr \<leftarrow> matrix_deinterleave 24 18 type4_arr (replicate MAX_TYPE345_BITS 0);
          class0 \<leftarrow> slice 0 CLASS0_BITS type3_arr;
          type1_arr \<leftarrow> put 0 class0 (replicate MAX_TYPE1_BITS 0);
          class1_type3 \<leftarrow> slice CLASS0_BITS (CLASS0_BITS + CLASS1_TYPE3) type3_arr;
          mother_class1 \<leftarrow> tetra_rcpc_depunct Rate112_168 class1_type3 CLASS1_TYPE3 (replicate (CLASS1_BITS * 3) 0xFF);
          class2_type3 \<leftarrow> slice (CLASS0_BITS + CLASS1_TYPE3) (CLASS0_BITS + CLASS1_TYPE3 + CLASS2_TYPE3) type3_arr;
          mother_class2 \<leftarrow> tetra_rcpc_depunct Rate72_162 class2_type3 CLASS2_TYPE3 (replicate (CLASS2_TYPE2 * 3) 0xFF);
          combined \<leftarrow> put 0 mother_class1 (replicate ((CLASS1_BITS + CLASS2_TYPE2) * 3) 0xFF);
          combined_mother \<leftarrow> put (CLASS1_BITS * 3) mother_class2 combined;
          let soft = map soft_of combined_mother;
          decoded \<leftarrow> viterbi_decode (new_with_polynomials codec_polynomials) soft;
          class1 \<leftarrow> slice 0 CLASS1_BITS decoded;
          type1_arr \<leftarrow> put CLASS0_BITS class1 type1_arr;
          class2_decoded \<leftarrow> slice CLASS1_BITS (length decoded) decoded;
          class2_data \<leftarrow> slice 0 CLASS2_BITS class2_decoded;
          received_crc \<leftarrow> slice CLASS2_BITS (CLASS2_BITS + 8) class2_decoded;
          expected_crc \<leftarrow> speech_crc class2_data;
          type1_arr \<leftarrow> put (CLASS0_BITS + CLASS1_BITS) class2_data type1_arr;
          channel_bits \<leftarrow> slice 0 274 type1_arr;
          res \<leftarrow> bb_from_bitarr (channel_to_codec channel_bits);
          Some (Some res, expected_crc = received_crc)
        })"

section \<open>Access assignment channel\<close>

definition encode_aach :: "bitbuf \<Rightarrow> u32 \<Rightarrow> bitbuf option" where
  "encode_aach buf code = do {
     (len, type1) \<leftarrow> run_bb get_len_remaining buf;
     if len \<noteq> 14 then None
     else do {
       (r, _) \<leftarrow> run_bb (read_bits 14) type1;
       type1_int \<leftarrow> r;
       let type2_int = tetra_rm3014_compute (ucast type1_int);
       (_, type2) \<leftarrow> run_bb (write_bits (ucast type2_int) 30) (bb_new 30);
       (_, type2) \<leftarrow> run_bb (seek 0) type2;
       (_, type5) \<leftarrow> run_bb (tetra_scramb_bits code) type2;
       Some type5
     }
   }"

definition decode_aach :: "bitbuf \<Rightarrow> u32 \<Rightarrow> bitbuf option" where
  "decode_aach buf code = do {
     (len, type5) \<leftarrow> run_bb get_len_remaining buf;
     if len \<noteq> 30 then None
     else do {
       (_, type2) \<leftarrow> run_bb (tetra_scramb_bits code) type5;
       (r, type2) \<leftarrow> run_bb (read_bits 30) type2;
       x \<leftarrow> r;
       let y = tetra_rm3014_decode_limited_ecc (ucast x);
       (_, type1) \<leftarrow> run_bb (set_raw_start 0) type2;
       (_, type1) \<leftarrow> run_bb (set_raw_pos 0) type1;
       (_, type1) \<leftarrow> run_bb (set_raw_end 14) type1;
       (_, type1) \<leftarrow> run_bb (write_bits (ucast y) 14) type1;
       (_, type1) \<leftarrow> run_bb (seek 0) type1;
       Some type1
     }
   }"

section \<open>Steps of the chains\<close>

lemma put_0: "length ys \<le> length xs \<Longrightarrow> put 0 ys xs = Some (ys @ drop (length ys) xs)"
  by (simp add: put_def)

lemma slice_0: "n \<le> length xs \<Longrightarrow> slice 0 n xs = Some (take n xs)"
  by (simp add: slice_def)

lemma bits_of_bytes: "set xs \<subseteq> {0, 1} \<Longrightarrow> map (\<lambda>b. of_bool (b = 1)) xs = (xs :: u8 list)"
  by (induction xs) auto

lemma set_of_bools: "set (map of_bool xs) \<subseteq> {0, 1 :: u8}"
  by (auto simp: image_subset_iff)

lemma scramble_step:
  assumes "bb_wf b"
  obtains b' where "run_bb (tetra_scramb_bits l) b = Some ((), b')" and "bb_wf b'" and "bb_start b' = bb_start b"
    and "bb_pos b' = bb_pos b" and "bb_end b' = bb_end b" and "bb_autoexpand b' = bb_autoexpand b"
    and "unread b' = map2 (\<noteq>) (unread b) (keystream (length (unread b)) l)"
    and "tetra_scramb_bits l b' = Ok () b"
proof -
  obtain buf where s: "tetra_scramb_bits l b = Ok () (b\<lparr>bb_buffer := buf\<rparr>)"
    and x: "xored b (bb_pos b) (keystream (length (unread b)) l) buf"
    using assms by (rule tetra_scramb_bits_eq)
  show thesis
    using scramble_unread [OF assms x] scramble_twice [OF assms s]
    by (intro that [of "b\<lparr>bb_buffer := buf\<rparr>"]) (simp_all add: run_bb_def s)
qed

section \<open>Control channels\<close>

text \<open>What the parameters of a control channel have in common.\<close>

definition cp_params :: "error_control_params \<Rightarrow> bool" where
  "cp_params p \<longleftrightarrow> have_crc16 p \<and> type2_len p = type1_bits p + 20 \<and> type345_bits p = 3 * (type345_bits p div 3)
     \<and> 4 * type2_len p = 8 * (type345_bits p div 3) \<and> type2_len p \<le> 288 \<and> type345_bits p \<le> 432
     \<and> 0 < type345_bits p \<and> 0 < interleave_a p \<and> interleave_a p < 1000 \<and> coprime (interleave_a p) (type345_bits p)"

lemma cp_params_channel:
  assumes "is_control_channel lchan" and "lchan \<noteq> Aach"
  obtains p where "get_params lchan = Some p" and "cp_params p"
proof -
  have "coprime (11 :: nat) 120" "coprime (101 :: nat) 216" "coprime (103 :: nat) 432" "coprime (13 :: nat) 168"
    by (simp_all add: coprime_iff_gcd_eq_1 gcd_nat.simps)
  then show thesis
    using assms that
    by (cases lchan) (auto simp: cp_params_def BSCH_PARAMS_def SCH_HD_PARAMS_def SCH_F_PARAMS_def SCH_HU_PARAMS_def)
qed

definition type2_of :: "bool list \<Rightarrow> bool list" where
  "type2_of msg = (msg @ msb_bits 16 (NOT (crc_run GEN_POLY 0xFFFF msg))) @ [False, False, False, False]"

lemma crc16_ccitt_run: "crc16_ccitt_bits xs n = crc_run GEN_POLY 0xFFFF (map (\<lambda>b. bit b 0) (take n xs))"
  by (simp add: crc16_ccitt_bits_def crc16_itut_bits_run)

lemma bit0_of_bool: "map (\<lambda>b. bit b 0) (map of_bool xs :: u8 list) = xs"
  by (induction xs) simp_all

lemma type2_crc: "crc_run GEN_POLY 0xFFFF (msg @ msb_bits 16 (NOT (crc_run GEN_POLY 0xFFFF msg))) = TETRA_CRC_OK"
  using crc_run_complement [of GEN_POLY "crc_run GEN_POLY 0xFFFF msg"] crc16_residue by simp

lemma length_type2_of [simp]: "length (type2_of msg) = length msg + 20"
  by (simp add: type2_of_def)

lemma type2_of_tail: "end_state 0 (type2_of msg) = 0"
  unfolding type2_of_def by (rule end_state_tail) simp

lemma crc_bits_eq: "map (\<lambda>i. ucast (drop_bit (15 - i) crc AND 1)) [0..<16] = (map of_bool (msb_bits 16 crc) :: u8 list)"
  for crc :: u16
  by (rule nth_equalityI) (simp_all add: and_1_bit nth_msb_bits)

text \<open>The type-2 array that the encoder builds.\<close>

lemma type2_array:
  assumes "length msg + 20 \<le> 288"
  defines "crc \<equiv> NOT (crc16_ccitt_bits (map of_bool msg) (length msg))"
  shows "put (length msg) (map (\<lambda>i. ucast (drop_bit (15 - i) crc AND 1)) [0..<16])
      (map of_bool msg @ replicate (288 - length msg) (0 :: u8))
    = Some (map of_bool (type2_of msg) @ replicate (268 - length msg) 0)"
proof -
  have "crc16_ccitt_bits (map of_bool msg) (length msg) = crc_run GEN_POLY 0xFFFF msg"
    by (simp add: crc16_ccitt_run bit0_of_bool del: map_map)
  then have crc: "crc = NOT (crc_run GEN_POLY 0xFFFF msg)" by (simp add: crc_def)
  have "272 - length msg = 4 + (268 - length msg)" using assms(1) by simp
  then have "replicate (272 - length msg) (0 :: u8) = replicate 4 0 @ replicate (268 - length msg) 0"
    by (simp only: replicate_add)
  moreover have "replicate 4 (0 :: u8) = [0, 0, 0, 0]" by (simp add: numeral_eq_Suc)
  ultimately show ?thesis
    using assms(1) unfolding crc_bits_eq crc put_def type2_of_def by simp
qed

text \<open>The convolutional and puncturing stage.\<close>

lemma encode_type2:
  assumes "4 * length bs \<le> L"
  shows "\<exists>st. encode (map of_bool bs) (replicate L 0) conv_new
    = Some (map of_bool (conv_encode tetra_polynomials 0 bs) @ replicate (L - 4 * length bs) 0, st)"
  using assms encode_chunks_eq [of 0 conv_new bs] conv_new_regs(1)
  by (auto simp: encode_def Let_def split_beta mult.commute)

lemma Rate2_3_params: "pu_t (get_puncturer Rate2_3) = 3" "pu_period (get_puncturer Rate2_3) = 8"
  by simp_all

lemma puncture_type3:
  assumes "length code = 8 * m" and "m \<le> 144"
  obtains type3 where "get_punctured_rate Rate2_3 (map of_bool code @ replicate (1728 - 8 * m) 0) (replicate 432 0) = Some type3"
    and "length type3 = 432" and "set type3 \<subseteq> {0, 1}"
    and "\<And>i. i < 3 * m \<Longrightarrow> type3 ! i = of_bool (code ! kept_pos Rate2_3 i)"
proof -
  let ?in = "map of_bool code @ replicate (1728 - 8 * m) 0 :: u8 list"
  define type3 where "type3 = map (\<lambda>i. ?in ! kept_pos Rate2_3 i) [0..<432]"
  have lt: "kept_pos Rate2_3 i < 8 * n" if "i < 3 * n" for i n
    using kept_pos_less [OF plain_modes(1), of i n] that by simp
  have "get_punctured_rate Rate2_3 ?in (replicate 432 0) = Some type3"
    using get_punctured_rate_kept [OF plain_modes(1), of "replicate 432 0" 144 ?in] assms by (simp add: type3_def)
  moreover have "set type3 \<subseteq> set ?in"
  proof
    fix v assume "v \<in> set type3"
    then obtain i where i: "i < 432" "v = ?in ! kept_pos Rate2_3 i" by (auto simp: type3_def)
    have "kept_pos Rate2_3 i < length ?in" using lt [of i 144] i(1) assms by simp
    then show "v \<in> set ?in" unfolding i(2) by (rule nth_mem)
  qed
  moreover have "set ?in \<subseteq> {0, 1}" by auto
  moreover have "type3 ! i = of_bool (code ! kept_pos Rate2_3 i)" if "i < 3 * m" for i
  proof -
    have "i < 432" using that assms(2) by linarith
    then show ?thesis using lt [OF that] assms(1) by (simp add: type3_def nth_append del: upt_Suc)
  qed
  moreover have "length type3 = 432" by (simp add: type3_def)
  ultimately show thesis using that [of type3] by (meson subset_trans)
qed

lemma mac_block_bits:
  assumes "bb_wf blk" and "length (window blk) = n"
  obtains blk' where "run_bb get_len blk = Some (n, blk)"
    and "run_bb (seek 0) blk = Some ((), blk\<lparr>bb_pos := bb_start blk\<rparr>)"
    and "run_bb (to_bitarr n) (blk\<lparr>bb_pos := bb_start blk\<rparr>) = Some (map of_bool (window blk), blk')"
proof -
  let ?b = "blk\<lparr>bb_pos := bb_start blk\<rparr>"
  note s = seek_0_eq [OF assms(1)]
  have len: "bb_end blk - bb_start blk = n" using assms(2) by (simp add: window_def)
  have "to_bitarr n ?b = Ok (map of_bool (window blk)) (bb_adv n ?b)"
    using to_bitarr_eq [of ?b n] s assms(2) by (simp del: length_unread)
  then show thesis
    using s by (intro that [of "bb_adv n ?b"]) (simp_all add: run_bb_def get_len_eq [OF assms(1)] len)
qed

lemma encode_cp_block:
  assumes ctl: "is_control_channel lchan" "lchan \<noteq> Aach" and gp: "get_params lchan = Some p" and cp: "cp_params p"
    and wf: "bb_wf blk" and len: "length (window blk) = type1_bits p"
  obtains t5 type3 y t4 where
    "encode_cp \<lparr>mac_block = blk, logical_channel = lchan, scrambling_code = l\<rparr> = Some (Some t5)"
    and "length type3 = 432"
    and "\<And>i. i < type345_bits p \<Longrightarrow> type3 ! i = of_bool (conv_encode tetra_polynomials 0 (type2_of (window blk)) ! kept_pos Rate2_3 i)"
    and "\<And>z. take (type345_bits p) z = take (type345_bits p) y \<Longrightarrow> length z = 432 \<Longrightarrow>
      \<exists>w. block_deinterleave (type345_bits p) (interleave_a p) z (replicate 432 0) = Some w
        \<and> length w = 432 \<and> take (type345_bits p) w = take (type345_bits p) type3"
    and "set y \<subseteq> {0, 1}" and "length y = 432" and "bb_wf t5" and "bb_wf t4" and "length (unread t5) = type345_bits p"
    and "tetra_scramb_bits l t5 = Ok () t4" and "unread t4 = map (\<lambda>x. x = 1) (take (type345_bits p) y)"
proof -
  let ?k = "type345_bits p" and ?t2 = "type2_of (window blk)" and ?m = "type345_bits p div 3"
  let ?code = "conv_encode tetra_polynomials 0 ?t2"
  have c: "have_crc16 p" "type2_len p = type1_bits p + 20" "?k = 3 * ?m" "4 * type2_len p = 8 * ?m" "type2_len p \<le> 288"
    "?k \<le> 432" "0 < ?k" "0 < interleave_a p" "interleave_a p < 1000" "coprime (interleave_a p) ?k"
    using cp by (simp_all add: cp_params_def)
  have l2: "length ?t2 = type2_len p" using len c(2) by simp
  have lc: "length ?code = 8 * ?m" using l2 c(4) by (simp add: tetra_polynomials_def)
  obtain blk' where r: "run_bb get_len blk = Some (type1_bits p, blk)"
    "run_bb (seek 0) blk = Some ((), blk\<lparr>bb_pos := bb_start blk\<rparr>)"
    "run_bb (to_bitarr (type1_bits p)) (blk\<lparr>bb_pos := bb_start blk\<rparr>) = Some (map of_bool (window blk), blk')"
    using mac_block_bits [OF wf len] by metis
  have p0: "put 0 (map of_bool (window blk)) (replicate 288 0) = Some (map of_bool (window blk) @ replicate (288 - type1_bits p) (0 :: u8))"
    using len c(2,5) by (simp add: put_0)
  have s0: "slice 0 (type1_bits p) (map of_bool (window blk) @ replicate (288 - type1_bits p) (0 :: u8)) = Some (map of_bool (window blk))"
    using len by (simp add: slice_0)
  have t2: "put (type1_bits p) (map (\<lambda>i. ucast (drop_bit (15 - i) (NOT (crc16_ccitt_bits (map of_bool (window blk)) (type1_bits p))) AND 1)) [0..<16])
      (map of_bool (window blk) @ replicate (288 - type1_bits p) (0 :: u8))
    = Some (map of_bool ?t2 @ replicate (268 - type1_bits p) (0 :: u8))"
    using type2_array [of "window blk"] len c(2,5) by simp
  have s2: "slice 0 (type2_len p) (map of_bool ?t2 @ replicate (268 - type1_bits p) (0 :: u8)) = Some (map of_bool ?t2)"
    using l2 by (simp add: slice_0)
  obtain st where e: "encode (map of_bool ?t2) (replicate 1728 0) conv_new
      = Some (map of_bool ?code @ replicate (1728 - 8 * ?m) 0, st)"
    using encode_type2 [of ?t2 1728] l2 c(4,5) by auto
  obtain type3 where t3: "get_punctured_rate Rate2_3 (map of_bool ?code @ replicate (1728 - 8 * ?m) 0) (replicate 432 0) = Some type3"
    "length type3 = 432" "set type3 \<subseteq> {0, 1}" "\<And>i. i < 3 * ?m \<Longrightarrow> type3 ! i = of_bool (?code ! kept_pos Rate2_3 i)"
    using puncture_type3 [OF lc] c(3,6) by auto
  have fits: "interleave_a p * ?k < 2 ^ 32"
    using c(6,9) mult_le_mono [of "interleave_a p" 1000 ?k 432] by simp
  have lens: "?k \<le> length type3" "?k \<le> length (replicate 432 (0 :: u8))" using t3(2) c(6) by simp_all
  obtain y where y: "block_interleave ?k (interleave_a p) type3 (replicate 432 0) = Some y"
    "length y = length (replicate 432 (0 :: u8))" "set y \<subseteq> set type3 \<union> set (replicate 432 0)"
    "\<And>z out'. take ?k z = take ?k y \<Longrightarrow> ?k \<le> length z \<Longrightarrow> ?k \<le> length out' \<Longrightarrow>
      \<exists>w. block_deinterleave ?k (interleave_a p) z out' = Some w \<and> length w = length out' \<and> take ?k w = take ?k type3"
    by (rule block_prefix_roundtrip [OF c(7,8) fits c(10) lens]) (rule that; blast)
  have y4: "\<exists>w. block_deinterleave ?k (interleave_a p) z (replicate 432 0) = Some w \<and> length w = 432 \<and> take ?k w = take ?k type3"
    if "take ?k z = take ?k y" "length z = 432" for z
    using y(4) [of z "replicate 432 0"] that c(6) by simp
  have yb: "set y \<subseteq> {0, 1}" using y(3) t3(3) by auto
  have sy: "slice 0 ?k y = Some (take ?k y)" using y(2) c(6) by (simp add: slice_0)
  have "set (take ?k y) \<subseteq> {0, 1}" using yb set_take_subset by fast
  then obtain t4 where t4: "bb_from_bitarr (take ?k y) = Some t4" "bb_wf t4" "unread t4 = map (\<lambda>x. x = 1) (take ?k y)"
    by (rule bb_from_bitarr_eq)
  obtain t5 where t5: "run_bb (tetra_scramb_bits l) t4 = Some ((), t5)" "bb_wf t5" "bb_pos t5 = bb_pos t4" "bb_end t5 = bb_end t4"
    "tetra_scramb_bits l t5 = Ok () t4"
    using scramble_step [OF t4(2)] by metis
  have "encode_cp \<lparr>mac_block = blk, logical_channel = lchan, scrambling_code = l\<rparr> = Some (Some t5)"
    using ctl gp c(1) r p0 s0 t2 s2 e t3(1) y(1) sy t4(1) t5(1)
    by (simp add: encode_cp_def MAX_TYPE2_BITS_def MAX_TYPE345_BITS_def)
  moreover have "length (unread t5) = ?k"
  proof -
    have "length (unread t4) = ?k" using t4(3) y(2) c(6) by (simp del: length_unread)
    then show ?thesis using t5(3,4) by simp
  qed
  ultimately show thesis using that [of t5 type3 y t4] t3(2,4) y4 y(2) yb t5(2,5) t4(2,3) c(3) by simp
qed

lemma to_bitarr_bits:
  assumes "bb_wf b" and "unread b = map (\<lambda>x. x = 1) ys" and "set ys \<subseteq> {0, 1}" and "length ys = n"
  obtains b' where "run_bb (to_bitarr n) b = Some (ys, b')"
proof -
  have "to_bitarr n b = Ok (map of_bool (take n (unread b))) (bb_adv n b)"
    using assms by (intro to_bitarr_eq) (simp_all del: length_unread)
  moreover have "map of_bool (take n (unread b)) = ys"
    using assms(2-4) bits_of_bytes [OF assms(3)] by (simp add: o_def)
  ultimately show thesis using that by (simp add: run_bb_def)
qed

lemma decode_cp_block:
  assumes ctl: "is_control_channel lchan" "lchan \<noteq> Aach" and gp: "get_params lchan = Some p" and cp: "cp_params p"
    and len: "length msg = type1_bits p"
    and t3: "length type3 = 432"
      "\<And>i. i < type345_bits p \<Longrightarrow> type3 ! i = of_bool (conv_encode tetra_polynomials 0 (type2_of msg) ! kept_pos Rate2_3 i)"
    and y: "\<And>z. take (type345_bits p) z = take (type345_bits p) y \<Longrightarrow> length z = 432 \<Longrightarrow>
      \<exists>w. block_deinterleave (type345_bits p) (interleave_a p) z (replicate 432 0) = Some w
        \<and> length w = 432 \<and> take (type345_bits p) w = take (type345_bits p) type3"
      "set y \<subseteq> {0, 1}" "length y = 432"
    and t5: "tetra_scramb_bits l t5 = Ok () t4" "bb_wf t4" "unread t4 = map (\<lambda>x. x = 1) (take (type345_bits p) y)"
    and code: "(if bt = SB1 then Some SCRAMB_INIT else dflt) = Some l"
  obtains b where "decode_cp lchan \<lparr>block_type = bt, phy_block = t5\<rparr> dflt = Some (Some b, True)"
    and "bb_wf b" and "window b = msg" and "bb_pos b = 0"
proof -
  let ?k = "type345_bits p" and ?t2 = "type2_of msg" and ?m = "type345_bits p div 3"
  let ?code = "conv_encode tetra_polynomials 0 ?t2"
  have c: "have_crc16 p" "type2_len p = type1_bits p + 20" "?k = 3 * ?m" "4 * type2_len p = 8 * ?m" "type2_len p \<le> 288"
    "?k \<le> 432" using cp by (simp_all add: cp_params_def)
  have l2: "length ?t2 = type2_len p" using len c(2) by simp
  have lc: "length ?code = 8 * ?m" using l2 c(4) by (simp add: tetra_polynomials_def)
  have sub: "set (take ?k y) \<subseteq> {0, 1}" using y(2) set_take_subset by fast
  obtain t4' where tb: "run_bb (to_bitarr ?k) t4 = Some (take ?k y, t4')"
    using to_bitarr_bits [OF t5(2,3) sub] y(3) c(6) by auto
  have r5: "run_bb (tetra_scramb_bits l) t5 = Some ((), t4)" by (simp add: run_bb_def t5(1))
  let ?z = "take ?k y @ drop ?k (replicate 432 0)"
  have p0: "put 0 (take ?k y) (replicate 432 0) = Some ?z" using y(3) c(6) by (simp add: put_0 min_def)
  obtain w where w: "block_deinterleave ?k (interleave_a p) ?z (replicate 432 0) = Some w" "length w = 432"
    "take ?k w = take ?k type3"
    using y(1) [of ?z] y(3) c(6) by auto
  have wi: "w ! i = of_bool (?code ! kept_pos Rate2_3 i)" if "i < ?k" for i
    using t3(2) [OF that] that w(3) by (metis nth_take)
  have lw: "3 * ?m = pu_t (get_puncturer Rate2_3) * ?m" "3 * ?m \<le> length w"
    "length ?code = pu_period (get_puncturer Rate2_3) * ?m" "length ?code \<le> 1728"
    using c(3,6) w(2) lc by simp_all
  obtain dp where dp: "tetra_rcpc_depunct Rate2_3 w (3 * ?m) (replicate 1728 0xFF) = Some dp" "length dp = 1728"
    "erased ?code (take (length ?code) dp)" "\<And>j. 4 * j < length ?code \<Longrightarrow> dp ! (4 * j) \<noteq> 0xFF"
    using depunct_erased [OF plain_modes(1) keeps_first_modes(1) lw] wi c(3) by metis
  have "dec_sb1 dp (replicate 288 0) (length ?t2) = Some (map of_bool ?t2 @ drop (length ?t2) (replicate 288 0))"
    using dp l2 lc c(4,5) by (intro dec_sb1_erased type2_of_tail) simp_all
  then have ds: "dec_sb1 dp (replicate 288 0) (type2_len p) = Some (map of_bool ?t2 @ replicate (288 - type2_len p) 0)"
    by (simp only: l2 drop_replicate)
  have sl: "slice 0 (type1_bits p) (map of_bool ?t2 @ replicate (288 - type2_len p) (0 :: u8)) = Some (map of_bool msg)"
    using len by (simp add: slice_0 type2_of_def)
  have crc: "crc16_ccitt_bits (map of_bool ?t2 @ replicate (288 - type2_len p) 0) (type1_bits p + 16) = TETRA_CRC_OK"
  proof -
    have "take (type1_bits p + 16) (map of_bool ?t2 @ replicate (288 - type2_len p) 0)
        = (map of_bool (msg @ msb_bits 16 (NOT (crc_run GEN_POLY 0xFFFF msg))) :: u8 list)"
      using len by (simp add: type2_of_def)
    then show ?thesis by (simp only: crc16_ccitt_run bit0_of_bool type2_crc)
  qed
  obtain b where b: "bb_from_bitarr (map of_bool msg) = Some b" "bb_wf b" "bb_start b = 0" "bb_pos b = 0"
    "unread b = map (\<lambda>x. x = 1) (map of_bool msg :: u8 list)"
    by (rule bb_from_bitarr_eq [OF set_of_bools])
  have "decode_cp lchan \<lparr>block_type = bt, phy_block = t5\<rparr> dflt = Some (Some b, True)"
    using ctl gp code r5 tb p0 w(1) dp(1) ds sl crc b(1) c(1) c(3)
    by (simp add: decode_cp_def MAX_TYPE2_BITS_def MAX_TYPE345_BITS_def)
  moreover have "window b = msg" using b(3-5) by (simp add: window_def unread_def o_def)
  ultimately show thesis using that b(2,4) by blast
qed

lemma encode_decode_cp:
  assumes ctl: "is_control_channel lchan" "lchan \<noteq> Aach" "get_params lchan = Some p"
    and wf: "bb_wf blk" "length (window blk) = type1_bits p"
    and code: "(if bt = SB1 then Some SCRAMB_INIT else dflt) = Some l"
  obtains t5 b where "encode_cp \<lparr>mac_block = blk, logical_channel = lchan, scrambling_code = l\<rparr> = Some (Some t5)"
    and "length (unread t5) = type345_bits p"
    and "decode_cp lchan \<lparr>block_type = bt, phy_block = t5\<rparr> dflt = Some (Some b, True)"
    and "bb_wf b" and "window b = window blk" and "bb_pos b = 0"
proof -
  have cp: "cp_params p" using cp_params_channel [OF ctl(1,2)] ctl(3) by (metis option.inject)
  obtain t5 type3 y t4 where e:
    "encode_cp \<lparr>mac_block = blk, logical_channel = lchan, scrambling_code = l\<rparr> = Some (Some t5)"
    "length type3 = 432"
    "\<And>i. i < type345_bits p \<Longrightarrow> type3 ! i = of_bool (conv_encode tetra_polynomials 0 (type2_of (window blk)) ! kept_pos Rate2_3 i)"
    "\<And>z. take (type345_bits p) z = take (type345_bits p) y \<Longrightarrow> length z = 432 \<Longrightarrow>
      \<exists>w. block_deinterleave (type345_bits p) (interleave_a p) z (replicate 432 0) = Some w
        \<and> length w = 432 \<and> take (type345_bits p) w = take (type345_bits p) type3"
    "set y \<subseteq> {0, 1}" "length y = 432" "bb_wf t5" "bb_wf t4" "length (unread t5) = type345_bits p"
    "tetra_scramb_bits l t5 = Ok () t4" "unread t4 = map (\<lambda>x. x = 1) (take (type345_bits p) y)"
    by (rule encode_cp_block [OF ctl cp wf]) (rule that; blast)
  obtain b where "decode_cp lchan \<lparr>block_type = bt, phy_block = t5\<rparr> dflt = Some (Some b, True)"
    "bb_wf b" "window b = window blk" "bb_pos b = 0"
    by (rule decode_cp_block [OF ctl cp wf(2) e(2-6,10,8,11) code])
  then show thesis using that e(1,9) by blast
qed

section \<open>Speech\<close>

lemma bit_xor_closed: "x \<in> {0, 1} \<Longrightarrow> y \<in> {0, 1} \<Longrightarrow> x XOR y \<in> {0, 1 :: u8}"
  by auto

lemma bit_and_1: "x AND 1 \<in> {0, 1 :: u8}"
  by (simp add: and_one_eq mod_2_eq_odd)

lemma list_update_bits: "set xs \<subseteq> {0, 1} \<Longrightarrow> x \<in> {0, 1} \<Longrightarrow> set (xs[i := x]) \<subseteq> {0, 1 :: u8}"
  using set_update_subset_insert [of xs i x] by auto

lemma nth_bits: "set xs \<subseteq> {0, 1} \<Longrightarrow> i < length xs \<Longrightarrow> xs ! i \<in> {0, 1 :: u8}"
  by (meson nth_mem subsetD)

lemma foldl_updates_bits:
  assumes "\<And>i. i \<in> set is \<Longrightarrow> f i \<in> {0, 1 :: u8}" and "set xs \<subseteq> {0, 1}"
  shows "set (foldl (\<lambda>r i. r[g i := f i]) xs is) \<subseteq> {0, 1} \<and> length (foldl (\<lambda>r i. r[g i := f i]) xs is) = length xs"
  using assms by (induction "is" arbitrary: xs) (simp_all add: list_update_bits)

lemma foldl_xor_bits:
  assumes "\<And>i. i \<in> set is \<Longrightarrow> f i \<in> {0, 1 :: u8}" and "p \<in> {0, 1}"
  shows "foldl (\<lambda>p i. p XOR f i) p is \<in> {0, 1}"
  using assms
proof (induction "is" arbitrary: p)
  case (Cons i "is")
  have "p XOR f i \<in> {0, 1}" using Cons.prems by (intro bit_xor_closed) simp_all
  then show ?case using Cons.IH [of "p XOR f i"] Cons.prems(1) by simp
qed simp

lemma speech_reduce_bits:
  assumes "set w \<subseteq> {0, 1}" and "d < length w"
  shows "set (speech_reduce w d) \<subseteq> {0, 1} \<and> length (speech_reduce w d) = length w"
proof -
  have one: "set (v[i := v ! i XOR 1]) \<subseteq> {0, 1}" if "set v \<subseteq> {0, 1}" "i < length v" for v :: "u8 list" and i
    using that by (intro list_update_bits bit_xor_closed nth_bits) simp_all
  define a where "a = w[d := w ! d XOR 1]"
  define b where "b = a[d - 4 := a ! (d - 4) XOR 1]"
  have "set a \<subseteq> {0, 1}" "length a = length w" using one assms by (simp_all add: a_def)
  then have "set b \<subseteq> {0, 1}" "length b = length w" using one [of a "d - 4"] assms(2) by (simp_all add: b_def)
  then have "set (b[d - 7 := b ! (d - 7) XOR 1]) \<subseteq> {0, 1}" "length (b[d - 7 := b ! (d - 7) XOR 1]) = length w"
    using one [of b "d - 7"] assms(2) by simp_all
  moreover have "speech_reduce w d = (if w ! d = 1 then b[d - 7 := b ! (d - 7) XOR 1] else w)"
    unfolding speech_reduce_def Let_def a_def b_def ..
  ultimately show ?thesis using assms(1) by simp
qed

lemma speech_crc_bits:
  assumes "length c2 = 60"
  obtains crc where "speech_crc c2 = Some (map of_bool crc)" and "length crc = 8"
proof -
  define w0 where "w0 = foldl (\<lambda>w k. w[k + 7 := c2 ! k AND 1]) (replicate 67 0) [0..<60]"
  define w where "w = foldl speech_reduce w0 (rev [7..<67])"
  define r where "r = foldl (\<lambda>r i. r[i := w ! i]) (replicate 8 0) [0..<7]"
  define p0 where "p0 = foldl (\<lambda>p b. p XOR (b AND 1)) 0 c2"
  define p where "p = foldl (\<lambda>p i. p XOR r ! i) p0 [0..<7]"
  have w0: "set w0 \<subseteq> {0, 1}" "length w0 = 67"
    using foldl_updates_bits [of "[0..<60]" "\<lambda>k. c2 ! k AND 1" "replicate 67 0" "\<lambda>k. k + 7", OF bit_and_1]
    by (simp_all add: w0_def)
  have "set ds \<subseteq> {..<67} \<Longrightarrow> set v \<subseteq> {0, 1} \<Longrightarrow> length v = 67 \<Longrightarrow>
      set (foldl speech_reduce v ds) \<subseteq> {0, 1} \<and> length (foldl speech_reduce v ds) = 67" for v ds
    by (induction ds arbitrary: v) (simp_all add: speech_reduce_bits)
  from this [of "rev [7..<67]", OF _ w0] have w: "set w \<subseteq> {0, 1}" "length w = 67"
    unfolding w_def by (auto simp del: upt_Suc)
  have wi: "w ! i \<in> {0, 1}" if "i \<in> set [0..<7]" for i using w that by (intro nth_bits) auto
  have r: "set r \<subseteq> {0, 1}" "length r = 8"
    using foldl_updates_bits [of "[0..<7]" "\<lambda>i. w ! i" "replicate 8 0" "\<lambda>i. i", OF wi]
    unfolding r_def by simp_all
  have "p0 \<in> {0, 1}" unfolding p0_def by (rule foldl_xor_bits) (rule bit_and_1, simp)
  moreover have "r ! i \<in> {0, 1}" if "i \<in> set [0..<7]" for i using r that by (intro nth_bits) auto
  ultimately have "p \<in> {0, 1}" unfolding p_def by (intro foldl_xor_bits)
  then have rp: "set (r[7 := p]) \<subseteq> {0, 1}" using r(1) by (intro list_update_bits)
  have "speech_crc c2 = Some (r[7 := p])"
    using assms by (simp add: speech_crc_def Let_def w0_def w_def r_def p0_def p_def)
  then have "speech_crc c2 = Some (map of_bool (map (\<lambda>b. b = 1) (r[7 := p])))"
    using bits_of_bytes [OF rp] by (simp add: o_def)
  then show thesis using that [of "map (\<lambda>b. b = 1) (r[7 := p])"] r(2) by simp
qed

text \<open>One protection class: convolutional code and puncturing.\<close>

definition sent :: "rcpc_punct_mode \<Rightarrow> bool list \<Rightarrow> nat \<Rightarrow> bool list" where
  "sent pu code n = map (\<lambda>i. code ! kept_pos pu i) [0..<n]"

lemma length_sent [simp]: "length (sent pu code n) = n"
  by (simp add: sent_def)

lemma speech_stage:
  assumes "s < 16" and "sdelayed st = enc_regs s" and "plain_mode pu"
    and L: "length bs * 3 = L" "L = pu_period (get_puncturer pu) * m" and N: "N = pu_t (get_puncturer pu) * m"
  defines "code \<equiv> conv_encode codec_polynomials s bs"
  obtains st' where "speech_encode (map of_bool bs) (replicate L 0) st = Some (map of_bool code, st')"
    and "sdelayed st' = enc_regs (end_state s bs)"
    and "get_punctured_rate pu (map of_bool code) (replicate N 0) = Some (map of_bool (sent pu code N))"
proof -
  have lc: "length code = L" using L(1) by (simp add: code_def codec_polynomials_def)
  have "get_punctured_rate pu (map of_bool code) (replicate N 0)
      = Some (map (\<lambda>i. map of_bool code ! kept_pos pu i) [0..<N])"
    using get_punctured_rate_kept [OF assms(3), of "replicate N 0" m "map of_bool code"] lc L(2) N by simp
  moreover have "kept_pos pu i < length code" if "i < N" for i
    using kept_pos_less [OF assms(3), of i m] that lc L(2) N by simp
  ultimately have "get_punctured_rate pu (map of_bool code) (replicate N 0) = Some (map of_bool (sent pu code N))"
    by (simp add: sent_def)
  then show thesis
    using that [of "snd (speech_chunks (map of_bool bs) st)"] speech_chunks_eq [OF assms(1,2), of bs] L(1)
    by (cases "speech_chunks (map of_bool bs) st") (simp add: speech_encode_def code_def)
qed

lemma erased_append:
  assumes "erased c1 r1" and "erased c2 r2"
  shows "erased (c1 @ c2) (r1 @ r2)"
  using assms by (auto simp: erased_def nth_append)

lemma depunct_sent:
  assumes "plain_mode pu" and "keeps_first pu 3" and "N = pu_t (get_puncturer pu) * m"
    and "length code = pu_period (get_puncturer pu) * m"
  obtains out where "tetra_rcpc_depunct pu (map of_bool (sent pu code N)) N (replicate (length code) 0xFF) = Some out"
    and "length out = length code" and "erased code out" and "\<And>c. 3 * c < length code \<Longrightarrow> out ! (3 * c) \<noteq> 0xFF"
proof -
  have i: "map of_bool (sent pu code N) ! i = (of_bool (code ! kept_pos pu i) :: u8)" if "i < N" for i
    using that by (simp add: sent_def)
  have n: "N \<le> length (map of_bool (sent pu code N))" by simp
  obtain out where "tetra_rcpc_depunct pu (map of_bool (sent pu code N)) N (replicate (length code) 0xFF) = Some out"
    "length out = length code" "erased code (take (length code) out)" "\<And>c. 3 * c < length code \<Longrightarrow> out ! (3 * c) \<noteq> 0xFF"
    using depunct_erased [OF assms(1-3) n assms(4) order_refl i] by metis
  then show thesis using that [of out] by simp
qed

text \<open>The type-3 block of a speech frame given by its three classes in channel order.\<close>

definition class2_type2 :: "bool list \<Rightarrow> bool list \<Rightarrow> bool list" where
  "class2_type2 c2 crc = (c2 @ crc) @ [False, False, False, False]"

definition speech_type3 :: "bool list \<Rightarrow> bool list \<Rightarrow> bool list \<Rightarrow> bool list" where
  "speech_type3 c0 c1 t2 =
     c0 @ sent Rate112_168 (conv_encode codec_polynomials 0 c1) 168
        @ sent Rate72_162 (conv_encode codec_polynomials (end_state 0 c1) t2) 162"

lemma split_classes:
  assumes "length ch = 274" and "set ch \<subseteq> {0, 1 :: u8}"
  obtains c0 c1 c2 where "ch = map of_bool c0 @ map of_bool c1 @ map of_bool c2"
    and "length c0 = 102" and "length c1 = 112" and "length c2 = 60"
proof -
  let ?b = "map (\<lambda>x. x = 1) ch"
  have "ch = map of_bool ?b" using bits_of_bytes [OF assms(2)] by (simp add: o_def)
  also have "?b = take 102 ?b @ take 112 (drop 102 ?b) @ drop 112 (drop 102 ?b)"
    by (simp only: append_take_drop_id)
  finally have e: "ch = map of_bool (take 102 ?b @ take 112 (drop 102 ?b) @ drop 112 (drop 102 ?b))" .
  show thesis
    by (rule that [of "take 102 ?b" "take 112 (drop 102 ?b)" "drop 112 (drop 102 ?b)"])
      (use e assms(1) in \<open>simp_all only: map_append, simp_all\<close>)
qed

lemma encode_classes:
  assumes len: "length c0 = 102" "length c1 = 112" "length c2 = 60"
    and crc: "speech_crc (map of_bool c2) = Some (map of_bool crc)" "length crc = 8"
  defines "e1 \<equiv> conv_encode codec_polynomials 0 c1" and "t2 \<equiv> class2_type2 c2 crc"
  defines "e2 \<equiv> conv_encode codec_polynomials (end_state 0 c1) t2"
  obtains st1 st2 where "speech_encode (map of_bool c1) (replicate 336 0) speech_new = Some (map of_bool e1, st1)"
    and "get_punctured_rate Rate112_168 (map of_bool e1) (replicate 168 0) = Some (map of_bool (sent Rate112_168 e1 168))"
    and "speech_encode (map of_bool t2) (replicate 216 0) st1 = Some (map of_bool e2, st2)"
    and "get_punctured_rate Rate72_162 (map of_bool e2) (replicate 162 0) = Some (map of_bool (sent Rate72_162 e2 162))"
    and "length e1 = 336" and "length e2 = 216"
proof -
  have lt: "length t2 = 72" using len crc(2) by (simp add: t2_def class2_type2_def)
  obtain st1 where s1: "speech_encode (map of_bool c1) (replicate 336 0) speech_new = Some (map of_bool e1, st1)"
    "sdelayed st1 = enc_regs (end_state 0 c1)"
    "get_punctured_rate Rate112_168 (map of_bool e1) (replicate 168 0) = Some (map of_bool (sent Rate112_168 e1 168))"
    unfolding e1_def by (rule speech_stage [OF _ conv_new_regs(2) plain_modes(3), of c1 336 56 168]) (simp_all add: len(2))
  obtain st2 where "speech_encode (map of_bool t2) (replicate 216 0) st1 = Some (map of_bool e2, st2)"
    "get_punctured_rate Rate72_162 (map of_bool e2) (replicate 162 0) = Some (map of_bool (sent Rate72_162 e2 162))"
    unfolding e2_def by (rule speech_stage [OF end_state_less s1(2) plain_modes(4), of t2 216 18 162]) (simp_all add: lt)
  then show thesis
    using that [OF s1(1,3)] len(2) lt by (simp add: e1_def e2_def codec_polynomials_def)
qed

lemma decode_classes:
  assumes len: "length c0 = 102" "length c1 = 112" "length c2 = 60" "length crc = 8"
  defines "e1 \<equiv> conv_encode codec_polynomials 0 c1" and "t2 \<equiv> class2_type2 c2 crc"
  defines "e2 \<equiv> conv_encode codec_polynomials (end_state 0 c1) t2"
  obtains m1 m2 where
    "tetra_rcpc_depunct Rate112_168 (map of_bool (sent Rate112_168 e1 168)) 168 (replicate 336 0xFF) = Some m1"
    and "tetra_rcpc_depunct Rate72_162 (map of_bool (sent Rate72_162 e2 162)) 162 (replicate 216 0xFF) = Some m2"
    and "length m1 = 336" and "length m2 = 216"
    and "viterbi_decode (new_with_polynomials codec_polynomials) (map soft_of (m1 @ m2)) = Some (map of_bool (c1 @ t2))"
proof -
  have lt: "length t2 = 72" using len by (simp add: t2_def class2_type2_def)
  have three: "length codec_polynomials = 3" by (simp add: codec_polynomials_def)
  have le: "length e1 = 336" "length e2 = 216" using len(2) lt by (simp_all add: e1_def e2_def three)
  obtain m1 where m1: "tetra_rcpc_depunct Rate112_168 (map of_bool (sent Rate112_168 e1 168)) 168 (replicate 336 0xFF) = Some m1"
    "length m1 = 336" "erased e1 m1" "\<And>c. 3 * c < 336 \<Longrightarrow> m1 ! (3 * c) \<noteq> 0xFF"
    by (rule depunct_sent [OF plain_modes(3) keeps_first_modes(2), of 168 56 e1, unfolded le]) simp_all
  obtain m2 where m2: "tetra_rcpc_depunct Rate72_162 (map of_bool (sent Rate72_162 e2 162)) 162 (replicate 216 0xFF) = Some m2"
    "length m2 = 216" "erased e2 m2" "\<And>c. 3 * c < 216 \<Longrightarrow> m2 ! (3 * c) \<noteq> 0xFF"
    by (rule depunct_sent [OF plain_modes(4) keeps_first_modes(3), of 162 18 e2, unfolded le]) simp_all
  have code: "conv_encode codec_polynomials 0 (c1 @ t2) = e1 @ e2"
    by (simp add: e1_def e2_def conv_encode_append)
  have tail: "end_state 0 (c1 @ t2) = 0"
    unfolding t2_def class2_type2_def append_assoc [symmetric] by (rule end_state_tail) simp
  have "viterbi_decode (new_with_polynomials codec_polynomials) (map soft_of (m1 @ m2)) = Some (map of_bool (c1 @ t2))"
  proof (rule erased_decodes [OF polys_ok_tetra(2) tail])
    show "erased (conv_encode codec_polynomials 0 (c1 @ t2)) (m1 @ m2)"
      unfolding code by (rule erased_append [OF m1(3) m2(3)])
    show "(m1 @ m2) ! (length codec_polynomials * c) \<noteq> 0xFF" if "c < length (c1 @ t2)" for c
      using that m1(2) m1(4) [of c] m2(4) [of "c - 112"] len(2) lt
      by (auto simp: nth_append three diff_mult_distrib2)
  qed (simp add: m1(2) m2(2))
  then show thesis using that m1(1,2) m2(1,2) by blast
qed

lemmas tp_sizes = CLASS0_BITS_def CLASS1_BITS_def CLASS2_BITS_def CLASS2_TYPE2_def CLASS1_TYPE3_def CLASS2_TYPE3_def
  MAX_TYPE1_BITS_def MAX_TYPE345_BITS_def

lemma get_len_seek: "bb_wf blk \<Longrightarrow> run_bb get_len (blk\<lparr>bb_pos := bb_start blk\<rparr>) = Some (length (window blk), blk\<lparr>bb_pos := bb_start blk\<rparr>)"
  using get_len_eq [of "blk\<lparr>bb_pos := bb_start blk\<rparr>"] seek_0_eq [of blk]
  by (simp add: run_bb_def window_def)

lemma encode_tp_block:
  assumes wf: "bb_wf blk" and len: "length (window blk) = 274"
  obtains t5 c0 c1 c2 crc y t4 where
    "encode_tp \<lparr>mac_block = blk, logical_channel = TchS, scrambling_code = l\<rparr> 1 = Some (Some t5)"
    and "codec_to_channel (map of_bool (window blk)) = map of_bool c0 @ map of_bool c1 @ map of_bool c2"
    and "length c0 = 102" and "length c1 = 112" and "length c2 = 60"
    and "speech_crc (map of_bool c2) = Some (map of_bool crc)" and "length crc = 8"
    and "matrix_deinterleave 24 18 y (replicate 432 0) = Some (map of_bool (speech_type3 c0 c1 (class2_type2 c2 crc)))"
    and "length y = 432" and "set y \<subseteq> {0, 1}" and "bb_wf t4" and "bb_pos t4 = bb_start t4" and "unread t4 = map (\<lambda>x. x = 1) y"
    and "tetra_scramb_bits l t5 = Ok () t4" and "bb_wf t5" and "length (unread t5) = 432"
proof -
  obtain blk' where r: "run_bb (seek 0) blk = Some ((), blk\<lparr>bb_pos := bb_start blk\<rparr>)"
    "run_bb (to_bitarr 274) (blk\<lparr>bb_pos := bb_start blk\<rparr>) = Some (map of_bool (window blk), blk')"
    using mac_block_bits [OF wf len] by metis
  note gl = get_len_seek [OF wf, unfolded len]
  have p0: "put 0 (map of_bool (window blk)) (replicate 274 0) = Some (map of_bool (window blk) :: u8 list)"
    using len by (simp add: put_0)
  have s0: "slice 0 274 (map of_bool (window blk)) = Some (map of_bool (window blk) :: u8 list)"
    using len by (simp add: slice_0)
  define ch where "ch = codec_to_channel (map of_bool (window blk))"
  have lch: "length ch = 274" "set ch \<subseteq> {0, 1}"
    using set_codec_to_channel [of "map of_bool (window blk)"] set_of_bools [of "window blk"] len by (auto simp: ch_def)
  obtain c0 c1 c2 where c: "ch = map of_bool c0 @ map of_bool c1 @ map of_bool c2"
    "length c0 = 102" "length c1 = 112" "length c2 = 60"
    using lch by (rule split_classes)
  have p1: "put 0 ch (map of_bool (window blk)) = Some (map of_bool c0 @ map of_bool c1 @ map of_bool c2)"
    using len lch c(1) by (simp add: put_0)
  obtain crc where crc: "speech_crc (map of_bool c2) = Some (map of_bool crc)" "length crc = 8"
    using speech_crc_bits [of "map of_bool c2"] c(4) by (metis length_map)
  define t2 where "t2 = class2_type2 c2 crc"
  define e1 where "e1 = conv_encode codec_polynomials 0 c1"
  define e2 where "e2 = conv_encode codec_polynomials (end_state 0 c1) t2"
  define s1 where "s1 = sent Rate112_168 e1 168"
  define s2 where "s2 = sent Rate72_162 e2 162"
  have ls: "length s1 = 168" "length s2 = 162" by (simp_all add: s1_def s2_def)
  obtain st1 st2 where st: "speech_encode (map of_bool c1) (replicate 336 0) speech_new = Some (map of_bool e1, st1)"
    "get_punctured_rate Rate112_168 (map of_bool e1) (replicate 168 0) = Some (map of_bool s1)"
    "speech_encode (map of_bool t2) (replicate 216 0) st1 = Some (map of_bool e2, st2)"
    "get_punctured_rate Rate72_162 (map of_bool e2) (replicate 162 0) = Some (map of_bool s2)"
    unfolding t2_def e1_def e2_def s1_def s2_def by (rule encode_classes [OF c(2-4) crc])
  let ?cs = "map of_bool c0 @ map of_bool c1 @ map of_bool c2 :: u8 list"
  have sl: "slice 0 102 ?cs = Some (map of_bool c0)" "slice 102 214 ?cs = Some (map of_bool c1)"
    "slice 214 274 ?cs = Some (map of_bool c2)"
    using c(2-4) by (simp_all add: slice_def)
  let ?z = "\<lambda>n. replicate n (0 :: u8)"
  have p2: "put 0 (map of_bool c0) (?z 432) = Some (map of_bool c0 @ ?z 330)"
    "put 102 (map of_bool s1) (map of_bool c0 @ ?z 330) = Some (map of_bool c0 @ map of_bool s1 @ ?z 162)"
    "put 270 (map of_bool s2) (map of_bool c0 @ map of_bool s1 @ ?z 162) = Some (map of_bool c0 @ map of_bool s1 @ map of_bool s2)"
    "put 0 (map of_bool c2) (?z 72) = Some (map of_bool c2 @ ?z 12)"
    using c(2-4) ls by (simp_all add: put_def)
  have "replicate 4 (0 :: u8) = [0, 0, 0, 0]" by (simp add: numeral_eq_Suc)
  then have p3: "put 60 (map of_bool crc) (map of_bool c2 @ ?z 12) = Some (map of_bool t2)"
    using c(4) crc(2) by (simp add: put_def t2_def class2_type2_def)
  define t3 where "t3 = speech_type3 c0 c1 t2"
  have t3: "map of_bool t3 = map of_bool c0 @ map of_bool s1 @ (map of_bool s2 :: u8 list)" "length t3 = 432"
    using c(2) by (simp_all add: t3_def speech_type3_def s1_def s2_def e1_def e2_def)
  obtain y where y: "matrix_interleave 24 18 (map of_bool t3) (?z 432) = Some y"
    "matrix_deinterleave 24 18 y (?z 432) = Some (map of_bool t3)"
    using matrix_roundtrip [of "map of_bool t3" 24 18 "?z 432" "?z 432"] t3(2) by auto
  have yb: "set y \<subseteq> {0, 1}" "length y = 432"
    using matrix_bits [OF _ y(1)] set_of_bools [of t3] t3(2) by auto
  obtain t4 where t4: "bb_from_bitarr y = Some t4" "bb_wf t4" "bb_start t4 = 0" "bb_pos t4 = 0" "unread t4 = map (\<lambda>x. x = 1) y"
    using yb(1) by (rule bb_from_bitarr_eq)
  obtain t5 where t5: "run_bb (tetra_scramb_bits l) t4 = Some ((), t5)" "bb_wf t5" "bb_pos t5 = bb_pos t4" "bb_end t5 = bb_end t4"
    "tetra_scramb_bits l t5 = Ok () t4"
    using scramble_step [OF t4(2)] by metis
  have "encode_tp \<lparr>mac_block = blk, logical_channel = TchS, scrambling_code = l\<rparr> 1 = Some (Some t5)"
    using r gl p0 s0 p1 sl p2 p3 crc(1) st t4(1) t5(1) y(1) yb(2)
    by (simp add: encode_tp_def TCH_S_PARAMS_def tp_sizes ch_def t3(1) slice_0)
  moreover have "length (unread t5) = 432"
  proof -
    have "length (unread t4) = 432" using t4(5) yb(2) by (simp del: length_unread)
    then show ?thesis using t5(3,4) by simp
  qed
  ultimately show thesis
    using that [of t5 c0 c1 c2 crc y t4] c crc y(2) yb t4 t5(2,5) unfolding ch_def t3_def t2_def by simp
qed

lemma decode_tp_block:
  assumes c: "codec_to_channel (map of_bool msg) = map of_bool c0 @ map of_bool c1 @ map of_bool c2" "length msg = 274"
      "length c0 = 102" "length c1 = 112" "length c2 = 60"
    and crc: "speech_crc (map of_bool c2) = Some (map of_bool crc)" "length crc = 8"
    and y: "matrix_deinterleave 24 18 y (replicate 432 0) = Some (map of_bool (speech_type3 c0 c1 (class2_type2 c2 crc)))"
      "length y = 432" "set y \<subseteq> {0, 1}"
    and t4: "bb_wf t4" "bb_pos t4 = bb_start t4" "unread t4 = map (\<lambda>x. x = 1) y" "tetra_scramb_bits l t5 = Ok () t4"
  obtains b where "decode_tp TchS t5 l = Some (Some b, True)" and "bb_wf b" and "window b = msg" and "bb_pos b = 0"
proof -
  define t2 where "t2 = class2_type2 c2 crc"
  define e1 where "e1 = conv_encode codec_polynomials 0 c1"
  define e2 where "e2 = conv_encode codec_polynomials (end_state 0 c1) t2"
  define s1 where "s1 = sent Rate112_168 e1 168"
  define s2 where "s2 = sent Rate72_162 e2 162"
  have ls: "length s1 = 168" "length s2 = 162" by (simp_all add: s1_def s2_def)
  obtain m1 m2 where m: "tetra_rcpc_depunct Rate112_168 (map of_bool s1) 168 (replicate 336 0xFF) = Some m1"
    "tetra_rcpc_depunct Rate72_162 (map of_bool s2) 162 (replicate 216 0xFF) = Some m2"
    "length m1 = 336" "length m2 = 216"
    "viterbi_decode (new_with_polynomials codec_polynomials) (map soft_of (m1 @ m2)) = Some (map of_bool (c1 @ t2))"
    unfolding t2_def e1_def e2_def s1_def s2_def by (rule decode_classes [OF c(3-5) crc(2)])
  let ?t3 = "map of_bool c0 @ map of_bool s1 @ map of_bool s2 :: u8 list"
  have t3: "matrix_deinterleave 24 18 y (replicate 432 0) = Some ?t3"
    using y(1) by (simp add: speech_type3_def s1_def s2_def e1_def e2_def t2_def)
  have sl: "slice 0 102 ?t3 = Some (map of_bool c0)" "slice 102 270 ?t3 = Some (map of_bool s1)"
    "slice 270 432 ?t3 = Some (map of_bool s2)"
    using c(3) ls by (simp_all add: slice_def)
  let ?d = "map of_bool (c1 @ t2) :: u8 list"
  have ld: "length ?d = 184" using c(4,5) crc(2) by (simp add: t2_def class2_type2_def)
  have sd: "slice 0 112 ?d = Some (map of_bool c1)" "slice 112 184 ?d = Some (map of_bool t2)"
    "slice 0 60 (map of_bool t2) = Some (map of_bool c2 :: u8 list)" "slice 60 68 (map of_bool t2) = Some (map of_bool crc :: u8 list)"
    using c(4,5) crc(2) by (simp_all add: slice_def t2_def class2_type2_def)
  have pc: "put 0 m1 (replicate 552 0xFF) = Some (m1 @ replicate 216 0xFF)"
    "put 336 m2 (m1 @ replicate 216 0xFF) = Some (m1 @ m2)"
    using m(3,4) by (simp_all add: put_def)
  let ?z = "\<lambda>n. replicate n (0 :: u8)"
  have pt: "put 0 (map of_bool c0) (?z 274) = Some (map of_bool c0 @ ?z 172)"
    "put 102 (map of_bool c1) (map of_bool c0 @ ?z 172) = Some (map of_bool c0 @ map of_bool c1 @ ?z 60)"
    "put 214 (map of_bool c2) (map of_bool c0 @ map of_bool c1 @ ?z 60) = Some (map of_bool c0 @ map of_bool c1 @ map of_bool c2)"
    using c(3-5) by (simp_all add: put_def)
  let ?ch = "map of_bool c0 @ map of_bool c1 @ map of_bool c2 :: u8 list"
  have sch: "slice 0 274 ?ch = Some ?ch" using c(3-5) by (simp add: slice_def)
  have codec: "channel_to_codec ?ch = map of_bool msg"
    using codec_channel_codec [of "map of_bool msg"] c(1,2) by simp
  have same: "t4\<lparr>bb_pos := bb_start t4\<rparr> = t4" using t4(2) by simp
  obtain t4' where tb: "run_bb (to_bitarr 432) t4 = Some (y, t4')"
    using to_bitarr_bits [OF t4(1,3) y(3,2)] .
  have r: "run_bb (tetra_scramb_bits l) t5 = Some ((), t4)" "run_bb (seek 0) t4 = Some ((), t4)"
    using t4(4) seek_0_eq [OF t4(1)] by (simp_all add: run_bb_def same)
  have py: "put 0 y (?z 432) = Some y" using y(2) by (simp add: put_0)
  obtain b where b: "bb_from_bitarr (map of_bool msg) = Some b" "bb_wf b" "bb_start b = 0" "bb_pos b = 0"
    "unread b = map (\<lambda>x. x = 1) (map of_bool msg :: u8 list)"
    by (rule bb_from_bitarr_eq [OF set_of_bools])
  have "decode_tp TchS t5 l = Some (Some b, True)"
    using r tb py t3 sl m(1,2,5) pc sd pt sch codec crc(1) b(1) ld
    by (simp add: decode_tp_def TCH_S_PARAMS_def tp_sizes del: map_append)
  moreover have "window b = msg" using b(3-5) by (simp add: window_def unread_def o_def)
  ultimately show thesis using that b(2,4) by blast
qed

lemma encode_decode_tp:
  assumes "bb_wf blk" and "length (window blk) = 274"
  obtains t5 b where "encode_tp \<lparr>mac_block = blk, logical_channel = TchS, scrambling_code = l\<rparr> 1 = Some (Some t5)"
    and "length (unread t5) = 432" and "decode_tp TchS t5 l = Some (Some b, True)"
    and "bb_wf b" and "window b = window blk" and "bb_pos b = 0"
  by (rule encode_tp_block [OF assms, of l]) (metis decode_tp_block assms(2) that)

section \<open>Access assignment channel\<close>

lemma ucast_of_bits: "LENGTH('b) \<le> LENGTH('a) \<Longrightarrow> (ucast (of_bits bs :: 'a::len word) :: 'b::len word) = of_bits bs"
  by (rule bit_word_eqI) (simp add: bit_ucast_iff bit_of_bits)

lemma compute_30_bits: "bit (tetra_rm3014_compute x) n \<Longrightarrow> n < 30"
proof -
  have rows: "\<forall>r \<in> {..<14}. drop_bit 30 (RM_30_14_ROWS_PRECOMPUTED ! r) = 0"
    by (simp add: lessThan_nat_numeral lessThan_Suc RM_30_14_ROWS_PRECOMPUTED_def)
  have "drop_bit 30 (tetra_rm3014_compute x) = 0"
    by (rule compute_induct) (use rows in \<open>simp_all add: drop_bit_xor\<close>)
  then have "\<not> bit (drop_bit 30 (tetra_rm3014_compute x)) (n - 30)" by simp
  then show "bit (tetra_rm3014_compute x) n \<Longrightarrow> n < 30" by (cases "n < 30") (simp_all add: bit_drop_bit_eq)
qed

text \<open>A 30-bit block read back as an integer, with one bit inverted or none.\<close>

lemma of_bits_codeword:
  assumes "\<And>n. bit w n \<Longrightarrow> n < 30"
  shows "of_bits (msb_bits 30 w) = (w :: u32)"
    and "k < 30 \<Longrightarrow> of_bits ((msb_bits 30 w)[k := \<not> msb_bits 30 w ! k]) = w XOR push_bit (29 - k) 1"
proof -
  show "of_bits (msb_bits 30 w) = w"
  proof (rule bit_word_eqI)
    fix n
    show "bit (of_bits (msb_bits 30 w) :: u32) n = bit w n"
      using assms [of n] by (cases "n < 30") (auto simp: bit_of_bits nth_msb_bits)
  qed
  assume k: "k < 30"
  show "of_bits ((msb_bits 30 w)[k := \<not> msb_bits 30 w ! k]) = w XOR push_bit (29 - k) 1"
  proof (rule bit_word_eqI)
    fix n assume "n < LENGTH(32)"
    then have n: "n < 32" by simp
    have "bit (push_bit (29 - k) 1 :: u32) n \<longleftrightarrow> n = 29 - k" using k n by (auto simp: bit_exp_iff)
    then show "bit (of_bits ((msb_bits 30 w)[k := \<not> msb_bits 30 w ! k]) :: u32) n = bit (w XOR push_bit (29 - k) 1) n"
      using assms [of n] k n
      by (cases "n < 30") (auto simp: bit_of_bits bit_xor_iff nth_list_update nth_msb_bits)
  qed
qed

lemma decode_aach_eq:
  assumes wf: "bb_wf rx" and len: "length (unread rx) = 30"
    and y_def: "tetra_rm3014_decode_limited_ecc (of_bits (map2 (\<noteq>) (unread rx) (keystream 30 l))) = y" and y: "unat y < 2 ^ 14"
  obtains b where "decode_aach rx l = Some b" and "bb_wf b" and "window b = msb_bits 14 y" and "bb_pos b = bb_start b"
proof -
  have g: "run_bb get_len_remaining rx = Some (30, rx)"
    using get_len_remaining_eq [OF wf] len by (simp add: run_bb_def del: length_unread)
  obtain t2 where s: "run_bb (tetra_scramb_bits l) rx = Some ((), t2)" "bb_wf t2" "bb_end t2 = bb_end rx" "bb_pos t2 = bb_pos rx"
    "unread t2 = map2 (\<noteq>) (unread rx) (keystream 30 l)"
    using scramble_step [OF wf] len by metis
  have u: "length (unread t2) = 30" using s(3,4) len by simp
  have r: "run_bb (read_bits 30) t2 = Some (Some (of_bits (unread t2)), bb_adv 30 t2)"
    using read_bits_eq [OF s(2), of 30] u by (simp add: run_bb_def del: length_unread)
  let ?b = "bb_adv 30 t2"
  let ?c = "?b\<lparr>bb_start := 0, bb_pos := 0, bb_end := 14\<rparr>"
  have e: "bb_pos t2 + 30 = bb_end t2" "bb_end t2 \<le> 8 * length (bb_buffer t2)" using u s(2) by (auto simp: bb_wf_def)
  have raw: "run_bb (set_raw_start 0) ?b = Some ((), ?b\<lparr>bb_start := 0\<rparr>)"
    "run_bb (set_raw_pos 0) (?b\<lparr>bb_start := 0\<rparr>) = Some ((), ?b\<lparr>bb_start := 0, bb_pos := 0\<rparr>)"
    "run_bb (set_raw_end 14) (?b\<lparr>bb_start := 0, bb_pos := 0\<rparr>) = Some ((), ?c)"
    using e by (simp_all add: run_bb_def set_raw_start_def set_raw_pos_def set_raw_end_def)
  have cw: "can_write 14 ?c" using e by (simp add: can_write_def bb_wf_def)
  have "unat (ucast y :: u64) < 2 ^ 14" using y by simp
  then obtain d where d: "write_bits (ucast y) 14 ?c = Ok () d" "wrote ?c (msb_bits 14 (ucast y :: u64)) d"
    using write_bits_wrote [OF cw, of "ucast y"] by auto
  have d': "bb_wf d" "bb_start d = 0" "bb_pos d = 14" "bb_end d = 14" using d(2) by (auto simp: wrote_def)
  have sk: "run_bb (seek 0) d = Some ((), d\<lparr>bb_pos := bb_start d\<rparr>)" using seek_0_eq [OF d'(1)] by (simp add: run_bb_def)
  have y': "tetra_rm3014_decode_limited_ecc (ucast (of_bits (unread t2) :: u64)) = y"
    unfolding s(5) y_def [symmetric] by (simp add: ucast_of_bits)
  have "msb_bits 14 (ucast y :: u64) = msb_bits 14 y" by (rule msb_bits_ucast) simp_all
  then have "window (d\<lparr>bb_pos := bb_start d\<rparr>) = msb_bits 14 y"
    using wrote_unread_from [OF d(2)] d' seek_0_eq [OF d'(1)] by (simp add: window_def)
  moreover have "decode_aach rx l = Some (d\<lparr>bb_pos := bb_start d\<rparr>)"
    using g s(1) r raw sk d(1) by (simp add: decode_aach_def y' run_bb_def [of "write_bits _ _"])
  moreover have "bb_wf (d\<lparr>bb_pos := bb_start d\<rparr>)" using seek_0_eq [OF d'(1)] by blast
  ultimately show thesis using that by simp
qed

lemma encode_aach_eq:
  assumes wf: "bb_wf buf" and len: "length (unread buf) = 14"
  obtains t5 where "encode_aach buf l = Some t5" and "bb_wf t5"
    and "unread t5 = map2 (\<noteq>) (msb_bits 30 (tetra_rm3014_compute (of_bits (unread buf)))) (keystream 30 l)"
proof -
  let ?x = "of_bits (unread buf) :: u16" and ?n = "bb_new 30"
  let ?c = "tetra_rm3014_compute ?x"
  have g: "run_bb get_len_remaining buf = Some (14, buf)"
    using get_len_remaining_eq [OF wf] len by (simp add: run_bb_def del: length_unread)
  have r: "run_bb (read_bits 14) buf = Some (Some (of_bits (unread buf)), bb_adv 14 buf)"
    using read_bits_eq [OF wf, of 14] len by (simp add: run_bb_def del: length_unread)
  have x: "tetra_rm3014_compute (ucast (of_bits (unread buf) :: u64)) = ?c" by (simp add: ucast_of_bits)
  have "unat ?c < 2 ^ 30"
    using of_bits_less [of "msb_bits 30 ?c", where 'a = 32] of_bits_codeword(1) [of ?c] compute_30_bits by simp
  then have "unat (ucast ?c :: u64) < 2 ^ 30" by simp
  then obtain d where d: "write_bits (ucast ?c) 30 ?n = Ok () d" "wrote ?n (msb_bits 30 (ucast ?c :: u64)) d"
    using write_bits_wrote [OF can_write_new(1), of 30 30 "ucast ?c"] by auto
  have n: "bb_start ?n = 0" "bb_pos ?n = 0" "bb_end ?n = 30" by (simp_all add: bb_new_def)
  have d': "bb_wf d" "bb_start d = 0" "bb_end d = 30" using d(2) n by (auto simp: wrote_def)
  let ?d = "d\<lparr>bb_pos := bb_start d\<rparr>"
  have sk: "run_bb (seek 0) d = Some ((), ?d)" "bb_wf ?d" using seek_0_eq [OF d'(1)] by (simp_all add: run_bb_def)
  have "msb_bits 30 (ucast ?c :: u64) = msb_bits 30 ?c" by (rule msb_bits_ucast) simp_all
  then have u: "unread ?d = msb_bits 30 ?c" using wrote_unread_from [OF d(2)] n d' by simp
  then have lu: "length (unread ?d) = 30" by (simp del: length_unread)
  obtain t5 where t5: "run_bb (tetra_scramb_bits l) ?d = Some ((), t5)" "bb_wf t5"
    "unread t5 = map2 (\<noteq>) (unread ?d) (keystream 30 l)"
    using scramble_step [OF sk(2)] lu by metis
  have "encode_aach buf l = Some t5"
    using g r sk(1) t5(1) d(1) by (simp add: encode_aach_def x run_bb_def [of "write_bits _ _"])
  then show thesis using that t5(2,3) u by simp
qed

lemma map2_xor_twice: "length ks = length xs \<Longrightarrow> map2 (\<noteq>) (map2 (\<noteq>) xs ks) ks = (xs :: bool list)"
  by (induction xs ks rule: list_induct2') auto

lemma map2_xor_flip:
  assumes "length ks = length xs" and "k < length xs"
  shows "map2 (\<noteq>) ((map2 (\<noteq>) xs ks)[k := \<not> map2 (\<noteq>) xs ks ! k]) ks = xs[k := \<not> xs ! k]"
  using assms by (intro nth_equalityI) (auto simp: nth_list_update)

lemma aach_single_error:
  assumes wf: "bb_wf buf" "length (unread buf) = 14"
  obtains t5 where "encode_aach buf l = Some t5" and "bb_wf t5" and "length (unread t5) = 30"
    and "\<And>rx. bb_wf rx \<Longrightarrow> unread rx = unread t5 \<or> (\<exists>k < 30. unread rx = (unread t5)[k := \<not> unread t5 ! k]) \<Longrightarrow>
      \<exists>b. decode_aach rx l = Some b \<and> bb_wf b \<and> window b = unread buf \<and> bb_pos b = bb_start b"
proof -
  define x where "x = (of_bits (unread buf) :: u16)"
  let ?c = "msb_bits 30 (tetra_rm3014_compute x)" and ?ks = "keystream 30 l"
  have x: "unat x < 2 ^ 14" "msb_bits 14 x = unread buf"
    using of_bits_less [of "unread buf", where 'a = 16] msb_bits_of_bits [of "unread buf", where 'a = 16] wf(2)
    by (simp_all add: x_def del: length_unread)
  obtain t5 where t5: "encode_aach buf l = Some t5" "bb_wf t5" "unread t5 = map2 (\<noteq>) ?c ?ks"
    unfolding x_def by (rule encode_aach_eq [OF wf])
  have len: "length (unread t5) = 30" by (simp add: t5(3) del: length_unread)
  have w: "of_bits ?c = tetra_rm3014_compute x"
    "\<And>k. k < 30 \<Longrightarrow> of_bits (?c[k := \<not> ?c ! k]) = tetra_rm3014_compute x XOR push_bit (29 - k) 1"
    using of_bits_codeword [of "tetra_rm3014_compute x"] compute_30_bits by simp_all
  have "\<exists>b. decode_aach rx l = Some b \<and> bb_wf b \<and> window b = unread buf \<and> bb_pos b = bb_start b"
    if rx: "bb_wf rx" "unread rx = unread t5 \<or> (\<exists>k < 30. unread rx = (unread t5)[k := \<not> unread t5 ! k])" for rx
  proof -
    have l: "length (unread rx) = 30" using rx(2) len by (auto simp del: length_unread)
    have "tetra_rm3014_decode_limited_ecc (of_bits (map2 (\<noteq>) (unread rx) ?ks)) = x"
      using rx(2)
    proof (elim disjE exE conjE)
      assume "unread rx = unread t5"
      then show ?thesis using map2_xor_twice [of ?ks ?c] w(1) decodes_codeword [OF x(1)] by (simp add: t5(3) del: map2_map_map)
    next
      fix k assume k: "k < 30" "unread rx = (unread t5)[k := \<not> unread t5 ! k]"
      have "map2 (\<noteq>) (unread rx) ?ks = ?c[k := \<not> ?c ! k]"
        unfolding k(2) t5(3) using k(1) by (intro map2_xor_flip) simp_all
      then show ?thesis using w(2) [OF k(1)] corrects_single_error [OF x(1) k(1)] by metis
    qed
    then show ?thesis using decode_aach_eq [OF rx(1) l _ x(1)] x(2) by metis
  qed
  then show thesis using that t5(1,2) len by blast
qed

section \<open>Blocks that are dropped\<close>

lemma encode_cp_dropped:
  assumes "bb_wf blk" and "\<not> is_control_channel lchan \<or> lchan = Aach \<or> get_params lchan = Some p \<and> length (window blk) \<noteq> type1_bits p"
  shows "encode_cp \<lparr>mac_block = blk, logical_channel = lchan, scrambling_code = l\<rparr> = Some None"
  using assms get_len_eq [OF assms(1)] by (auto simp: encode_cp_def run_bb_def window_def)

section \<open>Properties\<close>

text \<open>C4: every control channel block survives the channel coding. For each of the control channels the
  encoder turns a block of the channel's type-1 length into type-5 bits of the channel's length, and
  the decoder, given the scrambling code that was used, returns exactly the block with a good CRC.\<close>

theorem control_channel_roundtrip:
  assumes "is_control_channel lchan" and "lchan \<noteq> Aach" and "get_params lchan = Some p"
    and "bb_wf blk" and "length (window blk) = type1_bits p"
    and "(if bt = SB1 then Some SCRAMB_INIT else dflt) = Some code"
  shows "\<exists>t5 b. encode_cp \<lparr>mac_block = blk, logical_channel = lchan, scrambling_code = code\<rparr> = Some (Some t5)
    \<and> length (unread t5) = type345_bits p
    \<and> decode_cp lchan \<lparr>block_type = bt, phy_block = t5\<rparr> dflt = Some (Some b, True)
    \<and> bb_wf b \<and> window b = window blk \<and> bb_pos b = 0"
  using encode_decode_cp [OF assms] by metis

theorem control_channel_roundtrip_witness:
  "\<exists>t5 b. encode_cp \<lparr>mac_block = bb_new 60, logical_channel = Bsch, scrambling_code = SCRAMB_INIT\<rparr> = Some (Some t5)
    \<and> decode_cp Bsch \<lparr>block_type = SB1, phy_block = t5\<rparr> None = Some (Some b, True)
    \<and> window b = window (bb_new 60)"
  using control_channel_roundtrip [of Bsch BSCH_PARAMS "bb_new 60" SB1 None SCRAMB_INIT]
  by (auto simp: BSCH_PARAMS_def)

text \<open>C5: a speech frame survives the unequal error protection of the traffic channel. The encoder turns
  a 274-bit frame into a full slot of 432 bits, and the decoder returns exactly the frame with a
  good speech CRC.\<close>

theorem speech_roundtrip:
  assumes "bb_wf blk" and "length (window blk) = 274"
  shows "\<exists>t5 b. encode_tp \<lparr>mac_block = blk, logical_channel = TchS, scrambling_code = code\<rparr> 1 = Some (Some t5)
    \<and> length (unread t5) = 432 \<and> decode_tp TchS t5 code = Some (Some b, True)
    \<and> bb_wf b \<and> window b = window blk \<and> bb_pos b = 0"
  using encode_decode_tp [OF assms] by metis

theorem speech_roundtrip_witness:
  "\<exists>t5 b. encode_tp \<lparr>mac_block = bb_new 274, logical_channel = TchS, scrambling_code = 3\<rparr> 1 = Some (Some t5)
    \<and> decode_tp TchS t5 3 = Some (Some b, True) \<and> window b = window (bb_new 274)"
  using speech_roundtrip [of "bb_new 274" 3] by auto

text \<open>C6: the access assignment channel corrects one bit error: whatever 30-bit block differs from the
  transmitted one in at most one position, the decoder returns the 14 bits that were sent.\<close>

theorem aach_corrects_single_error:
  assumes "bb_wf buf" and "length (unread buf) = 14"
  shows "\<exists>t5. encode_aach buf code = Some t5 \<and> length (unread t5) = 30
    \<and> (\<forall>rx. bb_wf rx \<longrightarrow> unread rx = unread t5 \<or> (\<exists>k < 30. unread rx = (unread t5)[k := \<not> unread t5 ! k]) \<longrightarrow>
         (\<exists>b. decode_aach rx code = Some b \<and> bb_wf b \<and> window b = unread buf))"
  using aach_single_error [OF assms, of code] by metis

theorem aach_corrects_single_error_witness:
  "\<exists>t5 b. encode_aach (bb_new 14) 3 = Some t5 \<and> decode_aach t5 3 = Some b \<and> window b = unread (bb_new 14)"
proof -
  have "length (unread (bb_new 14)) = 14" by (simp add: bb_new_def)
  then obtain t5 where t5: "encode_aach (bb_new 14) 3 = Some t5"
    "\<forall>rx. bb_wf rx \<longrightarrow> unread rx = unread t5 \<or> (\<exists>k < 30. unread rx = (unread t5)[k := \<not> unread t5 ! k]) \<longrightarrow>
      (\<exists>b. decode_aach rx 3 = Some b \<and> bb_wf b \<and> window b = unread (bb_new 14))"
    using aach_corrects_single_error [of "bb_new 14" 3] by auto
  moreover have "bb_wf t5"
    using encode_aach_eq [of "bb_new 14" 3] t5(1) by (metis \<open>length (unread (bb_new 14)) = 14\<close> bb_wf_new(1) option.inject)
  ultimately show ?thesis by blast
qed

text \<open>The encoder drops, without a panic, every block it must not code: a block for a channel that is
  not a control channel, for the access assignment channel, or of another length than the channel's.\<close>

theorem encode_cp_drops:
  assumes "bb_wf blk"
    and "\<not> is_control_channel lchan \<or> lchan = Aach \<or> get_params lchan = Some p \<and> length (window blk) \<noteq> type1_bits p"
  shows "encode_cp \<lparr>mac_block = blk, logical_channel = lchan, scrambling_code = code\<rparr> = Some None"
  using assms by (rule encode_cp_dropped)

theorem encode_cp_drops_witness:
  "encode_cp \<lparr>mac_block = bb_new 61, logical_channel = Bsch, scrambling_code = 3\<rparr> = Some None"
  using encode_cp_drops [of "bb_new 61" Bsch BSCH_PARAMS 3] by (simp add: BSCH_PARAMS_def)

end
