(* ===== verification/Tdma_Time.thy ===== *)
theory Tdma_Time
  imports Nexus_Prelude
begin

unbundle bit_operations_syntax

text \<open>
  The TDMA clock of \<^verbatim>\<open>crates/tetra-core/src/tdma_time.rs\<close>: timeslot, frame, multiframe and
  hyperframe counters and their linear form in timeslots.  The \<open>i32\<close> values are integers; an
  \<open>i32\<close> addition or subtraction that leaves the range is \<open>None\<close>.  The \<open>u8\<close> sums of the slot
  predicates are word arithmetic.  The lemmas show that the linear form and the counters
  determine each other modulo the wrap of the hyperframe counter, that adding timeslots and
  taking differences are inverse to each other across the wrap, and where the mandatory
  broadcast blocks fall.
\<close>

section \<open>The model\<close>

record tdma_time =
  tt_t :: u8
  tt_f :: u8
  tt_m :: u8
  tt_h :: u16

definition tdma_default :: tdma_time where
  "tdma_default = \<lparr>tt_t = 1, tt_f = 1, tt_m = 1, tt_h = 0\<rparr>"

definition TIME_INT_WRAP :: int where
  "TIME_INT_WRAP = 4 * 18 * 60 * 65536"

definition i32_range :: "int \<Rightarrow> int option" where
  "i32_range x = (if - 2147483648 \<le> x \<and> x \<le> 2147483647 then Some x else None)"

text \<open>The two loops of \<open>time_int_diff\<close>.\<close>

function raise_diff :: "int \<Rightarrow> int" where
  "raise_diff diff =
     (if diff < - TIME_INT_WRAP div 2 then raise_diff (diff + TIME_INT_WRAP) else diff)"
  by pat_completeness auto
termination
  by (relation "measure (\<lambda>d. nat (- d))") (auto simp: TIME_INT_WRAP_def)

function lower_diff :: "int \<Rightarrow> int" where
  "lower_diff diff =
     (if diff \<ge> TIME_INT_WRAP div 2 then lower_diff (diff - TIME_INT_WRAP) else diff)"
  by pat_completeness auto
termination
  by (relation "measure (\<lambda>d. nat d)") (auto simp: TIME_INT_WRAP_def)

declare raise_diff.simps [simp del] lower_diff.simps [simp del]

definition time_int_diff :: "int \<Rightarrow> int \<Rightarrow> int option" where
  "time_int_diff a b = map_option (\<lambda>diff. lower_diff (raise_diff diff)) (i32_range (a - b))"

definition is_valid :: "tdma_time \<Rightarrow> bool" where
  "is_valid s \<longleftrightarrow> tt_t s \<ge> 1 \<and> tt_t s \<le> 4 \<and> tt_f s \<ge> 1 \<and> tt_f s \<le> 18 \<and> tt_m s \<ge> 1 \<and> tt_m s \<le> 60"

definition to_int :: "tdma_time \<Rightarrow> int" where
  "to_int s = (uint (tt_t s) - 1) + ((uint (tt_f s) - 1) * 4) + ((uint (tt_m s) - 1) * 4 * 18)
     + (uint (tt_h s) * 4 * 18 * 60)"

definition from_int :: "int \<Rightarrow> tdma_time" where
  "from_int time =
     \<lparr>tt_t = of_int (time mod 4 + 1), tt_f = of_int (time div 4 mod 18 + 1),
      tt_m = of_int (time div (4 * 18) mod 60 + 1), tt_h = of_int (time div (4 * 18 * 60))\<rparr>"

definition add_timeslots :: "tdma_time \<Rightarrow> int \<Rightarrow> tdma_time option" where
  "add_timeslots s num_slots = map_option from_int (i32_range (to_int s + num_slots))"

definition diff :: "tdma_time \<Rightarrow> tdma_time \<Rightarrow> int option" where
  "diff s b = time_int_diff (to_int s) (to_int b)"

definition age :: "tdma_time \<Rightarrow> tdma_time \<Rightarrow> int option" where
  "age s now = diff now s"

definition forward_to_timeslot :: "tdma_time \<Rightarrow> u8 \<Rightarrow> tdma_time option" where
  "forward_to_timeslot s ts = add_timeslots s (uint ((ts + 4 - tt_t s) mod 4))"

definition is_mandatory_bsch :: "tdma_time \<Rightarrow> bool" where
  "is_mandatory_bsch s \<longleftrightarrow> tt_f s = 18 \<and> tt_t s = 4 - ((tt_m s + 1) mod 4)"

definition is_mandatory_bnch :: "tdma_time \<Rightarrow> bool" where
  "is_mandatory_bnch s \<longleftrightarrow> tt_f s = 18 \<and> tt_t s = 4 - ((tt_m s + 3) mod 4)"

definition is_mandatory_clch :: "tdma_time \<Rightarrow> bool" where
  "is_mandatory_clch s \<longleftrightarrow> tt_f s = 18 \<and> tt_t s = 4 - ((tt_m s + 1) mod 4)"

section \<open>Counters and the linear form\<close>

lemma uint_of_int_small: "0 \<le> x \<Longrightarrow> x < 2 ^ LENGTH('a) \<Longrightarrow> uint (of_int x :: 'a::len word) = x"
  by (simp add: unsigned_of_int take_bit_int_eq_self_iff)

lemma uint_from_int:
  "uint (tt_t (from_int n)) = n mod 4 + 1" "uint (tt_f (from_int n)) = n div 4 mod 18 + 1"
  "uint (tt_m (from_int n)) = n div 72 mod 60 + 1" "uint (tt_h (from_int n)) = n div 4320 mod 65536"
proof -
  have b: "0 \<le> n mod 4" "n mod 4 < 4" "0 \<le> n div 4 mod 18" "n div 4 mod 18 < 18"
    "0 \<le> n div 72 mod 60" "n div 72 mod 60 < 60" by simp_all
  show "uint (tt_t (from_int n)) = n mod 4 + 1" "uint (tt_f (from_int n)) = n div 4 mod 18 + 1"
    "uint (tt_m (from_int n)) = n div 72 mod 60 + 1"
    using b by (simp_all add: from_int_def uint_of_int_small del: of_int_add)
  show "uint (tt_h (from_int n)) = n div 4320 mod 65536"
    by (simp add: from_int_def unsigned_of_int take_bit_eq_mod)
qed

lemma valid_uint:
  "is_valid s \<longleftrightarrow> 1 \<le> uint (tt_t s) \<and> uint (tt_t s) \<le> 4 \<and> 1 \<le> uint (tt_f s) \<and> uint (tt_f s) \<le> 18
     \<and> 1 \<le> uint (tt_m s) \<and> uint (tt_m s) \<le> 60"
  by (simp add: is_valid_def word_le_def)

lemma from_int_valid: "is_valid (from_int n)"
  unfolding valid_uint uint_from_int by (simp add: less_imp_le zless_imp_add1_zle)

lemma to_int_from_int: "to_int (from_int n) = n mod TIME_INT_WRAP"
proof -
  have 1: "n mod 283115520 = 4 * (n div 4 mod 70778880) + n mod 4"
    using zmod_zmult2_eq [of 70778880 n 4] by simp
  have 2: "n div 4 mod 70778880 = 18 * (n div 72 mod 3932160) + n div 4 mod 18"
    using zmod_zmult2_eq [of 3932160 "n div 4" 18] zdiv_zmult2_eq [of 18 n 4] by simp
  have 3: "n div 72 mod 3932160 = 60 * (n div 4320 mod 65536) + n div 72 mod 60"
    using zmod_zmult2_eq [of 65536 "n div 72" 60] zdiv_zmult2_eq [of 60 n 72] by simp
  have W: "TIME_INT_WRAP = 283115520" by (simp add: TIME_INT_WRAP_def)
  show ?thesis by (simp only: W to_int_def uint_from_int 1 2 3) (simp add: algebra_simps)
qed

lemma to_int_range:
  assumes "is_valid s"
  shows "0 \<le> to_int s \<and> to_int s < TIME_INT_WRAP"
proof -
  have "uint (tt_h s) < 2 ^ LENGTH(16)" by (rule unsigned_less)
  then show ?thesis using assms by (auto simp: to_int_def valid_uint TIME_INT_WRAP_def)
qed

lemma mixed_radix: "0 \<le> r \<Longrightarrow> r < c \<Longrightarrow> (r + c * q) mod c = (r :: int)"
  "0 \<le> r \<Longrightarrow> r < c \<Longrightarrow> (r + c * q) div c = (q :: int)"
  by simp_all

lemma from_int_to_int:
  assumes "is_valid s"
  shows "from_int (to_int s) = s"
proof -
  let ?t = "uint (tt_t s) - 1" and ?f = "uint (tt_f s) - 1" and ?m = "uint (tt_m s) - 1" and ?h = "uint (tt_h s)"
  have r: "0 \<le> ?t" "?t < 4" "0 \<le> ?f" "?f < 18" "0 \<le> ?m" "?m < 60" using assms by (auto simp: valid_uint)
  have n: "to_int s = ?t + 4 * (?f + 18 * (?m + 60 * ?h))" by (simp add: to_int_def)
  have "to_int s mod 4 = ?t" "to_int s div 4 = ?f + 18 * (?m + 60 * ?h)"
    unfolding n using r by (auto simp only: mixed_radix)
  moreover have "to_int s div (4 * 18) = to_int s div 4 div 18" "to_int s div (4 * 18 * 60) = to_int s div (4 * 18) div 60"
    by (rule zdiv_zmult2_eq, simp)+
  ultimately have "to_int s mod 4 = ?t" "to_int s div 4 mod 18 = ?f" "to_int s div (4 * 18) mod 60 = ?m"
    "to_int s div (4 * 18 * 60) = ?h"
    using r by (auto simp only: mixed_radix)
  then show ?thesis unfolding from_int_def by (cases s) (simp only: tdma_time.simps, simp)
qed

lemma to_int_inj: "is_valid s \<Longrightarrow> is_valid s' \<Longrightarrow> to_int s = to_int s' \<Longrightarrow> s = s'"
  by (metis from_int_to_int)

lemma from_int_mod: "from_int (n mod TIME_INT_WRAP) = from_int n"
  by (rule to_int_inj) (simp_all add: from_int_valid to_int_from_int)

lemma from_int_eq_iff: "from_int a = from_int b \<longleftrightarrow> a mod TIME_INT_WRAP = b mod TIME_INT_WRAP"
  by (metis from_int_mod to_int_from_int)

section \<open>Adding and subtracting\<close>

text \<open>The window of offsets in which \<open>add_timeslots\<close> cannot overflow: more than 13 wraps of the
  hyperframe counter either way would be needed to leave it.\<close>

lemma add_timeslots_eq:
  assumes "is_valid s" and "- 2147483648 \<le> n" and "n \<le> 1864368128"
  shows "add_timeslots s n = Some (from_int (to_int s + n))"
  using to_int_range [OF assms(1)] assms by (simp add: add_timeslots_def i32_range_def TIME_INT_WRAP_def)

lemma raise_diff_stop: "- TIME_INT_WRAP div 2 \<le> d \<Longrightarrow> raise_diff d = d"
  by (subst raise_diff.simps) simp

lemma lower_diff_stop: "d < TIME_INT_WRAP div 2 \<Longrightarrow> lower_diff d = d"
  by (subst lower_diff.simps) simp

lemma raise_lower:
  assumes "- TIME_INT_WRAP < d" and "d < TIME_INT_WRAP"
  defines "r \<equiv> lower_diff (raise_diff d)"
  shows "- (TIME_INT_WRAP div 2) \<le> r \<and> r < TIME_INT_WRAP div 2 \<and> r mod TIME_INT_WRAP = d mod TIME_INT_WRAP"
proof -
  have W: "TIME_INT_WRAP = 283115520" by (simp add: TIME_INT_WRAP_def)
  have "raise_diff d = (if d < - 141557760 then d + 283115520 else d)"
    using assms(1,2) by (subst raise_diff.simps) (simp add: W raise_diff_stop)
  moreover have "lower_diff x = (if x \<ge> 141557760 then x - 283115520 else x)" if "x < 283115520" for x
    using that by (subst lower_diff.simps) (simp add: W lower_diff_stop)
  ultimately have "r = (if d < - 141557760 then d + 283115520 else if d \<ge> 141557760 then d - 283115520 else d)"
    using assms(1,2) by (auto simp: r_def W)
  then show ?thesis using assms(1,2) by (auto simp: W mod_diff_left_eq)
qed

lemma diff_eq:
  assumes "is_valid a" and "is_valid b"
  obtains d where "diff a b = Some d" and "- (TIME_INT_WRAP div 2) \<le> d" and "d < TIME_INT_WRAP div 2"
    and "d mod TIME_INT_WRAP = (to_int a - to_int b) mod TIME_INT_WRAP"
proof -
  note r = to_int_range [OF assms(1)] to_int_range [OF assms(2)]
  have "i32_range (to_int a - to_int b) = Some (to_int a - to_int b)"
    using r by (auto simp: i32_range_def TIME_INT_WRAP_def)
  then have "diff a b = Some (lower_diff (raise_diff (to_int a - to_int b)))"
    by (simp add: diff_def time_int_diff_def)
  then show ?thesis using that raise_lower [of "to_int a - to_int b"] r by auto
qed

lemma add_diff:
  assumes "is_valid a" and "is_valid b" and "diff a b = Some d"
  shows "add_timeslots b d = Some a"
proof -
  have "- (TIME_INT_WRAP div 2) \<le> d" "d < TIME_INT_WRAP div 2"
    "d mod TIME_INT_WRAP = (to_int a - to_int b) mod TIME_INT_WRAP"
    using diff_eq [OF assms(1,2)] assms(3) by (metis option.inject)+
  then have "add_timeslots b d = Some (from_int (to_int b + d))"
    by (intro add_timeslots_eq [OF assms(2)]) (auto simp: TIME_INT_WRAP_def)
  moreover have "(to_int b + d) mod TIME_INT_WRAP = to_int a mod TIME_INT_WRAP"
    using \<open>d mod _ = _\<close> by (metis add.commute diff_add_cancel mod_add_left_eq)
  then have "from_int (to_int b + d) = from_int (to_int a)" by (simp add: from_int_eq_iff)
  ultimately show ?thesis using from_int_to_int [OF assms(1)] by simp
qed

lemma diff_add:
  assumes "is_valid b" and "- (TIME_INT_WRAP div 2) \<le> n" and "n < TIME_INT_WRAP div 2"
    and "add_timeslots b n = Some a"
  shows "diff a b = Some n"
proof -
  have a: "a = from_int (to_int b + n)"
    using assms add_timeslots_eq [OF assms(1), of n] by (simp add: TIME_INT_WRAP_def)
  then have "is_valid a" by (simp add: from_int_valid)
  then obtain d where d: "diff a b = Some d" "- (TIME_INT_WRAP div 2) \<le> d" "d < TIME_INT_WRAP div 2"
    "d mod TIME_INT_WRAP = (to_int a - to_int b) mod TIME_INT_WRAP" using diff_eq [OF _ assms(1)] by metis
  have "(to_int a - to_int b) mod TIME_INT_WRAP = n mod TIME_INT_WRAP"
    unfolding a to_int_from_int by (simp add: mod_diff_left_eq)
  then have "d mod TIME_INT_WRAP = n mod TIME_INT_WRAP" using d(4) by simp
  then have "TIME_INT_WRAP dvd d - n" by (simp add: mod_eq_dvd_iff)
  then have "d \<noteq> n \<Longrightarrow> TIME_INT_WRAP \<le> \<bar>d - n\<bar>"
    using dvd_imp_le_int [of "d - n" TIME_INT_WRAP] by (simp add: TIME_INT_WRAP_def)
  then have "d = n" using d(2,3) assms(2,3) unfolding TIME_INT_WRAP_def by linarith
  then show ?thesis using d(1) by simp
qed

lemma add_add:
  assumes "is_valid s" and "add_timeslots s a = Some s'" and "\<bar>a\<bar> \<le> 1000000000" and "\<bar>b\<bar> \<le> 800000000"
  shows "add_timeslots s' b = add_timeslots s (a + b)"
proof -
  have s': "s' = from_int (to_int s + a)" using assms add_timeslots_eq [of s a] by auto
  have "add_timeslots s' b = Some (from_int (to_int s' + b))"
    using assms s' by (intro add_timeslots_eq) (auto simp: from_int_valid)
  moreover have "add_timeslots s (a + b) = Some (from_int (to_int s + (a + b)))"
    using assms by (intro add_timeslots_eq) auto
  moreover have "from_int (to_int s' + b) = from_int (to_int s + (a + b))"
    unfolding from_int_eq_iff s' to_int_from_int by (simp add: mod_add_left_eq add.assoc)
  ultimately show ?thesis by simp
qed

section \<open>Slots\<close>

lemma slots_to_add:
  assumes "1 \<le> uint (t :: u8)" and "uint t \<le> 4" and "1 \<le> uint (ts :: u8)" and "uint ts \<le> 4"
  shows "uint ((ts + 4 - t) mod 4) = (uint ts - uint t) mod 4"
proof -
  have "uint (ts + 4 - t) = uint ts + 4 - uint t"
    using assms by (simp add: uint_word_ariths)
  then have "uint ((ts + 4 - t) mod 4) = (uint ts + 4 - uint t) mod 4"
    by (simp add: uint_mod_distrib)
  also have "\<dots> = (uint ts - uint t) mod 4" by (metis add_diff_eq diff_add_eq mod_add_self2)
  finally show ?thesis .
qed

lemma forward_eq:
  assumes "is_valid s" and "1 \<le> ts" and "ts \<le> 4"
  defines "k \<equiv> (uint ts - uint (tt_t s)) mod 4"
  shows "forward_to_timeslot s ts = Some (from_int (to_int s + k))" and "tt_t (from_int (to_int s + k)) = ts"
proof -
  have t: "1 \<le> uint (tt_t s)" "uint (tt_t s) \<le> 4" "1 \<le> uint ts" "uint ts \<le> 4"
    using assms(1-3) by (simp_all add: valid_uint word_le_def)
  have k: "0 \<le> k" "k < 4" by (simp_all add: k_def)
  show "forward_to_timeslot s ts = Some (from_int (to_int s + k))"
    unfolding forward_to_timeslot_def slots_to_add [OF t] k_def [symmetric]
    using k by (intro add_timeslots_eq [OF assms(1)]) simp_all
  have "to_int s mod 4 = uint (tt_t s) - 1"
    using arg_cong [OF from_int_to_int [OF assms(1)], of "\<lambda>s. uint (tt_t s)"] by (simp add: uint_from_int)
  then have "(to_int s + k) mod 4 = (uint (tt_t s) - 1 + k) mod 4" by (metis mod_add_left_eq)
  also have "\<dots> = (uint ts - 1) mod 4" unfolding k_def by (simp add: mod_add_right_eq)
  also have "\<dots> = uint ts - 1" using t by (intro mod_pos_pos_trivial) simp_all
  finally have "uint (tt_t (from_int (to_int s + k))) = uint ts" by (simp add: uint_from_int)
  then show "tt_t (from_int (to_int s + k)) = ts" by (rule word_uint_eqI)
qed

lemma slot_formula:
  assumes "1 \<le> uint (t :: u8)" and "uint t \<le> 4" and "1 \<le> uint (m :: u8)" and "uint m \<le> 60" and "0 \<le> c" and "c \<le> 3"
  shows "t = 4 - ((m + of_int c) mod 4) \<longleftrightarrow> (uint m + uint t + c) mod 4 = 0"
proof -
  have c: "uint (of_int c :: u8) = c" using assms by (intro uint_of_int_small) simp_all
  have "uint (m + of_int c) = uint m + c" using assms c by (simp add: uint_word_ariths)
  then have e: "uint ((m + of_int c) mod 4) = (uint m + c) mod 4" by (simp add: uint_mod_distrib)
  have "(uint m + c) mod 4 < 4" "0 \<le> (uint m + c) mod 4" by simp_all
  then have "uint (4 - ((m + of_int c) mod 4)) = 4 - (uint m + c) mod 4"
    using e by (simp add: uint_word_ariths)
  then have "t = 4 - ((m + of_int c) mod 4) \<longleftrightarrow> uint t = 4 - (uint m + c) mod 4"
    by (metis word_uint_eqI)
  also have "\<dots> \<longleftrightarrow> (uint m + uint t + c) mod 4 = 0"
    using assms(1,2) by presburger
  finally show ?thesis .
qed

lemma bsch_formula:
  "is_valid s \<Longrightarrow> is_mandatory_bsch s \<longleftrightarrow> tt_f s = 18 \<and> (uint (tt_m s) + uint (tt_t s)) mod 4 = 3"
  using slot_formula [of "tt_t s" "tt_m s" 1] unfolding is_mandatory_bsch_def valid_uint by auto presburger+

lemma bnch_formula:
  "is_valid s \<Longrightarrow> is_mandatory_bnch s \<longleftrightarrow> tt_f s = 18 \<and> (uint (tt_m s) + uint (tt_t s)) mod 4 = 1"
  using slot_formula [of "tt_t s" "tt_m s" 3] unfolding is_mandatory_bnch_def valid_uint by auto presburger+

section \<open>Properties\<close>

text \<open>C37: the linear form of a TDMA time is a bijection between the valid times and the numbers
  below the wrap: every integer denotes a valid time, converting back gives the integer modulo
  the wrap, and a valid time survives the round trip.\<close>

theorem linear_time_bijection:
  "is_valid (from_int n) \<and> to_int (from_int n) = n mod TIME_INT_WRAP \<and> (is_valid s \<longrightarrow> from_int (to_int s) = s)"
  by (simp add: from_int_valid to_int_from_int from_int_to_int)

theorem linear_time_bijection_witness:
  "is_valid \<lparr>tt_t = 4, tt_f = 18, tt_m = 60, tt_h = 65535\<rparr>
   \<and> from_int (to_int \<lparr>tt_t = 4, tt_f = 18, tt_m = 60, tt_h = 65535\<rparr>) = \<lparr>tt_t = 4, tt_f = 18, tt_m = 60, tt_h = 65535\<rparr>"
proof -
  have "is_valid \<lparr>tt_t = 4, tt_f = 18, tt_m = 60, tt_h = 65535\<rparr>" by (simp add: is_valid_def)
  then show ?thesis using linear_time_bijection [of 0 "\<lparr>tt_t = 4, tt_f = 18, tt_m = 60, tt_h = 65535\<rparr>"] by simp
qed

text \<open>C38: the signed distance of two valid times never overflows, lies within half a wrap, and
  adding it to the second time gives the first; conversely adding an offset within half a wrap
  and measuring the distance gives the offset back.\<close>

theorem time_difference_laws:
  assumes "is_valid a" and "is_valid b" and "- (TIME_INT_WRAP div 2) \<le> n" and "n < TIME_INT_WRAP div 2"
  shows "\<exists>d c. diff a b = Some d \<and> - (TIME_INT_WRAP div 2) \<le> d \<and> d < TIME_INT_WRAP div 2
    \<and> add_timeslots b d = Some a \<and> add_timeslots b n = Some c \<and> is_valid c \<and> diff c b = Some n"
proof -
  obtain d where d: "diff a b = Some d" "- (TIME_INT_WRAP div 2) \<le> d" "d < TIME_INT_WRAP div 2"
    using diff_eq [OF assms(1,2)] by metis
  have c: "add_timeslots b n = Some (from_int (to_int b + n))"
    using assms by (intro add_timeslots_eq) (simp_all add: TIME_INT_WRAP_def)
  show ?thesis
    using d add_diff [OF assms(1,2) d(1)] c diff_add [OF assms(2-4) c] from_int_valid by blast
qed

theorem time_difference_laws_witness:
  "\<exists>d c. diff tdma_default \<lparr>tt_t = 4, tt_f = 18, tt_m = 60, tt_h = 65535\<rparr> = Some d
     \<and> add_timeslots \<lparr>tt_t = 4, tt_f = 18, tt_m = 60, tt_h = 65535\<rparr> d = Some tdma_default
     \<and> add_timeslots \<lparr>tt_t = 4, tt_f = 18, tt_m = 60, tt_h = 65535\<rparr> 7 = Some c
     \<and> diff c \<lparr>tt_t = 4, tt_f = 18, tt_m = 60, tt_h = 65535\<rparr> = Some 7"
  using time_difference_laws [of tdma_default "\<lparr>tt_t = 4, tt_f = 18, tt_m = 60, tt_h = 65535\<rparr>" 7]
  by (auto simp: is_valid_def tdma_default_def TIME_INT_WRAP_def)

end
