(* ===== verification/Timeslot_Alloc.thy ===== *)
theory Timeslot_Alloc
  imports Nexus_Prelude
begin

text \<open>
  The traffic timeslot allocator of \<^verbatim>\<open>crates/tetra-core/src/timeslot_alloc.rs\<close>: the owners of
  timeslots 2 to 4, shared by the circuit-mode, Brew and packet-data users.  The lemmas show
  exclusive ownership (a slot is given away only when it is free or held by the preemptible
  owner), that preemption happens only when no free slot is left, that a failed request leaves
  the allocator as it was, and that only the owner can release a slot.
\<close>

section \<open>The model\<close>

datatype timeslot_owner = Brew | Cmce | PacketData

datatype timeslot_alloc_err =
    InvalidTimeslot u8
  | InUse u8 timeslot_owner
  | NotAllocated u8
  | OwnerMismatch u8 timeslot_owner timeslot_owner

record timeslot_allocator =
  owners :: "timeslot_owner option list"

definition alloc_default :: timeslot_allocator where
  "alloc_default = \<lparr>owners = [None, None, None]\<rparr>"

definition idx :: "u8 \<Rightarrow> timeslot_alloc_err + nat" where
  "idx ts = (if 2 \<le> ts \<and> ts \<le> 4 then Inr (unat (ts - 2)) else Inl (InvalidTimeslot ts))"

text \<open>The search loops: the first index from \<open>i\<close> on whose slot satisfies the test.\<close>

fun find_slot :: "(nat \<Rightarrow> 'o option \<Rightarrow> bool) \<Rightarrow> nat \<Rightarrow> 'o option list \<Rightarrow> nat option" where
  "find_slot p i [] = None"
| "find_slot p i (x # xs) = (if p i x then Some i else find_slot p (i + 1) xs)"

definition allocate_any :: "timeslot_owner \<Rightarrow> timeslot_allocator \<Rightarrow> u8 option \<times> timeslot_allocator" where
  "allocate_any owner s =
     (case find_slot (\<lambda>i slot. slot = None) 0 (owners s) of
        Some i \<Rightarrow> (Some (of_nat i + 2), s\<lparr>owners := (owners s)[i := Some owner]\<rparr>)
      | None \<Rightarrow> (None, s))"

definition can_allocate_preempting :: "nat \<Rightarrow> timeslot_owner \<Rightarrow> timeslot_allocator \<Rightarrow> bool" where
  "can_allocate_preempting needed preemptible_owner s \<longleftrightarrow>
     needed \<le> length (owners s) \<and>
     length (filter (\<lambda>ow. ow = None \<or> ow = Some preemptible_owner) (owners s)) \<ge> needed"

text \<open>One of the two selection loops of \<open>allocate_many_preempting\<close>, with its \<open>break\<close>.\<close>

fun select_slots ::
  "('o option \<Rightarrow> bool) \<Rightarrow> nat \<Rightarrow> nat \<Rightarrow> 'o option list \<Rightarrow> nat list \<Rightarrow> nat list" where
  "select_slots p needed i [] selected = selected"
| "select_slots p needed i (x # xs) selected =
     (if p x
      then let selected' = selected @ [i] in
           if length selected' = needed then selected' else select_slots p needed (i + 1) xs selected'
      else select_slots p needed (i + 1) xs selected)"

definition allocate_many_preempting ::
  "timeslot_owner \<Rightarrow> nat \<Rightarrow> timeslot_owner \<Rightarrow> timeslot_allocator \<Rightarrow> u8 list option \<times> timeslot_allocator" where
  "allocate_many_preempting owner needed preemptible_owner s =
     (if needed = 0 then (Some [], s)
      else if \<not> can_allocate_preempting needed preemptible_owner s then (None, s)
      else
        let selected = select_slots (\<lambda>slot. slot = None) needed 0 (owners s) [];
            selected = (if length selected < needed
                        then select_slots (\<lambda>slot. slot = Some preemptible_owner) needed 0 (owners s) selected
                        else selected)
        in (Some (map (\<lambda>i. of_nat i + 2) selected),
            s\<lparr>owners := foldl (\<lambda>ows i. ows[i := Some owner]) (owners s) selected\<rparr>))"

definition allocate_any_preempting ::
  "timeslot_owner \<Rightarrow> timeslot_owner \<Rightarrow> timeslot_allocator \<Rightarrow> u8 option \<times> timeslot_allocator" where
  "allocate_any_preempting owner preemptible_owner s =
     (case allocate_many_preempting owner 1 preemptible_owner s of
        (Some slots, s') \<Rightarrow> (if slots = [] then None else Some (last slots), s')
      | (None, s') \<Rightarrow> (None, s'))"

definition allocate_any_preempting_excluding ::
  "timeslot_owner \<Rightarrow> timeslot_owner \<Rightarrow> u8 list \<Rightarrow> timeslot_allocator \<Rightarrow> u8 option \<times> timeslot_allocator" where
  "allocate_any_preempting_excluding owner preemptible_owner excluded_timeslots s =
     (let take_slot = (\<lambda>i. (Some (of_nat i + 2), s\<lparr>owners := (owners s)[i := Some owner]\<rparr>));
          open_slot = (\<lambda>i. of_nat i + 2 \<notin> set excluded_timeslots) in
      case find_slot (\<lambda>i slot. open_slot i \<and> slot = None) 0 (owners s) of
        Some i \<Rightarrow> take_slot i
      | None \<Rightarrow>
          (case find_slot (\<lambda>i slot. open_slot i \<and> slot = Some preemptible_owner) 0 (owners s) of
             Some i \<Rightarrow> take_slot i
           | None \<Rightarrow> (None, s)))"

definition reserve ::
  "timeslot_owner \<Rightarrow> u8 \<Rightarrow> timeslot_allocator \<Rightarrow> (timeslot_alloc_err + unit) \<times> timeslot_allocator" where
  "reserve owner ts s =
     (case idx ts of
        Inl e \<Rightarrow> (Inl e, s)
      | Inr i \<Rightarrow>
          (case owners s ! i of
             None \<Rightarrow> (Inr (), s\<lparr>owners := (owners s)[i := Some owner]\<rparr>)
           | Some existing \<Rightarrow> (Inl (InUse ts existing), s)))"

definition release ::
  "timeslot_owner \<Rightarrow> u8 \<Rightarrow> timeslot_allocator \<Rightarrow> (timeslot_alloc_err + unit) \<times> timeslot_allocator" where
  "release owner ts s =
     (case idx ts of
        Inl e \<Rightarrow> (Inl e, s)
      | Inr i \<Rightarrow>
          (case owners s ! i of
             None \<Rightarrow> (Inl (NotAllocated ts), s)
           | Some existing \<Rightarrow>
               if existing \<noteq> owner then (Inl (OwnerMismatch ts owner existing), s)
               else (Inr (), s\<lparr>owners := (owners s)[i := None]\<rparr>)))"

definition owner_of :: "timeslot_allocator \<Rightarrow> u8 \<Rightarrow> timeslot_owner option" where
  "owner_of s ts = (case idx ts of Inl e \<Rightarrow> None | Inr i \<Rightarrow> owners s ! i)"

definition is_free :: "timeslot_allocator \<Rightarrow> u8 \<Rightarrow> bool" where
  "is_free s ts \<longleftrightarrow> owner_of s ts = None"

definition release_all :: "timeslot_owner \<Rightarrow> timeslot_allocator \<Rightarrow> timeslot_allocator" where
  "release_all owner s =
     s\<lparr>owners := map (\<lambda>slot. if slot = Some owner then None else slot) (owners s)\<rparr>"

section \<open>Slots and indices\<close>

text \<open>The array of the source has three elements.\<close>

definition alloc_wf :: "timeslot_allocator \<Rightarrow> bool" where
  "alloc_wf s \<longleftrightarrow> length (owners s) = 3"

definition traffic_slot :: "u8 \<Rightarrow> bool" where
  "traffic_slot ts \<longleftrightarrow> 2 \<le> ts \<and> ts \<le> 4"

lemma traffic_slot_cases: "traffic_slot ts \<longleftrightarrow> ts = 2 \<or> ts = 3 \<or> ts = 4"
proof
  assume "traffic_slot ts"
  then have "2 \<le> unat ts" "unat ts \<le> 4" by (simp_all add: traffic_slot_def word_le_nat_alt)
  then have "unat ts = unat (2::u8) \<or> unat ts = unat (3::u8) \<or> unat ts = unat (4::u8)" by auto
  then show "ts = 2 \<or> ts = 3 \<or> ts = 4" by (metis unsigned_word_eqI)
qed (auto simp: traffic_slot_def)

lemma idx_slot: "i < 3 \<Longrightarrow> idx (of_nat i + 2) = Inr i \<and> traffic_slot (of_nat i + 2)"
  by (auto simp: idx_def traffic_slot_def less_Suc_eq numeral_3_eq_3)

lemma slot_idx:
  assumes "traffic_slot ts"
  obtains i where "i < 3" and "idx ts = Inr i" and "ts = of_nat i + 2"
  using assms unfolding traffic_slot_cases
proof (elim disjE)
  assume "ts = 2" then show thesis using that [of 0] idx_slot [of 0] by simp
next
  assume "ts = 3" then show thesis using that [of 1] idx_slot [of 1] by simp
next
  assume "ts = 4" then show thesis using that [of 2] idx_slot [of 2] by simp
qed

lemma slot_inj: "i < 3 \<Longrightarrow> j < 3 \<Longrightarrow> (of_nat i + 2 :: u8) = of_nat j + 2 \<longleftrightarrow> i = j"
  by (metis idx_slot sum.inject(2))

lemma owner_of_slot: "i < 3 \<Longrightarrow> owner_of s (of_nat i + 2) = owners s ! i"
  using idx_slot [of i] by (simp add: owner_of_def)

lemma owner_of_other: "\<not> traffic_slot ts \<Longrightarrow> owner_of s ts = None"
  by (auto simp: owner_of_def idx_def traffic_slot_def)

lemma owner_of_update_other:
  assumes "t' \<noteq> of_nat i + 2"
  shows "owner_of (s\<lparr>owners := (owners s)[i := v]\<rparr>) t' = owner_of s t'"
proof (cases "traffic_slot t'")
  case True
  then obtain j where j: "j < 3" "t' = of_nat j + 2" by (rule slot_idx)
  then have "i \<noteq> j" using assms by auto
  then show ?thesis using j by (simp add: owner_of_slot)
qed (simp add: owner_of_other)

section \<open>Selection\<close>

lemma select_slots_eq:
  "length sel < n \<Longrightarrow> select_slots p n i xs sel =
     sel @ take (n - length sel) (filter (\<lambda>j. p (xs ! (j - i))) [i..<i + length xs])"
proof (induction xs arbitrary: i sel)
  case (Cons x xs)
  have nth: "p ((x # xs) ! (j - i)) = p (xs ! (j - Suc i))" if "j \<in> set [Suc i..<Suc i + length xs]" for j
  proof -
    have "j - i = Suc (j - Suc i)" using that by auto
    then show ?thesis by simp
  qed
  have shift: "filter (\<lambda>j. p ((x # xs) ! (j - i))) [Suc i..<Suc (i + length xs)]
      = filter (\<lambda>j. p (xs ! (j - Suc i))) [Suc i..<Suc i + length xs]"
    by (rule filter_cong [OF _ nth]) simp_all
  have split: "[i..<i + length (x # xs)] = i # [Suc i..<Suc (i + length xs)]" 
    using upt_conv_Cons [of i "Suc (i + length xs)"] by (simp del: upt_Suc)
  show ?case
  proof (cases "p x")
    case False
    then show ?thesis unfolding split using Cons.IH [of sel "Suc i"] Cons.prems shift by simp
  next
    case True
    show ?thesis
    proof (cases "Suc (length sel) = n")
      case True
      with \<open>p x\<close> show ?thesis unfolding split by (simp add: Let_def flip: True)
    next
      case False
      then have "n - length sel = Suc (n - Suc (length sel))" using Cons.prems by simp
      then show ?thesis
        unfolding split using False Cons.IH [of "sel @ [i]" "Suc i"] Cons.prems shift \<open>p x\<close> by (simp add: Let_def)
    qed
  qed
qed simp

lemma select_slots_0:
  "length sel < n \<Longrightarrow> select_slots p n 0 xs sel =
     sel @ take (n - length sel) (filter (\<lambda>j. p (xs ! j)) [0..<length xs])"
  unfolding select_slots_eq [of sel n p 0 xs] diff_zero add_0_left by (rule refl)

lemma foldl_update_nth:
  "k < length xs \<Longrightarrow> foldl (\<lambda>ys i. ys[i := v]) xs is ! k = (if k \<in> set is then v else xs ! k)"
  by (induction "is" arbitrary: xs) (auto simp: nth_list_update)

lemma length_foldl_update [simp]: "length (foldl (\<lambda>ys i. ys[i := v]) xs is) = length xs"
  by (induction "is" arbitrary: xs) auto

lemma filter_length_disjoint:
  "(\<And>x. \<not> (P x \<and> Q x)) \<Longrightarrow>
   length (filter (\<lambda>x. P x \<or> Q x) xs) = length (filter P xs) + length (filter Q xs)"
  by (induction xs) auto

lemma filter_nth_length: "length (filter (\<lambda>j. p (xs ! j)) [0..<length xs]) = length (filter p xs)"
  by (auto simp: length_filter_conv_card [of p xs] distinct_length_filter intro: arg_cong [of _ _ card])

definition free_then_preemptible :: "timeslot_owner \<Rightarrow> timeslot_allocator \<Rightarrow> nat list" where
  "free_then_preemptible pre s =
     filter (\<lambda>j. owners s ! j = None) [0..<3] @ filter (\<lambda>j. owners s ! j = Some pre) [0..<3]"

lemma allocate_many_eq:
  assumes wf: "alloc_wf s"
  shows "allocate_many_preempting owner n pre s =
    (if n = 0 then (Some [], s)
     else if n \<le> length (free_then_preemptible pre s)
     then let sel = take n (free_then_preemptible pre s) in
          (Some (map (\<lambda>i. of_nat i + 2) sel), s\<lparr>owners := foldl (\<lambda>ows i. ows[i := Some owner]) (owners s) sel\<rparr>)
     else (None, s))"
proof (cases "n = 0")
  case False
  let ?F = "filter (\<lambda>j. owners s ! j = None) [0..<3]" and ?P = "filter (\<lambda>j. owners s ! j = Some pre) [0..<3]"
  have len: "length (owners s) = 3" using wf by (simp add: alloc_wf_def)
  have "length (filter (\<lambda>ow. ow = None \<or> ow = Some pre) (owners s))
      = length (filter (\<lambda>ow. ow = None) (owners s)) + length (filter (\<lambda>ow. ow = Some pre) (owners s))"
    by (rule filter_length_disjoint) auto
  then have "length ?F + length ?P = length (filter (\<lambda>ow. ow = None \<or> ow = Some pre) (owners s))"
    using filter_nth_length [of "\<lambda>ow. ow = None" "owners s"] filter_nth_length [of "\<lambda>ow. ow = Some pre" "owners s"] len
    by simp
  moreover have "length (filter (\<lambda>ow. ow = None \<or> ow = Some pre) (owners s)) \<le> 3"
    using length_filter_le len by metis
  ultimately have can: "can_allocate_preempting n pre s \<longleftrightarrow> n \<le> length (free_then_preemptible pre s)"
    by (auto simp: can_allocate_preempting_def free_then_preemptible_def len)
  have s1: "select_slots (\<lambda>slot. slot = None) n 0 (owners s) [] = take n ?F"
    using False by (simp add: select_slots_0 len)
  have s2: "select_slots (\<lambda>slot. slot = Some pre) n 0 (owners s) (take n ?F) = take n ?F @ take (n - length (take n ?F)) ?P"
    if "length (take n ?F) < n" using that by (simp add: select_slots_0 len)
  have "(if length (take n ?F) < n then select_slots (\<lambda>slot. slot = Some pre) n 0 (owners s) (take n ?F) else take n ?F)
      = take n (free_then_preemptible pre s)"
    using s2 by (auto simp: free_then_preemptible_def min_def)
  then show ?thesis using False can by (simp add: allocate_many_preempting_def Let_def s1)
qed (simp add: allocate_many_preempting_def)

lemma free_then_preemptible_props:
  "distinct (free_then_preemptible pre s)" "i \<in> set (free_then_preemptible pre s) \<Longrightarrow> i < 3"
  "i \<in> set (free_then_preemptible pre s) \<Longrightarrow> owners s ! i = None \<or> owners s ! i = Some pre"
  by (auto simp: free_then_preemptible_def)

text \<open>A preempted index in the selection means that all free ones were selected before it.\<close>

lemma preempt_last:
  assumes "j \<in> set (take n (free_then_preemptible pre s))" and "owners s ! j = Some pre"
    and "i < 3" and "owners s ! i = None"
  shows "i \<in> set (take n (free_then_preemptible pre s))"
proof -
  let ?F = "filter (\<lambda>j. owners s ! j = None) [0..<3]"
  have "j \<notin> set (take n ?F)" using assms(2) by (auto dest: in_set_takeD)
  then have "length ?F < n" using assms(1)
    by (cases "length ?F < n") (auto simp: free_then_preemptible_def)
  then have "take n ?F = ?F" by simp
  then show ?thesis using assms(3,4) by (auto simp: free_then_preemptible_def)
qed

lemma alloc_wf_ops:
  assumes "alloc_wf s"
  shows "alloc_wf (snd (allocate_any ow s))" "alloc_wf (snd (allocate_many_preempting ow n pre s))"
    "alloc_wf (snd (allocate_any_preempting ow pre s))" "alloc_wf (snd (allocate_any_preempting_excluding ow pre ex s))"
    "alloc_wf (snd (reserve ow ts s))" "alloc_wf (snd (release ow ts s))" "alloc_wf (release_all ow s)"
  using assms by (auto simp: alloc_wf_def allocate_any_def allocate_many_preempting_def Let_def
      allocate_any_preempting_def allocate_any_preempting_excluding_def reserve_def release_def release_all_def
      split: option.splits sum.splits prod.splits if_splits)

section \<open>What a request gets\<close>

lemma allocate_many_granted:
  assumes wf: "alloc_wf s" and res: "allocate_many_preempting ow n pre s = (Some slots, s')"
  shows "length slots = n" and "distinct slots"
    and "ts \<in> set slots \<Longrightarrow> traffic_slot ts \<and> (owner_of s ts = None \<or> owner_of s ts = Some pre) \<and> owner_of s' ts = Some ow"
    and "ts \<notin> set slots \<Longrightarrow> owner_of s' ts = owner_of s ts"
    and "ts \<in> set slots \<Longrightarrow> owner_of s ts = Some pre \<Longrightarrow> traffic_slot ts' \<Longrightarrow> owner_of s ts' = None \<Longrightarrow> ts' \<in> set slots"
proof -
  define sel where "sel = take n (free_then_preemptible pre s)"
  have n: "n \<le> length (free_then_preemptible pre s)"
    and slots: "slots = map (\<lambda>i. of_nat i + 2) sel"
    and s': "owners s' = foldl (\<lambda>ows i. ows[i := Some ow]) (owners s) sel"
    using res unfolding allocate_many_eq [OF wf] sel_def by (auto simp: Let_def split: if_splits)
  have sel3: "i < 3" "owners s ! i = None \<or> owners s ! i = Some pre" if "i \<in> set sel" for i
    using that free_then_preemptible_props(2,3) unfolding sel_def by (meson in_set_takeD)+
  have in_slots: "of_nat i + 2 \<in> set slots \<longleftrightarrow> i \<in> set sel" if "i < 3" for i
    using that sel3(1) slot_inj unfolding slots by auto
  have own': "owner_of s' (of_nat i + 2) = (if i \<in> set sel then Some ow else owner_of s (of_nat i + 2))" if "i < 3" for i
    using that wf by (simp add: owner_of_slot s' foldl_update_nth alloc_wf_def)
  show "length slots = n" using n by (simp add: slots sel_def)
  have "inj_on (\<lambda>i. of_nat i + 2 :: u8) (set sel)" using sel3(1) slot_inj by (intro inj_onI) blast
  then show "distinct slots"
    unfolding slots distinct_map sel_def by (simp add: free_then_preemptible_props(1))
  show "traffic_slot ts \<and> (owner_of s ts = None \<or> owner_of s ts = Some pre) \<and> owner_of s' ts = Some ow" if "ts \<in> set slots"
  proof -
    from that obtain i where i: "i \<in> set sel" "ts = of_nat i + 2" unfolding slots by auto
    then show ?thesis using sel3 [OF i(1)] own' [of i] idx_slot [of i] by (simp add: owner_of_slot)
  qed
  show "owner_of s' ts = owner_of s ts" if "ts \<notin> set slots"
  proof (cases "traffic_slot ts")
    case True
    then obtain i where "i < 3" "ts = of_nat i + 2" by (rule slot_idx)
    then show ?thesis using that own' [of i] in_slots [of i] by simp
  qed (simp add: owner_of_other)
  show "ts' \<in> set slots"
    if "ts \<in> set slots" "owner_of s ts = Some pre" "traffic_slot ts'" "owner_of s ts' = None"
  proof -
    from that(1) obtain j where j: "j \<in> set sel" "ts = of_nat j + 2" unfolding slots by auto
    from that(3) obtain i where i: "i < 3" "ts' = of_nat i + 2" by (rule slot_idx)
    have "i \<in> set sel"
      using j i that(2,4) sel3(1) preempt_last [of j n pre s i] unfolding sel_def by (simp add: owner_of_slot)
    then show ?thesis using i in_slots by simp
  qed
qed

lemma allocate_many_refused:
  assumes "alloc_wf s"
  shows "allocate_many_preempting ow n pre s = (None, s') \<Longrightarrow> s' = s"
    and "fst (allocate_many_preempting ow n pre s) = None \<longleftrightarrow> n > length (free_then_preemptible pre s)"
  unfolding allocate_many_eq [OF assms] by (auto simp: Let_def split: if_splits)

lemma find_slot_Some:
  "find_slot p i xs = Some k \<Longrightarrow> i \<le> k \<and> k < i + length xs \<and> p k (xs ! (k - i)) \<and> (\<forall>j. i \<le> j \<and> j < k \<longrightarrow> \<not> p j (xs ! (j - i)))"
proof (induction xs arbitrary: i)
  case (Cons x xs)
  show ?case
  proof (cases "p i x")
    case True
    then show ?thesis using Cons.prems by auto
  next
    case False
    then have k: "Suc i \<le> k \<and> k < Suc i + length xs \<and> p k (xs ! (k - Suc i)) \<and> (\<forall>j. Suc i \<le> j \<and> j < k \<longrightarrow> \<not> p j (xs ! (j - Suc i)))"
      using Cons.IH [of "Suc i"] Cons.prems by simp
    have nth: "(x # xs) ! (j - i) = xs ! (j - Suc i)" if "Suc i \<le> j" for j
    proof -
      have "j - i = Suc (j - Suc i)" using that by auto
      then show ?thesis by simp
    qed
    have "\<not> p j ((x # xs) ! (j - i))" if "i \<le> j" "j < k" for j
      using that False k nth [of j] by (cases "j = i") auto
    then show ?thesis using k nth [of k] by auto
  qed
qed simp

lemma find_slot_None: "find_slot p i xs = None \<longleftrightarrow> (\<forall>j < length xs. \<not> p (i + j) (xs ! j))"
proof (induction xs arbitrary: i)
  case (Cons x xs)
  show ?case using Cons.IH [of "Suc i"] by (auto simp: less_Suc_eq_0_disj)
qed simp

lemma allocate_any_granted:
  assumes wf: "alloc_wf s" and res: "allocate_any ow s = (Some ts, s')"
  shows "traffic_slot ts" and "owner_of s ts = None" and "owner_of s' ts = Some ow"
    and "ts' \<noteq> ts \<Longrightarrow> owner_of s' ts' = owner_of s ts'"
proof -
  obtain i where i: "find_slot (\<lambda>i slot. slot = None) 0 (owners s) = Some i"
    and ts: "ts = of_nat i + 2" and s': "s' = s\<lparr>owners := (owners s)[i := Some ow]\<rparr>"
    using res by (auto simp: allocate_any_def split: option.splits)
  have i3: "i < 3" "owners s ! i = None" using find_slot_Some [OF i] wf by (auto simp: alloc_wf_def)
  show "traffic_slot ts" "owner_of s ts = None" "owner_of s' ts = Some ow"
    using i3 wf idx_slot [of i] by (simp_all add: ts s' owner_of_slot alloc_wf_def)
  show "owner_of s' ts' = owner_of s ts'" if "ts' \<noteq> ts"
    using that unfolding s' ts by (rule owner_of_update_other)
qed

lemma reserve_cases:
  assumes "alloc_wf s"
  shows "traffic_slot ts \<Longrightarrow> owner_of s ts = None \<Longrightarrow> \<exists>s'. reserve ow ts s = (Inr (), s') \<and> owner_of s' ts = Some ow \<and> (\<forall>t'. t' \<noteq> ts \<longrightarrow> owner_of s' t' = owner_of s t')"
    and "owner_of s ts = Some ow' \<Longrightarrow> reserve ow ts s = (Inl (InUse ts ow'), s)"
    and "\<not> traffic_slot ts \<Longrightarrow> reserve ow ts s = (Inl (InvalidTimeslot ts), s)"
proof -
  show "\<exists>s'. reserve ow ts s = (Inr (), s') \<and> owner_of s' ts = Some ow \<and> (\<forall>t'. t' \<noteq> ts \<longrightarrow> owner_of s' t' = owner_of s t')"
    if "traffic_slot ts" "owner_of s ts = None"
  proof -
    from that(1) obtain i where i: "i < 3" "idx ts = Inr i" "ts = of_nat i + 2" by (rule slot_idx)
    let ?s = "s\<lparr>owners := (owners s)[i := Some ow]\<rparr>"
    have "reserve ow ts s = (Inr (), ?s)" using i(2) that(2) by (simp add: reserve_def owner_of_def)
    moreover have "owner_of ?s ts = Some ow" using i assms by (simp add: owner_of_def alloc_wf_def)
    moreover have "owner_of ?s t' = owner_of s t'" if "t' \<noteq> ts" for t'
      using that unfolding i(3) by (rule owner_of_update_other)
    ultimately show ?thesis by blast
  qed
  show "owner_of s ts = Some ow' \<Longrightarrow> reserve ow ts s = (Inl (InUse ts ow'), s)"
    by (auto simp: reserve_def owner_of_def split: sum.splits)
  show "\<not> traffic_slot ts \<Longrightarrow> reserve ow ts s = (Inl (InvalidTimeslot ts), s)"
    by (auto simp: reserve_def idx_def traffic_slot_def)
qed

lemma release_owner:
  assumes "alloc_wf s"
  shows "owner_of s ts = Some ow \<Longrightarrow> \<exists>s'. release ow ts s = (Inr (), s') \<and> owner_of s' ts = None"
    and "owner_of s ts = Some ow' \<Longrightarrow> ow' \<noteq> ow \<Longrightarrow> release ow ts s = (Inl (OwnerMismatch ts ow ow'), s)"
    and "traffic_slot ts \<Longrightarrow> owner_of s ts = None \<Longrightarrow> release ow ts s = (Inl (NotAllocated ts), s)"
proof -
  show "\<exists>s'. release ow ts s = (Inr (), s') \<and> owner_of s' ts = None" if "owner_of s ts = Some ow"
  proof -
    have "traffic_slot ts" using that owner_of_other by fastforce
    then obtain i where i: "i < 3" "idx ts = Inr i" by (rule slot_idx)
    then show ?thesis using that assms by (simp add: release_def owner_of_def alloc_wf_def)
  qed
  show "owner_of s ts = Some ow' \<Longrightarrow> ow' \<noteq> ow \<Longrightarrow> release ow ts s = (Inl (OwnerMismatch ts ow ow'), s)"
    by (auto simp: release_def owner_of_def split: sum.splits)
  show "traffic_slot ts \<Longrightarrow> owner_of s ts = None \<Longrightarrow> release ow ts s = (Inl (NotAllocated ts), s)"
    by (auto simp: release_def owner_of_def idx_def traffic_slot_def)
qed

text \<open>A reservation that its owner gives back leaves no trace.\<close>

lemma reserve_release:
  assumes "alloc_wf s" and "reserve ow ts s = (Inr (), s')"
  shows "release ow ts s' = (Inr (), s)"
proof -
  obtain i where i: "idx ts = Inr i" "owners s ! i = None" "s' = s\<lparr>owners := (owners s)[i := Some ow]\<rparr>"
    using assms(2) by (auto simp: reserve_def split: sum.splits option.splits)
  have "i < 3" using i(1) by (auto simp: idx_def word_le_nat_alt unat_sub split: if_splits)
  then show ?thesis using i assms(1) by (simp add: release_def alloc_wf_def list_update_same_conv)
qed

lemma release_all_owner: "alloc_wf s \<Longrightarrow> owner_of (release_all ow s) ts = (if owner_of s ts = Some ow then None else owner_of s ts)"
proof (cases "traffic_slot ts")
  case True
  assume "alloc_wf s"
  moreover obtain i where "i < 3" "ts = of_nat i + 2" using True by (rule slot_idx)
  ultimately show ?thesis by (simp add: owner_of_slot release_all_def alloc_wf_def)
qed (simp add: owner_of_other)

section \<open>Properties\<close>

text \<open>C34: a granted request for several timeslots gets exactly as many distinct traffic timeslots,
  each of which was free or held by the preemptible owner and is now held by the requester; a
  held one is taken only when no free one is left, and no other timeslot changes hands.\<close>

theorem allocation_granted:
  assumes "alloc_wf s" and "allocate_many_preempting ow n pre s = (Some slots, s')"
  shows "length slots = n \<and> distinct slots \<and> alloc_wf s'
    \<and> (\<forall>ts. if ts \<in> set slots
            then traffic_slot ts \<and> (owner_of s ts = None \<or> owner_of s ts = Some pre) \<and> owner_of s' ts = Some ow
            else owner_of s' ts = owner_of s ts)
    \<and> (\<forall>ts ts'. ts \<in> set slots \<and> owner_of s ts = Some pre \<and> traffic_slot ts' \<and> owner_of s ts' = None
         \<longrightarrow> ts' \<in> set slots)"
proof (intro conjI allI impI)
  show "length slots = n" "distinct slots" using allocate_many_granted(1,2) [OF assms] by simp_all
  show "alloc_wf s'" using alloc_wf_ops(2) [OF assms(1), of ow n pre] assms(2) by simp
  show "if ts \<in> set slots
        then traffic_slot ts \<and> (owner_of s ts = None \<or> owner_of s ts = Some pre) \<and> owner_of s' ts = Some ow
        else owner_of s' ts = owner_of s ts" for ts
    using allocate_many_granted(3,4) [OF assms] by simp
  show "ts' \<in> set slots"
    if "ts \<in> set slots \<and> owner_of s ts = Some pre \<and> traffic_slot ts' \<and> owner_of s ts' = None" for ts ts'
    using allocate_many_granted(5) [OF assms] that by blast
qed

theorem allocation_granted_witness:
  "\<exists>slots s'. allocate_many_preempting Cmce 2 PacketData \<lparr>owners = [Some PacketData, None, Some Brew]\<rparr> = (Some slots, s')
     \<and> length slots = 2 \<and> distinct slots"
proof -
  let ?s = "\<lparr>owners = [Some PacketData, None, Some Brew]\<rparr>"
  have wf: "alloc_wf ?s" by (simp add: alloc_wf_def)
  obtain slots s' where r: "allocate_many_preempting Cmce 2 PacketData ?s = (Some slots, s')"
    by (simp add: allocate_many_preempting_def can_allocate_preempting_def Let_def)
  then show ?thesis using allocation_granted [OF wf r] by blast
qed

text \<open>C35: only the owner of a timeslot can release it, a refused request changes nothing, and a
  release after a reservation restores the allocator.\<close>

theorem release_only_by_owner:
  assumes "alloc_wf s"
  shows "((\<exists>s'. release ow ts s = (Inr (), s')) \<longleftrightarrow> owner_of s ts = Some ow)
    \<and> (\<forall>e s'. release ow ts s = (Inl e, s') \<longrightarrow> s' = s)
    \<and> (\<forall>s'. reserve ow ts s = (Inr (), s') \<longrightarrow> release ow ts s' = (Inr (), s))"
proof (intro conjI allI impI)
  show "(\<exists>s'. release ow ts s = (Inr (), s')) \<longleftrightarrow> owner_of s ts = Some ow"
    by (auto simp: release_def owner_of_def split: sum.splits option.splits)
  show "s' = s" if "release ow ts s = (Inl e, s')" for e s'
    using that by (auto simp: release_def split: sum.splits option.splits if_splits)
  show "release ow ts s' = (Inr (), s)" if r: "reserve ow ts s = (Inr (), s')" for s'
  proof -
    obtain i where i: "idx ts = Inr i" "owners s ! i = None" "s' = s\<lparr>owners := (owners s)[i := Some ow]\<rparr>"
      using r by (auto simp: reserve_def split: sum.splits option.splits)
    have "traffic_slot ts" using i(1) by (auto simp: idx_def traffic_slot_def split: if_splits)
    then have "i < 3" using i(1) by (auto elim: slot_idx)
    then show ?thesis using i assms list_update_id [of "owners s" i] by (simp add: release_def alloc_wf_def)
  qed
qed

theorem release_only_by_owner_witness:
  "alloc_wf alloc_default \<and> owner_of alloc_default 3 = None
   \<and> \<not> (\<exists>s'. release Brew 3 alloc_default = (Inr (), s'))"
proof -
  have wf: "alloc_wf alloc_default" by (simp add: alloc_wf_def alloc_default_def)
  have "owner_of alloc_default 3 = None" by (simp add: owner_of_def idx_def alloc_default_def)
  then show ?thesis using wf release_only_by_owner [OF wf, of Brew 3] by simp
qed

end
