(* ===== verification/Tx_Receipt.thy ===== *)
theory Tx_Receipt
  imports Nexus_Prelude
begin

text \<open>
  The transmit receipts of \<^verbatim>\<open>crates/tetra-core/src/tx_receipt.rs\<close>.  All clones of a reporter
  share one atomic cell, and every method performs a single atomic access to it, so the
  behaviour of the clones is a sequence of operations on that cell.  The panics of \<open>mark\<close> and
  the assertions are the \<open>Panic\<close> outcome.  The lemmas show that the cell follows the state
  machine documented in the source for every sequence of operations, that a final state is
  never left except by \<open>reset\<close>, and when the panicking and the \<open>try_\<close> operations succeed.
\<close>

section \<open>The model\<close>

datatype tx_state = Pending | Discarded | Transmitted | Lost | Acknowledged

fun tx_raw :: "tx_state \<Rightarrow> u8" where
  "tx_raw Pending = 0"
| "tx_raw Discarded = 1"
| "tx_raw Transmitted = 2"
| "tx_raw Lost = 3"
| "tx_raw Acknowledged = 4"

definition from_raw :: "u8 \<Rightarrow> tx_state" where
  "from_raw v = (if v = 0 then Pending else if v = 1 then Discarded else if v = 2 then Transmitted
     else if v = 3 then Lost else Acknowledged)"

record tx_reporter =
  expects_ack :: bool
  tx_cell :: u8

definition reporter_new :: tx_reporter where
  "reporter_new = \<lparr>expects_ack = True, tx_cell = tx_raw Pending\<rparr>"

definition reporter_new_unacked :: tx_reporter where
  "reporter_new_unacked = reporter_new\<lparr>expects_ack := False\<rparr>"

definition get_state :: "tx_reporter \<Rightarrow> tx_state" where
  "get_state r = from_raw (tx_cell r)"

definition is_discarded :: "tx_reporter \<Rightarrow> bool" where
  "is_discarded r \<longleftrightarrow> tx_cell r = tx_raw Discarded"

definition is_transmitted :: "tx_reporter \<Rightarrow> bool" where
  "is_transmitted r \<longleftrightarrow> tx_cell r \<ge> tx_raw Transmitted"

definition is_acknowledged :: "tx_reporter \<Rightarrow> bool" where
  "is_acknowledged r \<longleftrightarrow> tx_cell r \<ge> tx_raw Acknowledged"

definition is_in_final_state :: "tx_reporter \<Rightarrow> bool" where
  "is_in_final_state r =
     (case get_state r of
        Pending \<Rightarrow> False
      | Discarded \<Rightarrow> True
      | Transmitted \<Rightarrow> \<not> expects_ack r
      | Lost \<Rightarrow> True
      | Acknowledged \<Rightarrow> True)"

definition compare_exchange :: "tx_state \<Rightarrow> tx_state \<Rightarrow> (tx_reporter, bool) comp" where
  "compare_exchange expected new r =
     (if tx_cell r = tx_raw expected then Ok True (r\<lparr>tx_cell := tx_raw new\<rparr>) else Ok False r)"

definition mark :: "tx_state \<Rightarrow> tx_state \<Rightarrow> (tx_reporter, unit) comp" where
  "mark curr_state new_state =
     bindM (compare_exchange curr_state new_state) (\<lambda>done. if done then retM () else panicM)"

definition try_mark :: "tx_state \<Rightarrow> tx_state \<Rightarrow> (tx_reporter, bool) comp" where
  "try_mark curr_state new_state = compare_exchange curr_state new_state"

definition mark_unchecked :: "tx_state \<Rightarrow> (tx_reporter, unit) comp" where
  "mark_unchecked new_state = modM (\<lambda>r. r\<lparr>tx_cell := tx_raw new_state\<rparr>)"

definition mark_transmitted :: "(tx_reporter, unit) comp" where
  "mark_transmitted = mark Pending Transmitted"

definition try_mark_transmitted :: "(tx_reporter, bool) comp" where
  "try_mark_transmitted = try_mark Pending Transmitted"

definition mark_discarded :: "(tx_reporter, unit) comp" where
  "mark_discarded = mark Pending Discarded"

definition try_mark_discarded :: "(tx_reporter, bool) comp" where
  "try_mark_discarded = try_mark Pending Discarded"

definition mark_acknowledged :: "(tx_reporter, unit) comp" where
  "mark_acknowledged = bindM (getM expects_ack) (\<lambda>e. thenM (assertM e) (mark Transmitted Acknowledged))"

definition mark_lost :: "(tx_reporter, unit) comp" where
  "mark_lost = bindM (getM expects_ack) (\<lambda>e. thenM (assertM e) (mark Transmitted Lost))"

definition try_mark_lost :: "(tx_reporter, bool) comp" where
  "try_mark_lost = bindM (getM expects_ack) (\<lambda>e. thenM (assertM e) (try_mark Transmitted Lost))"

definition reset :: "(tx_reporter, unit) comp" where
  "reset = mark_unchecked Pending"

section \<open>The state machine\<close>

text \<open>One operation of any clone; an operation that panics changes nothing.\<close>

datatype tx_op =
    MarkTransmitted | TryMarkTransmitted | MarkDiscarded | TryMarkDiscarded
  | MarkAcknowledged | MarkLost | TryMarkLost | Reset

fun after :: "('a, 's) outcome \<Rightarrow> 's \<Rightarrow> 's" where
  "after (Ok a s') s = s'"
| "after (Err e s') s = s'"
| "after Panic s = s"

fun tx_exec :: "tx_op \<Rightarrow> tx_reporter \<Rightarrow> tx_reporter" where
  "tx_exec MarkTransmitted r = after (mark_transmitted r) r"
| "tx_exec TryMarkTransmitted r = after (try_mark_transmitted r) r"
| "tx_exec MarkDiscarded r = after (mark_discarded r) r"
| "tx_exec TryMarkDiscarded r = after (try_mark_discarded r) r"
| "tx_exec MarkAcknowledged r = after (mark_acknowledged r) r"
| "tx_exec MarkLost r = after (mark_lost r) r"
| "tx_exec TryMarkLost r = after (try_mark_lost r) r"
| "tx_exec Reset r = after (reset r) r"

text \<open>The transitions of the documentation comment.\<close>

inductive tx_step :: "bool \<Rightarrow> tx_state \<Rightarrow> tx_state \<Rightarrow> bool" where
  transmit: "tx_step ack Pending Transmitted"
| discard: "tx_step ack Pending Discarded"
| acknowledge: "tx_step True Transmitted Acknowledged"
| lose: "tx_step True Transmitted Lost"

inductive_cases tx_step_elims: "tx_step ack Discarded s" "tx_step ack Lost s" "tx_step ack Acknowledged s"
  "tx_step False Transmitted s"

lemma from_raw_tx_raw [simp]: "from_raw (tx_raw s) = s"
  by (cases s) (simp_all add: from_raw_def)

lemma tx_raw_inject [simp]: "tx_raw a = tx_raw b \<longleftrightarrow> a = b"
  by (metis from_raw_tx_raw)

definition cell_ok :: "tx_reporter \<Rightarrow> bool" where
  "cell_ok r \<longleftrightarrow> tx_cell r = tx_raw (get_state r)"

lemma cell_ok_new: "cell_ok reporter_new" "cell_ok reporter_new_unacked"
  by (simp_all add: cell_ok_def get_state_def reporter_new_def reporter_new_unacked_def from_raw_def)

lemmas tx_defs = mark_transmitted_def try_mark_transmitted_def mark_discarded_def try_mark_discarded_def
  mark_acknowledged_def mark_lost_def try_mark_lost_def reset_def mark_unchecked_def mark_def try_mark_def
  compare_exchange_def bindM_def retM_def panicM_def getM_def modM_def assertM_def

lemma tx_exec_cell: "cell_ok r \<Longrightarrow> cell_ok (tx_exec op r)"
  by (cases op) (auto simp: tx_defs cell_ok_def get_state_def split: outcome.splits if_splits
      simp del: tx_raw.simps)

lemma tx_exec_ack [simp]: "expects_ack (tx_exec op r) = expects_ack r"
  by (cases op) (auto simp: tx_defs split: outcome.splits if_splits)

lemma tx_exec_step:
  assumes "cell_ok r" and "op \<noteq> Reset"
  shows "get_state (tx_exec op r) = get_state r \<or> tx_step (expects_ack r) (get_state r) (get_state (tx_exec op r))"
proof -
  have s: "tx_cell r = tx_raw q \<longleftrightarrow> get_state r = q" for q
    using assms(1) by (auto simp: cell_ok_def)
  have g: "get_state (r\<lparr>tx_cell := tx_raw q\<rparr>) = q" for q by (simp add: get_state_def)
  show ?thesis
    using assms(2) by (cases op) (auto simp: tx_defs s g intro: tx_step.intros split: outcome.splits if_splits simp del: tx_raw.simps)
qed

lemma tx_reachable:
  assumes "cell_ok r" and "Reset \<notin> set ops"
  shows "(tx_step (expects_ack r))\<^sup>*\<^sup>* (get_state r) (get_state (foldl (\<lambda>r op. tx_exec op r) r ops))"
  using assms
proof (induction ops arbitrary: r)
  case (Cons op ops)
  have "op \<noteq> Reset" using Cons.prems(2) by auto
  then have "(tx_step (expects_ack r))\<^sup>*\<^sup>* (get_state r) (get_state (tx_exec op r))"
    using tx_exec_step [OF Cons.prems(1), of op] by auto
  moreover have "(tx_step (expects_ack (tx_exec op r)))\<^sup>*\<^sup>* (get_state (tx_exec op r))
      (get_state (foldl (\<lambda>r op. tx_exec op r) (tx_exec op r) ops))"
    using Cons.prems by (intro Cons.IH tx_exec_cell) auto
  ultimately show ?case by simp
qed simp

lemma final_no_step: "is_in_final_state r \<Longrightarrow> \<not> tx_step (expects_ack r) (get_state r) s"
  by (auto simp: is_in_final_state_def elim: tx_step_elims split: tx_state.splits)

lemma final_stays:
  assumes "cell_ok r" and "is_in_final_state r" and "Reset \<notin> set ops"
  shows "get_state (foldl (\<lambda>r op. tx_exec op r) r ops) = get_state r"
  using tx_reachable [OF assms(1,3)] final_no_step [OF assms(2)]
  by (metis converse_rtranclpE)

section \<open>Properties\<close>

text \<open>C36: whatever operations the clones of a reporter perform in whatever order, short of the reset,
  the receipt only moves along the documented transitions, and once it is in a final state it
  stays there.\<close>

theorem receipt_follows_state_machine:
  assumes "cell_ok r" and "Reset \<notin> set ops"
  shows "(tx_step (expects_ack r))\<^sup>*\<^sup>* (get_state r) (get_state (foldl (\<lambda>r op. tx_exec op r) r ops))
    \<and> (is_in_final_state r \<longrightarrow> get_state (foldl (\<lambda>r op. tx_exec op r) r ops) = get_state r)"
  using tx_reachable [OF assms] final_stays [OF assms(1) _ assms(2)] by blast

theorem receipt_follows_state_machine_witness:
  "(tx_step True)\<^sup>*\<^sup>* Pending (get_state (foldl (\<lambda>r op. tx_exec op r) reporter_new
     [MarkTransmitted, TryMarkDiscarded, MarkAcknowledged, TryMarkLost]))"
  using receipt_follows_state_machine [OF cell_ok_new(1), of "[MarkTransmitted, TryMarkDiscarded, MarkAcknowledged, TryMarkLost]"]
  by (simp add: reporter_new_def get_state_def from_raw_def)

end
