(* ===== verification/Ssi_Ranges.thy ===== *)
theory Ssi_Ranges
  imports Nexus_Prelude
begin

text \<open>
  The sorted, disjoint SSI ranges of \<^verbatim>\<open>crates/tetra-core/src/ranges.rs\<close>, which decide whether a
  subscriber identity is local to the cell.  The lookup stops early because the ranges are
  sorted; the lemmas show that it still agrees with plain membership in one of the given ranges,
  and that the constructor's assertions make the ranges disjoint.  The sum \<open>range.end + 1\<close> is
  \<open>u32\<close> arithmetic and wraps for a range that ends at the largest address, as it does in the release
  profile of the repository, which has no overflow checks; a build with them refuses such ranges.
\<close>

section \<open>The model\<close>

record ssi_range =
  r_start :: u32
  r_end :: u32

fun check_ranges :: "u32 \<Rightarrow> ssi_range list \<Rightarrow> bool" where
  "check_ranges lower_bound [] = True"
| "check_ranges lower_bound (rg # rest) =
     (r_start rg \<le> r_end rg \<and> r_start rg \<ge> lower_bound \<and> check_ranges (r_end rg + 1) rest)"

definition from_vec_ssirange :: "ssi_range list \<Rightarrow> ssi_range list option" where
  "from_vec_ssirange ranges =
     (let ranges = sort_key r_start ranges in if check_ranges 0 ranges then Some ranges else None)"

definition from_vec_tuple :: "(u32 \<times> u32) list \<Rightarrow> ssi_range list option" where
  "from_vec_tuple tuples = from_vec_ssirange (map (\<lambda>(s, e). \<lparr>r_start = s, r_end = e\<rparr>) tuples)"

fun contains :: "ssi_range list \<Rightarrow> u32 \<Rightarrow> bool" where
  "contains [] addr = False"
| "contains (rg # rest) addr =
     (if addr \<ge> r_start rg \<and> addr \<le> r_end rg then True
      else if r_end rg > addr then False
      else contains rest addr)"

section \<open>Lookup and disjointness\<close>

definition in_range :: "u32 \<Rightarrow> ssi_range \<Rightarrow> bool" where
  "in_range addr r \<longleftrightarrow> r_start r \<le> addr \<and> addr \<le> r_end r"

lemma check_ranges_ordered: "check_ranges lb rs \<Longrightarrow> r \<in> set rs \<Longrightarrow> r_start r \<le> r_end r"
  by (induction lb rs rule: check_ranges.induct) auto

lemma contains_iff:
  assumes "sorted (map r_start rs)" and "\<And>r. r \<in> set rs \<Longrightarrow> r_start r \<le> r_end r"
  shows "contains rs addr \<longleftrightarrow> (\<exists>r \<in> set rs. in_range addr r)"
  using assms
proof (induction rs)
  case (Cons r rs)
  show ?case
  proof (cases "in_range addr r")
    case True
    then show ?thesis by (simp add: in_range_def)
  next
    case False
    show ?thesis
    proof (cases "r_end r > addr")
      case True
      then have "addr < r_start r" using False by (auto simp: in_range_def)
      then have "\<forall>q \<in> set rs. addr < r_start q" using Cons.prems(1) by fastforce
      then have "\<not> (\<exists>q \<in> set (r # rs). in_range addr q)"
        using False by (auto simp: in_range_def leD)
      moreover have "\<not> contains (r # rs) addr" using True False by (auto simp: in_range_def)
      ultimately show ?thesis by blast
    next
      case False
      then show ?thesis using Cons \<open>\<not> in_range addr r\<close> by (auto simp: in_range_def)
    qed
  qed
qed simp

lemma from_vec_contains:
  assumes "from_vec_ssirange v = Some rs"
  shows "contains rs addr \<longleftrightarrow> (\<exists>r \<in> set v. in_range addr r)"
proof -
  have rs: "rs = sort_key r_start v" "check_ranges 0 rs"
    using assms by (auto simp: from_vec_ssirange_def Let_def split: if_splits)
  then have "contains rs addr \<longleftrightarrow> (\<exists>r \<in> set rs. in_range addr r)"
    using check_ranges_ordered [of 0 rs] by (intro contains_iff) auto
  then show ?thesis using rs(1) by simp
qed

lemma less_word_Suc:
  assumes "(x :: 'a::len word) \<noteq> - 1"
  shows "x < x + 1"
proof -
  have "unat x \<noteq> unat (- 1 :: 'a word)" using assms by (metis unsigned_word_eqI)
  moreover have "unat x < 2 ^ LENGTH('a)" by (rule unsigned_less)
  moreover have "unat (- 1 :: 'a word) = 2 ^ LENGTH('a) - 1"
    using unsigned_minus_1_eq_mask [where ?'b = 'a and ?'a = nat] by (simp add: mask_eq_exp_minus_1)
  ultimately have "unat x + 1 < 2 ^ LENGTH('a)" by linarith
  then show ?thesis by (simp add: word_less_nat_alt unat_word_ariths)
qed

lemma check_ranges_disjoint:
  assumes "check_ranges lb rs" and "\<And>r. r \<in> set rs \<Longrightarrow> r_end r \<noteq> - 1"
  shows "sorted_wrt (\<lambda>r q. r_end r < r_start q) rs" and "\<And>q. q \<in> set rs \<Longrightarrow> lb \<le> r_start q"
proof -
  have "sorted_wrt (\<lambda>r q. r_end r < r_start q) rs \<and> (\<forall>q \<in> set rs. lb \<le> r_start q)"
    using assms
  proof (induction lb rs rule: check_ranges.induct)
    case (2 lb r rs)
    then have IH: "sorted_wrt (\<lambda>r q. r_end r < r_start q) rs" "\<forall>q \<in> set rs. r_end r + 1 \<le> r_start q" by auto
    have "r_end r < r_end r + 1"
      using 2(3) [of r] by (intro less_word_Suc) simp
    then have "r_end r < r_start q" if "q \<in> set rs" for q using IH(2) that by fastforce
    moreover have "lb \<le> r_start r" "r_start r \<le> r_end r" using 2(2) by auto
    ultimately show ?case using IH(1) by fastforce
  qed simp
  then show "sorted_wrt (\<lambda>r q. r_end r < r_start q) rs" "\<And>q. q \<in> set rs \<Longrightarrow> lb \<le> r_start q" by auto
qed

section \<open>Properties\<close>

text \<open>C40: the early-exit lookup in the sorted ranges agrees with membership in one of the ranges
  the list was built from, in any order they were given.\<close>

theorem lookup_is_membership:
  assumes "from_vec_ssirange v = Some rs"
  shows "contains rs addr \<longleftrightarrow> (\<exists>r \<in> set v. in_range addr r)"
  by (rule from_vec_contains [OF assms])

theorem lookup_is_membership_witness:
  "contains [\<lparr>r_start = 10, r_end = 20\<rparr>, \<lparr>r_start = 30, r_end = 30\<rparr>] 30"
proof -
  have "from_vec_ssirange [\<lparr>r_start = 30, r_end = 30\<rparr>, \<lparr>r_start = 10, r_end = 20\<rparr>]
      = Some [\<lparr>r_start = 10, r_end = 20\<rparr>, \<lparr>r_start = 30, r_end = 30\<rparr>]"
    by (simp add: from_vec_ssirange_def Let_def)
  from lookup_is_membership [OF this, of 30] show ?thesis by (simp add: in_range_def)
qed

end
