(* ===== verification/Field_Codec.thy ===== *)
theory Field_Codec
  imports Codec
begin

unbundle bit_operations_syntax

text \<open>
  The field-level vocabulary of the PDU modules under \<^verbatim>\<open>crates/tetra-pdus/src\<close>: a field read with
  \<open>read_field(n, name)? as u8\<close> and its like, a flag read with \<open>!= 0\<close>, a field whose value is
  compared with a constant, an enumeration read through \<open>try_from\<close>, and an element behind a
  presence bit.  For each the theory has the encoder, the decoder and the rules that compose
  them; a PDU is a sequence of such fields, its bit string the concatenation of theirs.
\<close>

section \<open>Fields\<close>

definition read_as :: "nat \<Rightarrow> string \<Rightarrow> 'a::len word bbm" where
  "read_as n field = bindM (read_field n field) (\<lambda>v. retM (ucast v))"

definition read_flag :: "string \<Rightarrow> bool bbm" where
  "read_flag field = bindM (read_field 1 field) (\<lambda>v. retM (v \<noteq> 0))"

definition expect_value :: "nat \<Rightarrow> string \<Rightarrow> u64 \<Rightarrow> unit bbm" where
  "expect_value n field c = bindM (read_field n field) (\<lambda>v. if v \<noteq> c then errM (InvalidValue field v) else retM ())"

text \<open>\<open>assert_warn!(read_field(n, name)? == c, ..)\<close> only logs a mismatch.\<close>

definition warn_value :: "nat \<Rightarrow> string \<Rightarrow> unit bbm" where
  "warn_value n field = bindM (read_field n field) (\<lambda>_. retM ())"

definition read_enum :: "nat \<Rightarrow> string \<Rightarrow> (u64 \<Rightarrow> 'a option) \<Rightarrow> 'a bbm" where
  "read_enum n field try_from =
     bindM (read_field n field) (\<lambda>v. case try_from v of Some e \<Rightarrow> retM e | None \<Rightarrow> errM (InvalidValue field v))"

definition read_opt :: "string \<Rightarrow> 'a bbm \<Rightarrow> 'a option bbm" where
  "read_opt flag p = bindM (read_field 1 flag) (\<lambda>v. if v = 1 then bindM p (\<lambda>x. retM (Some x)) else retM None)"

definition write_as :: "'a::len word \<Rightarrow> nat \<Rightarrow> unit bbm" where
  "write_as v n = write_bits (ucast v) n"

definition write_flag :: "bool \<Rightarrow> unit bbm" where
  "write_flag b = write_bits (of_bool b) 1"

definition write_opt :: "('a \<Rightarrow> unit bbm) \<Rightarrow> 'a option \<Rightarrow> unit bbm" where
  "write_opt w x = (case x of Some v \<Rightarrow> thenM (write_bits 1 1) (w v) | None \<Rightarrow> write_bits 0 1)"

text \<open>The bit strings.\<close>

definition word_bits :: "nat \<Rightarrow> 'a::len word \<Rightarrow> bool list" where
  "word_bits n v = msb_bits n (ucast v :: u64)"

definition opt_bits :: "('a \<Rightarrow> bool list) \<Rightarrow> 'a option \<Rightarrow> bool list" where
  "opt_bits bits x = (case x of Some v \<Rightarrow> True # bits v | None \<Rightarrow> [False])"

definition opt_all :: "('a \<Rightarrow> bool) \<Rightarrow> 'a option \<Rightarrow> bool" where
  "opt_all valid x = (case x of Some v \<Rightarrow> valid v | None \<Rightarrow> True)"

text \<open>The value fits the field.\<close>

definition fits :: "nat \<Rightarrow> 'a::len word \<Rightarrow> bool" where
  "fits n v \<longleftrightarrow> unat v < 2 ^ n"

lemma length_word_bits [simp]: "length (word_bits n v) = n"
  by (simp add: word_bits_def)

lemma opt_all_simps [simp]: "opt_all P None" "opt_all P (Some v) = P v"
  by (simp_all add: opt_all_def)

lemma opt_bits_simps [simp]: "opt_bits f None = [False]" "opt_bits f (Some v) = True # f v"
  by (simp_all add: opt_bits_def)

lemma fits_less: "fits n v \<Longrightarrow> unat v < 2 ^ n"
  by (simp add: fits_def)

section \<open>Rules\<close>

lemma ucast_ucast_id: "LENGTH('a) \<le> LENGTH('b) \<Longrightarrow> ucast (ucast (w :: 'a::len word) :: 'b::len word) = w"
  by (rule bit_word_eqI) (auto simp: bit_ucast_iff)

lemma parses_as:
  "LENGTH('a) \<le> 64 \<Longrightarrow> n \<le> 64 \<Longrightarrow> fits n (w :: 'a::len word) \<Longrightarrow> parses (read_as n s) (word_bits n w) w"
  using parses_map [OF parses_field_val [of n "ucast w :: u64" s], where g = "ucast :: u64 \<Rightarrow> 'a word"]
  by (simp add: read_as_def word_bits_def fits_def ucast_ucast_id)

lemma parses_flag: "parses (read_flag s) [b] b"
  unfolding read_flag_def using parses_map [OF parses_field_bit [of s b], where g = "\<lambda>v. v \<noteq> 0"] by simp

lemma parses_expect:
  "n \<le> 64 \<Longrightarrow> unat c < 2 ^ n \<Longrightarrow> parses (expect_value n s c) (msb_bits n c) ()"
  unfolding expect_value_def by (rule parses_bind_end [OF parses_field_val]) (simp_all add: parses_ret)

lemma parses_warn: "n \<le> 64 \<Longrightarrow> length xs = n \<Longrightarrow> parses (warn_value n s) xs ()"
  unfolding warn_value_def by (rule parses_bind_end [OF parses_field parses_ret])

lemma parses_opt:
  assumes "\<And>v. x = Some v \<Longrightarrow> parses p (bits v) v"
  shows "parses (read_opt s p) (opt_bits bits x) x"
proof (cases x)
  case None
  have "parses (read_opt s p) [False] None"
    unfolding read_opt_def by (rule parses_bind_end [OF parses_field_bit]) (simp add: parses_ret)
  then show ?thesis using None by simp
next
  case (Some v)
  then have "parses (bindM p (\<lambda>x. retM (Some x))) (bits v) (Some v)" using assms by (intro parses_map)
  then have "parses (read_opt s p) (True # bits v) (Some v)"
    unfolding read_opt_def by (intro parses_bind_Cons [OF parses_field_bit]) simp
  then show ?thesis using Some by simp
qed

lemma emits_as:
  "LENGTH('a) \<le> 64 \<Longrightarrow> n \<le> 64 \<Longrightarrow> fits n (w :: 'a::len word) \<Longrightarrow> emits (write_as w n) (word_bits n w)"
  unfolding write_as_def word_bits_def by (rule emits_bits) (simp_all add: fits_def)

lemma emits_flag: "emits (write_flag b) [b]"
  unfolding write_flag_def by (rule emits_bits_1)

lemma emits_const: "n \<le> 64 \<Longrightarrow> unat c < 2 ^ n \<Longrightarrow> emits (write_bits c n) (msb_bits n c)"
  by (rule emits_bits)

lemma emits_opt:
  assumes "\<And>v. x = Some v \<Longrightarrow> emits (w v) (bits v)"
  shows "emits (write_opt w x) (opt_bits bits x)"
proof (cases x)
  case None
  then show ?thesis using emits_bits_1 [of False] by (simp add: write_opt_def)
next
  case (Some v)
  then show ?thesis using emits_then_Cons [OF emits_bits_1 [of True]] assms by (simp add: write_opt_def)
qed

text \<open>A PDU is a sequence of segments.\<close>

lemma parses_seg: "parses p x a \<Longrightarrow> parses (f a) (concat xs) v \<Longrightarrow> parses (bindM p f) (concat (x # xs)) v"
  by (simp add: parses_bind)

lemma parses_seg2:
  "parses p x (a, b) \<Longrightarrow> parses (f a b) (concat xs) v \<Longrightarrow> parses (bindM p (\<lambda>(a, b). f a b)) (concat (x # xs)) v"
  by (rule parses_seg [where a = "(a, b)"]) simp_all

lemma parses_seg3:
  "parses p x (a, b, c) \<Longrightarrow> parses (f a b c) (concat xs) v \<Longrightarrow>
    parses (bindM p (\<lambda>(a, b, c). f a b c)) (concat (x # xs)) v"
  by (rule parses_seg [where a = "(a, b, c)"]) simp_all

lemma parses_done: "v = w \<Longrightarrow> parses (retM v) (concat []) w"
  by (simp add: parses_ret)

lemma emits_seg: "emits v x \<Longrightarrow> emits w (concat xs) \<Longrightarrow> emits (thenM v w) (concat (x # xs))"
  by (simp add: emits_then)

lemma emits_done: "emits v x \<Longrightarrow> emits v (concat [x])"
  by simp

text \<open>One rule per kind of field, for \<open>intro\<close>.\<close>

named_theorems seg_rules

lemmas [seg_rules] = parses_seg [OF parses_as] parses_seg [OF parses_flag] parses_seg [OF parses_expect] parses_seg [OF parses_warn] parses_done
  emits_seg emits_as emits_flag emits_const

lemma parses_seg_opt [seg_rules]:
  "(\<And>v. x = Some v \<Longrightarrow> parses p (bits v) v) \<Longrightarrow> parses (f x) (concat xs) w \<Longrightarrow>
    parses (bindM (read_opt s p) f) (concat (opt_bits bits x # xs)) w"
  by (intro parses_seg [OF parses_opt])

lemma parses_guard [seg_rules]: "\<not> c \<Longrightarrow> parses q xs v \<Longrightarrow> parses (if c then errM e else q) xs v"
  by simp

lemma emits_const_bit [seg_rules]: "emits (write_bits 0 1) [False]" "emits (write_bits 1 1) [True]"
  using emits_bits_1 [of False] emits_bits_1 [of True] by simp_all

lemma safe_fields [safe_rules]:
  "safe (read_as n s)" "safe (read_flag s)" "safe (expect_value n s c)" "safe (warn_value n s)" "safe (read_enum n s f)"
  "safe p \<Longrightarrow> safe (read_opt s p)"
  unfolding read_as_def read_flag_def expect_value_def warn_value_def read_enum_def read_opt_def by (intro safe_rules; simp)+

context pdu_codec
begin

lemma parses_seg_dec:
  "valid v \<Longrightarrow> parses (f (norm v)) (concat xs) w \<Longrightarrow> parses (bindM dec f) (concat (bits v # xs)) w"
  by (rule parses_seg [OF dec_parses])

end

section \<open>Enumerations with a raw encoding\<close>

text \<open>What an enumeration with \<open>try_from\<close> and \<open>into_raw\<close> promises: the raw value of every
  well-formed value fits the field and is converted back.\<close>

locale raw_enum =
  fixes try_from :: "u64 \<Rightarrow> 'a option"
    and into_raw :: "'a \<Rightarrow> u64"
    and wf :: "'a \<Rightarrow> bool"
    and width :: nat
  assumes try_from_raw: "wf e \<Longrightarrow> try_from (into_raw e) = Some e"
    and raw_width: "wf e \<Longrightarrow> unat (into_raw e) < 2 ^ width"
    and width_64: "width \<le> 64"
begin

lemma parses_enum: "wf e \<Longrightarrow> parses (read_enum width s try_from) (msb_bits width (into_raw e)) e"
  unfolding read_enum_def
  by (rule parses_bind_end [OF parses_field_val]) (simp_all add: width_64 raw_width try_from_raw parses_ret)

lemma parses_seg_enum:
  "wf e \<Longrightarrow> parses (f e) (concat xs) v \<Longrightarrow>
    parses (bindM (read_enum width s try_from) f) (concat (msb_bits width (into_raw e) # xs)) v"
  by (rule parses_seg [OF parses_enum])

lemma emits_enum: "wf e \<Longrightarrow> emits (write_bits (into_raw e) width) (msb_bits width (into_raw e))"
  by (intro emits_bits width_64 raw_width)

end

end
