(* ===== verification/Mac_Fields.thy ===== *)
theory Mac_Fields
  imports Field_Codec
begin

unbundle bit_operations_syntax

text \<open>
  Addresses and the information elements shared by the downlink MAC PDUs:
  \<^verbatim>\<open>crates/tetra-core/src/address.rs\<close>, \<^verbatim>\<open>crates/tetra-pdus/src/umac/enums\<close>,
  \<^verbatim>\<open>crates/tetra-pdus/src/umac/fields/basic_slotgrant.rs\<close> and \<^verbatim>\<open>channel_allocation.rs\<close>, with
  the enumerations of \<^verbatim>\<open>crates/tetra-saps/src/lcmc/enums\<close>.  Each enumeration interprets
  \<open>raw_enum\<close>, and each element is an interpretation of \<open>pdu_codec\<close>.
\<close>

section \<open>Addresses\<close>

datatype ssi_type = UnknownSsi | Ssi | Issi | Gssi | Ussi | Smi | Esi | EventLabelSsi

record tetra_address =
  ssi :: u32
  ssi_type :: ssi_type

definition address_new :: "u32 \<Rightarrow> ssi_type \<Rightarrow> tetra_address" where
  "address_new s t = \<lparr>ssi = s, ssi_type = t\<rparr>"

definition address_issi :: "u32 \<Rightarrow> tetra_address" where
  "address_issi s = address_new s Issi"

section \<open>Basic slot granting\<close>

datatype basic_slotgrant_cap_alloc =
  FirstSubslotGranted | Grant1Slot | Grant2Slots | Grant3Slots | Grant4Slots | Grant5Slots | Grant6Slots
| Grant8Slots | Grant10Slots | Grant13Slots | Grant17Slots | Grant24Slots | Grant34Slots | Grant51Slots
| Grant68Slots | SecondSubslotGranted

definition cap_alloc_try_from :: "u64 \<Rightarrow> basic_slotgrant_cap_alloc option" where
  "cap_alloc_try_from x =
     (if x = 0 then Some FirstSubslotGranted else if x = 1 then Some Grant1Slot
      else if x = 2 then Some Grant2Slots else if x = 3 then Some Grant3Slots
      else if x = 4 then Some Grant4Slots else if x = 5 then Some Grant5Slots
      else if x = 6 then Some Grant6Slots else if x = 7 then Some Grant8Slots
      else if x = 8 then Some Grant10Slots else if x = 9 then Some Grant13Slots
      else if x = 10 then Some Grant17Slots else if x = 11 then Some Grant24Slots
      else if x = 12 then Some Grant34Slots else if x = 13 then Some Grant51Slots
      else if x = 14 then Some Grant68Slots else if x = 15 then Some SecondSubslotGranted else None)"

fun cap_alloc_into_raw :: "basic_slotgrant_cap_alloc \<Rightarrow> u64" where
  "cap_alloc_into_raw FirstSubslotGranted = 0"
| "cap_alloc_into_raw Grant1Slot = 1"
| "cap_alloc_into_raw Grant2Slots = 2"
| "cap_alloc_into_raw Grant3Slots = 3"
| "cap_alloc_into_raw Grant4Slots = 4"
| "cap_alloc_into_raw Grant5Slots = 5"
| "cap_alloc_into_raw Grant6Slots = 6"
| "cap_alloc_into_raw Grant8Slots = 7"
| "cap_alloc_into_raw Grant10Slots = 8"
| "cap_alloc_into_raw Grant13Slots = 9"
| "cap_alloc_into_raw Grant17Slots = 10"
| "cap_alloc_into_raw Grant24Slots = 11"
| "cap_alloc_into_raw Grant34Slots = 12"
| "cap_alloc_into_raw Grant51Slots = 13"
| "cap_alloc_into_raw Grant68Slots = 14"
| "cap_alloc_into_raw SecondSubslotGranted = 15"

definition try_from_req_slotcount :: "nat \<Rightarrow> basic_slotgrant_cap_alloc option" where
  "try_from_req_slotcount req =
     (if req = 0 then Some FirstSubslotGranted else if req = 1 then Some Grant1Slot
      else if req = 2 then Some Grant2Slots else if req = 3 then Some Grant3Slots
      else if req = 4 then Some Grant4Slots else if req = 5 then Some Grant5Slots
      else if req = 6 then Some Grant6Slots else if 7 \<le> req \<and> req \<le> 8 then Some Grant8Slots
      else if 9 \<le> req \<and> req \<le> 10 then Some Grant10Slots else if 11 \<le> req \<and> req \<le> 13 then Some Grant13Slots
      else if 14 \<le> req \<and> req \<le> 17 then Some Grant17Slots else if 18 \<le> req \<and> req \<le> 24 then Some Grant24Slots
      else if 25 \<le> req \<and> req \<le> 34 then Some Grant34Slots else if 35 \<le> req \<and> req \<le> 51 then Some Grant51Slots
      else if 52 \<le> req \<and> req \<le> 68 then Some Grant68Slots else if req = 99 then Some SecondSubslotGranted
      else None)"

definition from_req_slotcount :: "nat \<Rightarrow> basic_slotgrant_cap_alloc" where
  "from_req_slotcount req = (case try_from_req_slotcount req of Some cap_alloc \<Rightarrow> cap_alloc | None \<Rightarrow> Grant68Slots)"

fun to_req_slotcount :: "basic_slotgrant_cap_alloc \<Rightarrow> nat" where
  "to_req_slotcount FirstSubslotGranted = 0"
| "to_req_slotcount Grant1Slot = 1"
| "to_req_slotcount Grant2Slots = 2"
| "to_req_slotcount Grant3Slots = 3"
| "to_req_slotcount Grant4Slots = 4"
| "to_req_slotcount Grant5Slots = 5"
| "to_req_slotcount Grant6Slots = 6"
| "to_req_slotcount Grant8Slots = 8"
| "to_req_slotcount Grant10Slots = 10"
| "to_req_slotcount Grant13Slots = 13"
| "to_req_slotcount Grant17Slots = 17"
| "to_req_slotcount Grant24Slots = 24"
| "to_req_slotcount Grant34Slots = 34"
| "to_req_slotcount Grant51Slots = 51"
| "to_req_slotcount Grant68Slots = 68"
| "to_req_slotcount SecondSubslotGranted = 99"

datatype basic_slotgrant_granting_delay =
  CapAllocAtNextOpportunity | DelayNOpportunities u8 | AllocStartsAtOpportunityInFr18 | WaitForAnotherSlotgrantMessage

definition granting_delay_try_from :: "u64 \<Rightarrow> basic_slotgrant_granting_delay option" where
  "granting_delay_try_from x =
     (if x = 0 then Some CapAllocAtNextOpportunity
      else if 1 \<le> x \<and> x \<le> 13 then Some (DelayNOpportunities (ucast x))
      else if x = 14 then Some AllocStartsAtOpportunityInFr18
      else if x = 15 then Some WaitForAnotherSlotgrantMessage else None)"

fun granting_delay_into_raw :: "basic_slotgrant_granting_delay \<Rightarrow> u64" where
  "granting_delay_into_raw CapAllocAtNextOpportunity = 0"
| "granting_delay_into_raw (DelayNOpportunities n) = ucast n"
| "granting_delay_into_raw AllocStartsAtOpportunityInFr18 = 14"
| "granting_delay_into_raw WaitForAnotherSlotgrantMessage = 15"

record basic_slotgrant =
  capacity_allocation :: basic_slotgrant_cap_alloc
  granting_delay :: basic_slotgrant_granting_delay

definition slotgrant_from_bitbuf :: "basic_slotgrant bbm" where
  "slotgrant_from_bitbuf =
     bindM (read_enum 4 ''capacity_allocation'' cap_alloc_try_from) (\<lambda>c.
     bindM (read_enum 4 ''granting_delay'' granting_delay_try_from) (\<lambda>d.
     retM \<lparr>capacity_allocation = c, granting_delay = d\<rparr>))"

definition slotgrant_to_bitbuf :: "basic_slotgrant \<Rightarrow> unit bbm" where
  "slotgrant_to_bitbuf s =
     thenM (write_bits (cap_alloc_into_raw (capacity_allocation s)) 4)
           (write_bits (granting_delay_into_raw (granting_delay s)) 4)"

section \<open>Channel allocation\<close>

datatype chan_alloc_type = Replace | Additional | QuitAndGo | ReplaceWithCarrierSignalling

definition alloc_type_try_from :: "u64 \<Rightarrow> chan_alloc_type option" where
  "alloc_type_try_from x =
     (if x = 0 then Some Replace else if x = 1 then Some Additional else if x = 2 then Some QuitAndGo
      else if x = 3 then Some ReplaceWithCarrierSignalling else None)"

fun alloc_type_into_raw :: "chan_alloc_type \<Rightarrow> u64" where
  "alloc_type_into_raw Replace = 0"
| "alloc_type_into_raw Additional = 1"
| "alloc_type_into_raw QuitAndGo = 2"
| "alloc_type_into_raw ReplaceWithCarrierSignalling = 3"

datatype ul_dl_assignment = Augmented | Dl | Ul | Both

definition ul_dl_try_from :: "u64 \<Rightarrow> ul_dl_assignment option" where
  "ul_dl_try_from x =
     (if x = 0 then Some Augmented else if x = 1 then Some Dl else if x = 2 then Some Ul
      else if x = 3 then Some Both else None)"

fun ul_dl_into_raw :: "ul_dl_assignment \<Rightarrow> u64" where
  "ul_dl_into_raw Augmented = 0"
| "ul_dl_into_raw Dl = 1"
| "ul_dl_into_raw Ul = 2"
| "ul_dl_into_raw Both = 3"

record chan_alloc_element =
  alloc_type :: chan_alloc_type
  ts_assigned :: "bool \<times> bool \<times> bool \<times> bool"
  ul_dl_assigned :: ul_dl_assignment
  clch_permission :: bool
  cell_change_flag :: bool
  carrier_num :: u16
  ext :: "int option"
  mon_pattern :: u8
  frame18_mon_pattern :: "u8 option"

definition is_supported_by_this_stack :: "chan_alloc_element \<Rightarrow> bool" where
  "is_supported_by_this_stack c \<longleftrightarrow> ext c = None \<and> ul_dl_assigned c \<noteq> Augmented"

definition ts_of_bitmap :: "u8 \<Rightarrow> bool \<times> bool \<times> bool \<times> bool" where
  "ts_of_bitmap bitmap = (bitmap AND 8 \<noteq> 0, bitmap AND 4 \<noteq> 0, bitmap AND 2 \<noteq> 0, bitmap AND 1 \<noteq> 0)"

definition chan_alloc_from_bitbuf :: "chan_alloc_element bbm" where
  "chan_alloc_from_bitbuf =
     bindM (read_enum 2 ''alloc_type'' alloc_type_try_from) (\<lambda>at.
     bindM (read_as 4 ''ts_assigned'') (\<lambda>bitmap.
     bindM (read_enum 2 ''ul_dl_assigned'' ul_dl_try_from) (\<lambda>ud.
     if ud = Augmented then errM (NotImplemented (Some ''augmented_channel_allocation''))
     else
     bindM (read_flag ''clch_permission'') (\<lambda>clch.
     bindM (read_flag ''cell_change_flag'') (\<lambda>cell.
     bindM (read_as 12 ''carrier_num'') (\<lambda>carrier.
     bindM (read_field 1 ''ext_carrier_num_flag'') (\<lambda>ext_flag.
     if ext_flag = 1 then errM (NotImplemented (Some ''extended_carrier_numbering''))
     else
     bindM (read_as 2 ''mon_pattern'') (\<lambda>mon.
     bindM (if mon = 0 then bindM (read_as 2 ''frame18_mon_pattern'') (\<lambda>v. retM (Some v)) else retM None) (\<lambda>f18.
     retM \<lparr>alloc_type = at, ts_assigned = ts_of_bitmap bitmap, ul_dl_assigned = ud, clch_permission = clch,
       cell_change_flag = cell, carrier_num = carrier, ext = None, mon_pattern = mon,
       frame18_mon_pattern = f18\<rparr>)))))))))"

text \<open>The branches behind the first test that ask again for an extended carrier number or an
  augmented assignment are not reachable and write nothing more.\<close>

definition chan_alloc_to_bitbuf :: "chan_alloc_element \<Rightarrow> unit bbm" where
  "chan_alloc_to_bitbuf c =
     (if \<not> is_supported_by_this_stack c then retM ()
      else
        thenM (write_bits (alloc_type_into_raw (alloc_type c)) 2)
       (thenM (case ts_assigned c of (t1, t2, t3, t4) \<Rightarrow> forM [t1, t2, t3, t4] write_flag)
       (thenM (write_bits (ul_dl_into_raw (ul_dl_assigned c)) 2)
       (thenM (write_flag (clch_permission c))
       (thenM (write_flag (cell_change_flag c))
       (thenM (write_as (carrier_num c) 12)
       (thenM (write_bits 0 1)
       (thenM (write_as (mon_pattern c) 2)
       (if mon_pattern c = 0
        then (case frame18_mon_pattern c of Some v \<Rightarrow> write_as v 2 | None \<Rightarrow> panicM)
        else retM ())))))))))"

definition chan_alloc_compute_len :: "chan_alloc_element \<Rightarrow> nat" where
  "chan_alloc_compute_len c =
     (if \<not> is_supported_by_this_stack c then 0
      else 2 + 4 + 2 + 1 + 1 + 12 + 1 + 2 + (if mon_pattern c = 0 then 2 else 0))"

section \<open>The enumerations are raw encodings\<close>

lemma cap_alloc_raw: "cap_alloc_try_from (cap_alloc_into_raw e) = Some e" "unat (cap_alloc_into_raw e) < 16"
  by (cases e; simp add: cap_alloc_try_from_def)+

interpretation cap_alloc: raw_enum cap_alloc_try_from cap_alloc_into_raw "\<lambda>_. True" 4
  by unfold_locales (simp_all add: cap_alloc_raw)

definition granting_delay_wf :: "basic_slotgrant_granting_delay \<Rightarrow> bool" where
  "granting_delay_wf d \<longleftrightarrow> (case d of DelayNOpportunities n \<Rightarrow> 1 \<le> n \<and> n \<le> 13 | _ \<Rightarrow> True)"

lemma granting_delay_raw:
  assumes "granting_delay_wf d"
  shows "granting_delay_try_from (granting_delay_into_raw d) = Some d" and "unat (granting_delay_into_raw d) < 16"
proof -
  show "granting_delay_try_from (granting_delay_into_raw d) = Some d"
  proof (cases d)
    case (DelayNOpportunities n)
    then have n: "1 \<le> unat n" "unat n \<le> 13" using assms by (simp_all add: granting_delay_wf_def word_le_nat_alt)
    then have "(ucast n :: u64) \<noteq> 0" "1 \<le> (ucast n :: u64)" "(ucast n :: u64) \<le> 13"
      by (auto simp: word_le_nat_alt unat_eq_0 [symmetric] simp del: unat_eq_0)
    then show ?thesis using DelayNOpportunities by (simp add: granting_delay_try_from_def)
  qed (simp_all add: granting_delay_try_from_def)
  show "unat (granting_delay_into_raw d) < 16"
    using assms by (cases d) (simp_all add: granting_delay_wf_def word_le_nat_alt)
qed

interpretation granting_delay: raw_enum granting_delay_try_from granting_delay_into_raw granting_delay_wf 4
  by unfold_locales (simp_all add: granting_delay_raw)

lemma alloc_type_raw: "alloc_type_try_from (alloc_type_into_raw e) = Some e" "unat (alloc_type_into_raw e) < 4"
  by (cases e; simp add: alloc_type_try_from_def)+

interpretation alloc_type: raw_enum alloc_type_try_from alloc_type_into_raw "\<lambda>_. True" 2
  by unfold_locales (simp_all add: alloc_type_raw)

lemma ul_dl_raw: "ul_dl_try_from (ul_dl_into_raw e) = Some e" "unat (ul_dl_into_raw e) < 4"
  by (cases e; simp add: ul_dl_try_from_def)+

interpretation ul_dl: raw_enum ul_dl_try_from ul_dl_into_raw "\<lambda>_. True" 2
  by unfold_locales (simp_all add: ul_dl_raw)

section \<open>The elements are codecs\<close>

definition slotgrant_valid :: "basic_slotgrant \<Rightarrow> bool" where
  "slotgrant_valid s \<longleftrightarrow> granting_delay_wf (granting_delay s)"

definition slotgrant_bits :: "basic_slotgrant \<Rightarrow> bool list" where
  "slotgrant_bits s = concat
     [msb_bits 4 (cap_alloc_into_raw (capacity_allocation s)), msb_bits 4 (granting_delay_into_raw (granting_delay s))]"

lemma length_slotgrant_bits [simp]: "length (slotgrant_bits s) = 8"
  by (simp add: slotgrant_bits_def)

interpretation slotgrant: pdu_codec slotgrant_to_bitbuf slotgrant_from_bitbuf slotgrant_valid slotgrant_bits id
proof
  fix s assume v: "slotgrant_valid s"
  show "emits (slotgrant_to_bitbuf s) (slotgrant_bits s)"
    unfolding slotgrant_to_bitbuf_def slotgrant_bits_def
    using v by (intro emits_seg emits_done cap_alloc.emits_enum granting_delay.emits_enum) (simp_all add: slotgrant_valid_def)
  show "parses slotgrant_from_bitbuf (slotgrant_bits s) (id s)"
    unfolding slotgrant_from_bitbuf_def slotgrant_bits_def
    using v by (intro cap_alloc.parses_seg_enum granting_delay.parses_seg_enum seg_rules) (simp_all add: slotgrant_valid_def)
qed

lemma safe_slotgrant [safe_rules]: "safe slotgrant_from_bitbuf"
  unfolding slotgrant_from_bitbuf_def by (intro safe_rules)

text \<open>A channel allocation that the stack can write: supported, its numbers in range, and the
  frame 18 pattern present exactly when the monitoring pattern asks for it.\<close>

definition chan_alloc_valid :: "chan_alloc_element \<Rightarrow> bool" where
  "chan_alloc_valid c \<longleftrightarrow> is_supported_by_this_stack c \<and> fits 12 (carrier_num c) \<and> fits 2 (mon_pattern c)
     \<and> (case frame18_mon_pattern c of None \<Rightarrow> mon_pattern c \<noteq> 0 | Some f \<Rightarrow> mon_pattern c = 0 \<and> fits 2 f)"

definition ts_bits :: "bool \<times> bool \<times> bool \<times> bool \<Rightarrow> bool list" where
  "ts_bits ts = (case ts of (t1, t2, t3, t4) \<Rightarrow> [t1, t2, t3, t4])"

definition f18_bits :: "u8 option \<Rightarrow> bool list" where
  "f18_bits f18 = (case f18 of None \<Rightarrow> [] | Some f \<Rightarrow> word_bits 2 f)"

definition chan_alloc_bits :: "chan_alloc_element \<Rightarrow> bool list" where
  "chan_alloc_bits c = concat
     [msb_bits 2 (alloc_type_into_raw (alloc_type c)), ts_bits (ts_assigned c), msb_bits 2 (ul_dl_into_raw (ul_dl_assigned c)),
      [clch_permission c], [cell_change_flag c], word_bits 12 (carrier_num c), [False], word_bits 2 (mon_pattern c),
      f18_bits (frame18_mon_pattern c)]"

lemma length_chan_alloc_bits: "chan_alloc_valid c \<Longrightarrow> length (chan_alloc_bits c) = chan_alloc_compute_len c"
  by (auto simp: chan_alloc_bits_def chan_alloc_valid_def chan_alloc_compute_len_def ts_bits_def f18_bits_def
      split: option.splits prod.split)

lemma emits_ts: "emits (case ts of (t1, t2, t3, t4) \<Rightarrow> forM [t1, t2, t3, t4] write_flag) (ts_bits ts)"
  unfolding ts_bits_def by (cases ts) (auto intro!: emits_then_Cons emits_flag emits_ret)

lemma parses_ts: "parses (bindM (read_as 4 s) (\<lambda>bitmap. f (ts_of_bitmap bitmap))) (ts_bits ts @ xs) v"
  if "parses (f ts) xs v"
proof -
  obtain a b c d where ts: "ts = (a, b, c, d)" by (cases ts) auto
  let ?w = "of_bits [a, b, c, d] :: u8"
  have "msb_bits 4 ?w = [a, b, c, d]"
    using msb_bits_of_bits [of "[a, b, c, d]", where 'a = 8] by (simp add: eval_nat_numeral)
  then have "word_bits 4 ?w = ts_bits ts" by (simp add: ts ts_bits_def word_bits_def msb_bits_ucast)
  moreover have "fits 4 ?w" using of_bits_less [of "[a, b, c, d]", where 'a = 8] by (simp add: fits_def)
  ultimately have "parses (read_as 4 s) (ts_bits ts) ?w" using parses_as [of 4 ?w s] by simp
  moreover have "ts_of_bitmap ?w = ts"
    by (cases a; cases b; cases c; cases d; simp add: ts ts_of_bitmap_def of_bits_def)
  ultimately show ?thesis using that by (intro parses_bind [of _ _ ?w]) simp_all
qed

lemma emits_f18:
  assumes "case f18 of None \<Rightarrow> mon \<noteq> 0 | Some f \<Rightarrow> mon = 0 \<and> fits 2 f"
  shows "emits (if mon = (0 :: u8) then (case f18 of Some v \<Rightarrow> write_as v 2 | None \<Rightarrow> panicM) else retM ()) (f18_bits f18)"
  using assms by (auto simp: f18_bits_def emits_ret intro!: emits_as split: option.splits)

lemma parses_f18:
  assumes "case f18 of None \<Rightarrow> mon \<noteq> 0 | Some f \<Rightarrow> mon = 0 \<and> fits 2 f"
  shows "parses (if mon = (0 :: u8) then bindM (read_as 2 s) (\<lambda>v. retM (Some v)) else retM None) (f18_bits f18) f18"
proof (cases f18)
  case (Some f)
  then have "parses (bindM (read_as 2 s) (\<lambda>v. retM (Some v))) (word_bits 2 f) (Some f)"
    using assms by (intro parses_map parses_as) simp_all
  then show ?thesis using Some assms by (simp add: f18_bits_def)
qed (use assms in \<open>simp add: f18_bits_def parses_ret\<close>)

interpretation chan_alloc: pdu_codec chan_alloc_to_bitbuf chan_alloc_from_bitbuf chan_alloc_valid chan_alloc_bits id
proof
  fix c assume v: "chan_alloc_valid c"
  have sup: "\<not> \<not> is_supported_by_this_stack c" "ext c = None" "(ul_dl_assigned c = Augmented) = False"
    using v by (simp_all add: chan_alloc_valid_def is_supported_by_this_stack_def)
  have r: "fits 12 (carrier_num c)" "fits 2 (mon_pattern c)"
    "case frame18_mon_pattern c of None \<Rightarrow> mon_pattern c \<noteq> 0 | Some f \<Rightarrow> mon_pattern c = 0 \<and> fits 2 f"
    using v by (simp_all add: chan_alloc_valid_def)
  show "emits (chan_alloc_to_bitbuf c) (chan_alloc_bits c)"
    unfolding chan_alloc_to_bitbuf_def chan_alloc_bits_def if_not_P [OF sup(1)]
    by (intro emits_seg emits_done alloc_type.emits_enum emits_ts ul_dl.emits_enum emits_f18 r seg_rules) simp_all
  have "parses chan_alloc_from_bitbuf (chan_alloc_bits c) \<lparr>alloc_type = alloc_type c, ts_assigned = ts_assigned c,
      ul_dl_assigned = ul_dl_assigned c, clch_permission = clch_permission c, cell_change_flag = cell_change_flag c,
      carrier_num = carrier_num c, ext = None, mon_pattern = mon_pattern c, frame18_mon_pattern = frame18_mon_pattern c\<rparr>"
    unfolding chan_alloc_from_bitbuf_def chan_alloc_bits_def
    apply (rule alloc_type.parses_seg_enum, simp)
    apply (subst concat.simps(2), rule parses_ts)
    apply (rule ul_dl.parses_seg_enum, simp)
    apply (simp only: sup if_False)
    apply (intro seg_rules r, simp, simp)
    apply (rule parses_seg [OF parses_field_bit], simp only: of_bool_eq zero_neq_one if_False)
    apply (intro parses_seg [OF parses_as] parses_seg [OF parses_f18] parses_done r)
      apply simp_all
    done
  then show "parses chan_alloc_from_bitbuf (chan_alloc_bits c) (id c)" using sup(2) by (cases c) simp
qed

lemma safe_chan_alloc [safe_rules]: "safe chan_alloc_from_bitbuf"
  unfolding chan_alloc_from_bitbuf_def by (intro safe_rules)

end
