(* ===== verification/Mac_Dl.thy ===== *)
theory Mac_Dl
  imports Mac_Fields
begin

unbundle bit_operations_syntax

text \<open>
  The downlink MAC PDUs that carry a TM-SDU: \<^verbatim>\<open>mac_resource.rs\<close>, \<^verbatim>\<open>mac_frag_dl.rs\<close> and
  \<^verbatim>\<open>mac_end_dl.rs\<close> under \<^verbatim>\<open>crates/tetra-pdus/src/umac/pdus\<close>.  Each PDU is an interpretation of
  \<open>pdu_codec\<close>; the lengths that the headers announce are the lengths that are written.
\<close>

section \<open>MAC-RESOURCE\<close>

datatype mac_resource_addr_type =
  NullPdu | AddrSsi | AddrEventLabel | AddrUssi | AddrSmi | SsiAndEventLabel | SsiAndUsageMarker | SmiAndEventLabel

definition addr_type_try_from :: "u64 \<Rightarrow> mac_resource_addr_type option" where
  "addr_type_try_from x =
     (if x = 0 then Some NullPdu else if x = 1 then Some AddrSsi else if x = 2 then Some AddrEventLabel
      else if x = 3 then Some AddrUssi else if x = 4 then Some AddrSmi else if x = 5 then Some SsiAndEventLabel
      else if x = 6 then Some SsiAndUsageMarker else if x = 7 then Some SmiAndEventLabel else None)"

fun addr_type_into_raw :: "mac_resource_addr_type \<Rightarrow> u64" where
  "addr_type_into_raw NullPdu = 0"
| "addr_type_into_raw AddrSsi = 1"
| "addr_type_into_raw AddrEventLabel = 2"
| "addr_type_into_raw AddrUssi = 3"
| "addr_type_into_raw AddrSmi = 4"
| "addr_type_into_raw SsiAndEventLabel = 5"
| "addr_type_into_raw SsiAndUsageMarker = 6"
| "addr_type_into_raw SmiAndEventLabel = 7"

record mac_resource =
  res_fill_bits :: bool
  res_pos_of_grant :: u8
  encryption_mode :: u8
  random_access_flag :: bool
  res_length_ind :: u8
  addr :: "tetra_address option"
  event_label :: "u16 option"
  usage_marker :: "u8 option"
  power_control_element :: "u8 option"
  res_slot_granting :: "basic_slotgrant option"
  res_chan_alloc :: "chan_alloc_element option"

definition null_pdu :: mac_resource where
  "null_pdu = \<lparr>res_fill_bits = False, res_pos_of_grant = 0, encryption_mode = 0, random_access_flag = False,
     res_length_ind = 2, addr = None, event_label = None, usage_marker = None, power_control_element = None,
     res_slot_granting = None, res_chan_alloc = None\<rparr>"

definition read_addr :: "string \<Rightarrow> ssi_type \<Rightarrow> tetra_address bbm" where
  "read_addr field t = bindM (read_as 24 field) (\<lambda>v. retM \<lparr>ssi = v, ssi_type = t\<rparr>)"

text \<open>The match on the address type: the address, the event label and the usage marker.\<close>

fun read_addr_fields :: "mac_resource_addr_type \<Rightarrow> (tetra_address option \<times> u16 option \<times> u8 option) bbm" where
  "read_addr_fields NullPdu = retM (None, None, None)"
| "read_addr_fields AddrSsi = bindM (read_addr ''ssi'' Ssi) (\<lambda>a. retM (Some a, None, None))"
| "read_addr_fields AddrEventLabel = bindM (read_as 10 ''event_label'') (\<lambda>l. retM (None, Some l, None))"
| "read_addr_fields AddrUssi = bindM (read_addr ''ussi'' Ussi) (\<lambda>a. retM (Some a, None, None))"
| "read_addr_fields AddrSmi = bindM (read_addr ''smi'' Smi) (\<lambda>a. retM (Some a, None, None))"
| "read_addr_fields SsiAndEventLabel =
     bindM (read_addr ''ssi'' Ssi) (\<lambda>a. bindM (read_as 10 ''event_label'') (\<lambda>l. retM (Some a, Some l, None)))"
| "read_addr_fields SsiAndUsageMarker =
     bindM (read_addr ''ssi'' Ssi) (\<lambda>a. bindM (read_as 6 ''usage_marker'') (\<lambda>u. retM (Some a, None, Some u)))"
| "read_addr_fields SmiAndEventLabel =
     bindM (read_addr ''smi'' Smi) (\<lambda>a. bindM (read_as 10 ''event_label'') (\<lambda>l. retM (Some a, Some l, None)))"

definition resource_from_bitbuf :: "mac_resource bbm" where
  "resource_from_bitbuf =
     thenM (expect_value 2 ''mac_pdu_type'' 0)
    (bindM (read_flag ''fill_bits'') (\<lambda>fill.
     bindM (read_as 1 ''pos_of_grant'') (\<lambda>pos.
     bindM (read_as 2 ''encryption_mode'') (\<lambda>enc.
     bindM (read_flag ''random_access_flag'') (\<lambda>ra.
     bindM (read_as 6 ''length_ind'') (\<lambda>len.
     bindM (read_enum 3 ''addr_type'' addr_type_try_from) (\<lambda>addr_type.
     bindM (read_addr_fields addr_type) (\<lambda>(a, l, u).
     if addr_type = NullPdu
     then retM (null_pdu\<lparr>res_length_ind := len\<rparr>)
     else
     bindM (read_opt ''power_control_flag'' (read_as 4 ''power_control_element'')) (\<lambda>pc.
     bindM (read_opt ''slot_granting_flag'' slotgrant_from_bitbuf) (\<lambda>sg.
     bindM (read_opt ''chan_alloc_flag'' chan_alloc_from_bitbuf) (\<lambda>ca.
     retM \<lparr>res_fill_bits = fill, res_pos_of_grant = pos, encryption_mode = enc, random_access_flag = ra,
       res_length_ind = len, addr = a, event_label = l, usage_marker = u, power_control_element = pc,
       res_slot_granting = sg, res_chan_alloc = ca\<rparr>)))))))))))"

definition is_null_pdu :: "mac_resource \<Rightarrow> bool" where
  "is_null_pdu r \<longleftrightarrow> addr r = None \<and> event_label r = None \<and> usage_marker r = None"

definition check :: "bool \<Rightarrow> pdu_parse_err \<Rightarrow> (pdu_parse_err + 'a) \<Rightarrow> (pdu_parse_err + 'a)" where
  "check c e k = (if c then Inl e else k)"

definition some_exceeds :: "'a::len word option \<Rightarrow> 'a word \<Rightarrow> bool" where
  "some_exceeds x m = (case x of Some v \<Rightarrow> v > m | None \<Rightarrow> False)"

definition some_value :: "'a::len word option \<Rightarrow> u64" where
  "some_value x = (case x of Some v \<Rightarrow> ucast v | None \<Rightarrow> 0)"

definition select_addr_type :: "mac_resource \<Rightarrow> pdu_parse_err + mac_resource_addr_type" where
  "select_addr_type r =
     (if is_null_pdu r then Inr NullPdu
      else case addr r of
        Some a \<Rightarrow>
          if ssi_type a = Ssi \<or> ssi_type a = Gssi \<or> ssi_type a = Issi
          then if event_label r = None \<and> usage_marker r = None then Inr AddrSsi
               else if event_label r \<noteq> None \<and> usage_marker r = None then Inr SsiAndEventLabel
               else if usage_marker r \<noteq> None \<and> event_label r = None then Inr SsiAndUsageMarker
               else Inl (Inconsistency ''event_label/usage_marker''
                 ''MAC-RESOURCE SSI address may carry event label or usage marker, not both'')
          else if ssi_type a = Ussi \<and> event_label r = None \<and> usage_marker r = None then Inr AddrUssi
          else if ssi_type a = Smi
          then if usage_marker r \<noteq> None
               then Inl (Inconsistency ''usage_marker'' ''MAC-RESOURCE SMI address may not carry a usage marker'')
               else if event_label r \<noteq> None then Inr SmiAndEventLabel else Inr AddrSmi
          else Inl (Inconsistency ''addr.ssi_type'' ''MAC-RESOURCE address type must be SSI/GSSI/ISSI, USSI, or SMI'')
      | None \<Rightarrow>
          if usage_marker r \<noteq> None
          then Inl (Inconsistency ''usage_marker'' ''MAC-RESOURCE usage marker requires an SSI address'')
          else if event_label r \<noteq> None then Inr AddrEventLabel else Inr NullPdu)"

definition validate_for_serialization :: "mac_resource \<Rightarrow> pdu_parse_err + mac_resource_addr_type" where
  "validate_for_serialization r =
     check (res_pos_of_grant r > 1) (InvalidValue ''pos_of_grant'' (ucast (res_pos_of_grant r)))
    (check (encryption_mode r > 3) (InvalidValue ''encryption_mode'' (ucast (encryption_mode r)))
    (check (res_length_ind r = 0 \<or> res_length_ind r > 0x3f) (InvalidValue ''length_ind'' (ucast (res_length_ind r)))
    (check (some_exceeds (map_option ssi (addr r)) 0xffffff) (InvalidValue ''addr.ssi'' (some_value (map_option ssi (addr r))))
    (check (some_exceeds (event_label r) 0x3ff) (InvalidValue ''event_label'' (some_value (event_label r)))
    (check (some_exceeds (usage_marker r) 0x3f) (InvalidValue ''usage_marker'' (some_value (usage_marker r)))
    (check (some_exceeds (power_control_element r) 0x0f)
      (InvalidValue ''power_control_element'' (some_value (power_control_element r)))
    (select_addr_type r)))))))"

definition write_some :: "string \<Rightarrow> 'a option \<Rightarrow> ('a \<Rightarrow> unit bbm) \<Rightarrow> unit bbm" where
  "write_some field x w = (case x of Some v \<Rightarrow> w v | None \<Rightarrow> errM (FieldNotPresent (Some field)))"

fun write_addr_fields :: "mac_resource \<Rightarrow> mac_resource_addr_type \<Rightarrow> unit bbm" where
  "write_addr_fields r NullPdu = retM ()"
| "write_addr_fields r AddrSsi = write_some ''addr'' (addr r) (\<lambda>a. write_as (ssi a) 24)"
| "write_addr_fields r AddrUssi = write_some ''addr'' (addr r) (\<lambda>a. write_as (ssi a) 24)"
| "write_addr_fields r AddrSmi = write_some ''addr'' (addr r) (\<lambda>a. write_as (ssi a) 24)"
| "write_addr_fields r AddrEventLabel = write_some ''event_label'' (event_label r) (\<lambda>l. write_as l 10)"
| "write_addr_fields r SsiAndEventLabel = write_some ''addr'' (addr r) (\<lambda>a. write_some ''event_label'' (event_label r)
     (\<lambda>l. thenM (write_as (ssi a) 24) (write_as l 10)))"
| "write_addr_fields r SmiAndEventLabel = write_some ''addr'' (addr r) (\<lambda>a. write_some ''event_label'' (event_label r)
     (\<lambda>l. thenM (write_as (ssi a) 24) (write_as l 10)))"
| "write_addr_fields r SsiAndUsageMarker = write_some ''addr'' (addr r) (\<lambda>a. write_some ''usage_marker'' (usage_marker r)
     (\<lambda>u. thenM (write_as (ssi a) 24) (write_as u 6)))"

definition write_chan_alloc :: "chan_alloc_element option \<Rightarrow> unit bbm" where
  "write_chan_alloc x =
     (case x of
        Some v \<Rightarrow> if is_supported_by_this_stack v then thenM (write_bits 1 1) (chan_alloc_to_bitbuf v) else write_bits 0 1
      | None \<Rightarrow> write_bits 0 1)"

definition try_to_bitbuf :: "mac_resource \<Rightarrow> unit bbm" where
  "try_to_bitbuf r =
     (case validate_for_serialization r of
        Inl e \<Rightarrow> errM e
      | Inr addr_type \<Rightarrow>
          if addr_type \<noteq> NullPdu \<and> encryption_mode r \<noteq> 0 then errM (NotImplemented (Some ''encryption_mode''))
          else
            thenM (write_bits 0 2)
           (thenM (write_flag (res_fill_bits r))
           (thenM (write_as (res_pos_of_grant r) 1)
           (thenM (write_as (encryption_mode r) 2)
           (thenM (write_flag (random_access_flag r))
           (thenM (write_as (res_length_ind r) 6)
           (thenM (write_bits (addr_type_into_raw addr_type) 3)
           (thenM (write_addr_fields r addr_type)
           (if addr_type = NullPdu then retM ()
            else
            thenM (write_opt (\<lambda>v. write_as v 4) (power_control_element r))
           (thenM (write_opt slotgrant_to_bitbuf (res_slot_granting r))
                  (write_chan_alloc (res_chan_alloc r))))))))))))"

definition resource_to_bitbuf :: "mac_resource \<Rightarrow> unit bbm" where
  "resource_to_bitbuf r b = (case try_to_bitbuf r b of Ok _ b' \<Rightarrow> Ok () b' | Err _ b' \<Rightarrow> Ok () b' | Panic \<Rightarrow> Panic)"

definition compute_header_len :: "mac_resource \<Rightarrow> nat" where
  "compute_header_len r =
     (if is_null_pdu r then 16
      else 16 + (if event_label r \<noteq> None then 10 else 0) + (if usage_marker r \<noteq> None then 6 else 0)
        + (if addr r \<noteq> None then 24 else 0)
        + 1 + (if power_control_element r \<noteq> None then 4 else 0)
        + 1 + (if res_slot_granting r \<noteq> None then 8 else 0)
        + 1 + (case res_chan_alloc r of
                 Some c \<Rightarrow> if is_supported_by_this_stack c then chan_alloc_compute_len c else 0
               | None \<Rightarrow> 0))"

definition update_len_and_fill_ind :: "mac_resource \<Rightarrow> nat \<Rightarrow> nat \<times> mac_resource" where
  "update_len_and_fill_ind r sdu_len =
     (let total_len = compute_header_len r + sdu_len;
          total_len_bytes = (total_len + 7) div 8;
          num_fill_bits = (8 - total_len mod 8) mod 8
      in (num_fill_bits, r\<lparr>res_length_ind := of_nat total_len_bytes, res_fill_bits := num_fill_bits \<noteq> 0\<rparr>))"

section \<open>MAC-FRAG and MAC-END\<close>

record mac_frag_dl =
  frag_fill_bits :: bool

definition frag_from_bitbuf :: "mac_frag_dl bbm" where
  "frag_from_bitbuf =
     thenM (expect_value 2 ''mac_pdu_type'' 1)
    (thenM (expect_value 1 ''pdu_subtype'' 0)
    (bindM (read_flag ''fill_bits'') (\<lambda>fill. retM \<lparr>frag_fill_bits = fill\<rparr>)))"

definition frag_to_bitbuf :: "mac_frag_dl \<Rightarrow> unit bbm" where
  "frag_to_bitbuf f = thenM (write_bits 1 2) (thenM (write_bits 0 1) (write_flag (frag_fill_bits f)))"

record mac_end_dl =
  end_fill_bits :: bool
  end_pos_of_grant :: u8
  end_length_ind :: u8
  end_slot_granting :: "basic_slotgrant option"
  end_chan_alloc :: "chan_alloc_element option"

definition end_from_bitbuf :: "mac_end_dl bbm" where
  "end_from_bitbuf =
     thenM (expect_value 2 ''mac_pdu_type'' 1)
    (thenM (expect_value 1 ''pdu_subtype'' 1)
    (bindM (read_flag ''fill_bits'') (\<lambda>fill.
     bindM (read_as 1 ''pos_of_grant'') (\<lambda>pos.
     bindM (read_as 6 ''length_ind'') (\<lambda>len.
     if len = 0 then errM (InvalidValue ''length_ind'' 0)
     else
     bindM (read_opt ''slot_granting_flag'' slotgrant_from_bitbuf) (\<lambda>sg.
     bindM (read_opt ''chan_alloc_flag'' chan_alloc_from_bitbuf) (\<lambda>ca.
     retM \<lparr>end_fill_bits = fill, end_pos_of_grant = pos, end_length_ind = len, end_slot_granting = sg,
       end_chan_alloc = ca\<rparr>)))))))"

definition end_compute_hdr_len :: "bool \<Rightarrow> chan_alloc_element option \<Rightarrow> nat" where
  "end_compute_hdr_len has_slotgrant ca =
     2 + 1 + 1 + 1 + 6 + 1 + (if has_slotgrant then 8 else 0) + 1
     + (case ca of Some c \<Rightarrow> if is_supported_by_this_stack c then chan_alloc_compute_len c else 0 | None \<Rightarrow> 0)"

definition end_to_bitbuf :: "mac_end_dl \<Rightarrow> unit bbm" where
  "end_to_bitbuf e =
     thenM (write_bits 1 2)
    (thenM (write_bits 1 1)
    (thenM (write_flag (end_fill_bits e))
    (thenM (write_as (end_pos_of_grant e) 1)
    (thenM (write_as (end_length_ind e) 6)
    (thenM (write_opt slotgrant_to_bitbuf (end_slot_granting e))
           (write_chan_alloc (end_chan_alloc e)))))))"

section \<open>The PDUs are codecs\<close>

lemma addr_type_raw: "addr_type_try_from (addr_type_into_raw e) = Some e" "unat (addr_type_into_raw e) < 8"
  by (cases e; simp add: addr_type_try_from_def)+

interpretation addr_type: raw_enum addr_type_try_from addr_type_into_raw "\<lambda>_. True" 3
  by unfold_locales (simp_all add: addr_type_raw)

text \<open>An unsupported channel allocation is left out, a supported one must be valid.\<close>

definition ca_norm :: "chan_alloc_element option \<Rightarrow> chan_alloc_element option" where
  "ca_norm x = (case x of Some c \<Rightarrow> if is_supported_by_this_stack c then Some c else None | None \<Rightarrow> None)"

definition ca_ok :: "chan_alloc_element option \<Rightarrow> bool" where
  "ca_ok x = opt_all chan_alloc_valid (ca_norm x)"

lemma ca_norm_idem [simp]: "ca_norm (ca_norm x) = ca_norm x" "ca_norm None = None"
  by (simp_all add: ca_norm_def split: option.split)

lemma write_chan_alloc_eq: "write_chan_alloc x = write_opt chan_alloc_to_bitbuf (ca_norm x)"
  by (simp add: write_chan_alloc_def write_opt_def ca_norm_def split: option.split)

lemma emits_chan_alloc: "ca_ok x \<Longrightarrow> emits (write_chan_alloc x) (opt_bits chan_alloc_bits (ca_norm x))"
  unfolding write_chan_alloc_eq ca_ok_def by (intro emits_opt chan_alloc.enc_emits) simp

lemma parses_chan_alloc:
  "ca_ok x \<Longrightarrow> parses (f (ca_norm x)) (concat xs) w \<Longrightarrow>
    parses (bindM (read_opt s chan_alloc_from_bitbuf) f) (concat (opt_bits chan_alloc_bits (ca_norm x) # xs)) w"
  unfolding ca_ok_def by (intro parses_seg_opt) (auto intro: chan_alloc.dec_parses [unfolded id_apply])

lemma parses_slotgrant:
  "opt_all slotgrant_valid x \<Longrightarrow> parses (f x) (concat xs) w \<Longrightarrow>
    parses (bindM (read_opt s slotgrant_from_bitbuf) f) (concat (opt_bits slotgrant_bits x # xs)) w"
  by (intro parses_seg_opt) (auto intro: slotgrant.dec_parses [unfolded id_apply])

lemma emits_slotgrant:
  "opt_all slotgrant_valid x \<Longrightarrow> emits (write_opt slotgrant_to_bitbuf x) (opt_bits slotgrant_bits x)"
  by (intro emits_opt slotgrant.enc_emits) simp

lemma length_ca_bits: "ca_ok x \<Longrightarrow> length (opt_bits chan_alloc_bits (ca_norm x))
    = 1 + (case x of Some c \<Rightarrow> if is_supported_by_this_stack c then chan_alloc_compute_len c else 0 | None \<Rightarrow> 0)"
  by (auto simp: ca_ok_def ca_norm_def length_chan_alloc_bits split: option.split)

text \<open>MAC-FRAG.\<close>

definition frag_bits :: "mac_frag_dl \<Rightarrow> bool list" where
  "frag_bits f = concat [msb_bits 2 (1 :: u64), msb_bits 1 (0 :: u64), [frag_fill_bits f]]"

lemma length_frag_bits [simp]: "length (frag_bits f) = 4"
  by (simp add: frag_bits_def)

interpretation mac_frag: pdu_codec frag_to_bitbuf frag_from_bitbuf "\<lambda>_. True" frag_bits id
proof
  fix f
  show "emits (frag_to_bitbuf f) (frag_bits f)"
    unfolding frag_to_bitbuf_def frag_bits_def by (intro emits_seg emits_done emits_const emits_flag) simp_all
  show "parses frag_from_bitbuf (frag_bits f) (id f)"
    unfolding frag_from_bitbuf_def frag_bits_def by (intro seg_rules) simp_all
qed

text \<open>MAC-END.\<close>

definition end_valid :: "mac_end_dl \<Rightarrow> bool" where
  "end_valid e \<longleftrightarrow> fits 1 (end_pos_of_grant e) \<and> fits 6 (end_length_ind e) \<and> end_length_ind e \<noteq> 0
     \<and> opt_all slotgrant_valid (end_slot_granting e) \<and> ca_ok (end_chan_alloc e)"

definition end_bits :: "mac_end_dl \<Rightarrow> bool list" where
  "end_bits e = concat
     [msb_bits 2 (1 :: u64), msb_bits 1 (1 :: u64), [end_fill_bits e], word_bits 1 (end_pos_of_grant e), word_bits 6 (end_length_ind e),
      opt_bits slotgrant_bits (end_slot_granting e), opt_bits chan_alloc_bits (ca_norm (end_chan_alloc e))]"

definition end_norm :: "mac_end_dl \<Rightarrow> mac_end_dl" where
  "end_norm e = e\<lparr>end_chan_alloc := ca_norm (end_chan_alloc e)\<rparr>"

lemma length_end_bits:
  "end_valid e \<Longrightarrow> length (end_bits e) = end_compute_hdr_len (end_slot_granting e \<noteq> None) (end_chan_alloc e)"
  by (auto simp: end_bits_def end_valid_def end_compute_hdr_len_def length_ca_bits split: option.split)

interpretation mac_end: pdu_codec end_to_bitbuf end_from_bitbuf end_valid end_bits end_norm
proof
  fix e assume v: "end_valid e"
  show "emits (end_to_bitbuf e) (end_bits e)"
    unfolding end_to_bitbuf_def end_bits_def
    using v by (intro emits_seg emits_done emits_const emits_flag emits_as emits_slotgrant emits_chan_alloc)
      (simp_all add: end_valid_def)
  show "parses end_from_bitbuf (end_bits e) (end_norm e)"
    unfolding end_from_bitbuf_def end_bits_def
    using v by (intro parses_slotgrant parses_chan_alloc seg_rules) (simp_all add: end_valid_def end_norm_def)
qed

text \<open>MAC-RESOURCE.\<close>

definition addr_bits :: "mac_resource \<Rightarrow> bool list" where
  "addr_bits r = (case addr r of Some a \<Rightarrow> word_bits 24 (ssi a) | None \<Rightarrow> [])
     @ (case event_label r of Some l \<Rightarrow> word_bits 10 l | None \<Rightarrow> [])
     @ (case usage_marker r of Some u \<Rightarrow> word_bits 6 u | None \<Rightarrow> [])"

definition resource_type :: "mac_resource \<Rightarrow> mac_resource_addr_type" where
  "resource_type r = (case select_addr_type r of Inr t \<Rightarrow> t | Inl _ \<Rightarrow> NullPdu)"

definition resource_valid :: "mac_resource \<Rightarrow> bool" where
  "resource_valid r \<longleftrightarrow> (\<exists>t. validate_for_serialization r = Inr t) \<and> (is_null_pdu r \<or> encryption_mode r = 0)
     \<and> opt_all slotgrant_valid (res_slot_granting r) \<and> ca_ok (res_chan_alloc r)"

definition resource_bits :: "mac_resource \<Rightarrow> bool list" where
  "resource_bits r = concat
     ([msb_bits 2 (0 :: u64), [res_fill_bits r], word_bits 1 (res_pos_of_grant r), word_bits 2 (encryption_mode r),
       [random_access_flag r], word_bits 6 (res_length_ind r), msb_bits 3 (addr_type_into_raw (resource_type r)), addr_bits r]
      @ (if is_null_pdu r then []
         else [opt_bits (word_bits 4) (power_control_element r), opt_bits slotgrant_bits (res_slot_granting r),
           opt_bits chan_alloc_bits (ca_norm (res_chan_alloc r))]))"

text \<open>What is read back: group and individual addresses come back as plain SSIs, an unsupported
  channel allocation is dropped, and a null PDU has only its length.\<close>

definition addr_norm :: "tetra_address \<Rightarrow> tetra_address" where
  "addr_norm a = (if ssi_type a = Gssi \<or> ssi_type a = Issi then a\<lparr>ssi_type := Ssi\<rparr> else a)"

definition resource_norm :: "mac_resource \<Rightarrow> mac_resource" where
  "resource_norm r =
     (if is_null_pdu r then null_pdu\<lparr>res_length_ind := res_length_ind r\<rparr>
      else r\<lparr>addr := map_option addr_norm (addr r), res_chan_alloc := ca_norm (res_chan_alloc r)\<rparr>)"

lemma check_eq_Inr: "check c e k = Inr t \<longleftrightarrow> \<not> c \<and> k = Inr t"
  by (simp add: check_def)

lemma not_less_fits: "\<not> (w :: 'a::len word) > m \<Longrightarrow> unat m < 2 ^ n \<Longrightarrow> fits n w"
  by (simp add: fits_def word_less_nat_alt)

lemma validate_Inr:
  assumes "validate_for_serialization r = Inr t"
  shows "fits 1 (res_pos_of_grant r)" "fits 2 (encryption_mode r)" "fits 6 (res_length_ind r)" "res_length_ind r \<noteq> 0"
    "opt_all (\<lambda>a. fits 24 (ssi a)) (addr r)" "opt_all (fits 10) (event_label r)" "opt_all (fits 6) (usage_marker r)"
    "opt_all (fits 4) (power_control_element r)" "select_addr_type r = Inr t" "resource_type r = t"
  using assms
  by (auto simp: validate_for_serialization_def check_eq_Inr some_exceeds_def resource_type_def
      intro: not_less_fits split: option.splits)

lemma select_addr_shape:
  assumes "select_addr_type r = Inr t"
  obtains (null) "t = NullPdu" "addr r = None" "event_label r = None" "usage_marker r = None"
  | (label) l where "t = AddrEventLabel" "addr r = None" "event_label r = Some l" "usage_marker r = None"
  | (plain) a ty f where "addr r = Some a" "event_label r = None" "usage_marker r = None"
      "addr_norm a = \<lparr>ssi = ssi a, ssi_type = ty\<rparr>" "(t, ty, f) \<in> {(AddrSsi, Ssi, ''ssi''), (AddrUssi, Ussi, ''ussi''), (AddrSmi, Smi, ''smi'')}"
  | (with_label) a l ty f where "addr r = Some a" "event_label r = Some l" "usage_marker r = None"
      "addr_norm a = \<lparr>ssi = ssi a, ssi_type = ty\<rparr>" "(t, ty, f) \<in> {(SsiAndEventLabel, Ssi, ''ssi''), (SmiAndEventLabel, Smi, ''smi'')}"
  | (with_marker) a u where "t = SsiAndUsageMarker" "addr r = Some a" "event_label r = None" "usage_marker r = Some u"
      "addr_norm a = \<lparr>ssi = ssi a, ssi_type = Ssi\<rparr>"
proof -
  have n: "addr_norm a = \<lparr>ssi = ssi a, ssi_type = (if ssi_type a = Gssi \<or> ssi_type a = Issi then Ssi else ssi_type a)\<rparr>" for a
    by (cases a) (simp add: addr_norm_def)
  show thesis
  proof (cases "addr r")
    case None
    then show thesis using assms null label
      by (auto simp: select_addr_type_def is_null_pdu_def split: if_splits)
  next
    case (Some a)
    consider "ssi_type a \<in> {Ssi, Gssi, Issi}" | "ssi_type a = Ussi" | "ssi_type a = Smi"
      using assms Some by (auto simp: select_addr_type_def is_null_pdu_def split: if_splits)
    then show thesis
    proof cases
      case 1
      then show thesis using assms Some n [of a] plain [of a Ssi "''ssi''"] with_label [of a _ Ssi "''ssi''"] with_marker [of a]
        by (cases "event_label r"; cases "usage_marker r")
          (auto simp: select_addr_type_def is_null_pdu_def split: if_splits)
    next
      case 2
      then show thesis using assms Some n [of a] plain [of a Ussi "''ussi''"]
        by (cases "event_label r"; cases "usage_marker r")
          (auto simp: select_addr_type_def is_null_pdu_def split: if_splits)
    next
      case 3
      then show thesis using assms Some n [of a] plain [of a Smi "''smi''"] with_label [of a _ Smi "''smi''"]
        by (cases "event_label r"; cases "usage_marker r")
          (auto simp: select_addr_type_def is_null_pdu_def split: if_splits)
    qed
  qed
qed

lemma parses_addr: "fits 24 (ssi a) \<Longrightarrow> parses (read_addr f t) (word_bits 24 (ssi a)) \<lparr>ssi = ssi a, ssi_type = t\<rparr>"
  unfolding read_addr_def by (intro parses_map parses_as) simp_all

lemma parses_two:
  "parses p xs a \<Longrightarrow> parses q ys b \<Longrightarrow> parses (bindM p (\<lambda>a. bindM q (\<lambda>b. retM (f a b)))) (xs @ ys) (f a b)"
  by (erule parses_bind) (rule parses_map)

lemma select_addr_null:
  assumes "select_addr_type r = Inr t"
  shows "t = NullPdu \<longleftrightarrow> is_null_pdu r"
  using assms by (rule select_addr_shape) (auto simp: is_null_pdu_def)

lemma select_addr_codec:
  assumes t: "select_addr_type r = Inr t"
    and r: "opt_all (\<lambda>a. fits 24 (ssi a)) (addr r)" "opt_all (fits 10) (event_label r)" "opt_all (fits 6) (usage_marker r)"
  shows "emits (write_addr_fields r t) (addr_bits r)"
    and "parses (read_addr_fields t) (addr_bits r) (map_option addr_norm (addr r), event_label r, usage_marker r)"
proof -
  have "emits (write_addr_fields r t) (addr_bits r)
    \<and> parses (read_addr_fields t) (addr_bits r) (map_option addr_norm (addr r), event_label r, usage_marker r)"
    using t
  proof (cases rule: select_addr_shape)
    case null
    then show ?thesis by (simp add: addr_bits_def emits_ret parses_ret)
  next
    case (label l)
    then show ?thesis using r
      by (auto simp: addr_bits_def write_some_def intro!: emits_as parses_map parses_as)
  next
    case (plain a ty f)
    then show ?thesis using r parses_map [OF parses_addr [of a f ty], of "\<lambda>a. (Some a, None, None)"]
      by (auto simp: addr_bits_def write_some_def intro!: emits_as)
  next
    case (with_label a l ty f)
    then show ?thesis using r parses_two [OF parses_addr [of a f ty] parses_as [of 10 l "''event_label''"], of "\<lambda>a l. (Some a, Some l, None)"]
      by (auto simp: addr_bits_def write_some_def intro!: emits_then emits_as)
  next
    case (with_marker a u)
    then show ?thesis using r parses_two [OF parses_addr [of a "''ssi''" Ssi] parses_as [of 6 u "''usage_marker''"], of "\<lambda>a u. (Some a, None, Some u)"]
      by (auto simp: addr_bits_def write_some_def intro!: emits_then emits_as)
  qed
  then show "emits (write_addr_fields r t) (addr_bits r)"
    and "parses (read_addr_fields t) (addr_bits r) (map_option addr_norm (addr r), event_label r, usage_marker r)" by simp_all
qed

lemma emits_try: "emits w bs \<Longrightarrow> emits (\<lambda>b. case w b of Ok _ b' \<Rightarrow> Ok () b' | Err _ b' \<Rightarrow> Ok () b' | Panic \<Rightarrow> Panic) bs"
  by (fastforce simp: emits_def)

interpretation mac_resource: pdu_codec resource_to_bitbuf resource_from_bitbuf resource_valid resource_bits resource_norm
proof
  fix r assume "resource_valid r"
  then obtain t where t: "validate_for_serialization r = Inr t" and v: "is_null_pdu r \<or> encryption_mode r = 0"
    "opt_all slotgrant_valid (res_slot_granting r)" "ca_ok (res_chan_alloc r)"
    by (auto simp: resource_valid_def)
  note f = validate_Inr [OF t]
  note null = select_addr_null [OF f(9)]
  note codec = select_addr_codec [OF f(9,5,6,7)]
  have rest: "emits (if t = NullPdu then retM ()
      else thenM (write_opt (\<lambda>v. write_as v 4) (power_control_element r))
        (thenM (write_opt slotgrant_to_bitbuf (res_slot_granting r)) (write_chan_alloc (res_chan_alloc r))))
    (concat (if is_null_pdu r then []
       else [opt_bits (word_bits 4) (power_control_element r), opt_bits slotgrant_bits (res_slot_granting r),
         opt_bits chan_alloc_bits (ca_norm (res_chan_alloc r))]))"
  proof (cases "t = NullPdu")
    case False
    have "emits (write_opt (\<lambda>v. write_as v 4) (power_control_element r)) (opt_bits (word_bits 4) (power_control_element r))"
      using f(8) by (intro emits_opt emits_as) simp_all
    then show ?thesis
      using False null unfolding if_not_P [OF False]
      by simp (metis append_Nil2 concat.simps emits_seg emits_done emits_slotgrant [OF v(2)] emits_chan_alloc [OF v(3)])
  qed (use null in \<open>simp add: emits_ret\<close>)
  have nerr: "\<not> (t \<noteq> NullPdu \<and> encryption_mode r \<noteq> 0)" using v(1) null by auto
  have "emits (try_to_bitbuf r) (resource_bits r)"
    unfolding try_to_bitbuf_def t sum.case if_not_P [OF nerr] resource_bits_def f(10) append_Cons append_Nil
    by (intro emits_seg emits_flag emits_as emits_const addr_type.emits_enum codec(1) rest f) (simp_all add: addr_type_raw)
  then show "emits (resource_to_bitbuf r) (resource_bits r)"
    using emits_try [of "try_to_bitbuf r" "resource_bits r"] by (simp add: resource_to_bitbuf_def [abs_def])
  show "parses resource_from_bitbuf (resource_bits r) (resource_norm r)"
    unfolding resource_from_bitbuf_def resource_bits_def f(10) append_Cons append_Nil
  proof (intro seg_rules addr_type.parses_seg_enum parses_seg [OF codec(2)] f, unfold prod.case)
    let ?rest = "concat (if is_null_pdu r then []
       else [opt_bits (word_bits 4) (power_control_element r), opt_bits slotgrant_bits (res_slot_granting r),
         opt_bits chan_alloc_bits (ca_norm (res_chan_alloc r))])"
    show "parses (if t = NullPdu then retM (null_pdu\<lparr>res_length_ind := res_length_ind r\<rparr>)
       else
       bindM (read_opt ''power_control_flag'' (read_as 4 ''power_control_element'')) (\<lambda>pc.
       bindM (read_opt ''slot_granting_flag'' slotgrant_from_bitbuf) (\<lambda>sg.
       bindM (read_opt ''chan_alloc_flag'' chan_alloc_from_bitbuf) (\<lambda>ca.
       retM \<lparr>res_fill_bits = res_fill_bits r, res_pos_of_grant = res_pos_of_grant r, encryption_mode = encryption_mode r,
         random_access_flag = random_access_flag r, res_length_ind = res_length_ind r, addr = map_option addr_norm (addr r),
         event_label = event_label r, usage_marker = usage_marker r, power_control_element = pc,
         res_slot_granting = sg, res_chan_alloc = ca\<rparr>)))) ?rest (resource_norm r)"
    proof (cases "t = NullPdu")
      case False
      then have n: "\<not> is_null_pdu r" using null by simp
      have "opt_all (fits 4) (power_control_element r)" by (rule f(8))
      then show ?thesis
        unfolding if_not_P [OF False] if_not_P [OF n]
        using v by (intro parses_seg_opt parses_slotgrant parses_chan_alloc parses_as seg_rules)
          (simp_all add: resource_norm_def n)
    qed (use null in \<open>simp add: resource_norm_def parses_ret\<close>)
  qed simp_all
qed

lemma length_addr_bits:
  "length (addr_bits r) = (if event_label r \<noteq> None then 10 else 0) + (if usage_marker r \<noteq> None then 6 else 0)
     + (if addr r \<noteq> None then 24 else 0)"
  by (simp add: addr_bits_def split: option.split)

lemma length_opt_bits: "(\<And>v. length (f v) = n) \<Longrightarrow> length (opt_bits f x) = 1 + (if x \<noteq> None then n else 0)"
  by (cases x) simp_all

lemma length_resource_bits:
  assumes "resource_valid r"
  shows "length (resource_bits r) = compute_header_len r"
proof -
  have ca: "ca_ok (res_chan_alloc r)" using assms by (simp add: resource_valid_def)
  have l: "length (opt_bits (word_bits 4) (power_control_element r)) = 1 + (if power_control_element r \<noteq> None then 4 else 0)"
    "length (opt_bits slotgrant_bits (res_slot_granting r)) = 1 + (if res_slot_granting r \<noteq> None then 8 else 0)"
    by (simp_all only: length_opt_bits length_word_bits length_slotgrant_bits)
  show ?thesis
  proof (cases "is_null_pdu r")
    case True
    then show ?thesis by (simp add: resource_bits_def compute_header_len_def length_addr_bits is_null_pdu_def)
  next
    case False
    then have "length (resource_bits r) = 16 + length (addr_bits r) + length (opt_bits (word_bits 4) (power_control_element r))
        + length (opt_bits slotgrant_bits (res_slot_granting r)) + length (opt_bits chan_alloc_bits (ca_norm (res_chan_alloc r)))"
      by (simp add: resource_bits_def)
    then show ?thesis
      unfolding l length_ca_bits [OF ca] length_addr_bits compute_header_len_def if_not_P [OF False] by linarith
  qed
qed

lemma safe_read_addr_fields [safe_rules]: "safe (read_addr_fields t)"
  by (cases t) (simp_all add: read_addr_def safe_rules)

lemma safe_mac_dl [safe_rules]: "safe resource_from_bitbuf" "safe frag_from_bitbuf" "safe end_from_bitbuf"
  unfolding resource_from_bitbuf_def frag_from_bitbuf_def end_from_bitbuf_def by (intro safe_rules)+

section \<open>Properties\<close>

text \<open>C15: the MAC-RESOURCE codec is a round trip.  A PDU that passes the checks of its serialiser is
  written in as many bits as its header length announces, and reading them back gives the PDU, up to
  the address types the encoding merges and a channel allocation the stack does not support.\<close>

theorem mac_resource_round_trip:
  assumes "resource_valid r"
  shows "\<exists>b. resource_to_bitbuf r (bb_new_autoexpand k) = Ok () b \<and> length (window b) = compute_header_len r
    \<and> thenM (seek 0) resource_from_bitbuf b = Ok (resource_norm r) (b\<lparr>bb_pos := bb_end b\<rparr>)"
  using mac_resource.enc_dec [OF assms, of k] length_resource_bits [OF assms] by auto

theorem mac_resource_round_trip_witness:
  "\<exists>b. resource_to_bitbuf \<lparr>res_fill_bits = True, res_pos_of_grant = 0, encryption_mode = 0, random_access_flag = True,
       res_length_ind = 12, addr = Some \<lparr>ssi = 2260571, ssi_type = Issi\<rparr>, event_label = None, usage_marker = Some 5,
       power_control_element = None, res_slot_granting = None, res_chan_alloc = None\<rparr> (bb_new_autoexpand 32) = Ok () b
     \<and> length (window b) = 49"
proof -
  let ?r = "\<lparr>res_fill_bits = True, res_pos_of_grant = 0, encryption_mode = 0, random_access_flag = True,
       res_length_ind = 12, addr = Some \<lparr>ssi = 2260571, ssi_type = Issi\<rparr>, event_label = None, usage_marker = Some 5,
       power_control_element = None, res_slot_granting = None, res_chan_alloc = None\<rparr> :: mac_resource"
  have "resource_valid ?r"
    by (simp add: resource_valid_def validate_for_serialization_def select_addr_type_def is_null_pdu_def check_def some_exceeds_def ca_ok_def)
  from mac_resource_round_trip [OF this, of 32] show ?thesis by (auto simp: compute_header_len_def is_null_pdu_def)
qed

end
