(* ===== verification/Fill_Bits.thy ===== *)
theory Fill_Bits
  imports Codec
begin

unbundle bit_operations_syntax

text \<open>
  The fill bits at the end of a MAC PDU: \<^verbatim>\<open>crates/tetra-entities/src/umac/subcomp/fillbits.rs\<close>.
  A PDU that does not end at its boundary is followed by a one and zeroes; the receiver searches
  the last one.  The theory shows that removal finds exactly what addition wrote, whatever the
  bits before.
\<close>

section \<open>Removal\<close>

text \<open>The loop runs \<open>index\<close> down from \<open>pdu_len_bits - 1\<close>; the argument here is \<open>index + 1\<close>.\<close>

fun fill_scan :: "nat \<Rightarrow> nat \<Rightarrow> nat \<Rightarrow> nat bbm" where
  "fill_scan pdu_len_bits pos 0 = retM 0"
| "fill_scan pdu_len_bits pos (Suc index) =
     (if pos \<le> index
      then bindM (peek_bits_startoffset index 1) (\<lambda>r.
           case r of
             None \<Rightarrow> panicM
           | Some b \<Rightarrow> if b = 0 then fill_scan pdu_len_bits pos index else retM (pdu_len_bits - index))
      else retM 0)"

definition get_num_fill_bits :: "nat \<Rightarrow> nat bbm" where
  "get_num_fill_bits pdu_len_bits = bindM get_pos (\<lambda>pos. fill_scan pdu_len_bits pos pdu_len_bits)"

section \<open>Addition\<close>

definition compute_required_bytealigned :: "nat \<Rightarrow> nat" where
  "compute_required_bytealigned total_pdu_sdu_len_bits = (8 - total_pdu_sdu_len_bits mod 8) mod 8"

definition compute_required :: "nat \<Rightarrow> nat \<Rightarrow> nat" where
  "compute_required total_pdu_sdu_len_bits dest_cap_left =
     (if total_pdu_sdu_len_bits \<ge> dest_cap_left then 0
      else let bytealigned_fill_bits = compute_required_bytealigned total_pdu_sdu_len_bits in
           if total_pdu_sdu_len_bits + bytealigned_fill_bits \<le> dest_cap_left then bytealigned_fill_bits
           else dest_cap_left - total_pdu_sdu_len_bits)"

definition write_fill_bits :: "nat option \<Rightarrow> unit bbm" where
  "write_fill_bits num_fill_bits =
     (case num_fill_bits of
        Some n \<Rightarrow> if n > 0 then thenM (write_bit 1) (write_zeroes (n - 1)) else retM ()
      | None \<Rightarrow>
          bindM get_len_remaining (\<lambda>len.
          if len > 0 then thenM (write_bit 1) (bindM get_len_remaining write_zeroes) else retM ()))"

section \<open>Lemmas\<close>

definition fill_pattern :: "nat \<Rightarrow> bool list" where
  "fill_pattern n = (if n > 0 then True # replicate (n - 1) False else [])"

lemma length_fill_pattern [simp]: "length (fill_pattern n) = n"
  by (simp add: fill_pattern_def)

lemma emits_fill: "emits (write_fill_bits (Some n)) (fill_pattern n)"
  by (simp add: write_fill_bits_def fill_pattern_def emits_then_Cons emits_bit_1 emits_zeroes emits_ret)

lemma compute_required_bounds:
  "compute_required n cap < 8"
  "n \<le> cap \<Longrightarrow> n + compute_required n cap \<le> cap"
  "n \<le> cap \<Longrightarrow> (n + compute_required n cap) mod 8 = 0 \<or> n + compute_required n cap = cap"
proof -
  have b: "compute_required_bytealigned n < 8" "(n + compute_required_bytealigned n) mod 8 = 0"
  proof -
    show "compute_required_bytealigned n < 8" by (simp add: compute_required_bytealigned_def)
    have "(n + (8 - n mod 8) mod 8) mod 8 = (n mod 8 + (8 - n mod 8)) mod 8" by (simp only: mod_simps)
    also have "n mod 8 + (8 - n mod 8) = 8" by (rule le_add_diff_inverse) (simp add: less_imp_le)
    finally show "(n + compute_required_bytealigned n) mod 8 = 0" by (simp add: compute_required_bytealigned_def)
  qed
  show "compute_required n cap < 8"
    using b(1) by (auto simp: compute_required_def Let_def)
  show "n \<le> cap \<Longrightarrow> n + compute_required n cap \<le> cap" by (simp add: compute_required_def Let_def)
  show "n \<le> cap \<Longrightarrow> (n + compute_required n cap) mod 8 = 0 \<or> n + compute_required n cap = cap"
    using b(2) by (auto simp: compute_required_def Let_def)
qed

lemma peek_startoffset_bit:
  assumes "bb_wf b" and "i < length (window b)"
  shows "peek_bits_startoffset i 1 b = Ok (Some (of_bool (window b ! i))) b"
proof -
  have len: "bb_start b + i + 1 \<le> bb_end b" and fit: "bb_start b + i + 1 \<le> 8 * length (bb_buffer b)"
    using assms by (auto simp: window_def bb_wf_def)
  have "bb_slice (bb_buffer b) (bb_start b + i) (bb_start b + i + 1) = [bb_bit (bb_buffer b) (bb_start b + i)]"
    by (rule nth_equalityI) simp_all
  then show ?thesis
    using len read_bits_at_unchecked_eq [OF fit] assms(2)
    by (simp add: peek_bits_startoffset_def Let_def of_bits_single window_def)
qed

text \<open>The scan finds the last one at or behind the cursor.\<close>

lemma fill_scan_eq:
  assumes "bb_wf b" and "n + Suc i \<le> length (window b)" and "pos \<le> i" and "window b ! i"
    and "\<forall>j. i < j \<longrightarrow> j \<le> i + n \<longrightarrow> \<not> window b ! j"
  shows "fill_scan len pos (n + Suc i) b = Ok (len - i) b"
  using assms(2,5)
proof (induction n)
  case 0
  then show ?case using peek_startoffset_bit [OF assms(1), of i] assms(3,4) by simp
next
  case (Suc n)
  then have "\<not> window b ! (n + Suc i)" by simp
  then have "peek_bits_startoffset (n + Suc i) 1 b = Ok (Some 0) b"
    using peek_startoffset_bit [OF assms(1), of "n + Suc i"] Suc.prems(1) by simp
  moreover have "fill_scan len pos (n + Suc i) b = Ok (len - i) b" using Suc by simp
  ultimately show ?case using assms(3) by simp
qed

lemma get_num_fill_bits_eq:
  assumes wf: "bb_wf b" and n: "0 < n" and len: "pre + n \<le> length (window b)"
    and pos: "bb_pos b - bb_start b \<le> pre" and fill: "take n (drop pre (window b)) = fill_pattern n"
  shows "get_num_fill_bits (pre + n) b = Ok n b"
proof -
  have nth: "window b ! (pre + j) = fill_pattern n ! j" if "j < n" for j
    using that len fill by (metis add_leD1 nth_drop nth_take)
  have one: "window b ! pre" using nth [of 0] n by (simp add: fill_pattern_def)
  have zero: "\<not> window b ! j" if "pre < j" "j \<le> pre + (n - 1)" for j
    using nth [of "j - pre"] that n by (auto simp: fill_pattern_def nth_Cons')
  have "fill_scan (pre + n) (bb_pos b - bb_start b) (n - 1 + Suc pre) b = Ok (pre + n - pre) b"
    using one zero len pos n by (intro fill_scan_eq [OF wf]) auto
  then show ?thesis using n get_pos_eq [OF wf] by (simp add: get_num_fill_bits_def add.commute)
qed

end
