(* ===== verification/Bs_Frag.thy ===== *)
theory Bs_Frag
  imports Mac_Dl Fill_Bits Tx_Receipt "HOL-Library.Monad_Syntax"
begin

unbundle bit_operations_syntax

text \<open>
  The downlink fragmenter of the base station: \<^verbatim>\<open>crates/tetra-entities/src/umac/subcomp/bs_frag.rs\<close>.
  A TM-SDU is sent in one MAC-RESOURCE when it fits, otherwise as a MAC-RESOURCE that announces
  fragmentation, MAC-FRAGs that fill their blocks, and a MAC-END.  The outer \<open>None\<close> is a panic (a
  failed assertion, a \<open>usize\<close> underflow); the arguments of the log calls are not evaluated.  The
  lemmas say exactly which bits each call writes into the block and what remains of the SDU.
\<close>

section \<open>The model\<close>

record bs_fragger =
  resource :: mac_resource
  mac_hdr_is_written :: bool
  is_fully_transmitted :: bool
  fr_sdu :: bitbuf
  fragmented_chan_alloc :: "chan_alloc_element option"
  fr_tx_reporter :: "tx_reporter option"
  requires_packet_data_owner :: bool

definition MIN_SLOT_CAP_FOR_RES_FRAG_START :: nat where
  "MIN_SLOT_CAP_FOR_RES_FRAG_START = 32"

definition MIN_SLOT_CAP_FOR_FRAG :: nat where
  "MIN_SLOT_CAP_FOR_FRAG = 16"

definition assert_opt :: "bool \<Rightarrow> unit option" where
  "assert_opt c = (if c then Some () else None)"

definition sub_opt :: "nat \<Rightarrow> nat \<Rightarrow> nat option" where
  "sub_opt a b = (if b \<le> a then Some (a - b) else None)"

definition fragger_new :: "mac_resource \<Rightarrow> bitbuf \<Rightarrow> tx_reporter option \<Rightarrow> bs_fragger option" where
  "fragger_new r sdu reporter = do {
     (pos, sdu) \<leftarrow> run_bb get_pos sdu;
     assert_opt (pos = 0);
     Some \<lparr>resource = r, mac_hdr_is_written = False, is_fully_transmitted = False, fr_sdu = sdu,
       fragmented_chan_alloc = None, fr_tx_reporter = reporter, requires_packet_data_owner = False\<rparr>
   }"

definition fragger_addr :: "bs_fragger \<Rightarrow> tetra_address option" where
  "fragger_addr f = addr (resource f)"

definition with_requires_packet_data_owner :: "bool \<Rightarrow> bs_fragger \<Rightarrow> bs_fragger" where
  "with_requires_packet_data_owner x f = f\<lparr>requires_packet_data_owner := x\<rparr>"

definition carries_channel_allocation :: "bs_fragger \<Rightarrow> bool" where
  "carries_channel_allocation f \<longleftrightarrow> res_chan_alloc (resource f) \<noteq> None \<or> fragmented_chan_alloc f \<noteq> None"

definition get_resource_chunk :: "bs_fragger \<Rightarrow> bitbuf \<Rightarrow> (bool \<times> bs_fragger \<times> bitbuf) option" where
  "get_resource_chunk f mac_block = do {
     (pos, _) \<leftarrow> run_bb get_pos (fr_sdu f);
     assert_opt (pos = 0);
     assert_opt (\<not> mac_hdr_is_written f);
     (sdu_len_bits, _) \<leftarrow> run_bb get_len_remaining (fr_sdu f);
     assert_opt (\<not> (is_null_pdu (resource f) \<and> sdu_len_bits > 0));
     let full_hdr_len_bits = compute_header_len (resource f);
     (slot_cap_bits, _) \<leftarrow> run_bb get_len_remaining mac_block;
     let num_fill_bits = compute_required (full_hdr_len_bits + sdu_len_bits) slot_cap_bits;
     let total_len_bits = full_hdr_len_bits + sdu_len_bits + num_fill_bits;
     let total_len_bytes = total_len_bits div 8;
     if total_len_bits \<le> slot_cap_bits
     then do {
       assert_opt (total_len_bits mod 8 = 0 \<or> total_len_bits = slot_cap_bits);
       let r = (resource f)\<lparr>res_length_ind := of_nat total_len_bytes, res_fill_bits := num_fill_bits > 0\<rparr>;
       (_, mac_block) \<leftarrow> run_bb (resource_to_bitbuf r) mac_block;
       (sdu, mac_block) \<leftarrow> run_bb (copy_bits (fr_sdu f) sdu_len_bits) mac_block;
       (_, mac_block) \<leftarrow> run_bb (write_fill_bits (Some num_fill_bits)) mac_block;
       Some (True, f\<lparr>resource := r, fr_sdu := sdu, mac_hdr_is_written := True\<rparr>, mac_block)
     }
     else do {
       let fragmented_chan_alloc_len =
         (case res_chan_alloc (resource f) of Some c \<Rightarrow> chan_alloc_compute_len c | None \<Rightarrow> 0);
       frag_start_hdr_len_bits \<leftarrow> sub_opt full_hdr_len_bits fragmented_chan_alloc_len;
       if slot_cap_bits < MIN_SLOT_CAP_FOR_RES_FRAG_START \<or> slot_cap_bits < frag_start_hdr_len_bits
       then Some (False, f, mac_block)
       else do {
         let f = f\<lparr>fragmented_chan_alloc := res_chan_alloc (resource f), resource := (resource f)\<lparr>res_chan_alloc := None\<rparr>\<rparr>;
         let hdr_len_bits = compute_header_len (resource f);
         room \<leftarrow> sub_opt slot_cap_bits hdr_len_bits;
         let sdu_bits = min room sdu_len_bits;
         num_fill_bits \<leftarrow> sub_opt room sdu_bits;
         let r = (resource f)\<lparr>res_length_ind := 63, res_fill_bits := num_fill_bits > 0\<rparr>;
         (_, mac_block) \<leftarrow> run_bb (resource_to_bitbuf r) mac_block;
         (sdu, mac_block) \<leftarrow> run_bb (copy_bits (fr_sdu f) sdu_bits) mac_block;
         (_, mac_block) \<leftarrow> run_bb (write_fill_bits (Some num_fill_bits)) mac_block;
         Some (False, f\<lparr>resource := r, fr_sdu := sdu, mac_hdr_is_written := True\<rparr>, mac_block)
       }
     }
   }"

text \<open>The fill bits of the last two chunks, written in place.\<close>

definition write_fill_inline :: "nat \<Rightarrow> unit bbm" where
  "write_fill_inline num_fill_bits =
     (if num_fill_bits > 0 then thenM (write_bit 1) (write_zeroes (num_fill_bits - 1)) else retM ())"

definition get_frag_or_end_chunk :: "bs_fragger \<Rightarrow> bitbuf \<Rightarrow> (bool \<times> bs_fragger \<times> bitbuf) option" where
  "get_frag_or_end_chunk f mac_block = do {
     assert_opt (mac_hdr_is_written f);
     (sdu_bits, _) \<leftarrow> run_bb get_len_remaining (fr_sdu f);
     let macend_len_bits = end_compute_hdr_len False (fragmented_chan_alloc f) + sdu_bits;
     let macend_len_bytes = (macend_len_bits + 7) div 8;
     (slot_cap_bits, _) \<leftarrow> run_bb get_len_remaining mac_block;
     if macend_len_bytes * 8 \<le> slot_cap_bits
     then do {
       let num_fill_bits = compute_required macend_len_bits slot_cap_bits;
       let pdu = \<lparr>end_fill_bits = num_fill_bits > 0, end_pos_of_grant = 0, end_length_ind = of_nat macend_len_bytes,
         end_slot_granting = None, end_chan_alloc = fragmented_chan_alloc f\<rparr>;
       (_, mac_block) \<leftarrow> run_bb (end_to_bitbuf pdu) mac_block;
       (sdu, mac_block) \<leftarrow> run_bb (copy_bits (fr_sdu f) sdu_bits) mac_block;
       (_, mac_block) \<leftarrow> run_bb (write_fill_inline num_fill_bits) mac_block;
       Some (True, f\<lparr>fragmented_chan_alloc := None, fr_sdu := sdu\<rparr>, mac_block)
     }
     else if slot_cap_bits < MIN_SLOT_CAP_FOR_FRAG \<or> sdu_bits = 0
     then Some (False, f, mac_block)
     else do {
       let macfrag_hdr_len = 4;
       room \<leftarrow> sub_opt slot_cap_bits macfrag_hdr_len;
       let sdu_bits_in_frag = min room sdu_bits;
       num_fill_bits \<leftarrow> sub_opt room sdu_bits_in_frag;
       let pdu = \<lparr>frag_fill_bits = num_fill_bits > 0\<rparr>;
       (_, mac_block) \<leftarrow> run_bb (frag_to_bitbuf pdu) mac_block;
       (sdu, mac_block) \<leftarrow> run_bb (copy_bits (fr_sdu f) sdu_bits_in_frag) mac_block;
       (_, mac_block) \<leftarrow> run_bb (write_fill_inline num_fill_bits) mac_block;
       Some (False, f\<lparr>fr_sdu := sdu\<rparr>, mac_block)
     }
   }"

definition report :: "(tx_reporter, bool) comp \<Rightarrow> tx_reporter option \<Rightarrow> tx_reporter option" where
  "report m = map_option (\<lambda>r. after (m r) r)"

definition get_next_chunk :: "bs_fragger \<Rightarrow> bitbuf \<Rightarrow> (bool \<times> bs_fragger \<times> bitbuf) option" where
  "get_next_chunk f mac_block = do {
     assert_opt (\<not> is_fully_transmitted f);
     (written, _) \<leftarrow> run_bb get_len_written mac_block;
     (remaining, _) \<leftarrow> run_bb get_len_remaining mac_block;
     assert_opt (written mod 8 = 0 \<or> remaining = 0);
     (done, f, mac_block) \<leftarrow>
       (if \<not> mac_hdr_is_written f then get_resource_chunk f mac_block else get_frag_or_end_chunk f mac_block);
     let f = f\<lparr>is_fully_transmitted := done\<rparr>;
     let f = (if done then f\<lparr>fr_tx_reporter := report try_mark_transmitted (fr_tx_reporter f)\<rparr> else f);
     Some (done, f, mac_block)
   }"

definition fragger_drop :: "bs_fragger \<Rightarrow> tx_reporter option" where
  "fragger_drop f =
     (if \<not> is_fully_transmitted f then report try_mark_discarded (fr_tx_reporter f) else fr_tx_reporter f)"

section \<open>One chunk\<close>

lemma run_emits:
  assumes "emits w bs" and "can_write (length bs) b"
  obtains b' where "run_bb w b = Some ((), b')" and "wrote b bs b'"
proof -
  obtain b' where "w b = Ok () b'" "wrote b bs b'" using assms by (rule emitsD)
  then show thesis by (intro that [of b']) (simp_all add: run_bb_def)
qed

lemma run_copy:
  assumes "bb_wf src" and "n \<le> length (unread src)" and "can_write n b"
  obtains b' where "run_bb (copy_bits src n) b = Some (bb_adv n src, b')" and "wrote b (take n (unread src)) b'"
  using copy_bits_wrote [OF assms] by (auto simp: run_bb_def)

text \<open>A header, a piece of the SDU and fill bits, written one after the other.\<close>

lemma write_pieces:
  assumes hdr: "emits w hb" and src: "bb_wf src" "n \<le> length (unread src)" and fill: "emits v (fill_pattern k)"
    and room: "can_write (length hb + n + k) b"
  obtains b1 b2 b3 where "run_bb w b = Some ((), b1)" and "run_bb (copy_bits src n) b1 = Some (bb_adv n src, b2)"
    and "run_bb v b2 = Some ((), b3)" and "wrote b (hb @ take n (unread src) @ fill_pattern k) b3"
proof -
  have "can_write (length hb) b" using room by (rule can_write_mono) simp
  then obtain b1 where b1: "run_bb w b = Some ((), b1)" "wrote b hb b1" by (rule run_emits [OF hdr])
  have r1: "can_write (n + k) b1" using room b1(2) by (auto intro: can_write_after simp: add.assoc)
  then have "can_write n b1" by (rule can_write_mono) simp
  then obtain b2 where b2: "run_bb (copy_bits src n) b1 = Some (bb_adv n src, b2)" "wrote b1 (take n (unread src)) b2"
    by (rule run_copy [OF src])
  have l: "length (take n (unread src)) = n" using src(2) by (simp del: length_unread)
  have "can_write (length (fill_pattern k)) b2" using can_write_after [OF r1 b2(2) l] by simp
  then obtain b3 where b3: "run_bb v b2 = Some ((), b3)" "wrote b2 (fill_pattern k) b3" by (rule run_emits [OF fill])
  have "wrote b (hb @ take n (unread src) @ fill_pattern k) b3"
    by (rule wrote_trans [OF b1(2) wrote_trans [OF b2(2) b3(2)]])
  then show thesis using that b1(1) b2(1) b3(1) by blast
qed

lemma emits_fill_inline: "emits (write_fill_inline k) (fill_pattern k)"
  using emits_fill [of k] by (simp add: write_fill_inline_def write_fill_bits_def)

text \<open>A resource that can be sent once its length indication is set.\<close>

definition sendable :: "mac_resource \<Rightarrow> bool" where
  "sendable r \<longleftrightarrow> resource_valid (r\<lparr>res_length_ind := 63\<rparr>) \<and> \<not> is_null_pdu r"

definition without_ca :: "mac_resource \<Rightarrow> mac_resource" where
  "without_ca r = r\<lparr>res_chan_alloc := None\<rparr>"

lemma select_addr_type_upd:
  "select_addr_type (r\<lparr>res_length_ind := l, res_fill_bits := x, res_chan_alloc := c\<rparr>) = select_addr_type r"
  "select_addr_type (r\<lparr>res_length_ind := l\<rparr>) = select_addr_type r"
  by (simp_all add: select_addr_type_def is_null_pdu_def cong: option.case_cong if_cong)

lemma validate_len:
  assumes "validate_for_serialization (r\<lparr>res_length_ind := 63\<rparr>) = Inr t" and "fits 6 l" and "l \<noteq> 0"
  shows "validate_for_serialization (r\<lparr>res_length_ind := l, res_fill_bits := x, res_chan_alloc := c\<rparr>) = Inr t"
proof -
  have "\<not> l > 0x3f" using assms(2) by (simp add: fits_def word_less_nat_alt)
  then show ?thesis
    using assms(1,3)
    by (simp add: validate_for_serialization_def check_eq_Inr select_addr_type_upd)
qed

lemma sendable_valid:
  assumes "sendable r" and "fits 6 l" and "l \<noteq> 0"
  shows "resource_valid (r\<lparr>res_length_ind := l, res_fill_bits := x\<rparr>)"
    and "resource_valid ((without_ca r)\<lparr>res_length_ind := l, res_fill_bits := x\<rparr>)"
proof -
  obtain t where t: "validate_for_serialization (r\<lparr>res_length_ind := 63\<rparr>) = Inr t"
    using assms(1) by (auto simp: sendable_def resource_valid_def)
  have "validate_for_serialization (r\<lparr>res_length_ind := l, res_fill_bits := x\<rparr>) = Inr t"
    using validate_len [OF t assms(2,3), where x = x and c = "res_chan_alloc r"] by simp
  then show "resource_valid (r\<lparr>res_length_ind := l, res_fill_bits := x\<rparr>)"
    using assms(1) by (auto simp: sendable_def resource_valid_def is_null_pdu_def)
  have w: "(without_ca r)\<lparr>res_length_ind := l, res_fill_bits := x\<rparr> = r\<lparr>res_length_ind := l, res_fill_bits := x, res_chan_alloc := None\<rparr>"
    by (cases r) (simp add: without_ca_def)
  show "resource_valid ((without_ca r)\<lparr>res_length_ind := l, res_fill_bits := x\<rparr>)"
    unfolding w using validate_len [OF t assms(2,3), where x = x and c = None] assms(1)
    by (auto simp: sendable_def resource_valid_def is_null_pdu_def ca_ok_def)
qed

lemma header_len_simps [simp]:
  "compute_header_len (r\<lparr>res_length_ind := l, res_fill_bits := x\<rparr>) = compute_header_len r"
  by (simp add: compute_header_len_def is_null_pdu_def)

lemma header_len_without_ca:
  assumes "\<not> is_null_pdu r"
  shows "compute_header_len r = compute_header_len (without_ca r)
    + (case res_chan_alloc r of Some c \<Rightarrow> chan_alloc_compute_len c | None \<Rightarrow> 0)"
  using assms by (simp add: compute_header_len_def is_null_pdu_def without_ca_def chan_alloc_compute_len_def split: option.split)

lemma header_len_ge: "16 \<le> compute_header_len r"
  by (simp add: compute_header_len_def)

lemma can_write_room: "bb_wf b \<Longrightarrow> n \<le> length (unread b) \<Longrightarrow> can_write n b"
  by (auto simp: can_write_def bb_wf_def)

lemma fits_len: "n < 512 \<Longrightarrow> 8 \<le> n \<Longrightarrow> fits 6 (of_nat (n div 8) :: u8) \<and> (of_nat (n div 8) :: u8) \<noteq> 0"
proof -
  assume n: "n < 512" "8 \<le> n"
  then have "n div 8 < 64" "1 \<le> n div 8" by (auto simp: less_mult_imp_div_less)
  then have "unat (of_nat (n div 8) :: u8) = n div 8" by (simp add: unat_of_nat take_bit_nat_eq_self)
  then show ?thesis using \<open>n div 8 < 64\<close> \<open>1 \<le> n div 8\<close> by (auto simp: fits_def simp flip: unat_gt_0)
qed

lemma run_simps:
  assumes "bb_wf b"
  shows "run_bb get_pos b = Some (bb_pos b - bb_start b, b)" "run_bb get_len b = Some (length (window b), b)"
    "run_bb get_len_remaining b = Some (length (unread b), b)" "run_bb get_len_written b = Some (length (written b), b)"
  using get_pos_eq [OF assms] get_len_eq [OF assms] get_len_remaining_eq [OF assms] get_len_written_eq [OF assms]
  by (simp_all add: run_bb_def window_def)

lemma assert_opt_simps [simp]: "assert_opt True = Some ()" "assert_opt False = None"
  by (simp_all add: assert_opt_def)

lemma sub_opt_eq [simp]: "b \<le> a \<Longrightarrow> sub_opt a b = Some (a - b)"
  by (simp add: sub_opt_def)

definition fresh :: "bs_fragger \<Rightarrow> bool" where
  "fresh f \<longleftrightarrow> \<not> mac_hdr_is_written f \<and> \<not> is_fully_transmitted f \<and> bb_wf (fr_sdu f) \<and> bb_pos (fr_sdu f) = bb_start (fr_sdu f)
     \<and> sendable (resource f)"

definition started :: "bs_fragger \<Rightarrow> bool" where
  "started f \<longleftrightarrow> mac_hdr_is_written f \<and> \<not> is_fully_transmitted f \<and> bb_wf (fr_sdu f) \<and> ca_ok (fragmented_chan_alloc f)"

text \<open>A block that a chunk can be written to: the downlink blocks have at most 268 bits, so that
  every length indication fits its six bits.\<close>

definition usable :: "bitbuf \<Rightarrow> bool" where
  "usable mb \<longleftrightarrow> bb_wf mb \<and> length (written mb) mod 8 = 0 \<and> length (unread mb) < 512"

definition resource_for :: "mac_resource \<Rightarrow> u8 \<Rightarrow> nat \<Rightarrow> mac_resource" where
  "resource_for r l k = r\<lparr>res_length_ind := l, res_fill_bits := k > 0\<rparr>"

lemma next_chunk_simp:
  assumes "\<not> is_fully_transmitted f" and "usable mb"
  shows "get_next_chunk f mb =
    map_option (\<lambda>(done, f, mb). (done,
        if done then f\<lparr>is_fully_transmitted := True, fr_tx_reporter := report try_mark_transmitted (fr_tx_reporter f)\<rparr>
        else f\<lparr>is_fully_transmitted := False\<rparr>, mb))
      (if \<not> mac_hdr_is_written f then get_resource_chunk f mb else get_frag_or_end_chunk f mb)"
  using assms run_simps [of mb]
  by (auto simp: get_next_chunk_def usable_def split: option.split bind_split prod.split)

lemma next_whole:
  assumes f: "fresh f" and mb: "usable mb"
  defines "H \<equiv> compute_header_len (resource f)" and "S \<equiv> length (unread (fr_sdu f))" and "C \<equiv> length (unread mb)"
  assumes fit: "H + S \<le> C"
  defines "k \<equiv> compute_required (H + S) C"
  defines "r \<equiv> resource_for (resource f) (of_nat ((H + S + k) div 8)) k"
  obtains mb' where "get_next_chunk f mb = Some (True, f\<lparr>resource := r, fr_sdu := bb_adv S (fr_sdu f), mac_hdr_is_written := True,
      is_fully_transmitted := True, fr_tx_reporter := report try_mark_transmitted (fr_tx_reporter f)\<rparr>, mb')"
    and "wrote mb (resource_bits r @ unread (fr_sdu f) @ fill_pattern k) mb'"
    and "resource_valid r" and "length (resource_bits r) = H"
proof -
  have wf: "bb_wf (fr_sdu f)" "bb_wf mb" "bb_pos (fr_sdu f) - bb_start (fr_sdu f) = 0" and send: "sendable (resource f)"
    and st: "\<not> mac_hdr_is_written f" "\<not> is_fully_transmitted f"
    using f mb by (simp_all add: fresh_def usable_def)
  note rs = run_simps(1,3) [OF wf(1)] run_simps(3) [OF wf(2)]
  have null: "\<not> is_null_pdu (resource f)" using send by (simp add: sendable_def)
  have tot: "H + S + k \<le> C" "(H + S + k) mod 8 = 0 \<or> H + S + k = C"
    unfolding k_def using compute_required_bounds(2,3) [OF fit] by simp_all
  have "H + S + k < 512" "8 \<le> H + S + k" using tot(1) mb header_len_ge [of "resource f"] by (simp_all add: usable_def C_def H_def del: length_unread)
  then have v: "resource_valid r"
    unfolding r_def resource_for_def using fits_len by (intro sendable_valid(1) [OF send]) simp_all
  have lr: "length (resource_bits r) = H"
    using length_resource_bits [OF v] by (simp add: r_def resource_for_def H_def)
  have cw: "can_write (length (resource_bits r) + S + k) mb"
    using tot(1) lr by (intro can_write_room [OF wf(2)]) (simp add: C_def)
  obtain b1 b2 b3 where b: "run_bb (resource_to_bitbuf r) mb = Some ((), b1)"
    "run_bb (copy_bits (fr_sdu f) S) b1 = Some (bb_adv S (fr_sdu f), b2)" "run_bb (write_fill_bits (Some k)) b2 = Some ((), b3)"
    "wrote mb (resource_bits r @ take S (unread (fr_sdu f)) @ fill_pattern k) b3"
    using write_pieces [OF mac_resource.enc_emits [OF v] wf(1) _ emits_fill cw] S_def by blast
  have w: "wrote mb (resource_bits r @ unread (fr_sdu f) @ fill_pattern k) b3" using b(4) by (simp add: S_def)
  have "get_resource_chunk f mb = Some (True, f\<lparr>resource := r, fr_sdu := bb_adv S (fr_sdu f), mac_hdr_is_written := True\<rparr>, b3)"
    unfolding get_resource_chunk_def rs
    using b(1-3) tot st(1) null wf(3)
    by (simp add: r_def resource_for_def k_def [symmetric] H_def [symmetric] S_def [symmetric] C_def [symmetric] del: length_unread)
  then show thesis using that [OF _ w v lr] next_chunk_simp [OF st(2) mb] st(1) by simp
qed

lemma next_start:
  assumes f: "fresh f" and mb: "usable mb"
  defines "H \<equiv> compute_header_len (without_ca (resource f))" and "S \<equiv> length (unread (fr_sdu f))" and "C \<equiv> length (unread mb)"
  assumes big: "compute_header_len (resource f) + S > C" and cap: "32 \<le> C" "H \<le> C"
  defines "n \<equiv> min (C - H) S"
  defines "k \<equiv> C - H - n"
  defines "r \<equiv> resource_for (without_ca (resource f)) 63 k"
  obtains mb' where "get_next_chunk f mb = Some (False, f\<lparr>fragmented_chan_alloc := res_chan_alloc (resource f), resource := r,
      fr_sdu := bb_adv n (fr_sdu f), mac_hdr_is_written := True, is_fully_transmitted := False\<rparr>, mb')"
    and "wrote mb (resource_bits r @ take n (unread (fr_sdu f)) @ fill_pattern k) mb'"
    and "resource_valid r" and "length (resource_bits r) = H" and "n \<le> S" and "H + n + k = C"
proof -
  have wf: "bb_wf (fr_sdu f)" "bb_wf mb" "bb_pos (fr_sdu f) - bb_start (fr_sdu f) = 0" and send: "sendable (resource f)"
    and st: "\<not> mac_hdr_is_written f" "\<not> is_fully_transmitted f"
    using f mb by (simp_all add: fresh_def usable_def)
  note rs = run_simps(1,3) [OF wf(1)] run_simps(3) [OF wf(2)]
  have null: "\<not> is_null_pdu (resource f)" using send by (simp add: sendable_def)
  have n: "n \<le> S" "n \<le> C - H" by (simp_all add: n_def)
  then have hnk: "H + n + k = C" using cap(2) by (simp add: k_def)
  have v: "resource_valid r"
    unfolding r_def resource_for_def by (rule sendable_valid(2) [OF send]) (simp_all add: fits_def)
  have lr: "length (resource_bits r) = H"
    using length_resource_bits [OF v] by (simp add: r_def resource_for_def H_def)
  have cw: "can_write (length (resource_bits r) + n + k) mb"
    using hnk lr by (intro can_write_room [OF wf(2)]) (simp add: C_def)
  have n': "n \<le> length (unread (fr_sdu f))" using n(1) by (simp add: S_def)
  obtain b1 b2 b3 where b: "run_bb (resource_to_bitbuf r) mb = Some ((), b1)"
    "run_bb (copy_bits (fr_sdu f) n) b1 = Some (bb_adv n (fr_sdu f), b2)" "run_bb (write_fill_bits (Some k)) b2 = Some ((), b3)"
    "wrote mb (resource_bits r @ take n (unread (fr_sdu f)) @ fill_pattern k) b3"
    using write_pieces [OF mac_resource.enc_emits [OF v] wf(1) n' emits_fill cw] by blast
  have long: "\<not> compute_header_len (resource f) + S + x \<le> C" for x using big by simp
  have hdr: "compute_header_len (resource f)
      - (case res_chan_alloc (resource f) of Some c \<Rightarrow> chan_alloc_compute_len c | None \<Rightarrow> 0) = H"
    and le: "(case res_chan_alloc (resource f) of Some c \<Rightarrow> chan_alloc_compute_len c | None \<Rightarrow> 0) \<le> compute_header_len (resource f)"
    using header_len_without_ca [OF null] by (simp_all add: H_def)
  have min: "min (C - H) S = n" by (simp add: n_def)
  have k: "C - (H + n) = k" "n < C - H \<longleftrightarrow> 0 < k" by (auto simp: k_def)
  have "get_resource_chunk f mb = Some (False, f\<lparr>fragmented_chan_alloc := res_chan_alloc (resource f), resource := r,
      fr_sdu := bb_adv n (fr_sdu f), mac_hdr_is_written := True\<rparr>, b3)"
    unfolding get_resource_chunk_def rs
    using b(1-3) st(1) null wf(3) cap n(2)
    by (simp add: S_def [symmetric] C_def [symmetric] long le hdr MIN_SLOT_CAP_FOR_RES_FRAG_START_def
        without_ca_def [symmetric] H_def [symmetric] min k r_def resource_for_def Let_def del: length_unread)
  then show thesis using that [OF _ b(4) v lr n(1) hnk] next_chunk_simp [OF st(2) mb] st(1) by simp
qed

lemma next_defer:
  assumes f: "fresh f" and mb: "usable mb"
    and big: "compute_header_len (resource f) + length (unread (fr_sdu f)) > length (unread mb)"
    and cap: "length (unread mb) < 32 \<or> length (unread mb) < compute_header_len (without_ca (resource f))"
  shows "get_next_chunk f mb = Some (False, f, mb)"
proof -
  have wf: "bb_wf (fr_sdu f)" "bb_wf mb" "bb_pos (fr_sdu f) - bb_start (fr_sdu f) = 0" and send: "sendable (resource f)"
    and st: "\<not> mac_hdr_is_written f" "\<not> is_fully_transmitted f"
    using f mb by (simp_all add: fresh_def usable_def)
  note rs = run_simps(1,3) [OF wf(1)] run_simps(3) [OF wf(2)]
  have null: "\<not> is_null_pdu (resource f)" using send by (simp add: sendable_def)
  have long: "\<not> compute_header_len (resource f) + length (unread (fr_sdu f)) + x \<le> length (unread mb)" for x using big by linarith
  have hdr: "compute_header_len (resource f)
      - (case res_chan_alloc (resource f) of Some c \<Rightarrow> chan_alloc_compute_len c | None \<Rightarrow> 0) = compute_header_len (without_ca (resource f))"
    and le: "(case res_chan_alloc (resource f) of Some c \<Rightarrow> chan_alloc_compute_len c | None \<Rightarrow> 0) \<le> compute_header_len (resource f)"
    using header_len_without_ca [OF null] by simp_all
  have "get_resource_chunk f mb = Some (False, f, mb)"
    unfolding get_resource_chunk_def rs
    using st(1) null wf(3) cap by (simp add: long le hdr MIN_SLOT_CAP_FOR_RES_FRAG_START_def del: length_unread)
  moreover have "f\<lparr>is_fully_transmitted := False\<rparr> = f" using st(2) by simp
  ultimately show ?thesis using next_chunk_simp [OF st(2) mb] st(1) by simp
qed

lemma next_end:
  assumes f: "started f" and mb: "usable mb"
  defines "E \<equiv> end_compute_hdr_len False (fragmented_chan_alloc f)" and "S \<equiv> length (unread (fr_sdu f))" and "C \<equiv> length (unread mb)"
  defines "L \<equiv> (E + S + 7) div 8"
  assumes fit: "L * 8 \<le> C"
  defines "k \<equiv> L * 8 - (E + S)"
  defines "e \<equiv> \<lparr>end_fill_bits = k > 0, end_pos_of_grant = 0, end_length_ind = of_nat L, end_slot_granting = None,
    end_chan_alloc = fragmented_chan_alloc f\<rparr>"
  obtains mb' where "get_next_chunk f mb = Some (True, f\<lparr>fr_sdu := bb_adv S (fr_sdu f), is_fully_transmitted := True,
      fragmented_chan_alloc := None, fr_tx_reporter := report try_mark_transmitted (fr_tx_reporter f)\<rparr>, mb')"
    and "wrote mb (end_bits e @ unread (fr_sdu f) @ fill_pattern k) mb'" and "end_valid e" and "length (end_bits e) = E"
    and "E + S + k = L * 8" and "k < 8"
proof -
  have wf: "bb_wf (fr_sdu f)" "bb_wf mb" and ca: "ca_ok (fragmented_chan_alloc f)"
    and st: "mac_hdr_is_written f" "\<not> is_fully_transmitted f"
    using f mb by (simp_all add: started_def usable_def)
  note rs = run_simps(3) [OF wf(1)] run_simps(3) [OF wf(2)]
  have "E + S + 7 = L * 8 + (E + S + 7) mod 8" by (simp add: L_def)
  moreover have "(E + S + 7) mod 8 < 8" by simp
  ultimately have esk: "E + S \<le> L * 8" "L * 8 < E + S + 8" by linarith+
  then have es: "E + S + k = L * 8" "k < 8" by (simp_all add: k_def)
  have cr: "compute_required (E + S) C = k"
  proof (cases "E + S = L * 8")
    case True
    have "(8 - L * 8 mod 8) mod 8 = 0" by simp
    then show ?thesis using True by (simp add: compute_required_def k_def compute_required_bytealigned_def Let_def)
  next
    case False
    then have "0 < k" "E + S < C" using esk es fit by linarith+
    have "E + S = L * 8 - k" using es by simp
    moreover have "L * 8 - k = (L - 1) * 8 + (8 - k)" using es \<open>0 < k\<close> by (cases L) simp_all
    ultimately have "(E + S) mod 8 = (8 - k) mod 8" by (metis mod_mult_self3 mult.commute)
    then have "compute_required_bytealigned (E + S) = k" using es(2) \<open>0 < k\<close> by (simp add: compute_required_bytealigned_def)
    then show ?thesis using \<open>E + S < C\<close> es(1) fit by (simp add: compute_required_def Let_def)
  qed
  have "E \<ge> 13" by (simp add: E_def end_compute_hdr_len_def)
  then have L: "1 \<le> L" "L < 64" using esk fit mb by (simp_all add: usable_def C_def del: length_unread)
  then have "unat (of_nat L :: u8) = L" by (simp add: unat_of_nat take_bit_nat_eq_self)
  then have v: "end_valid e" using L ca by (auto simp: end_valid_def e_def fits_def simp flip: unat_gt_0)
  have le: "length (end_bits e) = E" using length_end_bits [OF v] by (simp add: e_def E_def)
  have cw: "can_write (length (end_bits e) + S + k) mb"
    using es(1) fit le by (intro can_write_room [OF wf(2)]) (simp add: C_def)
  have s: "S \<le> length (unread (fr_sdu f))" by (simp add: S_def)
  obtain b1 b2 b3 where b: "run_bb (end_to_bitbuf e) mb = Some ((), b1)"
    "run_bb (copy_bits (fr_sdu f) S) b1 = Some (bb_adv S (fr_sdu f), b2)" "run_bb (write_fill_inline k) b2 = Some ((), b3)"
    "wrote mb (end_bits e @ take S (unread (fr_sdu f)) @ fill_pattern k) b3"
    using write_pieces [OF mac_end.enc_emits [OF v] wf(1) s emits_fill_inline cw] by blast
  have w: "wrote mb (end_bits e @ unread (fr_sdu f) @ fill_pattern k) b3" using b(4) by (simp add: S_def)
  have "get_frag_or_end_chunk f mb = Some (True, f\<lparr>fr_sdu := bb_adv S (fr_sdu f), fragmented_chan_alloc := None\<rparr>, b3)"
    unfolding get_frag_or_end_chunk_def rs
    using b(1-3) st(1) fit
    by (simp add: S_def [symmetric] C_def [symmetric] E_def [symmetric] L_def [symmetric] cr e_def del: length_unread)
  then show thesis using that [OF _ w v le es] next_chunk_simp [OF st(2) mb] st(1) by simp
qed

lemma next_frag:
  assumes f: "started f" and mb: "usable mb"
  defines "S \<equiv> length (unread (fr_sdu f))" and "C \<equiv> length (unread mb)"
  assumes big: "(end_compute_hdr_len False (fragmented_chan_alloc f) + S + 7) div 8 * 8 > C" and cap: "16 \<le> C" and s: "0 < S"
  defines "n \<equiv> min (C - 4) S"
  defines "k \<equiv> C - 4 - n"
  obtains mb' where "get_next_chunk f mb = Some (False, f\<lparr>fr_sdu := bb_adv n (fr_sdu f)\<rparr>, mb')"
    and "wrote mb (frag_bits \<lparr>frag_fill_bits = k > 0\<rparr> @ take n (unread (fr_sdu f)) @ fill_pattern k) mb'"
    and "0 < n" and "n \<le> S" and "4 + n + k = C"
proof -
  have wf: "bb_wf (fr_sdu f)" "bb_wf mb" and st: "mac_hdr_is_written f" "\<not> is_fully_transmitted f"
    using f mb by (simp_all add: started_def usable_def)
  note rs = run_simps(3) [OF wf(1)] run_simps(3) [OF wf(2)]
  have n: "n \<le> S" "n \<le> C - 4" "0 < n" using cap s by (simp_all add: n_def)
  have nk: "4 + n + k = C" using n(2) cap by (simp add: k_def)
  have cw: "can_write (length (frag_bits \<lparr>frag_fill_bits = k > 0\<rparr>) + n + k) mb"
    using nk by (intro can_write_room [OF wf(2)]) (simp add: C_def)
  have s': "n \<le> length (unread (fr_sdu f))" using n(1) by (simp add: S_def)
  obtain b1 b2 b3 where b: "run_bb (frag_to_bitbuf \<lparr>frag_fill_bits = k > 0\<rparr>) mb = Some ((), b1)"
    "run_bb (copy_bits (fr_sdu f) n) b1 = Some (bb_adv n (fr_sdu f), b2)" "run_bb (write_fill_inline k) b2 = Some ((), b3)"
    "wrote mb (frag_bits \<lparr>frag_fill_bits = k > 0\<rparr> @ take n (unread (fr_sdu f)) @ fill_pattern k) b3"
    using write_pieces [OF mac_frag.enc_emits [OF TrueI] wf(1) s' emits_fill_inline cw] by blast
  have min: "min (C - 4) S = n" by (simp add: n_def)
  have k: "C - (4 + n) = k" "n < C - 4 \<longleftrightarrow> 0 < k" by (auto simp: k_def)
  have nofit: "\<not> (end_compute_hdr_len False (fragmented_chan_alloc f) + S + 7) div 8 * 8 \<le> C" using big by simp
  have "get_frag_or_end_chunk f mb = Some (False, f\<lparr>fr_sdu := bb_adv n (fr_sdu f)\<rparr>, b3)"
    unfolding get_frag_or_end_chunk_def rs
    using b(1-3) st(1) cap s n(2)
    by (simp add: S_def [symmetric] C_def [symmetric] nofit min MIN_SLOT_CAP_FOR_FRAG_def k del: length_unread)
  moreover have "f\<lparr>fr_sdu := x, is_fully_transmitted := False\<rparr> = f\<lparr>fr_sdu := x\<rparr>" for x using st(2) by (cases f) simp
  ultimately show thesis using that [OF _ b(4) n(3,1) nk] next_chunk_simp [OF st(2) mb] st(1) by simp
qed

end
