(* ===== verification/Defrag.thy ===== *)
theory Defrag
  imports Mac_Fields Tdma_Time "HOL-Library.AList" "HOL-Library.Monad_Syntax"
begin

text \<open>
  The defragmenters of the upper MAC: \<^verbatim>\<open>defrag.rs\<close>, \<^verbatim>\<open>bs_defrag.rs\<close> (one buffer per address and
  timeslot) and \<^verbatim>\<open>ms_defrag.rs\<close> (one buffer per timeslot) under
  \<^verbatim>\<open>crates/tetra-entities/src/umac/subcomp\<close>.  A \<open>HashMap\<close> is an association list with distinct keys.
  \<open>None\<close> is a panic: a timeslot number outside 1 to 4, an overflow of the clock arithmetic, an
  operation on an ill-formed buffer.  The lemmas show that the buffer collects exactly the bits
  of the fragments in their order, that other addresses are not touched, and when a fragment is
  refused or a buffer times out.
\<close>

section \<open>Buffers\<close>

definition DEFRAG_BUF_INITIAL_LEN :: nat where
  "DEFRAG_BUF_INITIAL_LEN = 512"

definition DEFRAG_BUF_MAX_LEN :: nat where
  "DEFRAG_BUF_MAX_LEN = 4096"

datatype defrag_buffer_state = Inactive | Active | Complete

record defrag_buffer =
  db_state :: defrag_buffer_state
  db_addr :: tetra_address
  db_t_first :: tdma_time
  db_t_last :: tdma_time
  db_num_frags :: nat
  db_aie_info :: "int option"
  db_buffer :: bitbuf

definition defrag_buffer_new :: defrag_buffer where
  "defrag_buffer_new =
     \<lparr>db_state = Inactive, db_addr = \<lparr>ssi = 0, ssi_type = Issi\<rparr>, db_t_first = tdma_default, db_t_last = tdma_default,
      db_num_frags = 0, db_aie_info = None, db_buffer = bb_new_autoexpand DEFRAG_BUF_INITIAL_LEN\<rparr>"

definition defrag_buffer_reset :: "defrag_buffer \<Rightarrow> defrag_buffer" where
  "defrag_buffer_reset b =
     b\<lparr>db_state := Inactive, db_addr := \<lparr>ssi = 0, ssi_type = Issi\<rparr>, db_t_first := tdma_default, db_t_last := tdma_default,
       db_num_frags := 0, db_aie_info := None, db_buffer := bb_new_autoexpand DEFRAG_BUF_INITIAL_LEN\<rparr>"

text \<open>\<open>(t.t - 1) as usize\<close> and the index into an array of four.\<close>

definition ts_index :: "tdma_time \<Rightarrow> nat option" where
  "ts_index t = (if tt_t t = 0 \<or> unat (tt_t t) - 1 \<ge> 4 then None else Some (unat (tt_t t) - 1))"

text \<open>\<open>dst.copy_bits(src, src.get_len_remaining())\<close>: the source is read to its end.\<close>

definition append_rest :: "bitbuf \<Rightarrow> bitbuf \<Rightarrow> (bitbuf \<times> bitbuf) option" where
  "append_rest src dst = do {
     (len, src) \<leftarrow> run_bb get_len_remaining src;
     run_bb (copy_bits src len) dst
   }"

definition buffer_start :: "defrag_buffer \<Rightarrow> bitbuf \<Rightarrow> tdma_time \<Rightarrow> tetra_address \<Rightarrow> int option \<Rightarrow> (bitbuf \<times> defrag_buffer) option" where
  "buffer_start buf bits t a aie = do {
     let buf = buf\<lparr>db_state := Active, db_addr := a, db_t_first := t, db_t_last := t, db_num_frags := 1, db_aie_info := aie\<rparr>;
     (bits, buffer) \<leftarrow> append_rest bits (db_buffer buf);
     Some (bits, buf\<lparr>db_buffer := buffer\<rparr>)
   }"

section \<open>The defragmenter of the base station\<close>

definition BS_DEFRAG_TS_BEFORE_TIMEOUT :: int where
  "BS_DEFRAG_TS_BEFORE_TIMEOUT = 9 * 4"

type_synonym bs_defrag = "(tetra_address \<times> defrag_buffer) list list"

definition bs_defrag_new :: bs_defrag where
  "bs_defrag_new = [[], [], [], []]"

definition bs_defrag_reset :: "bs_defrag \<Rightarrow> bs_defrag" where
  "bs_defrag_reset bs = map (\<lambda>_. []) bs"

fun retain_young :: "int \<Rightarrow> tdma_time \<Rightarrow> (tetra_address \<times> defrag_buffer) list \<Rightarrow> (tetra_address \<times> defrag_buffer) list option" where
  "retain_young limit t [] = Some []"
| "retain_young limit t ((a, b) # m) = do {
     old \<leftarrow> (if db_state b \<noteq> Inactive then do { d \<leftarrow> diff t (db_t_last b); Some (d \<ge> limit) } else Some False);
     m \<leftarrow> retain_young limit t m;
     Some (if old then m else (a, b) # m)
   }"

fun bs_age_buffers :: "bs_defrag \<Rightarrow> tdma_time \<Rightarrow> bs_defrag option" where
  "bs_age_buffers [] t = Some []"
| "bs_age_buffers (m # ms) t = do {
     m \<leftarrow> retain_young BS_DEFRAG_TS_BEFORE_TIMEOUT t m;
     ms \<leftarrow> bs_age_buffers ms t;
     Some (m # ms)
   }"

definition bs_discard_incomplete_for_addr :: "bs_defrag \<Rightarrow> tdma_time \<Rightarrow> tetra_address \<Rightarrow> (bool \<times> bs_defrag) option" where
  "bs_discard_incomplete_for_addr bs t a = do {
     ts \<leftarrow> ts_index t;
     case map_of (bs ! ts) a of
       None \<Rightarrow> Some (False, bs)
     | Some buffer \<Rightarrow>
         if db_state buffer = Inactive then Some (False, bs)
         else Some (True, bs[ts := AList.delete a (bs ! ts)])
   }"

definition bs_insert_first :: "bs_defrag \<Rightarrow> bitbuf \<Rightarrow> tdma_time \<Rightarrow> tetra_address \<Rightarrow> int option \<Rightarrow> (bitbuf \<times> bs_defrag) option" where
  "bs_insert_first bs bits t a aie = do {
     ts \<leftarrow> ts_index t;
     let buf = (case map_of (bs ! ts) a of Some buf \<Rightarrow> defrag_buffer_reset buf | None \<Rightarrow> defrag_buffer_new);
     let m = AList.delete a (bs ! ts);
     (bits, buf) \<leftarrow> buffer_start buf bits t a aie;
     Some (bits, bs[ts := AList.update a buf m])
   }"

definition bs_insert_next :: "bs_defrag \<Rightarrow> bitbuf \<Rightarrow> tetra_address \<Rightarrow> tdma_time \<Rightarrow> (bitbuf \<times> bs_defrag) option" where
  "bs_insert_next bs bits a t = do {
     ts \<leftarrow> ts_index t;
     case map_of (bs ! ts) a of
       None \<Rightarrow> Some (bits, bs)
     | Some buf \<Rightarrow>
         if db_state buf \<noteq> Active then Some (bits, bs)
         else do {
           (len, _) \<leftarrow> run_bb get_len (db_buffer buf);
           (rest, _) \<leftarrow> run_bb get_len_remaining bits;
           if len + rest > DEFRAG_BUF_MAX_LEN
           then Some (bits, bs[ts := AList.update a (defrag_buffer_reset buf) (bs ! ts)])
           else do {
             (bits, buffer) \<leftarrow> append_rest bits (db_buffer buf);
             let buf = buf\<lparr>db_t_last := t, db_num_frags := db_num_frags buf + 1, db_buffer := buffer\<rparr>;
             Some (bits, bs[ts := AList.update a buf (bs ! ts)])
           }
         }
   }"

definition bs_insert_last ::
  "bs_defrag \<Rightarrow> bitbuf \<Rightarrow> tetra_address \<Rightarrow> tdma_time \<Rightarrow> (defrag_buffer option \<times> bitbuf \<times> bs_defrag) option" where
  "bs_insert_last bs bits a t = do {
     (bits, bs) \<leftarrow> bs_insert_next bs bits a t;
     ts \<leftarrow> ts_index t;
     case map_of (bs ! ts) a of
       None \<Rightarrow> Some (None, bits, bs)
     | Some buf \<Rightarrow> do {
         let bs = bs[ts := AList.delete a (bs ! ts)];
         if db_state buf \<noteq> Active then Some (None, bits, bs)
         else do {
           (_, buffer) \<leftarrow> run_bb (set_raw_pos 0) (db_buffer buf);
           Some (Some (buf\<lparr>db_state := Complete, db_buffer := buffer\<rparr>), bits, bs)
         }
       }
   }"

definition bs_get_aie_info :: "bs_defrag \<Rightarrow> tetra_address \<Rightarrow> tdma_time \<Rightarrow> int option option" where
  "bs_get_aie_info bs a t = do {
     ts \<leftarrow> ts_index t;
     case map_of (bs ! ts) a of
       None \<Rightarrow> Some None
     | Some buf \<Rightarrow> if db_state buf = Inactive then Some None else Some (db_aie_info buf)
   }"

section \<open>The defragmenter of the mobile station\<close>

definition N203_CONTROL_CHANNEL_SLOTS_WITHOUT_FRAGMENT :: int where
  "N203_CONTROL_CHANNEL_SLOTS_WITHOUT_FRAGMENT = 4"

definition MS_DEFRAG_TS_BEFORE_TIMEOUT :: int where
  "MS_DEFRAG_TS_BEFORE_TIMEOUT = N203_CONTROL_CHANNEL_SLOTS_WITHOUT_FRAGMENT * 4"

type_synonym ms_defrag = "defrag_buffer list"

definition ms_defrag_new :: ms_defrag where
  "ms_defrag_new = [defrag_buffer_new, defrag_buffer_new, defrag_buffer_new, defrag_buffer_new]"

definition ms_defrag_reset :: "ms_defrag \<Rightarrow> ms_defrag" where
  "ms_defrag_reset ms = map defrag_buffer_reset ms"

fun ms_age_buffers :: "ms_defrag \<Rightarrow> tdma_time \<Rightarrow> ms_defrag option" where
  "ms_age_buffers [] t = Some []"
| "ms_age_buffers (b # bs) t = do {
     old \<leftarrow> (if db_state b \<noteq> Inactive then do { d \<leftarrow> diff t (db_t_last b); Some (d \<ge> MS_DEFRAG_TS_BEFORE_TIMEOUT) } else Some False);
     bs \<leftarrow> ms_age_buffers bs t;
     Some ((if old then defrag_buffer_reset b else b) # bs)
   }"

definition ms_insert_first :: "ms_defrag \<Rightarrow> bitbuf \<Rightarrow> tdma_time \<Rightarrow> tetra_address \<Rightarrow> int option \<Rightarrow> (bitbuf \<times> ms_defrag) option" where
  "ms_insert_first ms bits t a aie = do {
     ts \<leftarrow> ts_index t;
     let buf = (if db_state (ms ! ts) \<noteq> Inactive then defrag_buffer_reset (ms ! ts) else ms ! ts);
     (bits, buf) \<leftarrow> buffer_start buf bits t a aie;
     Some (bits, ms[ts := buf])
   }"

text \<open>\<open>insert_next\<close> and \<open>insert_last\<close> differ in the state they leave.\<close>

definition ms_insert_piece :: "defrag_buffer_state \<Rightarrow> ms_defrag \<Rightarrow> bitbuf \<Rightarrow> tdma_time \<Rightarrow> (bitbuf \<times> ms_defrag) option" where
  "ms_insert_piece new_state ms bits t = do {
     ts \<leftarrow> ts_index t;
     let buf = ms ! ts;
     if db_state buf \<noteq> Active then Some (bits, ms)
     else do {
       (len, _) \<leftarrow> run_bb get_len (db_buffer buf);
       (rest, _) \<leftarrow> run_bb get_len_remaining bits;
       if len + rest > DEFRAG_BUF_MAX_LEN then Some (bits, ms[ts := defrag_buffer_new])
       else do {
         (bits, buffer) \<leftarrow> append_rest bits (db_buffer buf);
         Some (bits, ms[ts := buf\<lparr>db_state := new_state, db_t_last := t, db_num_frags := db_num_frags buf + 1,
           db_buffer := buffer\<rparr>])
       }
     }
   }"

definition ms_insert_next :: "ms_defrag \<Rightarrow> bitbuf \<Rightarrow> tdma_time \<Rightarrow> (bitbuf \<times> ms_defrag) option" where
  "ms_insert_next = ms_insert_piece Active"

definition ms_insert_last :: "ms_defrag \<Rightarrow> bitbuf \<Rightarrow> tdma_time \<Rightarrow> (bitbuf \<times> ms_defrag) option" where
  "ms_insert_last = ms_insert_piece Complete"

definition ms_get_aie_info :: "ms_defrag \<Rightarrow> tdma_time \<Rightarrow> int option option" where
  "ms_get_aie_info ms t = do {
     ts \<leftarrow> ts_index t;
     if db_state (ms ! ts) \<noteq> Active then Some None else Some (db_aie_info (ms ! ts))
   }"

definition take_defragged_buf :: "ms_defrag \<Rightarrow> tdma_time \<Rightarrow> (defrag_buffer option \<times> ms_defrag) option" where
  "take_defragged_buf ms t = do {
     ts \<leftarrow> ts_index t;
     if db_state (ms ! ts) \<noteq> Complete then Some (None, ms)
     else do {
       let buf = ms ! ts;
       (_, buffer) \<leftarrow> run_bb (set_raw_end (bb_pos (db_buffer buf))) (db_buffer buf);
       (_, buffer) \<leftarrow> run_bb (seek 0) buffer;
       Some (Some (buf\<lparr>db_buffer := buffer\<rparr>), ms[ts := defrag_buffer_new])
     }
   }"

section \<open>What a buffer holds\<close>

text \<open>A growing buffer that holds exactly \<open>bits\<close>, with the cursor behind them.\<close>

definition holds :: "bitbuf \<Rightarrow> bool list \<Rightarrow> bool" where
  "holds b bits \<longleftrightarrow> bb_wf b \<and> bb_autoexpand b \<and> bb_start b = 0 \<and> bb_pos b = bb_end b \<and> window b = bits"

lemma holds_new: "holds (bb_new_autoexpand n) []"
  unfolding holds_def using bb_wf_new(2) [of n] by (simp add: window_def bb_new_autoexpand_def)

lemma append_rest_holds:
  assumes src: "bb_wf src" and dst: "holds dst bits"
  obtains dst' where "append_rest src dst = Some (bb_adv (length (unread src)) src, dst')" and "holds dst' (bits @ unread src)"
proof -
  have wf: "bb_wf dst" and ax: "bb_autoexpand dst" and st: "bb_start dst = 0" and pe: "bb_pos dst = bb_end dst" and w: "window dst = bits"
    using dst by (simp_all add: holds_def)
  have "can_write (length (unread src)) dst" using wf ax pe by (simp add: can_write_def)
  then obtain dst' where d: "copy_bits src (length (unread src)) dst = Ok (bb_adv (length (unread src)) src) dst'"
    "wrote dst (unread src) dst'"
    using copy_bits_wrote [OF src order_refl] by auto
  have wr: "bb_wf dst'" "bb_start dst' = 0" "bb_autoexpand dst'" "bb_pos dst' = bb_end dst'"
    "bb_end dst' = bb_pos dst + length (unread src)"
    "bb_slice (bb_buffer dst') (bb_pos dst) (bb_pos dst + length (unread src)) = unread src"
    "\<forall>i < bb_pos dst. bb_bit (bb_buffer dst') i = bb_bit (bb_buffer dst) i"
    using d(2) ax st pe by (auto simp: wrote_def)
  have "bb_slice (bb_buffer dst') 0 (bb_pos dst) = bb_slice (bb_buffer dst) 0 (bb_pos dst)"
    using wr(7) by (intro nth_equalityI) simp_all
  then have "window dst' = window dst @ unread src"
    using wr(2,5,6) bb_slice_append [of 0 "bb_pos dst" "bb_end dst'" "bb_buffer dst'"] st pe by (simp add: window_def)
  then have "holds dst' (bits @ unread src)" using wr w by (simp add: holds_def)
  then show thesis
    using that d(1) get_len_remaining_eq [OF src] by (simp add: append_rest_def run_bb_def)
qed

lemma buffer_start_holds:
  assumes "bb_wf src" and "holds (db_buffer buf) []"
  obtains buffer where "buffer_start buf src t a aie = Some (bb_adv (length (unread src)) src,
      buf\<lparr>db_state := Active, db_addr := a, db_t_first := t, db_t_last := t, db_num_frags := 1, db_aie_info := aie, db_buffer := buffer\<rparr>)"
    and "holds buffer (unread src)"
proof -
  obtain buffer where "append_rest src (db_buffer buf) = Some (bb_adv (length (unread src)) src, buffer)" "holds buffer ([] @ unread src)"
    using assms by (rule append_rest_holds)
  then show thesis using that by (simp add: buffer_start_def)
qed

lemma holds_len: "holds b bits \<Longrightarrow> run_bb get_len b = Some (length bits, b)"
  using get_len_eq [of b] by (auto simp: holds_def run_bb_def window_def)

lemma ts_index_less: "ts_index t = Some i \<Longrightarrow> i < 4"
  by (simp add: ts_index_def split: if_splits)

section \<open>Reassembly as a contract\<close>

text \<open>
  A fragment is inserted at a place (the time and, for the base station, the address); fragments
  of the same place share a key.  The contract speaks of the bits collected for the open burst of
  every key.
\<close>

datatype 'x frag_event = First 'x bitbuf | Next 'x bitbuf | Last 'x bitbuf

fun event_place :: "'x frag_event \<Rightarrow> 'x" where
  "event_place (First x b) = x"
| "event_place (Next x b) = x"
| "event_place (Last x b) = x"

fun event_bits :: "'x frag_event \<Rightarrow> bitbuf" where
  "event_bits (First x b) = b"
| "event_bits (Next x b) = b"
| "event_bits (Last x b) = b"

text \<open>What one key sees: the collected bits and, at a last fragment, the result.\<close>

definition extend_burst :: "bool list option \<Rightarrow> bool list \<Rightarrow> bool list option" where
  "extend_burst p bs =
     (case p of None \<Rightarrow> None | Some xs \<Rightarrow> if length xs + length bs > DEFRAG_BUF_MAX_LEN then None else Some (xs @ bs))"

fun spec_step :: "'x frag_event \<Rightarrow> bool list option \<Rightarrow> bool list option \<times> bool list option option" where
  "spec_step (First x b) p = (Some (unread b), None)"
| "spec_step (Next x b) p = (extend_burst p (unread b), None)"
| "spec_step (Last x b) p = (None, Some (extend_burst p (unread b)))"

fun spec_run :: "'x frag_event list \<Rightarrow> bool list option \<Rightarrow> bool list option list" where
  "spec_run [] p = []"
| "spec_run (e # es) p =
     (case spec_step e p of (p', r) \<Rightarrow> (case r of Some out \<Rightarrow> out # spec_run es p' | None \<Rightarrow> spec_run es p'))"

text \<open>Running a defragmenter, given by its three operations, on a sequence of events: the results
  of the last fragments, each with its place.\<close>

fun run_events ::
  "('s \<Rightarrow> 'x \<Rightarrow> bitbuf \<Rightarrow> 's option) \<Rightarrow> ('s \<Rightarrow> 'x \<Rightarrow> bitbuf \<Rightarrow> 's option) \<Rightarrow> ('s \<Rightarrow> 'x \<Rightarrow> bitbuf \<Rightarrow> (bitbuf option \<times> 's) option)
     \<Rightarrow> 'x frag_event list \<Rightarrow> 's \<Rightarrow> (('x \<times> bitbuf option) list \<times> 's) option" where
  "run_events fst_op next_op last_op [] s = Some ([], s)"
| "run_events fst_op next_op last_op (First x b # es) s = do { s \<leftarrow> fst_op s x b; run_events fst_op next_op last_op es s }"
| "run_events fst_op next_op last_op (Next x b # es) s = do { s \<leftarrow> next_op s x b; run_events fst_op next_op last_op es s }"
| "run_events fst_op next_op last_op (Last x b # es) s = do {
     (r, s) \<leftarrow> last_op s x b; (rs, s) \<leftarrow> run_events fst_op next_op last_op es s; Some ((x, r) # rs, s) }"

definition results_for :: "('x \<Rightarrow> 'k) \<Rightarrow> 'k \<Rightarrow> ('x \<times> bitbuf option) list \<Rightarrow> bool list option list" where
  "results_for key k rs = map (\<lambda>(x, r). map_option unread r) (filter (\<lambda>(x, r). key x = k) rs)"

locale reassembler =
  fixes inv :: "'s \<Rightarrow> bool"
    and ok :: "'x \<Rightarrow> bool"
    and key :: "'x \<Rightarrow> 'k"
    and pending :: "'s \<Rightarrow> 'k \<Rightarrow> bool list option"
    and fst_op next_op :: "'s \<Rightarrow> 'x \<Rightarrow> bitbuf \<Rightarrow> 's option"
    and last_op :: "'s \<Rightarrow> 'x \<Rightarrow> bitbuf \<Rightarrow> (bitbuf option \<times> 's) option"
  assumes first_law: "inv s \<Longrightarrow> ok x \<Longrightarrow> bb_wf b \<Longrightarrow>
      \<exists>s'. fst_op s x b = Some s' \<and> inv s' \<and> pending s' = (pending s)(key x := Some (unread b))"
    and next_law: "inv s \<Longrightarrow> ok x \<Longrightarrow> bb_wf b \<Longrightarrow>
      \<exists>s'. next_op s x b = Some s' \<and> inv s' \<and> pending s' = (pending s)(key x := extend_burst (pending s (key x)) (unread b))"
    and last_law: "inv s \<Longrightarrow> ok x \<Longrightarrow> bb_wf b \<Longrightarrow>
      \<exists>r s'. last_op s x b = Some (r, s') \<and> inv s' \<and> pending s' = (pending s)(key x := None)
        \<and> map_option unread r = extend_burst (pending s (key x)) (unread b)"
begin

text \<open>Every key sees exactly its own events, however they are interleaved with others.\<close>

lemma run_refines:
  assumes "inv s" and "\<forall>e \<in> set es. ok (event_place e) \<and> bb_wf (event_bits e)"
  obtains rs s' where "run_events fst_op next_op last_op es s = Some (rs, s')" and "inv s'"
    and "\<And>k. results_for key k rs = spec_run (filter (\<lambda>e. key (event_place e) = k) es) (pending s k)"
proof -
  have "\<exists>rs s'. run_events fst_op next_op last_op es s = Some (rs, s') \<and> inv s'
      \<and> (\<forall>k. results_for key k rs = spec_run (filter (\<lambda>e. key (event_place e) = k) es) (pending s k))"
    using assms
  proof (induction es arbitrary: s)
    case Nil
    then show ?case by (simp add: results_for_def)
  next
    case (Cons e es)
    note IH = Cons.IH and prems = Cons.prems
    show ?case
    proof (cases e)
      case (First x b)
      obtain s1 where s1: "fst_op s x b = Some s1" "inv s1" "pending s1 = (pending s)(key x := Some (unread b))"
        using first_law [OF prems(1), of x b] prems(2) First by auto
      obtain rs s' where r: "run_events fst_op next_op last_op es s1 = Some (rs, s')" "inv s'"
        "\<forall>k. results_for key k rs = spec_run (filter (\<lambda>e. key (event_place e) = k) es) (pending s1 k)"
        using IH [OF s1(2)] prems(2) by auto
      then show ?thesis using s1 First by auto
    next
      case (Next x b)
      obtain s1 where s1: "next_op s x b = Some s1" "inv s1"
        "pending s1 = (pending s)(key x := extend_burst (pending s (key x)) (unread b))"
        using next_law [OF prems(1), of x b] prems(2) Next by auto
      obtain rs s' where r: "run_events fst_op next_op last_op es s1 = Some (rs, s')" "inv s'"
        "\<forall>k. results_for key k rs = spec_run (filter (\<lambda>e. key (event_place e) = k) es) (pending s1 k)"
        using IH [OF s1(2)] prems(2) by auto
      then show ?thesis using s1 Next by auto
    next
      case (Last x b)
      obtain out s1 where s1: "last_op s x b = Some (out, s1)" "inv s1" "pending s1 = (pending s)(key x := None)"
        "map_option unread out = extend_burst (pending s (key x)) (unread b)"
        using last_law [OF prems(1), of x b] prems(2) Last by auto
      obtain rs s' where r: "run_events fst_op next_op last_op es s1 = Some (rs, s')" "inv s'"
        "\<forall>k. results_for key k rs = spec_run (filter (\<lambda>e. key (event_place e) = k) es) (pending s1 k)"
        using IH [OF s1(2)] prems(2) by auto
      then show ?thesis using s1 Last by (auto simp: results_for_def)
    qed
  qed
  then show thesis using that by blast
qed

text \<open>A complete burst whose fragments are interleaved with any others is delivered as sent.\<close>

lemma burst_delivered:
  assumes "inv s" and "\<forall>e \<in> set es. ok (event_place e) \<and> bb_wf (event_bits e)"
    and burst: "filter (\<lambda>e. key (event_place e) = k) es = First x0 b0 # map (\<lambda>(x, b). Next x b) mid @ [Last x1 b1]"
    and len: "length (unread b0 @ concat (map (unread \<circ> snd) mid) @ unread b1) \<le> DEFRAG_BUF_MAX_LEN"
  obtains rs s' where "run_events fst_op next_op last_op es s = Some (rs, s')" and "inv s'"
    and "results_for key k rs = [Some (unread b0 @ concat (map (unread \<circ> snd) mid) @ unread b1)]"
proof -
  have mid: "spec_run (map (\<lambda>(x, b). Next x b) mid @ [Last x1 b1]) (Some xs) = [Some (xs @ concat (map (unread \<circ> snd) mid) @ unread b1)]"
    if "length (xs @ concat (map (unread \<circ> snd) mid) @ unread b1) \<le> DEFRAG_BUF_MAX_LEN" for xs
    using that
  proof (induction mid arbitrary: xs)
    case Nil
    then show ?case by (simp add: extend_burst_def)
  next
    case (Cons m mid)
    then show ?case by (cases m) (simp add: extend_burst_def)
  qed
  show thesis
  proof (rule run_refines [OF assms(1,2)])
    fix rs s' assume r: "run_events fst_op next_op last_op es s = Some (rs, s')" "inv s'"
      "\<And>k. results_for key k rs = spec_run (filter (\<lambda>e. key (event_place e) = k) es) (pending s k)"
    show thesis using r(1,2) by (rule that) (simp add: r(3) burst mid len del: length_append)
  qed
qed

end

section \<open>Both defragmenters keep the contract\<close>

type_synonym place = "tdma_time \<times> tetra_address \<times> int option"

definition place_ok :: "place \<Rightarrow> bool" where
  "place_ok x \<longleftrightarrow> ts_index (fst x) \<noteq> None"

definition bs_key :: "place \<Rightarrow> nat option \<times> tetra_address" where
  "bs_key x = (case x of (t, a, aie) \<Rightarrow> (ts_index t, a))"

definition buffer_pending :: "defrag_buffer \<Rightarrow> bool list option" where
  "buffer_pending b = (if db_state b = Active then Some (window (db_buffer b)) else None)"

definition bs_pending :: "bs_defrag \<Rightarrow> nat option \<times> tetra_address \<Rightarrow> bool list option" where
  "bs_pending bs k = (case k of (ts, a) \<Rightarrow> Option.bind ts (\<lambda>i. Option.bind (map_of (bs ! i) a) buffer_pending))"

definition bs_first :: "bs_defrag \<Rightarrow> place \<Rightarrow> bitbuf \<Rightarrow> bs_defrag option" where
  "bs_first bs x b = (case x of (t, a, aie) \<Rightarrow> map_option snd (bs_insert_first bs b t a aie))"

definition bs_next :: "bs_defrag \<Rightarrow> place \<Rightarrow> bitbuf \<Rightarrow> bs_defrag option" where
  "bs_next bs x b = (case x of (t, a, aie) \<Rightarrow> map_option snd (bs_insert_next bs b a t))"

definition bs_last :: "bs_defrag \<Rightarrow> place \<Rightarrow> bitbuf \<Rightarrow> (bitbuf option \<times> bs_defrag) option" where
  "bs_last bs x b =
     (case x of (t, a, aie) \<Rightarrow> map_option (\<lambda>(r, b, bs). (map_option db_buffer r, bs)) (bs_insert_last bs b a t))"

definition bs_inv :: "bs_defrag \<Rightarrow> bool" where
  "bs_inv bs \<longleftrightarrow> length bs = 4 \<and>
     (\<forall>i < 4. \<forall>a b. map_of (bs ! i) a = Some b \<longrightarrow> db_state b = Active \<longrightarrow> holds (db_buffer b) (window (db_buffer b)))"

lemma holds_window: "holds b bits \<Longrightarrow> window b = bits"
  by (simp add: holds_def)

lemma bs_pending_update:
  assumes "length bs = 4" and "i < 4" and "\<And>a'. map_of m a' = (if a' = a then Some b else map_of (bs ! i) a')"
  shows "bs_pending (bs[i := m]) = (bs_pending bs)((Some i, a) := buffer_pending b)"
  using assms by (intro ext) (auto simp: bs_pending_def nth_list_update split: prod.split Option.bind_split)

lemma bs_pending_delete:
  assumes "length bs = 4" and "i < 4"
  shows "bs_pending (bs[i := AList.delete a (bs ! i)]) = (bs_pending bs)((Some i, a) := None)"
  using assms by (intro ext) (auto simp: bs_pending_def nth_list_update delete_conv split: prod.split Option.bind_split)

lemma bs_inv_update:
  assumes "bs_inv bs" and "i < 4" and "\<And>a'. map_of m a' = (if a' = a then Some b else map_of (bs ! i) a')"
    and "db_state b = Active \<Longrightarrow> holds (db_buffer b) (window (db_buffer b))"
  shows "bs_inv (bs[i := m])"
  using assms by (auto simp: bs_inv_def nth_list_update split: if_splits)

lemma bs_inv_delete: "bs_inv bs \<Longrightarrow> i < 4 \<Longrightarrow> bs_inv (bs[i := AList.delete a (bs ! i)])"
  by (auto simp: bs_inv_def nth_list_update delete_conv)

lemma bs_first_law:
  assumes inv: "bs_inv bs" and ok: "place_ok x" and b: "bb_wf b"
  shows "\<exists>bs'. bs_first bs x b = Some bs' \<and> bs_inv bs' \<and> bs_pending bs' = (bs_pending bs)(bs_key x := Some (unread b))"
proof -
  obtain t a aie where x: "x = (t, a, aie)" by (cases x)
  obtain i where i: "ts_index t = Some i" "i < 4" using ok ts_index_less by (auto simp: place_ok_def x)
  define buf where "buf = (case map_of (bs ! i) a of Some buf \<Rightarrow> defrag_buffer_reset buf | None \<Rightarrow> defrag_buffer_new)"
  have "holds (db_buffer buf) []"
    by (simp add: buf_def defrag_buffer_reset_def defrag_buffer_new_def holds_new split: option.split)
  then obtain buffer where s: "buffer_start buf b t a aie = Some (bb_adv (length (unread b)) b,
      buf\<lparr>db_state := Active, db_addr := a, db_t_first := t, db_t_last := t, db_num_frags := 1, db_aie_info := aie, db_buffer := buffer\<rparr>)"
    "holds buffer (unread b)"
    by (rule buffer_start_holds [OF b])
  let ?buf = "buf\<lparr>db_state := Active, db_addr := a, db_t_first := t, db_t_last := t, db_num_frags := 1, db_aie_info := aie, db_buffer := buffer\<rparr>"
  let ?m = "AList.update a ?buf (AList.delete a (bs ! i))"
  have m: "map_of ?m a' = (if a' = a then Some ?buf else map_of (bs ! i) a')" for a'
    by (simp add: update_conv delete_conv)
  have "bs_first bs x b = Some (bs[i := ?m])"
    using i(1) s(1) by (simp add: bs_first_def x bs_insert_first_def buf_def [symmetric])
  moreover have "bs_inv (bs[i := ?m])" by (rule bs_inv_update [OF inv i(2) m]) (simp add: holds_window [OF s(2)] s(2))
  moreover have "bs_pending (bs[i := ?m]) = (bs_pending bs)(bs_key x := Some (unread b))"
    using bs_pending_update [OF _ i(2) m] inv i(1) holds_window [OF s(2)]
    by (simp add: bs_inv_def bs_key_def x buffer_pending_def)
  ultimately show ?thesis by blast
qed

lemma bs_insert_next_eq:
  assumes inv: "bs_inv bs" and i: "ts_index t = Some i" and b: "bb_wf b"
  obtains b' bs' where "bs_insert_next bs b a t = Some (b', bs')" and "bs_inv bs'"
    and "bs_pending bs' = (bs_pending bs)((Some i, a) := extend_burst (bs_pending bs (Some i, a)) (unread b))"
proof -
  have i4: "i < 4" and len: "length bs = 4" using i ts_index_less inv by (auto simp: bs_inv_def)
  have pend: "bs_pending bs (Some i, a) = Option.bind (map_of (bs ! i) a) buffer_pending" by (simp add: bs_pending_def)
  show thesis
  proof (cases "\<exists>buf. map_of (bs ! i) a = Some buf \<and> db_state buf = Active")
    case False
    then have "bs_insert_next bs b a t = Some (b, bs)"
      using i by (auto simp: bs_insert_next_def split: option.split)
    moreover have "bs_pending bs (Some i, a) = None"
      using False by (auto simp: pend buffer_pending_def split: Option.bind_split)
    ultimately show thesis using that inv by (simp add: extend_burst_def fun_upd_idem)
  next
    case True
    then obtain buf where buf: "map_of (bs ! i) a = Some buf" "db_state buf = Active" by blast
    define xs where "xs = window (db_buffer buf)"
    have h: "holds (db_buffer buf) xs" using inv i4 buf by (auto simp: bs_inv_def xs_def)
    have p: "bs_pending bs (Some i, a) = Some xs" by (simp add: pend buf buffer_pending_def xs_def)
    note run = holds_len [OF h] get_len_remaining_eq [OF b]
    show thesis
    proof (cases "length xs + length (unread b) > DEFRAG_BUF_MAX_LEN")
      case True
      let ?m = "AList.update a (defrag_buffer_reset buf) (bs ! i)"
      have m: "map_of ?m a' = (if a' = a then Some (defrag_buffer_reset buf) else map_of (bs ! i) a')" for a'
        by (simp add: update_conv)
      have "bs_insert_next bs b a t = Some (b, bs[i := ?m])"
        using i buf run True by (simp add: bs_insert_next_def run_bb_def del: length_unread)
      moreover have "buffer_pending (defrag_buffer_reset buf) = None" "db_state (defrag_buffer_reset buf) \<noteq> Active"
        by (simp_all add: buffer_pending_def defrag_buffer_reset_def)
      ultimately show thesis
        using that bs_inv_update [OF inv i4 m] bs_pending_update [OF len i4 m] True
        by (simp add: p extend_burst_def del: length_unread)
    next
      case False
      obtain buffer where ap: "append_rest b (db_buffer buf) = Some (bb_adv (length (unread b)) b, buffer)" "holds buffer (xs @ unread b)"
        using b h by (rule append_rest_holds)
      let ?buf = "buf\<lparr>db_t_last := t, db_num_frags := db_num_frags buf + 1, db_buffer := buffer\<rparr>"
      let ?m = "AList.update a ?buf (bs ! i)"
      have m: "map_of ?m a' = (if a' = a then Some ?buf else map_of (bs ! i) a')" for a'
        by (simp add: update_conv)
      have w: "window buffer = xs @ unread b" using ap(2) by (rule holds_window)
      have "bs_insert_next bs b a t = Some (bb_adv (length (unread b)) b, bs[i := ?m])"
        using i buf run False ap(1) by (simp add: bs_insert_next_def run_bb_def del: length_unread)
      moreover have "buffer_pending ?buf = Some (xs @ unread b)" using buf(2) w by (simp add: buffer_pending_def)
      moreover have "bs_inv (bs[i := ?m])" by (rule bs_inv_update [OF inv i4 m]) (simp add: w ap(2))
      ultimately show thesis
        using that bs_pending_update [OF len i4 m] False by (simp add: p extend_burst_def del: length_unread)
    qed
  qed
qed

lemma bs_next_law:
  assumes "bs_inv bs" and "place_ok x" and "bb_wf b"
  shows "\<exists>bs'. bs_next bs x b = Some bs' \<and> bs_inv bs'
    \<and> bs_pending bs' = (bs_pending bs)(bs_key x := extend_burst (bs_pending bs (bs_key x)) (unread b))"
proof -
  obtain t a aie where x: "x = (t, a, aie)" by (cases x)
  obtain i where i: "ts_index t = Some i" using assms(2) by (auto simp: place_ok_def x)
  show ?thesis
    by (rule bs_insert_next_eq [OF assms(1) i assms(3), of a]) (simp add: bs_next_def bs_key_def x i)
qed

lemma holds_rewind:
  assumes "holds b bits"
  obtains b' where "run_bb (set_raw_pos 0) b = Some ((), b')" and "unread b' = bits" and "bb_wf b'"
proof
  show "run_bb (set_raw_pos 0) b = Some ((), b\<lparr>bb_pos := 0\<rparr>)"
    using assms by (simp add: holds_def run_bb_def set_raw_pos_def)
  show "unread (b\<lparr>bb_pos := 0\<rparr>) = bits" "bb_wf (b\<lparr>bb_pos := 0\<rparr>)"
    using assms by (auto simp: holds_def unread_def window_def bb_wf_def)
qed

lemma bs_last_law:
  assumes inv: "bs_inv bs" and ok: "place_ok x" and b: "bb_wf b"
  shows "\<exists>r bs'. bs_last bs x b = Some (r, bs') \<and> bs_inv bs' \<and> bs_pending bs' = (bs_pending bs)(bs_key x := None)
    \<and> map_option unread r = extend_burst (bs_pending bs (bs_key x)) (unread b)"
proof -
  obtain t a aie where x: "x = (t, a, aie)" by (cases x)
  obtain i where i: "ts_index t = Some i" "i < 4" using ok ts_index_less by (auto simp: place_ok_def x)
  obtain b' bs1 where n: "bs_insert_next bs b a t = Some (b', bs1)" "bs_inv bs1"
    "bs_pending bs1 = (bs_pending bs)((Some i, a) := extend_burst (bs_pending bs (Some i, a)) (unread b))"
    using bs_insert_next_eq [OF inv i(1) b] by metis
  have len: "length bs1 = 4" using n(2) by (simp add: bs_inv_def)
  have pend: "bs_pending bs1 (Some i, a) = Option.bind (map_of (bs1 ! i) a) buffer_pending" by (simp add: bs_pending_def)
  have e: "extend_burst (bs_pending bs (Some i, a)) (unread b) = bs_pending bs1 (Some i, a)" by (simp add: n(3))
  have k: "bs_key x = (Some i, a)" by (simp add: bs_key_def x i(1))
  let ?bs = "bs1[i := AList.delete a (bs1 ! i)]"
  have del: "bs_inv ?bs" "bs_pending ?bs = (bs_pending bs)((Some i, a) := None)"
    using bs_inv_delete [OF n(2) i(2)] bs_pending_delete [OF len i(2)] by (simp_all add: n(3))
  show ?thesis
  proof (cases "map_of (bs1 ! i) a")
    case None
    then have "bs_last bs x b = Some (None, bs1)"
      using n(1) i(1) by (simp add: bs_last_def x bs_insert_last_def)
    moreover have "bs_pending bs1 = (bs_pending bs)((Some i, a) := None)" using n(3) None e pend by simp
    ultimately show ?thesis unfolding k using e pend None n(2) by simp
  next
    case (Some buf)
    show ?thesis
    proof (cases "db_state buf = Active")
      case True
      then have h: "holds (db_buffer buf) (window (db_buffer buf))" using n(2) i(2) Some by (auto simp: bs_inv_def)
      then obtain b2 where b2: "run_bb (set_raw_pos 0) (db_buffer buf) = Some ((), b2)" "unread b2 = window (db_buffer buf)"
        by (rule holds_rewind)
      have "bs_last bs x b = Some (Some b2, ?bs)"
        using n(1) i(1) Some True b2(1) by (simp add: bs_last_def x bs_insert_last_def)
      then show ?thesis unfolding k using del e pend Some True b2(2) by (simp add: buffer_pending_def)
    next
      case False
      then have "bs_last bs x b = Some (None, ?bs)"
        using n(1) i(1) Some by (simp add: bs_last_def x bs_insert_last_def)
      then show ?thesis unfolding k using del e pend Some False by (simp add: buffer_pending_def)
    qed
  qed
qed

interpretation bs_reassembly: reassembler bs_inv place_ok bs_key bs_pending bs_first bs_next bs_last
  by unfold_locales (rule bs_first_law bs_next_law bs_last_law; assumption)+

definition ms_key :: "place \<Rightarrow> nat option" where
  "ms_key x = ts_index (fst x)"

definition ms_pending :: "ms_defrag \<Rightarrow> nat option \<Rightarrow> bool list option" where
  "ms_pending ms k = Option.bind k (\<lambda>i. buffer_pending (ms ! i))"

definition ms_first :: "ms_defrag \<Rightarrow> place \<Rightarrow> bitbuf \<Rightarrow> ms_defrag option" where
  "ms_first ms x b = (case x of (t, a, aie) \<Rightarrow> map_option snd (ms_insert_first ms b t a aie))"

definition ms_next :: "ms_defrag \<Rightarrow> place \<Rightarrow> bitbuf \<Rightarrow> ms_defrag option" where
  "ms_next ms x b = map_option snd (ms_insert_next ms b (fst x))"

definition ms_last :: "ms_defrag \<Rightarrow> place \<Rightarrow> bitbuf \<Rightarrow> (bitbuf option \<times> ms_defrag) option" where
  "ms_last ms x b = do {
     (_, ms) \<leftarrow> ms_insert_last ms b (fst x);
     (r, ms) \<leftarrow> take_defragged_buf ms (fst x);
     Some (map_option db_buffer r, ms)
   }"

definition ms_buffer_ok :: "defrag_buffer \<Rightarrow> bool" where
  "ms_buffer_ok b \<longleftrightarrow> (case db_state b of Inactive \<Rightarrow> holds (db_buffer b) [] | Active \<Rightarrow> holds (db_buffer b) (window (db_buffer b)) | Complete \<Rightarrow> False)"

definition ms_inv :: "ms_defrag \<Rightarrow> bool" where
  "ms_inv ms \<longleftrightarrow> length ms = 4 \<and> (\<forall>b \<in> set ms. ms_buffer_ok b)"

lemma ms_pending_update:
  "length ms = 4 \<Longrightarrow> i < 4 \<Longrightarrow> ms_pending (ms[i := b]) = (ms_pending ms)(Some i := buffer_pending b)"
  by (intro ext) (auto simp: ms_pending_def nth_list_update split: Option.bind_split)

lemma ms_inv_update: "ms_inv ms \<Longrightarrow> ms_buffer_ok b \<Longrightarrow> ms_inv (ms[i := b])"
  using set_update_subset_insert [of ms i b] by (auto simp: ms_inv_def)

lemma ms_new_ok: "ms_buffer_ok defrag_buffer_new" "ms_buffer_ok (defrag_buffer_reset b)"
  "buffer_pending defrag_buffer_new = None"
  by (simp_all add: ms_buffer_ok_def defrag_buffer_new_def defrag_buffer_reset_def holds_new buffer_pending_def)

lemma ms_first_law:
  assumes inv: "ms_inv ms" and ok: "place_ok x" and b: "bb_wf b"
  shows "\<exists>ms'. ms_first ms x b = Some ms' \<and> ms_inv ms' \<and> ms_pending ms' = (ms_pending ms)(ms_key x := Some (unread b))"
proof -
  obtain t a aie where x: "x = (t, a, aie)" by (cases x)
  obtain i where i: "ts_index t = Some i" "i < 4" using ok ts_index_less by (auto simp: place_ok_def x)
  have len: "length ms = 4" and bi: "ms_buffer_ok (ms ! i)" using inv i(2) by (auto simp: ms_inv_def)
  define buf where "buf = (if db_state (ms ! i) \<noteq> Inactive then defrag_buffer_reset (ms ! i) else ms ! i)"
  have "holds (db_buffer buf) []"
    using bi by (auto simp: buf_def ms_buffer_ok_def defrag_buffer_reset_def holds_new)
  then obtain buffer where s: "buffer_start buf b t a aie = Some (bb_adv (length (unread b)) b,
      buf\<lparr>db_state := Active, db_addr := a, db_t_first := t, db_t_last := t, db_num_frags := 1, db_aie_info := aie, db_buffer := buffer\<rparr>)"
    "holds buffer (unread b)"
    by (rule buffer_start_holds [OF b])
  let ?buf = "buf\<lparr>db_state := Active, db_addr := a, db_t_first := t, db_t_last := t, db_num_frags := 1, db_aie_info := aie, db_buffer := buffer\<rparr>"
  have "ms_first ms x b = Some (ms[i := ?buf])"
    using i(1) s(1) by (simp add: ms_first_def x ms_insert_first_def buf_def [symmetric])
  moreover have "ms_buffer_ok ?buf" "buffer_pending ?buf = Some (unread b)"
    using s(2) holds_window [OF s(2)] by (simp_all add: ms_buffer_ok_def buffer_pending_def)
  ultimately show ?thesis
    using ms_inv_update [OF inv] ms_pending_update [OF len i(2)] by (simp add: ms_key_def x i(1))
qed

text \<open>One step for both ways a fragment is appended.\<close>

lemma ms_insert_piece_eq:
  assumes inv: "ms_inv ms" and i: "ts_index t = Some i" and b: "bb_wf b"
  defines "p \<equiv> extend_burst (ms_pending ms (Some i)) (unread b)"
  obtains b' buf where "ms_insert_piece st ms b t = Some (b', ms[i := buf])"
    and "p = None \<Longrightarrow> ms_buffer_ok buf \<and> buffer_pending buf = None"
    and "\<And>xs. p = Some xs \<Longrightarrow> db_state buf = st \<and> holds (db_buffer buf) xs"
proof -
  have i4: "i < 4" and len: "length ms = 4" using i ts_index_less inv by (auto simp: ms_inv_def)
  have bi: "ms_buffer_ok (ms ! i)" using inv i4 by (auto simp: ms_inv_def)
  have pend: "ms_pending ms (Some i) = buffer_pending (ms ! i)" by (simp add: ms_pending_def)
  show thesis
  proof (cases "db_state (ms ! i) = Active")
    case False
    then have "ms_insert_piece st ms b t = Some (b, ms[i := ms ! i])" using i by (simp add: ms_insert_piece_def)
    moreover have "buffer_pending (ms ! i) = None" using False by (simp add: buffer_pending_def)
    ultimately show thesis using that [of b "ms ! i"] bi by (simp add: p_def pend extend_burst_def)
  next
    case True
    define xs where "xs = window (db_buffer (ms ! i))"
    have h: "holds (db_buffer (ms ! i)) xs" using bi True by (simp add: ms_buffer_ok_def xs_def)
    have pe: "ms_pending ms (Some i) = Some xs" by (simp add: pend buffer_pending_def True xs_def)
    note run = holds_len [OF h] get_len_remaining_eq [OF b]
    show thesis
    proof (cases "length xs + length (unread b) > DEFRAG_BUF_MAX_LEN")
      case len: True
      then have "ms_insert_piece st ms b t = Some (b, ms[i := defrag_buffer_new])"
        using i True run by (simp add: ms_insert_piece_def run_bb_def del: length_unread)
      then show thesis using that ms_new_ok len by (simp add: p_def pe extend_burst_def del: length_unread)
    next
      case len: False
      obtain buffer where ap: "append_rest b (db_buffer (ms ! i)) = Some (bb_adv (length (unread b)) b, buffer)" "holds buffer (xs @ unread b)"
        using b h by (rule append_rest_holds)
      then show thesis
        using that [of _ "(ms ! i)\<lparr>db_state := st, db_t_last := t, db_num_frags := db_num_frags (ms ! i) + 1, db_buffer := buffer\<rparr>"]
          i True run len by (simp add: ms_insert_piece_def run_bb_def p_def pe extend_burst_def Let_def del: length_unread)
    qed
  qed
qed

lemma ms_next_law:
  assumes inv: "ms_inv ms" and ok: "place_ok x" and b: "bb_wf b"
  shows "\<exists>ms'. ms_next ms x b = Some ms' \<and> ms_inv ms'
    \<and> ms_pending ms' = (ms_pending ms)(ms_key x := extend_burst (ms_pending ms (ms_key x)) (unread b))"
proof -
  obtain i where i: "ts_index (fst x) = Some i" "i < 4" using ok ts_index_less by (auto simp: place_ok_def)
  have len: "length ms = 4" using inv by (simp add: ms_inv_def)
  obtain b' buf where s: "ms_insert_piece Active ms b (fst x) = Some (b', ms[i := buf])"
    "extend_burst (ms_pending ms (Some i)) (unread b) = None \<Longrightarrow> ms_buffer_ok buf \<and> buffer_pending buf = None"
    "\<And>xs. extend_burst (ms_pending ms (Some i)) (unread b) = Some xs \<Longrightarrow> db_state buf = Active \<and> holds (db_buffer buf) xs"
    using ms_insert_piece_eq [OF inv i(1) b, of Active] by metis
  have "ms_buffer_ok buf \<and> buffer_pending buf = extend_burst (ms_pending ms (Some i)) (unread b)"
  proof (cases "extend_burst (ms_pending ms (Some i)) (unread b)")
    case (Some xs)
    then show ?thesis using s(3) [OF Some] holds_window [of "db_buffer buf" xs] by (simp add: ms_buffer_ok_def buffer_pending_def)
  qed (use s(2) in simp)
  then show ?thesis
    using s(1) ms_inv_update [OF inv, of buf i] ms_pending_update [OF len i(2), of buf]
    by (simp add: ms_next_def ms_insert_next_def ms_key_def i(1))
qed

lemma ms_last_law:
  assumes inv: "ms_inv ms" and ok: "place_ok x" and b: "bb_wf b"
  shows "\<exists>r ms'. ms_last ms x b = Some (r, ms') \<and> ms_inv ms' \<and> ms_pending ms' = (ms_pending ms)(ms_key x := None)
    \<and> map_option unread r = extend_burst (ms_pending ms (ms_key x)) (unread b)"
proof -
  obtain i where i: "ts_index (fst x) = Some i" "i < 4" using ok ts_index_less by (auto simp: place_ok_def)
  have len: "length ms = 4" using inv by (simp add: ms_inv_def)
  obtain b' buf where s: "ms_insert_piece Complete ms b (fst x) = Some (b', ms[i := buf])"
    "extend_burst (ms_pending ms (Some i)) (unread b) = None \<Longrightarrow> ms_buffer_ok buf \<and> buffer_pending buf = None"
    "\<And>xs. extend_burst (ms_pending ms (Some i)) (unread b) = Some xs \<Longrightarrow> db_state buf = Complete \<and> holds (db_buffer buf) xs"
    using ms_insert_piece_eq [OF inv i(1) b, of Complete] by metis
  show ?thesis
  proof (cases "extend_burst (ms_pending ms (Some i)) (unread b)")
    case None
    then have k: "ms_buffer_ok buf" "buffer_pending buf = None" using s(2) by simp_all
    then have "db_state buf \<noteq> Complete" by (auto simp: ms_buffer_ok_def)
    then have "ms_last ms x b = Some (None, ms[i := buf])"
      using s(1) i len by (simp add: ms_last_def ms_insert_last_def take_defragged_buf_def)
    then show ?thesis
      using None k ms_inv_update [OF inv, of buf i] ms_pending_update [OF len i(2), of buf] by (simp add: ms_key_def i(1))
  next
    case (Some xs)
    then have st: "db_state buf = Complete" and h: "holds (db_buffer buf) xs" using s(3) by simp_all
    let ?e = "db_buffer buf\<lparr>bb_end := bb_pos (db_buffer buf)\<rparr>"
    have eq: "?e = db_buffer buf" using h by (simp add: holds_def)
    have "run_bb (set_raw_end (bb_pos (db_buffer buf))) (db_buffer buf) = Some ((), db_buffer buf)"
      using h eq by (simp add: run_bb_def set_raw_end_def holds_def bb_wf_def)
    moreover have "bb_wf (db_buffer buf)" "window (db_buffer buf) = xs" using h by (simp_all add: holds_def)
    moreover note sk = seek_0_eq [of "db_buffer buf"]
    ultimately have "ms_last ms x b = Some (Some (db_buffer buf\<lparr>bb_pos := bb_start (db_buffer buf)\<rparr>), ms[i := defrag_buffer_new])"
      "unread (db_buffer buf\<lparr>bb_pos := bb_start (db_buffer buf)\<rparr>) = xs"
      using s(1) i len st by (simp_all add: ms_last_def ms_insert_last_def take_defragged_buf_def run_bb_def)
    then show ?thesis
      using Some ms_new_ok ms_inv_update [OF inv, of defrag_buffer_new i] ms_pending_update [OF len i(2), of defrag_buffer_new]
      by (simp add: ms_key_def i(1))
  qed
qed

interpretation ms_reassembly: reassembler ms_inv place_ok ms_key ms_pending ms_first ms_next ms_last
  by unfold_locales (rule ms_first_law ms_next_law ms_last_law; assumption)+

lemma ms_inv_new: "ms_inv ms_defrag_new" and bs_inv_new: "bs_inv bs_defrag_new"
  by (simp_all add: ms_inv_def ms_defrag_new_def ms_new_ok bs_inv_def bs_defrag_new_def less_Suc_eq numeral_eq_Suc)

section \<open>Properties\<close>

text \<open>C2: the defragmenter of the base station refines its specification.  For every sequence of first,
  next and last fragments from any stations on any timeslots, in any interleaving, it does not
  panic, and the last fragments of every station and timeslot return exactly what that station's
  own fragments alone prescribe: the concatenation of their bits in order, or nothing when no burst
  was open or it grew over 4096 bits.\<close>

theorem bs_defragmenter_refines_bursts:
  assumes "\<forall>e \<in> set es. place_ok (event_place e) \<and> bb_wf (event_bits e)"
  shows "\<exists>rs bs. run_events bs_first bs_next bs_last es bs_defrag_new = Some (rs, bs)
    \<and> (\<forall>k. results_for bs_key k rs = spec_run (filter (\<lambda>e. bs_key (event_place e) = k) es) None)"
proof -
  have new: "spec_run (filter (\<lambda>e. bs_key (event_place e) = k) es) (bs_pending bs_defrag_new k)
      = spec_run (filter (\<lambda>e. bs_key (event_place e) = k) es) None" for k
  proof (cases "\<exists>i < 4. fst k = Some i")
    case True
    then have "bs_pending bs_defrag_new k = None"
      by (cases k) (auto simp: bs_pending_def bs_defrag_new_def less_Suc_eq numeral_eq_Suc)
    then show ?thesis by simp
  next
    case False
    have "bs_key x \<noteq> k" if "place_ok x" for x
      using that False by (cases x) (auto simp: place_ok_def bs_key_def dest: ts_index_less)
    then have "filter (\<lambda>e. bs_key (event_place e) = k) es = []" using assms by (simp add: filter_empty_conv)
    then show ?thesis by simp
  qed
  show ?thesis
    by (rule bs_reassembly.run_refines [OF bs_inv_new assms]) (auto simp: new)
qed

definition example_place :: "u8 \<Rightarrow> u32 \<Rightarrow> place" where
  "example_place t n = (tdma_default\<lparr>tt_t := t\<rparr>, \<lparr>ssi = n, ssi_type = Issi\<rparr>, None)"

theorem bs_defragmenter_refines_bursts_witness:
  "\<exists>rs bs. run_events bs_first bs_next bs_last
       [First (example_place 1 7) (bb_from_vec [1]), First (example_place 1 8) (bb_from_vec [2]),
        Last (example_place 1 7) (bb_from_vec [3]), Last (example_place 1 8) (bb_from_vec [4])] bs_defrag_new = Some (rs, bs)
     \<and> results_for bs_key (Some 0, \<lparr>ssi = 8, ssi_type = Issi\<rparr>) rs = [Some (unread (bb_from_vec [2]) @ unread (bb_from_vec [4]))]"
proof -
  let ?es = "[First (example_place 1 7) (bb_from_vec [1]), First (example_place 1 8) (bb_from_vec [2]),
        Last (example_place 1 7) (bb_from_vec [3]), Last (example_place 1 8) (bb_from_vec [4])]"
  have p: "place_ok (example_place 1 n)" "bs_key (example_place 1 n) = (Some 0, \<lparr>ssi = n, ssi_type = Issi\<rparr>)" for n
    by (simp_all add: place_ok_def example_place_def ts_index_def bs_key_def)
  have l: "length (unread (bb_from_vec [x])) = 8" for x by (simp add: bb_from_vec_def)
  have "\<forall>e \<in> set ?es. place_ok (event_place e) \<and> bb_wf (event_bits e)" by (simp add: p)
  then obtain rs bs where r: "run_events bs_first bs_next bs_last ?es bs_defrag_new = Some (rs, bs)"
    "\<forall>k. results_for bs_key k rs = spec_run (filter (\<lambda>e. bs_key (event_place e) = k) ?es) None"
    using bs_defragmenter_refines_bursts [of ?es] by blast
  have "results_for bs_key (Some 0, \<lparr>ssi = 8, ssi_type = Issi\<rparr>) rs = [Some (unread (bb_from_vec [2]) @ unread (bb_from_vec [4]))]"
    using r(2) [rule_format, of "(Some 0, \<lparr>ssi = 8, ssi_type = Issi\<rparr>)"]
    by (simp add: p l extend_burst_def DEFRAG_BUF_MAX_LEN_def del: length_unread)
  then show ?thesis using r(1) by blast
qed

end
