(* ===== verification/Mac_Broadcast.thy ===== *)
theory Mac_Broadcast
  imports Field_Codec Tdma_Time
begin

unbundle bit_operations_syntax

text \<open>
  The broadcast PDUs of the MAC: \<^verbatim>\<open>mac_sync.rs\<close> and \<^verbatim>\<open>mac_sysinfo.rs\<close> under
  \<^verbatim>\<open>crates/tetra-pdus/src/umac/pdus\<close> with the elements of SYSINFO under \<^verbatim>\<open>fields\<close>.  Each is an
  interpretation of \<open>pdu_codec\<close> on the values that survive a round trip; what is lost of the
  others is stated in the normal form.
\<close>

section \<open>Elements of SYSINFO\<close>

datatype sysinfo_opt_field_flag = EvenMfDefForTsMode | OddMfDefForTsMode | DefaultDefForAccCodeA | ExtServicesBroadcast

definition opt_flag_try_from :: "u64 \<Rightarrow> sysinfo_opt_field_flag option" where
  "opt_flag_try_from x =
     (if x = 0 then Some EvenMfDefForTsMode else if x = 1 then Some OddMfDefForTsMode
      else if x = 2 then Some DefaultDefForAccCodeA else if x = 3 then Some ExtServicesBroadcast else None)"

fun opt_flag_into_raw :: "sysinfo_opt_field_flag \<Rightarrow> u64" where
  "opt_flag_into_raw EvenMfDefForTsMode = 0"
| "opt_flag_into_raw OddMfDefForTsMode = 1"
| "opt_flag_into_raw DefaultDefForAccCodeA = 2"
| "opt_flag_into_raw ExtServicesBroadcast = 3"

record ts_common_frames =
  tcf1 :: bool
  tcf2 :: bool
  tcf3 :: bool
  tcf4 :: bool
  tcf5 :: bool
  tcf6 :: bool
  tcf7 :: bool
  tcf8 :: bool
  tcf9 :: bool
  tcf10 :: bool
  tcf11 :: bool
  tcf12 :: bool
  tcf13 :: bool
  tcf14 :: bool
  tcf15 :: bool
  tcf16 :: bool
  tcf17 :: bool
  tcf18 :: bool

definition ts_common_frames_from_bitbuf :: "ts_common_frames bbm" where
  "ts_common_frames_from_bitbuf =
     bindM (read_flag ''f1'') (\<lambda>f1.
     bindM (read_flag ''f2'') (\<lambda>f2.
     bindM (read_flag ''f3'') (\<lambda>f3.
     bindM (read_flag ''f4'') (\<lambda>f4.
     bindM (read_flag ''f5'') (\<lambda>f5.
     bindM (read_flag ''f6'') (\<lambda>f6.
     bindM (read_flag ''f7'') (\<lambda>f7.
     bindM (read_flag ''f8'') (\<lambda>f8.
     bindM (read_flag ''f9'') (\<lambda>f9.
     bindM (read_flag ''f10'') (\<lambda>f10.
     bindM (read_flag ''f11'') (\<lambda>f11.
     bindM (read_flag ''f12'') (\<lambda>f12.
     bindM (read_flag ''f13'') (\<lambda>f13.
     bindM (read_flag ''f14'') (\<lambda>f14.
     bindM (read_flag ''f15'') (\<lambda>f15.
     bindM (read_flag ''f16'') (\<lambda>f16.
     bindM (read_flag ''f17'') (\<lambda>f17.
     bindM (read_flag ''f18'') (\<lambda>f18.
     thenM (warn_value 2 ''reserved'')
    (retM \<lparr>tcf1 = f1, tcf2 = f2, tcf3 = f3, tcf4 = f4, tcf5 = f5, tcf6 = f6, tcf7 = f7, tcf8 = f8, tcf9 = f9, tcf10 = f10, tcf11 = f11, tcf12 = f12, tcf13 = f13, tcf14 = f14, tcf15 = f15, tcf16 = f16, tcf17 = f17, tcf18 = f18\<rparr>)))))))))))))))))))"

definition ts_common_frames_to_bitbuf :: "ts_common_frames \<Rightarrow> unit bbm" where
  "ts_common_frames_to_bitbuf t =
     thenM (write_flag (tcf1 t))
    (thenM (write_flag (tcf2 t))
    (thenM (write_flag (tcf3 t))
    (thenM (write_flag (tcf4 t))
    (thenM (write_flag (tcf5 t))
    (thenM (write_flag (tcf6 t))
    (thenM (write_flag (tcf7 t))
    (thenM (write_flag (tcf8 t))
    (thenM (write_flag (tcf9 t))
    (thenM (write_flag (tcf10 t))
    (thenM (write_flag (tcf11 t))
    (thenM (write_flag (tcf12 t))
    (thenM (write_flag (tcf13 t))
    (thenM (write_flag (tcf14 t))
    (thenM (write_flag (tcf15 t))
    (thenM (write_flag (tcf16 t))
    (thenM (write_flag (tcf17 t))
    (thenM (write_flag (tcf18 t))
     (write_bits 0 2))))))))))))))))))"

record sysinfo_default_access_code =
  imm :: u8
  wt :: u8
  nu :: u8
  fl_factor :: bool
  ts_ptr :: u8
  min_pdu_prio :: u8

definition access_code_from_bitbuf :: "sysinfo_default_access_code bbm" where
  "access_code_from_bitbuf =
     bindM (read_as 4 ''imm'') (\<lambda>imm.
     bindM (read_as 4 ''wt'') (\<lambda>wt.
     bindM (read_as 4 ''nu'') (\<lambda>nu.
     bindM (read_flag ''fl_factor'') (\<lambda>fl.
     bindM (read_as 4 ''ts_ptr'') (\<lambda>ptr.
     bindM (read_as 3 ''min_pdu_prio'') (\<lambda>prio.
     retM \<lparr>imm = imm, wt = wt, nu = nu, fl_factor = fl, ts_ptr = ptr, min_pdu_prio = prio\<rparr>))))))"

definition access_code_to_bitbuf :: "sysinfo_default_access_code \<Rightarrow> unit bbm" where
  "access_code_to_bitbuf a =
     thenM (write_as (imm a) 4)
    (thenM (write_as (wt a) 4)
    (thenM (write_as (nu a) 4)
    (thenM (write_flag (fl_factor a))
    (thenM (write_as (ts_ptr a) 4)
           (write_as (min_pdu_prio a) 3)))))"

record sysinfo_extended_services =
  auth_required :: bool
  class1_supported :: bool
  class2_supported :: bool
  class3_supported :: bool
  sck_n :: "u8 option"
  dck_retrieval_during_cell_select :: "bool option"
  dck_retrieval_during_cell_reselect :: "bool option"
  linked_gck_crypto_periods :: "bool option"
  short_gck_vn :: "u8 option"
  sdstl_addressing_method :: u8
  gck_supported :: bool
  es_section :: u8
  section_data :: u8

definition read_security_classes :: "bool \<Rightarrow> (bool \<times> bool \<times> bool) bbm" where
  "read_security_classes aie_enabled =
     (if aie_enabled
      then bindM (read_field 1 ''class1_supported'') (\<lambda>c1.
           bindM (read_field 1 ''class2_supported'') (\<lambda>c2.
           retM (c1 = 1, c2 = 0, c2 \<noteq> 0)))
      else thenM (warn_value 2 ''security_classes_reserved'') (retM (False, False, False)))"

definition read_security_info :: "bool \<Rightarrow> bool \<Rightarrow> (u8 option \<times> bool option \<times> bool option \<times> bool option \<times> u8 option) bbm" where
  "read_security_info class2 class3 =
     (if class2 then bindM (read_as 5 ''sck_n'') (\<lambda>sck. retM (Some sck, None, None, None, None))
      else if class3
      then bindM (read_flag ''dck_retrieval_during_cell_select'') (\<lambda>s.
           bindM (read_flag ''dck_retrieval_during_cell_reselect'') (\<lambda>r.
           bindM (read_flag ''linked_gck_crypto_periods'') (\<lambda>l.
           bindM (read_as 2 ''short_gck_vn'') (\<lambda>v.
           retM (None, Some s, Some r, Some l, Some v)))))
      else thenM (warn_value 5 ''security_info_reserved'') (retM (None, None, None, None, None)))"

definition ext_services_from_bitbuf :: "bool \<Rightarrow> sysinfo_extended_services bbm" where
  "ext_services_from_bitbuf aie_enabled =
     bindM (read_flag ''auth_required'') (\<lambda>auth.
     bindM (read_security_classes aie_enabled) (\<lambda>(c1, c2, c3).
     bindM (read_security_info c2 c3) (\<lambda>(sck, dsel, dres, lgck, gvn).
     bindM (read_as 2 ''sdstl_addressing_method'') (\<lambda>sdstl.
     bindM (read_flag ''gck_supported'') (\<lambda>gck.
     bindM (read_as 2 ''section'') (\<lambda>sec.
     bindM (read_as 7 ''section_data'') (\<lambda>dat.
     retM \<lparr>auth_required = auth, class1_supported = c1, class2_supported = c2, class3_supported = c3, sck_n = sck,
       dck_retrieval_during_cell_select = dsel, dck_retrieval_during_cell_reselect = dres,
       linked_gck_crypto_periods = lgck, short_gck_vn = gvn, sdstl_addressing_method = sdstl, gck_supported = gck,
       es_section = sec, section_data = dat\<rparr>)))))))"

definition write_unwrap :: "('a \<Rightarrow> unit bbm) \<Rightarrow> 'a option \<Rightarrow> unit bbm" where
  "write_unwrap w x = (case x of Some v \<Rightarrow> w v | None \<Rightarrow> panicM)"

definition ext_services_to_bitbuf :: "sysinfo_extended_services \<Rightarrow> unit bbm" where
  "ext_services_to_bitbuf e =
     thenM (assertM (\<not> (class2_supported e \<and> class3_supported e)))
    (thenM (write_flag (auth_required e))
    (thenM (write_flag (class1_supported e))
    (thenM (write_flag (class3_supported e))
    (thenM (if class2_supported e then write_unwrap (\<lambda>v. write_as v 5) (sck_n e)
            else if class3_supported e
            then thenM (write_unwrap write_flag (dck_retrieval_during_cell_select e))
                (thenM (write_unwrap write_flag (dck_retrieval_during_cell_reselect e))
                (thenM (write_unwrap write_flag (linked_gck_crypto_periods e))
                       (write_unwrap (\<lambda>v. write_as v 2) (short_gck_vn e))))
            else write_bits 0 5)
    (thenM (write_as (sdstl_addressing_method e) 2)
    (thenM (write_flag (gck_supported e))
    (thenM (write_as (es_section e) 2)
           (write_as (section_data e) 7))))))))"

section \<open>SYSINFO\<close>

record mac_sysinfo =
  main_carrier :: u16
  freq_band :: u8
  freq_offset_index :: u8
  duplex_spacing :: u8
  reverse_operation :: bool
  num_of_csch :: u8
  ms_txpwr_max_cell :: u8
  rxlev_access_min :: u8
  access_parameter :: u8
  radio_dl_timeout :: u8
  cck_id :: "u16 option"
  hyperframe_number :: "u16 option"
  option_field :: sysinfo_opt_field_flag
  ts_common :: "ts_common_frames option"
  default_access_code :: "sysinfo_default_access_code option"
  ext_services :: "sysinfo_extended_services option"

definition read_cck_or_hyperframe :: "(u16 option \<times> u16 option) bbm" where
  "read_cck_or_hyperframe =
     bindM (read_field 1 ''has_cck_field'') (\<lambda>c.
     if c = 1 then bindM (read_as 16 ''cck_id'') (\<lambda>v. retM (Some v, None))
     else bindM (read_as 16 ''hyperframe_number'') (\<lambda>v. retM (None, Some v)))"

fun read_sysinfo_option :: "sysinfo_opt_field_flag \<Rightarrow> (sysinfo_default_access_code option \<times> sysinfo_extended_services option) bbm" where
  "read_sysinfo_option EvenMfDefForTsMode = thenM (seek_rel 20) (retM (None, None))"
| "read_sysinfo_option OddMfDefForTsMode = thenM (seek_rel 20) (retM (None, None))"
| "read_sysinfo_option DefaultDefForAccCodeA = bindM access_code_from_bitbuf (\<lambda>a. retM (Some a, None))"
| "read_sysinfo_option ExtServicesBroadcast = bindM (ext_services_from_bitbuf True) (\<lambda>e. retM (None, Some e))"

definition sysinfo_from_bitbuf :: "mac_sysinfo bbm" where
  "sysinfo_from_bitbuf =
     thenM (warn_value 2 ''pdu_type'')
    (thenM (warn_value 2 ''pdu_subtype'')
    (bindM (read_as 12 ''main_carrier'') (\<lambda>mc.
     bindM (read_as 4 ''freq_band'') (\<lambda>fb.
     bindM (read_as 2 ''freq_offset'') (\<lambda>fo.
     bindM (read_as 3 ''duplex_spacing'') (\<lambda>ds.
     bindM (read_flag ''reverse_operation'') (\<lambda>ro.
     bindM (read_as 2 ''num_of_csch'') (\<lambda>nc.
     bindM (read_as 3 ''ms_txpwr_max_cell'') (\<lambda>tp.
     bindM (read_as 4 ''rxlev_access_min'') (\<lambda>ra.
     bindM (read_as 4 ''access_parameter'') (\<lambda>ap.
     bindM (read_as 4 ''radio_dl_timeout'') (\<lambda>rt.
     bindM read_cck_or_hyperframe (\<lambda>(cck, hn).
     bindM (read_enum 2 ''option_field'' opt_flag_try_from) (\<lambda>opt.
     bindM (read_sysinfo_option opt) (\<lambda>(ac, es).
     retM \<lparr>main_carrier = mc, freq_band = fb, freq_offset_index = fo, duplex_spacing = ds, reverse_operation = ro,
       num_of_csch = nc, ms_txpwr_max_cell = tp, rxlev_access_min = ra, access_parameter = ap, radio_dl_timeout = rt,
       cck_id = cck, hyperframe_number = hn, option_field = opt, ts_common = None, default_access_code = ac,
       ext_services = es\<rparr>)))))))))))))))"

definition write_cck_or_hyperframe :: "mac_sysinfo \<Rightarrow> unit bbm" where
  "write_cck_or_hyperframe s =
     thenM (assertM ((cck_id s \<noteq> None) \<noteq> (hyperframe_number s \<noteq> None)))
    (case cck_id s of
       Some v \<Rightarrow> thenM (write_bits 1 1) (write_as v 16)
     | None \<Rightarrow> thenM (write_bits 0 1) (write_unwrap (\<lambda>v. write_as v 16) (hyperframe_number s)))"

definition write_sysinfo_option :: "mac_sysinfo \<Rightarrow> unit bbm" where
  "write_sysinfo_option s =
     (case option_field s of
        EvenMfDefForTsMode \<Rightarrow> thenM (assertM (default_access_code s = None)) (assertM (ext_services s = None))
      | OddMfDefForTsMode \<Rightarrow> thenM (assertM (default_access_code s = None)) (thenM (assertM (ext_services s = None))
          (write_unwrap ts_common_frames_to_bitbuf (ts_common s)))
      | DefaultDefForAccCodeA \<Rightarrow> thenM (assertM (ts_common s = None)) (thenM (assertM (ext_services s = None))
          (write_unwrap access_code_to_bitbuf (default_access_code s)))
      | ExtServicesBroadcast \<Rightarrow> thenM (assertM (ts_common s = None)) (thenM (assertM (default_access_code s = None))
          (write_unwrap ext_services_to_bitbuf (ext_services s))))"

definition sysinfo_to_bitbuf :: "mac_sysinfo \<Rightarrow> unit bbm" where
  "sysinfo_to_bitbuf s =
     thenM (write_bits 2 2)
    (thenM (write_bits 0 2)
    (thenM (write_as (main_carrier s) 12)
    (thenM (write_as (freq_band s) 4)
    (thenM (write_as (freq_offset_index s) 2)
    (thenM (write_as (duplex_spacing s) 3)
    (thenM (write_flag (reverse_operation s))
    (thenM (write_as (num_of_csch s) 2)
    (thenM (write_as (ms_txpwr_max_cell s) 3)
    (thenM (write_as (rxlev_access_min s) 4)
    (thenM (write_as (access_parameter s) 4)
    (thenM (write_as (radio_dl_timeout s) 4)
    (thenM (write_cck_or_hyperframe s)
    (thenM (write_bits (opt_flag_into_raw (option_field s)) 2)
           (write_sysinfo_option s))))))))))))))"

section \<open>SYNC\<close>

record mac_sync =
  system_code :: u8
  sync_colour_code :: u8
  sync_time :: tdma_time
  sharing_mode :: u8
  ts_reserved_frames :: u8
  u_plane_dtx :: bool
  frame_18_ext :: bool

definition sync_from_bitbuf :: "mac_sync bbm" where
  "sync_from_bitbuf =
     bindM (read_as 4 ''system_code'') (\<lambda>sc.
     bindM (read_as 6 ''colour_code'') (\<lambda>cc.
     bindM (read_as 2 ''timeslot_number'') (\<lambda>t.
     bindM (read_as 5 ''frame_number'') (\<lambda>f.
     bindM (read_as 6 ''multiframe_number'') (\<lambda>m.
     bindM (read_as 2 ''sharing_mode'') (\<lambda>sm.
     bindM (read_as 3 ''ts_reserved_frames'') (\<lambda>rf.
     bindM (read_flag ''u_plane_dtx'') (\<lambda>dtx.
     bindM (read_flag ''frame_18_ext'') (\<lambda>ext.
     thenM (warn_value 1 ''reserved'')
    (retM \<lparr>system_code = sc, sync_colour_code = cc, sync_time = \<lparr>tt_t = t + 1, tt_f = f, tt_m = m, tt_h = 0\<rparr>,
       sharing_mode = sm, ts_reserved_frames = rf, u_plane_dtx = dtx, frame_18_ext = ext\<rparr>))))))))))"

text \<open>The subtraction \<open>time.t as u64 - 1\<close> fails for timeslot 0.\<close>

definition sync_to_bitbuf :: "mac_sync \<Rightarrow> unit bbm" where
  "sync_to_bitbuf s =
     thenM (write_as (system_code s) 4)
    (thenM (write_as (sync_colour_code s) 6)
    (thenM (assertM (tt_t (sync_time s) \<noteq> 0))
    (thenM (write_as (tt_t (sync_time s) - 1) 2)
    (thenM (write_as (tt_f (sync_time s)) 5)
    (thenM (write_as (tt_m (sync_time s)) 6)
    (thenM (write_as (sharing_mode s) 2)
    (thenM (write_as (ts_reserved_frames s) 3)
    (thenM (write_flag (u_plane_dtx s))
    (thenM (write_flag (frame_18_ext s))
           (write_bits 0 1))))))))))"

section \<open>The elements are codecs\<close>

lemma opt_flag_raw: "opt_flag_try_from (opt_flag_into_raw e) = Some e" "unat (opt_flag_into_raw e) < 4"
  by (cases e; simp add: opt_flag_try_from_def)+

interpretation opt_flag: raw_enum opt_flag_try_from opt_flag_into_raw "\<lambda>_. True" 2
  by unfold_locales (simp_all add: opt_flag_raw)

lemma emits_seg_assert [seg_rules]: "c \<Longrightarrow> emits w xs \<Longrightarrow> emits (thenM (assertM c) w) xs"
  by (rule emits_then_start [OF emits_assert])

lemma emits_unwrap: "emits (w v) bs \<Longrightarrow> emits (write_unwrap w (Some v)) bs"
  by (simp add: write_unwrap_def)

definition ts_common_frames_bits :: "ts_common_frames \<Rightarrow> bool list" where
  "ts_common_frames_bits t = concat
     [[tcf1 t], [tcf2 t], [tcf3 t], [tcf4 t], [tcf5 t], [tcf6 t], [tcf7 t], [tcf8 t], [tcf9 t], [tcf10 t], [tcf11 t], [tcf12 t],
      [tcf13 t], [tcf14 t], [tcf15 t], [tcf16 t], [tcf17 t], [tcf18 t], msb_bits 2 (0 :: u64)]"

interpretation ts_frames: pdu_codec ts_common_frames_to_bitbuf ts_common_frames_from_bitbuf "\<lambda>_. True" ts_common_frames_bits id
proof
  fix t
  show "emits (ts_common_frames_to_bitbuf t) (ts_common_frames_bits t)"
    unfolding ts_common_frames_to_bitbuf_def ts_common_frames_bits_def
    by (intro emits_seg emits_done emits_const emits_flag) simp_all
  show "parses ts_common_frames_from_bitbuf (ts_common_frames_bits t) (id t)"
    unfolding ts_common_frames_from_bitbuf_def ts_common_frames_bits_def by (intro seg_rules) simp_all
qed

definition access_code_valid :: "sysinfo_default_access_code \<Rightarrow> bool" where
  "access_code_valid a \<longleftrightarrow> fits 4 (imm a) \<and> fits 4 (wt a) \<and> fits 4 (nu a) \<and> fits 4 (ts_ptr a) \<and> fits 3 (min_pdu_prio a)"

definition access_code_bits :: "sysinfo_default_access_code \<Rightarrow> bool list" where
  "access_code_bits a = concat
     [word_bits 4 (imm a), word_bits 4 (wt a), word_bits 4 (nu a), [fl_factor a], word_bits 4 (ts_ptr a), word_bits 3 (min_pdu_prio a)]"

interpretation access_code: pdu_codec access_code_to_bitbuf access_code_from_bitbuf access_code_valid access_code_bits id
proof
  fix a assume v: "access_code_valid a"
  show "emits (access_code_to_bitbuf a) (access_code_bits a)"
    unfolding access_code_to_bitbuf_def access_code_bits_def
    using v by (intro emits_seg emits_done emits_as emits_flag) (simp_all add: access_code_valid_def)
  show "parses access_code_from_bitbuf (access_code_bits a) (id a)"
    unfolding access_code_from_bitbuf_def access_code_bits_def
    using v by (intro seg_rules) (simp_all add: access_code_valid_def)
qed

text \<open>The five security bits of the extended services.  A cell without a security class comes back
  as one with class 2 and key 0.\<close>

definition security_bits :: "sysinfo_extended_services \<Rightarrow> bool list" where
  "security_bits e =
     (if class2_supported e then word_bits 5 (the (sck_n e))
      else if class3_supported e
      then [the (dck_retrieval_during_cell_select e), the (dck_retrieval_during_cell_reselect e), the (linked_gck_crypto_periods e)]
        @ word_bits 2 (the (short_gck_vn e))
      else replicate 5 False)"

definition ext_services_valid :: "sysinfo_extended_services \<Rightarrow> bool" where
  "ext_services_valid e \<longleftrightarrow>
     (if class2_supported e
      then \<not> class3_supported e \<and> (\<exists>k. sck_n e = Some k \<and> fits 5 k) \<and> dck_retrieval_during_cell_select e = None
        \<and> dck_retrieval_during_cell_reselect e = None \<and> linked_gck_crypto_periods e = None \<and> short_gck_vn e = None
      else sck_n e = None
        \<and> (if class3_supported e
           then (\<exists>s r l v. dck_retrieval_during_cell_select e = Some s \<and> dck_retrieval_during_cell_reselect e = Some r
             \<and> linked_gck_crypto_periods e = Some l \<and> short_gck_vn e = Some v \<and> fits 2 v)
           else dck_retrieval_during_cell_select e = None \<and> dck_retrieval_during_cell_reselect e = None
             \<and> linked_gck_crypto_periods e = None \<and> short_gck_vn e = None))
     \<and> fits 2 (sdstl_addressing_method e) \<and> fits 2 (es_section e) \<and> fits 7 (section_data e)"

definition ext_services_bits :: "sysinfo_extended_services \<Rightarrow> bool list" where
  "ext_services_bits e = concat
     [[auth_required e], [class1_supported e, class3_supported e], security_bits e,
      word_bits 2 (sdstl_addressing_method e), [gck_supported e], word_bits 2 (es_section e), word_bits 7 (section_data e)]"

definition ext_services_norm :: "sysinfo_extended_services \<Rightarrow> sysinfo_extended_services" where
  "ext_services_norm e =
     (if class2_supported e \<or> class3_supported e then e else e\<lparr>class2_supported := True, sck_n := Some 0\<rparr>)"

lemma replicate_zero_bits: "replicate n False = msb_bits n (0 :: u64)"
  by (rule nth_equalityI) (simp_all add: msb_bits_def)

lemma parses_security_classes:
  "parses (read_security_classes True) [c1, c3] (c1, \<not> c3, c3)"
proof -
  have "parses (bindM (read_field 1 ''class2_supported'') (\<lambda>c2. retM (of_bool c1 = (1 :: u64), c2 = 0, c2 \<noteq> 0))) [c3] (c1, \<not> c3, c3)"
    using parses_map [OF parses_field_bit [of "''class2_supported''" c3], of "\<lambda>c2. (of_bool c1 = (1 :: u64), c2 = 0, c2 \<noteq> 0)"] by simp
  then show ?thesis
    unfolding read_security_classes_def if_True by (rule parses_bind_Cons [OF parses_field_bit])
qed

lemma security_info_codec:
  assumes v: "ext_services_valid e"
  shows "parses (read_security_info (\<not> class3_supported e) (class3_supported e)) (security_bits e)
    (sck_n (ext_services_norm e), dck_retrieval_during_cell_select e, dck_retrieval_during_cell_reselect e,
     linked_gck_crypto_periods e, short_gck_vn e)"
proof (cases "class3_supported e")
  case False
  define k where "k = (if class2_supported e then the (sck_n e) else 0)"
  have k: "fits 5 k" "security_bits e = word_bits 5 k" "sck_n (ext_services_norm e) = Some k"
    using v False by (auto simp: ext_services_valid_def k_def security_bits_def fits_def word_bits_def ext_services_norm_def replicate_zero_bits)
  have "parses (bindM (read_as 5 ''sck_n'') (\<lambda>sck. retM (Some sck, None, None, None, None))) (word_bits 5 k) (Some k, None, None, None, None)"
    using k(1) by (intro parses_map parses_as) simp_all
  then show ?thesis using v False k by (simp add: read_security_info_def ext_services_valid_def split: if_splits)
next
  case True
  then obtain s r l w where e: "dck_retrieval_during_cell_select e = Some s" "dck_retrieval_during_cell_reselect e = Some r"
    "linked_gck_crypto_periods e = Some l" "short_gck_vn e = Some w" "fits 2 w" "sck_n e = None" "\<not> class2_supported e"
    using v by (auto simp: ext_services_valid_def split: if_splits)
  have "security_bits e = concat [[s], [r], [l], word_bits 2 w]" using e True by (simp add: security_bits_def)
  then show ?thesis
    unfolding read_security_info_def using e True
    by (auto simp: ext_services_norm_def simp del: concat.simps intro!: seg_rules)
qed

lemma security_info_emits:
  assumes v: "ext_services_valid e"
  shows "emits (if class2_supported e then write_unwrap (\<lambda>v. write_as v 5) (sck_n e)
      else if class3_supported e
      then thenM (write_unwrap write_flag (dck_retrieval_during_cell_select e))
          (thenM (write_unwrap write_flag (dck_retrieval_during_cell_reselect e))
          (thenM (write_unwrap write_flag (linked_gck_crypto_periods e))
                 (write_unwrap (\<lambda>v. write_as v 2) (short_gck_vn e))))
      else write_bits 0 5) (security_bits e)"
proof -
  consider k where "class2_supported e" "sck_n e = Some k" "fits 5 k"
  | s r l w where "\<not> class2_supported e" "class3_supported e" "dck_retrieval_during_cell_select e = Some s"
      "dck_retrieval_during_cell_reselect e = Some r" "linked_gck_crypto_periods e = Some l" "short_gck_vn e = Some w" "fits 2 w"
  | "\<not> class2_supported e" "\<not> class3_supported e"
    using v by (auto simp: ext_services_valid_def split: if_splits)
  then show ?thesis
  proof cases
    case 1
    then show ?thesis by (simp add: security_bits_def emits_unwrap emits_as)
  next
    case (2 s r l w)
    have "emits (thenM (write_flag s) (thenM (write_flag r) (thenM (write_flag l) (write_as w 2)))) (concat [[s], [r], [l], word_bits 2 w])"
      using 2(7) by (intro emits_seg emits_done emits_flag emits_as) simp_all
    then show ?thesis using 2 by (simp add: security_bits_def write_unwrap_def)
  next
    case 3
    then show ?thesis using emits_const [of 5 0] by (simp add: security_bits_def replicate_zero_bits)
  qed
qed

interpretation ext_services: pdu_codec ext_services_to_bitbuf "ext_services_from_bitbuf True" ext_services_valid ext_services_bits ext_services_norm
proof
  fix e assume v: "ext_services_valid e"
  have a: "\<not> (class2_supported e \<and> class3_supported e)" using v by (auto simp: ext_services_valid_def split: if_splits)
  have c: "emits (thenM (write_flag (class1_supported e)) (thenM (write_flag (class3_supported e)) w))
      (concat ([class1_supported e, class3_supported e] # xs))" if "emits w (concat xs)" for w xs
    using emits_seg [OF emits_flag emits_seg [OF emits_flag that]] by simp
  show "emits (ext_services_to_bitbuf e) (ext_services_bits e)"
    unfolding ext_services_to_bitbuf_def ext_services_bits_def
    using v a
    by (intro emits_seg_assert emits_seg [OF emits_flag] c emits_seg [OF security_info_emits [OF v]] emits_seg [OF emits_as] emits_done emits_as)
      (simp_all add: ext_services_valid_def)
  have n: "ext_services_norm e = \<lparr>auth_required = auth_required e, class1_supported = class1_supported e,
      class2_supported = \<not> class3_supported e, class3_supported = class3_supported e, sck_n = sck_n (ext_services_norm e),
      dck_retrieval_during_cell_select = dck_retrieval_during_cell_select e,
      dck_retrieval_during_cell_reselect = dck_retrieval_during_cell_reselect e,
      linked_gck_crypto_periods = linked_gck_crypto_periods e, short_gck_vn = short_gck_vn e,
      sdstl_addressing_method = sdstl_addressing_method e, gck_supported = gck_supported e, es_section = es_section e,
      section_data = section_data e\<rparr>"
    using a by (cases e) (auto simp: ext_services_norm_def)
  show "parses (ext_services_from_bitbuf True) (ext_services_bits e) (ext_services_norm e)"
    unfolding ext_services_from_bitbuf_def ext_services_bits_def
    apply (intro parses_seg [OF parses_flag] parses_seg3 [OF parses_security_classes] parses_seg [OF security_info_codec [OF v]])
    apply (unfold prod.case)
    using v by (intro seg_rules) (simp_all add: ext_services_valid_def n [symmetric])
qed

section \<open>SYSINFO and SYNC are codecs\<close>

definition option_valid :: "mac_sysinfo \<Rightarrow> bool" where
  "option_valid s \<longleftrightarrow>
     (case option_field s of
        EvenMfDefForTsMode \<Rightarrow> False
      | OddMfDefForTsMode \<Rightarrow> ts_common s \<noteq> None \<and> default_access_code s = None \<and> ext_services s = None
      | DefaultDefForAccCodeA \<Rightarrow> ts_common s = None \<and> ext_services s = None
          \<and> (\<exists>a. default_access_code s = Some a \<and> access_code_valid a)
      | ExtServicesBroadcast \<Rightarrow> ts_common s = None \<and> default_access_code s = None
          \<and> (\<exists>e. ext_services s = Some e \<and> ext_services_valid e))"

definition option_bits :: "mac_sysinfo \<Rightarrow> bool list" where
  "option_bits s =
     (case option_field s of
        EvenMfDefForTsMode \<Rightarrow> []
      | OddMfDefForTsMode \<Rightarrow> ts_common_frames_bits (the (ts_common s))
      | DefaultDefForAccCodeA \<Rightarrow> access_code_bits (the (default_access_code s))
      | ExtServicesBroadcast \<Rightarrow> ext_services_bits (the (ext_services s)))"

definition cck_bits :: "mac_sysinfo \<Rightarrow> bool list" where
  "cck_bits s = (case cck_id s of Some v \<Rightarrow> True # word_bits 16 v | None \<Rightarrow> False # word_bits 16 (the (hyperframe_number s)))"

definition sysinfo_valid :: "mac_sysinfo \<Rightarrow> bool" where
  "sysinfo_valid s \<longleftrightarrow> fits 12 (main_carrier s) \<and> fits 4 (freq_band s) \<and> fits 2 (freq_offset_index s) \<and> fits 3 (duplex_spacing s)
     \<and> fits 2 (num_of_csch s) \<and> fits 3 (ms_txpwr_max_cell s) \<and> fits 4 (rxlev_access_min s) \<and> fits 4 (access_parameter s)
     \<and> fits 4 (radio_dl_timeout s) \<and> (cck_id s \<noteq> None) \<noteq> (hyperframe_number s \<noteq> None) \<and> option_valid s"

definition sysinfo_bits :: "mac_sysinfo \<Rightarrow> bool list" where
  "sysinfo_bits s = concat
     [msb_bits 2 (2 :: u64), msb_bits 2 (0 :: u64), word_bits 12 (main_carrier s), word_bits 4 (freq_band s),
      word_bits 2 (freq_offset_index s), word_bits 3 (duplex_spacing s), [reverse_operation s], word_bits 2 (num_of_csch s),
      word_bits 3 (ms_txpwr_max_cell s), word_bits 4 (rxlev_access_min s), word_bits 4 (access_parameter s),
      word_bits 4 (radio_dl_timeout s), cck_bits s, msb_bits 2 (opt_flag_into_raw (option_field s)), option_bits s]"

text \<open>What a receiver makes of a broadcast, which is not always what was sent: the parser skips the
  definition of common frames, and it reads extended services that name neither class 2 nor class 3 as
  class 2 with key number 0.\<close>

definition sysinfo_norm :: "mac_sysinfo \<Rightarrow> mac_sysinfo" where
  "sysinfo_norm s = s\<lparr>ts_common := None, ext_services := map_option ext_services_norm (ext_services s)\<rparr>"

lemma cck_codec:
  assumes "(cck_id s \<noteq> None) \<noteq> (hyperframe_number s \<noteq> None)"
  shows "emits (write_cck_or_hyperframe s) (cck_bits s)"
    and "parses read_cck_or_hyperframe (cck_bits s) (cck_id s, hyperframe_number s)"
proof -
  have fit: "fits 16 (w :: u16)" for w using unsigned_less [of w] by (simp add: fits_def)
  have w: "emits (thenM (write_bits (of_bool c) 1) (write_as (v :: u16) 16)) (c # word_bits 16 v)" for c v
    using fit by (intro emits_then_Cons emits_bits_1 emits_as) simp_all
  show "emits (write_cck_or_hyperframe s) (cck_bits s)"
    unfolding write_cck_or_hyperframe_def using assms w [of True] w [of False]
    by (intro emits_seg_assert) (auto simp: cck_bits_def write_unwrap_def split: option.split)
  have r: "parses (bindM (read_as 16 f) (\<lambda>v. retM (g v))) (word_bits 16 v) (g v)" for f and g :: "u16 \<Rightarrow> 'a" and v
    using fit by (intro parses_map parses_as) simp_all
  show "parses read_cck_or_hyperframe (cck_bits s) (cck_id s, hyperframe_number s)"
  proof (cases "cck_id s")
    case None
    then obtain h where "hyperframe_number s = Some h" using assms by auto
    moreover have "parses read_cck_or_hyperframe (False # word_bits 16 h) (None, Some h)"
      unfolding read_cck_or_hyperframe_def by (rule parses_bind_Cons [OF parses_field_bit]) (simp add: r [of _ "\<lambda>v. (None, Some v)"])
    ultimately show ?thesis using None by (simp add: cck_bits_def)
  next
    case (Some c)
    then have "hyperframe_number s = None" using assms by auto
    moreover have "parses read_cck_or_hyperframe (True # word_bits 16 c) (Some c, None)"
      unfolding read_cck_or_hyperframe_def by (rule parses_bind_Cons [OF parses_field_bit]) (simp add: r [of _ "\<lambda>v. (Some v, None)"])
    ultimately show ?thesis using Some by (simp add: cck_bits_def)
  qed
qed

lemma length_ts_bits [simp]: "length (ts_common_frames_bits t) = 20"
  by (simp add: ts_common_frames_bits_def)

lemma option_codec:
  assumes "option_valid s"
  shows "emits (write_sysinfo_option s) (option_bits s)"
    and "parses (read_sysinfo_option (option_field s)) (option_bits s) (default_access_code s, map_option ext_services_norm (ext_services s))"
proof -
  have "emits (write_sysinfo_option s) (option_bits s)
    \<and> parses (read_sysinfo_option (option_field s)) (option_bits s) (default_access_code s, map_option ext_services_norm (ext_services s))"
  proof (cases "option_field s")
    case EvenMfDefForTsMode
    then show ?thesis using assms by (simp add: option_valid_def)
  next
    case OddMfDefForTsMode
    then obtain t where t: "ts_common s = Some t" "default_access_code s = None" "ext_services s = None"
      using assms by (auto simp: option_valid_def)
    have "parses (thenM (seek_rel 20) (retM (None, None))) (ts_common_frames_bits t) (None, None)"
      using parses_map [OF parses_seek_rel [of "ts_common_frames_bits t" 20]] by simp
    moreover have "emits (ts_common_frames_to_bitbuf t) (ts_common_frames_bits t)" by (rule ts_frames.enc_emits [OF TrueI])
    ultimately show ?thesis using t OddMfDefForTsMode
      by (auto simp: write_sysinfo_option_def option_bits_def intro!: emits_seg_assert emits_unwrap)
  next
    case DefaultDefForAccCodeA
    then obtain a where t: "ts_common s = None" "default_access_code s = Some a" "ext_services s = None" "access_code_valid a"
      using assms by (auto simp: option_valid_def)
    show ?thesis using t DefaultDefForAccCodeA access_code.enc_emits [OF t(4)]
        parses_map [OF access_code.dec_parses [OF t(4)], of "\<lambda>a. (Some a, None)"]
      by (auto simp: write_sysinfo_option_def option_bits_def intro!: emits_seg_assert emits_unwrap)
  next
    case ExtServicesBroadcast
    then obtain e where t: "ts_common s = None" "default_access_code s = None" "ext_services s = Some e" "ext_services_valid e"
      using assms by (auto simp: option_valid_def)
    show ?thesis using t ExtServicesBroadcast ext_services.enc_emits [OF t(4)]
        parses_map [OF ext_services.dec_parses [OF t(4)], of "\<lambda>a. (None, Some a)"]
      by (auto simp: write_sysinfo_option_def option_bits_def intro!: emits_seg_assert emits_unwrap)
  qed
  then show "emits (write_sysinfo_option s) (option_bits s)"
    and "parses (read_sysinfo_option (option_field s)) (option_bits s) (default_access_code s, map_option ext_services_norm (ext_services s))"
    by simp_all
qed

interpretation sysinfo: pdu_codec sysinfo_to_bitbuf sysinfo_from_bitbuf sysinfo_valid sysinfo_bits sysinfo_norm
proof
  fix s assume v: "sysinfo_valid s"
  then have c: "(cck_id s \<noteq> None) \<noteq> (hyperframe_number s \<noteq> None)" and ov: "option_valid s" by (simp_all add: sysinfo_valid_def)
  have ts: "option_field s \<noteq> OddMfDefForTsMode \<Longrightarrow> ts_common s = None" using ov by (auto simp: option_valid_def split: sysinfo_opt_field_flag.splits)
  show "emits (sysinfo_to_bitbuf s) (sysinfo_bits s)"
    unfolding sysinfo_to_bitbuf_def sysinfo_bits_def
    using v by (intro emits_seg [OF emits_const] emits_seg [OF emits_as] emits_seg [OF emits_flag] emits_seg [OF cck_codec(1) [OF c]]
        emits_seg [OF opt_flag.emits_enum] emits_done option_codec(1) [OF ov]) (simp_all add: sysinfo_valid_def)
  show "parses sysinfo_from_bitbuf (sysinfo_bits s) (sysinfo_norm s)"
    unfolding sysinfo_from_bitbuf_def sysinfo_bits_def
    using v by (intro seg_rules parses_seg2 [OF cck_codec(2) [OF c]] opt_flag.parses_seg_enum parses_seg2 [OF option_codec(2) [OF ov]])
      (simp_all add: sysinfo_valid_def sysinfo_norm_def)
qed

definition sync_valid :: "mac_sync \<Rightarrow> bool" where
  "sync_valid s \<longleftrightarrow> fits 4 (system_code s) \<and> fits 6 (sync_colour_code s) \<and> 1 \<le> unat (tt_t (sync_time s)) \<and> unat (tt_t (sync_time s)) \<le> 4
     \<and> fits 5 (tt_f (sync_time s)) \<and> fits 6 (tt_m (sync_time s)) \<and> tt_h (sync_time s) = 0
     \<and> fits 2 (sharing_mode s) \<and> fits 3 (ts_reserved_frames s)"

definition sync_bits :: "mac_sync \<Rightarrow> bool list" where
  "sync_bits s = concat
     [word_bits 4 (system_code s), word_bits 6 (sync_colour_code s), word_bits 2 (tt_t (sync_time s) - 1), word_bits 5 (tt_f (sync_time s)),
      word_bits 6 (tt_m (sync_time s)), word_bits 2 (sharing_mode s), word_bits 3 (ts_reserved_frames s), [u_plane_dtx s],
      [frame_18_ext s], [False]]"

interpretation sync: pdu_codec sync_to_bitbuf sync_from_bitbuf sync_valid sync_bits id
proof
  fix s assume v: "sync_valid s"
  have nz: "tt_t (sync_time s) \<noteq> 0" using v by (auto simp: sync_valid_def)
  have t: "fits 2 (tt_t (sync_time s) - 1)" using v nz by (auto simp: sync_valid_def fits_def unat_minus_one)
  show "emits (sync_to_bitbuf s) (sync_bits s)"
    unfolding sync_to_bitbuf_def sync_bits_def
    using v t nz by (intro emits_seg_assert emits_seg [OF emits_as] emits_seg [OF emits_flag] emits_done emits_const_bit)
      (simp_all add: sync_valid_def)
  show "parses sync_from_bitbuf (sync_bits s) (id s)"
    unfolding sync_from_bitbuf_def sync_bits_def
    using v t by (intro seg_rules) (simp_all add: sync_valid_def)
qed

text \<open>The SYNC parser is total; the SYSINFO parser is not, since it skips the multiframe
  definitions without a length check.\<close>

lemma safe_sync [safe_rules]: "safe sync_from_bitbuf"
  unfolding sync_from_bitbuf_def by (intro safe_rules)

lemma safe_access_code [safe_rules]: "safe access_code_from_bitbuf"
  unfolding access_code_from_bitbuf_def by (intro safe_rules)

lemma safe_ext_services [safe_rules]: "safe (ext_services_from_bitbuf c)"
  unfolding ext_services_from_bitbuf_def read_security_classes_def read_security_info_def by (intro safe_rules)

section \<open>Properties\<close>


text \<open>The two SYSINFO variants of the base station and a SYNC: the second variant carries the extended
  services as \<open>generate_precomps\<close> fills them in.\<close>

definition example_sysinfo1 :: mac_sysinfo where
  "example_sysinfo1 = \<lparr>main_carrier = 1001, freq_band = 4, freq_offset_index = 0, duplex_spacing = 0, reverse_operation = False,
     num_of_csch = 0, ms_txpwr_max_cell = 5, rxlev_access_min = 3, access_parameter = 7, radio_dl_timeout = 3, cck_id = None,
     hyperframe_number = Some 42, option_field = DefaultDefForAccCodeA, ts_common = None,
     default_access_code = Some \<lparr>imm = 8, wt = 5, nu = 5, fl_factor = False, ts_ptr = 0, min_pdu_prio = 0\<rparr>, ext_services = None\<rparr>"

definition example_ext_services :: sysinfo_extended_services where
  "example_ext_services = \<lparr>auth_required = False, class1_supported = False, class2_supported = False, class3_supported = False,
     sck_n = None, dck_retrieval_during_cell_select = None, dck_retrieval_during_cell_reselect = None,
     linked_gck_crypto_periods = None, short_gck_vn = None, sdstl_addressing_method = 2, gck_supported = False,
     es_section = 0, section_data = 0\<rparr>"

definition example_sysinfo2 :: mac_sysinfo where
  "example_sysinfo2 = example_sysinfo1\<lparr>option_field := ExtServicesBroadcast, default_access_code := None,
     ext_services := Some example_ext_services\<rparr>"

definition example_sync :: mac_sync where
  "example_sync = \<lparr>system_code = 3, sync_colour_code = 17, sync_time = \<lparr>tt_t = 2, tt_f = 18, tt_m = 60, tt_h = 0\<rparr>,
     sharing_mode = 0, ts_reserved_frames = 0, u_plane_dtx = False, frame_18_ext = False\<rparr>"


end
