(* ===== verification/Access_Assign.thy ===== *)
theory Access_Assign
  imports Mac_Dl
begin

unbundle bit_operations_syntax

text \<open>
  The ACCESS-ASSIGN PDUs sent in every downlink slot: \<^verbatim>\<open>access_assign.rs\<close> and
  \<^verbatim>\<open>access_assign_fr18.rs\<close> under \<^verbatim>\<open>crates/tetra-pdus/src/umac/pdus\<close>, with the usage markers of
  \<^verbatim>\<open>enums/access_assign_dl_usage.rs\<close> and \<^verbatim>\<open>enums/access_assign_ul_usage.rs\<close>.  The codec laws hold for
  every value the serialiser accepts whose traffic markers are traffic markers.
\<close>

section \<open>Usage markers\<close>

datatype access_assign_dl_usage = DlUnallocated | DlAssignedControl | DlCommonControl | DlCommonAndAssigned | DlTraffic u8

datatype access_assign_ul_usage = UlCommonOnly | UlCommonAndAssigned | UlAssignedOnly | UlUnallocated | UlTraffic u8

definition dl_from_usage_marker :: "u8 \<Rightarrow> access_assign_dl_usage" where
  "dl_from_usage_marker field =
     (if field = 0 then DlUnallocated else if field = 1 then DlAssignedControl else if field = 2 then DlCommonControl
      else if field = 3 then DlCommonAndAssigned else DlTraffic field)"

fun dl_to_usage_marker :: "access_assign_dl_usage \<Rightarrow> u8" where
  "dl_to_usage_marker DlUnallocated = 0"
| "dl_to_usage_marker DlAssignedControl = 1"
| "dl_to_usage_marker DlCommonControl = 2"
| "dl_to_usage_marker DlCommonAndAssigned = 3"
| "dl_to_usage_marker (DlTraffic chan) = chan"

fun dl_is_traffic :: "access_assign_dl_usage \<Rightarrow> bool" where
  "dl_is_traffic (DlTraffic _) = True"
| "dl_is_traffic _ = False"

definition ul_from_usage_marker :: "u8 \<Rightarrow> access_assign_ul_usage option" where
  "ul_from_usage_marker field = (if field = 0 then Some UlUnallocated else if field < 4 then None else Some (UlTraffic field))"

fun ul_to_usage_marker :: "access_assign_ul_usage \<Rightarrow> u8 option" where
  "ul_to_usage_marker UlUnallocated = Some 0"
| "ul_to_usage_marker (UlTraffic chan) = Some chan"
| "ul_to_usage_marker _ = None"

fun ul_is_traffic :: "access_assign_ul_usage \<Rightarrow> bool" where
  "ul_is_traffic (UlTraffic _) = True"
| "ul_is_traffic _ = False"

section \<open>ACCESS-ASSIGN\<close>

record access_field =
  access_code :: u8
  base_frame_len :: u8

record access_assign =
  aa_header :: u8
  dl_usage :: access_assign_dl_usage
  aa_ul_usage :: access_assign_ul_usage
  aa_f1_af1 :: "access_field option"
  aa_f2_af2 :: "access_field option"
  aa_f2_af :: "access_field option"

definition access_field_of :: "u8 \<Rightarrow> access_field" where
  "access_field_of field = \<lparr>access_code = drop_bit 4 field AND 3, base_frame_len = field AND 0xF\<rparr>"

definition aa_from_bitbuf :: "access_assign bbm" where
  "aa_from_bitbuf =
     bindM (read_as 2 ''_header'') (\<lambda>header.
     bindM (read_as 6 ''field1'') (\<lambda>field1.
     bindM (read_as 6 ''field2'') (\<lambda>field2.
     if header = 0
     then retM \<lparr>aa_header = header, dl_usage = DlCommonControl, aa_ul_usage = UlCommonOnly,
       aa_f1_af1 = Some (access_field_of field1), aa_f2_af2 = Some (access_field_of field2), aa_f2_af = None\<rparr>
     else if header = 1
     then retM \<lparr>aa_header = header, dl_usage = dl_from_usage_marker field1, aa_ul_usage = UlCommonAndAssigned,
       aa_f1_af1 = None, aa_f2_af2 = None, aa_f2_af = Some (access_field_of field2)\<rparr>
     else if header = 2
     then retM \<lparr>aa_header = header, dl_usage = dl_from_usage_marker field1, aa_ul_usage = UlAssignedOnly,
       aa_f1_af1 = None, aa_f2_af2 = None, aa_f2_af = Some (access_field_of field2)\<rparr>
     else if header = 3
     then (case ul_from_usage_marker field2 of
         None \<Rightarrow> errM (InvalidValue ''ul_usage'' (ucast field2))
       | Some ul \<Rightarrow> retM \<lparr>aa_header = header, dl_usage = dl_from_usage_marker field1, aa_ul_usage = ul,
           aa_f1_af1 = None, aa_f2_af2 = None, aa_f2_af = None\<rparr>)
     else errM (InvalidValue ''header'' (ucast header)))))"

definition validate_access_field :: "string \<Rightarrow> access_field \<Rightarrow> (pdu_parse_err + 'a) \<Rightarrow> (pdu_parse_err + 'a)" where
  "validate_access_field name af k =
     check (access_code af > 3) (InvalidValue name (ucast (access_code af)))
    (check (base_frame_len af > 0xf) (InvalidValue name (ucast (base_frame_len af))) k)"

definition validate_usage_marker :: "string \<Rightarrow> u8 \<Rightarrow> (pdu_parse_err + 'a) \<Rightarrow> (pdu_parse_err + 'a)" where
  "validate_usage_marker name marker k = check (marker > 0x3f) (InvalidValue name (ucast marker)) k"

definition write_access_field :: "access_field \<Rightarrow> unit bbm" where
  "write_access_field af = thenM (write_as (access_code af) 2) (write_as (base_frame_len af) 4)"

definition present :: "string \<Rightarrow> 'b option \<Rightarrow> ('b \<Rightarrow> pdu_parse_err + 'a) \<Rightarrow> (pdu_parse_err + 'a)" where
  "present name x k = (case x of Some v \<Rightarrow> k v | None \<Rightarrow> Inl (FieldNotPresent (Some name)))"

text \<open>All checks precede the first write: what is to be written, or the error.\<close>

definition aa_plan :: "access_assign \<Rightarrow> pdu_parse_err + unit bbm" where
  "aa_plan s =
     (let dl = dl_to_usage_marker (dl_usage s) in
      validate_usage_marker ''dl_usage'' dl
      (if dl_usage s = DlCommonControl \<and> aa_ul_usage s = UlCommonOnly
       then present ''f1_af1'' (aa_f1_af1 s) (\<lambda>f1. present ''f2_af2'' (aa_f2_af2 s) (\<lambda>f2.
         check (aa_f2_af s \<noteq> None) (Inconsistency ''f2_af''
           ''header 00 uses access field 1 and access field 2, not shared access field'')
        (validate_access_field ''f1_af1'' f1 (validate_access_field ''f2_af2'' f2
           (Inr (thenM (write_bits 0 2) (thenM (write_access_field f1) (write_access_field f2))))))))
       else if aa_ul_usage s = UlCommonAndAssigned
       then present ''f2_af'' (aa_f2_af s) (\<lambda>af. validate_access_field ''f2_af'' af
           (Inr (thenM (write_bits 1 2) (thenM (write_as dl 6) (write_access_field af)))))
       else if aa_ul_usage s = UlAssignedOnly
       then present ''f2_af'' (aa_f2_af s) (\<lambda>af. validate_access_field ''f2_af'' af
           (Inr (thenM (write_bits 2 2) (thenM (write_as dl 6) (write_access_field af)))))
       else (case ul_to_usage_marker (aa_ul_usage s) of
           None \<Rightarrow> Inl (Inconsistency ''ul_usage'' ''header 11 requires an uplink usage marker'')
         | Some ul \<Rightarrow> validate_usage_marker ''ul_usage'' ul
             (Inr (thenM (write_bits 3 2) (thenM (write_as dl 6) (write_as ul 6)))))))"

definition aa_try_to_bitbuf :: "access_assign \<Rightarrow> unit bbm" where
  "aa_try_to_bitbuf s = (case aa_plan s of Inl e \<Rightarrow> errM e | Inr w \<Rightarrow> w)"

definition swallow :: "unit bbm \<Rightarrow> unit bbm" where
  "swallow w b = (case w b of Ok _ b' \<Rightarrow> Ok () b' | Err _ b' \<Rightarrow> Ok () b' | Panic \<Rightarrow> Panic)"

definition aa_to_bitbuf :: "access_assign \<Rightarrow> unit bbm" where
  "aa_to_bitbuf s = swallow (aa_try_to_bitbuf s)"

section \<open>ACCESS-ASSIGN in frame 18\<close>

record access_assign_fr18 =
  fr18_header :: u8
  fr18_ul_usage :: access_assign_ul_usage
  fr18_f1_af1 :: "access_field option"
  fr18_f1_traf_um :: "access_assign_ul_usage option"
  fr18_f2_af2 :: "access_field option"
  fr18_f2_af :: "access_field option"

definition fr18_pair :: "u8 \<Rightarrow> access_assign_ul_usage \<Rightarrow> u8 \<Rightarrow> u8 \<Rightarrow> access_assign_fr18" where
  "fr18_pair header ul field1 field2 = \<lparr>fr18_header = header, fr18_ul_usage = ul, fr18_f1_af1 = Some (access_field_of field1),
     fr18_f1_traf_um = None, fr18_f2_af2 = Some (access_field_of field2), fr18_f2_af = None\<rparr>"

definition fr18_from_bitbuf :: "access_assign_fr18 bbm" where
  "fr18_from_bitbuf =
     bindM (read_as 2 ''_header'') (\<lambda>header.
     bindM (read_as 6 ''field1'') (\<lambda>field1.
     bindM (read_as 6 ''field2'') (\<lambda>field2.
     if header = 0 then retM (fr18_pair header UlCommonOnly field1 field2)
     else if header = 1 then retM (fr18_pair header UlCommonAndAssigned field1 field2)
     else if header = 2 then retM (fr18_pair header UlAssignedOnly field1 field2)
     else if header = 3
     then (case ul_from_usage_marker field1 of
         None \<Rightarrow> errM (InvalidValue ''ul_usage'' (ucast field1))
       | Some ul \<Rightarrow>
           if \<not> ul_is_traffic ul then errM (InvalidValue ''ul_usage'' (ucast field1))
           else retM \<lparr>fr18_header = header, fr18_ul_usage = ul, fr18_f1_af1 = None, fr18_f1_traf_um = None,
             fr18_f2_af2 = None, fr18_f2_af = Some (access_field_of field2)\<rparr>)
     else errM (InvalidValue ''header'' (ucast header)))))"

definition validate_access_field_pair :: "access_assign_fr18 \<Rightarrow> pdu_parse_err + (access_field \<times> access_field)" where
  "validate_access_field_pair s =
     present ''f1_af1'' (fr18_f1_af1 s) (\<lambda>f1. present ''f2_af2'' (fr18_f2_af2 s) (\<lambda>f2.
       check (fr18_f2_af s \<noteq> None) (Inconsistency ''f2_af''
         ''frame-18 headers 00/01/10 use access field 1 and access field 2, not shared access field'')
      (validate_access_field ''f1_af1'' f1 (validate_access_field ''f2_af2'' f2 (Inr (f1, f2))))))"

definition write_pair :: "u64 \<Rightarrow> access_assign_fr18 \<Rightarrow> unit bbm" where
  "write_pair header s =
     (case validate_access_field_pair s of
        Inl e \<Rightarrow> errM e
      | Inr (f1, f2) \<Rightarrow> thenM (write_bits header 2) (thenM (write_access_field f1) (write_access_field f2)))"

text \<open>With header 3 the usage marker is checked after the header is written.\<close>

definition fr18_try_to_bitbuf :: "access_assign_fr18 \<Rightarrow> unit bbm" where
  "fr18_try_to_bitbuf s =
     (if fr18_ul_usage s = UlCommonOnly then write_pair 0 s
      else if fr18_ul_usage s = UlCommonAndAssigned then write_pair 1 s
      else if fr18_ul_usage s = UlAssignedOnly then write_pair 2 s
      else if ul_is_traffic (fr18_ul_usage s)
      then (case present ''f2_af'' (fr18_f2_af s) (\<lambda>af.
                check (fr18_f1_af1 s \<noteq> None \<or> fr18_f2_af2 s \<noteq> None) (Inconsistency ''f1_af1/f2_af2''
                  ''frame-18 header 11 uses traffic marker plus shared access field'')
               (validate_access_field ''f2_af'' af (Inr af))) of
              Inl e \<Rightarrow> errM e
            | Inr af \<Rightarrow>
                thenM (write_bits 3 2)
               (case ul_to_usage_marker (fr18_ul_usage s) of
                  None \<Rightarrow> errM (Inconsistency ''ul_usage'' ''frame-18 header 11 requires a traffic usage marker'')
                | Some ul \<Rightarrow>
                    if ul > 0x3f then errM (InvalidValue ''ul_usage'' (ucast ul))
                    else thenM (write_as ul 6) (write_access_field af)))
      else errM (Inconsistency ''ul_usage''
        ''frame-18 ACCESS-ASSIGN supports common-only, common-and-assigned, assigned-only, or traffic''))"

definition fr18_to_bitbuf :: "access_assign_fr18 \<Rightarrow> unit bbm" where
  "fr18_to_bitbuf s = swallow (fr18_try_to_bitbuf s)"

section \<open>The PDUs are codecs\<close>

definition field_ok :: "access_field \<Rightarrow> bool" where
  "field_ok af \<longleftrightarrow> fits 2 (access_code af) \<and> fits 4 (base_frame_len af)"

definition field_bits :: "access_field \<Rightarrow> bool list" where
  "field_bits af = word_bits 2 (access_code af) @ word_bits 4 (base_frame_len af)"

definition field_word :: "access_field \<Rightarrow> u8" where
  "field_word af = push_bit 4 (access_code af) OR base_frame_len af"

lemma fits_iff_bits: "fits n (w :: 'a::len word) \<longleftrightarrow> (\<forall>i \<ge> n. \<not> bit w i)"
proof -
  have b: "bit w (n + i) = bit (drop_bit n w) i" for i by (simp add: bit_drop_bit_eq)
  have "drop_bit n w = 0 \<longleftrightarrow> (\<forall>i. \<not> bit w (n + i))" unfolding b by (auto intro: bit_word_eqI)
  also have "\<dots> \<longleftrightarrow> (\<forall>i \<ge> n. \<not> bit w i)" by (metis le_add1 le_Suc_ex)
  finally show ?thesis by (simp add: fits_def drop_bit_0_iff)
qed

lemma field_word:
  assumes "field_ok af"
  shows "word_bits 6 (field_word af) = field_bits af" "access_field_of (field_word af) = af" "fits 6 (field_word af)"
proof -
  have hi: "\<not> bit (access_code af) i" if "2 \<le> i" for i using assms that by (auto simp: field_ok_def fits_iff_bits)
  have lo: "\<not> bit (base_frame_len af) i" if "4 \<le> i" for i using assms that by (auto simp: field_ok_def fits_iff_bits)
  have bits: "bit (field_word af) i = (if i < 4 then bit (base_frame_len af) i else i < 8 \<and> bit (access_code af) (i - 4))" for i
    using lo by (auto simp: field_word_def bit_or_iff bit_push_bit_iff)
  have hi': "drop_bit 4 (field_word af) = access_code af" "field_word af AND 15 = base_frame_len af" "access_code af AND 3 = access_code af"
  proof -
    have hi4: "bit (access_code af) i \<Longrightarrow> i < 4" "bit (access_code af) i \<Longrightarrow> i < 2" for i using hi [of i] by linarith+
    have m: "(15 :: u8) = mask 4" "(3 :: u8) = mask 2" by (simp_all add: mask_eq_exp_minus_1)
    show "drop_bit 4 (field_word af) = access_code af"
      using hi hi4 by (intro bit_word_eqI) (auto simp: bit_drop_bit_eq bits not_less)
    show "field_word af AND 15 = base_frame_len af"
      using lo by (intro bit_word_eqI) (auto simp: m bit_and_iff bit_mask_iff bits not_less)
    show "access_code af AND 3 = access_code af"
      using hi4 by (intro bit_word_eqI) (auto simp: m bit_and_iff bit_mask_iff)
  qed
  then show "access_field_of (field_word af) = af" by (simp add: access_field_of_def)
  have "msb_bits 6 (field_word af) = msb_bits 2 (drop_bit 4 (field_word af)) @ msb_bits 4 (field_word af)"
    using msb_bits_append [of 2 4 "field_word af"] by simp
  moreover have "msb_bits 4 (field_word af) = msb_bits 4 (base_frame_len af)"
    by (rule nth_equalityI) (auto simp: nth_msb_bits bits)
  ultimately show "word_bits 6 (field_word af) = field_bits af"
    using hi'(1) by (simp add: field_bits_def word_bits_def msb_bits_ucast)
  show "fits 6 (field_word af)" using hi by (auto simp: fits_iff_bits bits)
qed

lemma emits_access_field: "field_ok af \<Longrightarrow> emits (write_access_field af) (field_bits af)"
  unfolding write_access_field_def field_bits_def by (intro emits_then emits_as) (simp_all add: field_ok_def)

lemma parses_access_field: "field_ok af \<Longrightarrow> parses (read_as 6 s) (field_bits af) (field_word af)"
  using parses_as [of 6 "field_word af" s] by (simp add: field_word)

lemma parses_seg_access_field:
  "field_ok af \<Longrightarrow> parses (f (field_word af)) (concat xs) v \<Longrightarrow> parses (bindM (read_as 6 s) f) (concat (field_bits af # xs)) v"
  by (rule parses_seg [OF parses_access_field])

lemma emits_swallow: "emits w bs \<Longrightarrow> emits (swallow w) bs"
  using emits_try [of w bs] by (simp add: swallow_def [abs_def])

lemma field_ok_iff: "field_ok af \<longleftrightarrow> \<not> access_code af > 3 \<and> \<not> base_frame_len af > 0xf"
  by (auto simp: field_ok_def fits_def word_less_nat_alt)

lemma check_False [simp]: "check False e k = k"
  by (simp add: check_def)

lemma validate_simps: "field_ok af \<Longrightarrow> validate_access_field s af k = k" "fits 6 m \<Longrightarrow> validate_usage_marker s m k = k"
  "present s (Some v) h = h v"
  by (auto simp: validate_access_field_def field_ok_iff check_def validate_usage_marker_def fits_def word_less_nat_alt present_def)

text \<open>A traffic channel number that is not one of the reserved markers.\<close>

definition marker_ok :: "u8 \<Rightarrow> bool" where
  "marker_ok v \<longleftrightarrow> \<not> v < 4 \<and> fits 6 v"

definition dl_ok :: "access_assign_dl_usage \<Rightarrow> bool" where
  "dl_ok u = (case u of DlTraffic v \<Rightarrow> marker_ok v | _ \<Rightarrow> True)"

lemma dl_marker: "dl_ok u \<Longrightarrow> dl_from_usage_marker (dl_to_usage_marker u) = u" "dl_ok u \<Longrightarrow> fits 6 (dl_to_usage_marker u)"
  by (cases u; auto simp: dl_ok_def dl_from_usage_marker_def fits_def marker_ok_def)+

lemma ul_marker: "marker_ok v \<Longrightarrow> ul_from_usage_marker v = Some (UlTraffic v)"
  by (auto simp: ul_from_usage_marker_def marker_ok_def)

definition aa_valid :: "access_assign \<Rightarrow> bool" where
  "aa_valid s \<longleftrightarrow> dl_ok (dl_usage s) \<and>
     (case aa_ul_usage s of
        UlCommonOnly \<Rightarrow> dl_usage s = DlCommonControl \<and> aa_f2_af s = None
          \<and> (\<exists>f1 f2. aa_f1_af1 s = Some f1 \<and> aa_f2_af2 s = Some f2 \<and> field_ok f1 \<and> field_ok f2)
      | UlCommonAndAssigned \<Rightarrow> (\<exists>af. aa_f2_af s = Some af \<and> field_ok af)
      | UlAssignedOnly \<Rightarrow> (\<exists>af. aa_f2_af s = Some af \<and> field_ok af)
      | UlUnallocated \<Rightarrow> True
      | UlTraffic v \<Rightarrow> marker_ok v)"

fun aa_segments :: "access_assign_ul_usage \<Rightarrow> access_assign \<Rightarrow> bool list list" where
  "aa_segments UlCommonOnly s = [msb_bits 2 (0 :: u64), field_bits (the (aa_f1_af1 s)), field_bits (the (aa_f2_af2 s))]"
| "aa_segments UlCommonAndAssigned s = [msb_bits 2 (1 :: u64), word_bits 6 (dl_to_usage_marker (dl_usage s)), field_bits (the (aa_f2_af s))]"
| "aa_segments UlAssignedOnly s = [msb_bits 2 (2 :: u64), word_bits 6 (dl_to_usage_marker (dl_usage s)), field_bits (the (aa_f2_af s))]"
| "aa_segments UlUnallocated s = [msb_bits 2 (3 :: u64), word_bits 6 (dl_to_usage_marker (dl_usage s)), word_bits 6 (0 :: u8)]"
| "aa_segments (UlTraffic v) s = [msb_bits 2 (3 :: u64), word_bits 6 (dl_to_usage_marker (dl_usage s)), word_bits 6 v]"

definition aa_bits :: "access_assign \<Rightarrow> bool list" where
  "aa_bits s = concat (aa_segments (aa_ul_usage s) s)"

text \<open>The header is derived, and access fields the header has no room for are dropped.\<close>

definition aa_norm :: "access_assign \<Rightarrow> access_assign" where
  "aa_norm s = \<lparr>
     aa_header = (case aa_ul_usage s of UlCommonOnly \<Rightarrow> 0 | UlCommonAndAssigned \<Rightarrow> 1 | UlAssignedOnly \<Rightarrow> 2 | _ \<Rightarrow> 3),
     dl_usage = dl_usage s, aa_ul_usage = aa_ul_usage s,
     aa_f1_af1 = (if aa_ul_usage s = UlCommonOnly then aa_f1_af1 s else None),
     aa_f2_af2 = (if aa_ul_usage s = UlCommonOnly then aa_f2_af2 s else None),
     aa_f2_af = (if aa_ul_usage s = UlCommonAndAssigned \<or> aa_ul_usage s = UlAssignedOnly then aa_f2_af s else None)\<rparr>"

lemma word_bits_const: "msb_bits n (ucast c :: u64) = word_bits n c"
  by (simp add: word_bits_def)

lemma parses_header:
  "fits 2 (c :: u8) \<Longrightarrow> ucast c = (d :: u64) \<Longrightarrow> parses (f c) (concat xs) v \<Longrightarrow> parses (bindM (read_as 2 s) f) (concat (msb_bits 2 d # xs)) v"
  by (rule parses_seg) (use parses_as [of 2 c s] in \<open>auto simp: word_bits_def\<close>)

lemma parses_marker:
  "fits 6 (m :: u8) \<Longrightarrow> parses (f m) (concat xs) v \<Longrightarrow> parses (bindM (read_as 6 s) f) (concat (word_bits 6 m # xs)) v"
  by (rule parses_seg [OF parses_as]) simp_all

lemmas aa_parse = parses_marker parses_seg_access_field parses_header

lemma marked:
  assumes "dl_ok (dl_usage s)" and "ul_to_usage_marker (aa_ul_usage s) = Some m" and "ul_from_usage_marker m = Some (aa_ul_usage s)"
    and "fits 6 m"
  defines "bits \<equiv> concat [msb_bits 2 (3 :: u64), word_bits 6 (dl_to_usage_marker (dl_usage s)), word_bits 6 m]"
  shows "emits (aa_try_to_bitbuf s) bits \<and> parses aa_from_bitbuf bits (aa_norm s)"
proof -
  note dl = dl_marker [OF assms(1)]
  have ul: "aa_ul_usage s \<noteq> UlCommonOnly" "aa_ul_usage s \<noteq> UlCommonAndAssigned" "aa_ul_usage s \<noteq> UlAssignedOnly"
    using assms(2) by auto
  have "emits (thenM (write_bits 3 2) (thenM (write_as (dl_to_usage_marker (dl_usage s)) 6) (write_as m 6))) bits"
    unfolding bits_def using dl(2) assms(4) by (intro emits_seg emits_done emits_const emits_as) simp_all
  moreover have "parses aa_from_bitbuf bits (aa_norm s)"
    unfolding aa_from_bitbuf_def bits_def using dl assms(3,4) ul
    by (intro parses_header [where c = 3] parses_marker)
      (auto simp: fits_def aa_norm_def parses_ret split: access_assign_ul_usage.split)
  ultimately show ?thesis using dl(2) assms(2,4) ul by (simp add: aa_try_to_bitbuf_def aa_plan_def validate_simps Let_def)
qed

interpretation aa: pdu_codec aa_to_bitbuf aa_from_bitbuf aa_valid aa_bits aa_norm
proof
  fix s assume v: "aa_valid s"
  then have dl: "dl_ok (dl_usage s)" by (simp add: aa_valid_def)
  note m = dl_marker [OF dl]
  have "emits (aa_try_to_bitbuf s) (aa_bits s) \<and> parses aa_from_bitbuf (aa_bits s) (aa_norm s)"
  proof (cases "aa_ul_usage s")
    case UlCommonOnly
    then obtain f1 f2 where f: "dl_usage s = DlCommonControl" "aa_f2_af s = None" "aa_f1_af1 s = Some f1" "aa_f2_af2 s = Some f2"
      "field_ok f1" "field_ok f2" using v by (auto simp: aa_valid_def)
    have p: "aa_plan s = Inr (thenM (write_bits 0 2) (thenM (write_access_field f1) (write_access_field f2)))"
      using f UlCommonOnly m(2) by (simp add: aa_plan_def validate_simps Let_def)
    have "emits (thenM (write_bits 0 2) (thenM (write_access_field f1) (write_access_field f2))) (concat [msb_bits 2 (0 :: u64), field_bits f1, field_bits f2])"
      using f(5,6) by (intro emits_seg emits_done emits_const emits_access_field) simp_all
    moreover have "parses aa_from_bitbuf (concat [msb_bits 2 (0 :: u64), field_bits f1, field_bits f2]) (aa_norm s)"
      unfolding aa_from_bitbuf_def
      using f UlCommonOnly by (intro parses_header [where c = 0] parses_seg_access_field) (simp_all add: fits_def aa_norm_def field_word parses_ret)
    ultimately show ?thesis using p f UlCommonOnly by (simp add: aa_try_to_bitbuf_def aa_bits_def)
  next
    case UlCommonAndAssigned
    then obtain af where f: "aa_f2_af s = Some af" "field_ok af" using v by (auto simp: aa_valid_def)
    have "emits (thenM (write_bits 1 2) (thenM (write_as (dl_to_usage_marker (dl_usage s)) 6) (write_access_field af)))
        (concat [msb_bits 2 (1 :: u64), word_bits 6 (dl_to_usage_marker (dl_usage s)), field_bits af])"
      using f m(2) by (intro emits_seg emits_done emits_const emits_as emits_access_field) simp_all
    moreover have "parses aa_from_bitbuf (concat [msb_bits 2 (1 :: u64), word_bits 6 (dl_to_usage_marker (dl_usage s)), field_bits af]) (aa_norm s)"
      unfolding aa_from_bitbuf_def
      using f m UlCommonAndAssigned
      by (intro parses_header [where c = 1] parses_marker parses_seg_access_field) (simp_all add: fits_def aa_norm_def field_word parses_ret)
    ultimately show ?thesis using f UlCommonAndAssigned m by (simp add: aa_try_to_bitbuf_def aa_bits_def aa_plan_def validate_simps Let_def)
  next
    case UlAssignedOnly
    then obtain af where f: "aa_f2_af s = Some af" "field_ok af" using v by (auto simp: aa_valid_def)
    have "emits (thenM (write_bits 2 2) (thenM (write_as (dl_to_usage_marker (dl_usage s)) 6) (write_access_field af)))
        (concat [msb_bits 2 (2 :: u64), word_bits 6 (dl_to_usage_marker (dl_usage s)), field_bits af])"
      using f m(2) by (intro emits_seg emits_done emits_const emits_as emits_access_field) simp_all
    moreover have "parses aa_from_bitbuf (concat [msb_bits 2 (2 :: u64), word_bits 6 (dl_to_usage_marker (dl_usage s)), field_bits af]) (aa_norm s)"
      unfolding aa_from_bitbuf_def
      using f m UlAssignedOnly
      by (intro parses_header [where c = 2] parses_marker parses_seg_access_field) (simp_all add: fits_def aa_norm_def field_word parses_ret)
    ultimately show ?thesis using f UlAssignedOnly m by (simp add: aa_try_to_bitbuf_def aa_bits_def aa_plan_def validate_simps Let_def)
  next
    case UlUnallocated
    then show ?thesis using marked [of s 0] v by (simp add: aa_valid_def ul_from_usage_marker_def fits_def aa_bits_def)
  next
    case (UlTraffic k)
    then show ?thesis using marked [of s k] v ul_marker [of k] by (simp add: aa_valid_def marker_ok_def aa_bits_def)
  qed
  then show "emits (aa_to_bitbuf s) (aa_bits s)" "parses aa_from_bitbuf (aa_bits s) (aa_norm s)"
    by (simp_all add: aa_to_bitbuf_def emits_swallow)
qed

definition fr18_valid :: "access_assign_fr18 \<Rightarrow> bool" where
  "fr18_valid s \<longleftrightarrow>
     (case fr18_ul_usage s of
        UlTraffic v \<Rightarrow> marker_ok v \<and> fr18_f1_af1 s = None \<and> fr18_f2_af2 s = None \<and> (\<exists>af. fr18_f2_af s = Some af \<and> field_ok af)
      | UlUnallocated \<Rightarrow> False
      | _ \<Rightarrow> fr18_f2_af s = None
          \<and> (\<exists>f1 f2. fr18_f1_af1 s = Some f1 \<and> fr18_f2_af2 s = Some f2 \<and> field_ok f1 \<and> field_ok f2))"

fun fr18_header_of :: "access_assign_ul_usage \<Rightarrow> u8" where
  "fr18_header_of UlCommonOnly = 0"
| "fr18_header_of UlCommonAndAssigned = 1"
| "fr18_header_of UlAssignedOnly = 2"
| "fr18_header_of _ = 3"

definition fr18_bits :: "access_assign_fr18 \<Rightarrow> bool list" where
  "fr18_bits s =
     (case fr18_ul_usage s of
        UlTraffic v \<Rightarrow> concat [msb_bits 2 (3 :: u64), word_bits 6 v, field_bits (the (fr18_f2_af s))]
      | ul \<Rightarrow> concat [msb_bits 2 (ucast (fr18_header_of ul) :: u64), field_bits (the (fr18_f1_af1 s)), field_bits (the (fr18_f2_af2 s))])"

definition fr18_norm :: "access_assign_fr18 \<Rightarrow> access_assign_fr18" where
  "fr18_norm s = \<lparr>fr18_header = fr18_header_of (fr18_ul_usage s), fr18_ul_usage = fr18_ul_usage s, fr18_f1_af1 = fr18_f1_af1 s,
     fr18_f1_traf_um = None, fr18_f2_af2 = fr18_f2_af2 s, fr18_f2_af = fr18_f2_af s\<rparr>"

lemma fr18_pair_codec:
  assumes "fr18_f2_af s = None" "fr18_f1_af1 s = Some f1" "fr18_f2_af2 s = Some f2" "field_ok f1" "field_ok f2"
    and ul: "fr18_ul_usage s \<in> {UlCommonOnly, UlCommonAndAssigned, UlAssignedOnly}"
  defines "bits \<equiv> concat [msb_bits 2 (ucast (fr18_header_of (fr18_ul_usage s)) :: u64), field_bits f1, field_bits f2]"
  shows "emits (write_pair (ucast (fr18_header_of (fr18_ul_usage s))) s) bits \<and> parses fr18_from_bitbuf bits (fr18_norm s)"
proof -
  define h where "h = fr18_header_of (fr18_ul_usage s)"
  have h: "fits 2 h" using ul by (auto simp: h_def fits_def)
  have "validate_access_field_pair s = Inr (f1, f2)"
    using assms(1-5) by (simp add: validate_access_field_pair_def validate_simps)
  moreover have "emits (thenM (write_bits (ucast h) 2) (thenM (write_access_field f1) (write_access_field f2)))
      (concat [msb_bits 2 (ucast h :: u64), field_bits f1, field_bits f2])"
    using assms(4,5) h by (intro emits_seg emits_done emits_const emits_access_field) (simp_all add: fits_def)
  moreover have "parses fr18_from_bitbuf (concat [msb_bits 2 (ucast h :: u64), field_bits f1, field_bits f2]) (fr18_norm s)"
    unfolding fr18_from_bitbuf_def using assms(1-6) h
    by (intro parses_header [where c = h] parses_seg_access_field refl)
      (auto simp: h_def fr18_norm_def fr18_pair_def field_word parses_ret)
  ultimately show ?thesis by (simp add: write_pair_def bits_def h_def)
qed

interpretation fr18: pdu_codec fr18_to_bitbuf fr18_from_bitbuf fr18_valid fr18_bits fr18_norm
proof
  fix s assume v: "fr18_valid s"
  have "emits (fr18_try_to_bitbuf s) (fr18_bits s) \<and> parses fr18_from_bitbuf (fr18_bits s) (fr18_norm s)"
  proof (cases "fr18_ul_usage s \<in> {UlCommonOnly, UlCommonAndAssigned, UlAssignedOnly}")
    case True
    then obtain f1 f2 where f: "fr18_f2_af s = None" "fr18_f1_af1 s = Some f1" "fr18_f2_af2 s = Some f2" "field_ok f1" "field_ok f2"
      using v by (auto simp: fr18_valid_def)
    show ?thesis using fr18_pair_codec [OF f True] True f by (auto simp: fr18_try_to_bitbuf_def fr18_bits_def)
  next
    case False
    then obtain k af where k: "fr18_ul_usage s = UlTraffic k" "marker_ok k" "fr18_f1_af1 s = None" "fr18_f2_af2 s = None"
      "fr18_f2_af s = Some af" "field_ok af" using v by (auto simp: fr18_valid_def split: access_assign_ul_usage.splits)
    have fk: "fits 6 k" using k(2) by (simp add: marker_ok_def)
    then have gt: "\<not> k > 0x3f" by (simp add: fits_def word_less_nat_alt)
    have "emits (thenM (write_bits 3 2) (thenM (write_as k 6) (write_access_field af)))
        (concat [msb_bits 2 (3 :: u64), word_bits 6 k, field_bits af])"
      using fk k(6) by (intro emits_seg emits_done emits_const emits_as emits_access_field) simp_all
    moreover have "parses fr18_from_bitbuf (concat [msb_bits 2 (3 :: u64), word_bits 6 k, field_bits af]) (fr18_norm s)"
      unfolding fr18_from_bitbuf_def using k fk ul_marker [OF k(2)]
      by (intro parses_header [where c = 3] parses_marker parses_seg_access_field)
        (simp_all add: fits_def fr18_norm_def field_word parses_ret)
    ultimately show ?thesis using k gt by (simp add: fr18_try_to_bitbuf_def fr18_bits_def validate_simps)
  qed
  then show "emits (fr18_to_bitbuf s) (fr18_bits s)" "parses fr18_from_bitbuf (fr18_bits s) (fr18_norm s)"
    by (simp_all add: fr18_to_bitbuf_def emits_swallow)
qed

lemma length_aa_bits: "aa_valid s \<Longrightarrow> length (aa_bits s) = 14" "fr18_valid t \<Longrightarrow> length (fr18_bits t) = 14"
  by (auto simp: aa_bits_def fr18_bits_def field_bits_def split: access_assign_ul_usage.split)
    (cases "aa_ul_usage s"; simp add: field_bits_def)+

lemma safe_access_assign [safe_rules]: "safe aa_from_bitbuf" "safe fr18_from_bitbuf"
  unfolding aa_from_bitbuf_def fr18_from_bitbuf_def by (intro safe_rules)+

section \<open>Properties\<close>

text \<open>C18: the ACCESS-ASSIGN of a traffic frame and that of frame 18 always fill the fourteen bits of the
  broadcast block, and are read back as they were written, up to the access fields their header has
  no room for.\<close>

theorem access_assign_round_trip:
  assumes "aa_valid s" and "fr18_valid t"
  shows "(\<exists>b. aa_to_bitbuf s (bb_new_autoexpand k) = Ok () b \<and> length (window b) = 14
      \<and> thenM (seek 0) aa_from_bitbuf b = Ok (aa_norm s) (b\<lparr>bb_pos := bb_end b\<rparr>))
    \<and> (\<exists>b. fr18_to_bitbuf t (bb_new_autoexpand k) = Ok () b \<and> length (window b) = 14
      \<and> thenM (seek 0) fr18_from_bitbuf b = Ok (fr18_norm t) (b\<lparr>bb_pos := bb_end b\<rparr>))"
  using aa.enc_dec [OF assms(1), of k] fr18.enc_dec [OF assms(2), of k] length_aa_bits(1) [OF assms(1)] length_aa_bits(2) [OF assms(2)] by auto

theorem access_assign_round_trip_witness:
  "(\<exists>b. aa_to_bitbuf \<lparr>aa_header = 0, dl_usage = DlTraffic 9, aa_ul_usage = UlTraffic 10, aa_f1_af1 = None, aa_f2_af2 = None,
       aa_f2_af = None\<rparr> (bb_new_autoexpand 14) = Ok () b \<and> length (window b) = 14)
   \<and> (\<exists>b. fr18_to_bitbuf \<lparr>fr18_header = 0, fr18_ul_usage = UlCommonOnly, fr18_f1_af1 = Some \<lparr>access_code = 0, base_frame_len = 4\<rparr>,
       fr18_f1_traf_um = None, fr18_f2_af2 = Some \<lparr>access_code = 1, base_frame_len = 2\<rparr>, fr18_f2_af = None\<rparr> (bb_new_autoexpand 14) = Ok () b \<and> length (window b) = 14)"
proof -
  let ?s = "\<lparr>aa_header = 0, dl_usage = DlTraffic 9, aa_ul_usage = UlTraffic 10, aa_f1_af1 = None, aa_f2_af2 = None,
       aa_f2_af = None\<rparr> :: access_assign"
  let ?t = "\<lparr>fr18_header = 0, fr18_ul_usage = UlCommonOnly, fr18_f1_af1 = Some \<lparr>access_code = 0, base_frame_len = 4\<rparr>,
       fr18_f1_traf_um = None, fr18_f2_af2 = Some \<lparr>access_code = 1, base_frame_len = 2\<rparr>, fr18_f2_af = None\<rparr> :: access_assign_fr18"
  have "aa_valid ?s" "fr18_valid ?t" by (simp_all add: aa_valid_def fr18_valid_def dl_ok_def marker_ok_def fits_def field_ok_def)
  from access_assign_round_trip [OF this, of 14] show ?thesis by blast
qed

end
