(* ===== verification/Mac_Ul.thy ===== *)
theory Mac_Ul
  imports Mac_Dl Access_Assign
begin

unbundle bit_operations_syntax

text \<open>
  The uplink MAC PDUs: \<^verbatim>\<open>mac_access.rs\<close>, \<^verbatim>\<open>mac_data.rs\<close>, \<^verbatim>\<open>mac_frag_ul.rs\<close>, \<^verbatim>\<open>mac_end_ul.rs\<close>,
  \<^verbatim>\<open>mac_end_hu.rs\<close>, \<^verbatim>\<open>mac_u_blck.rs\<close> and \<^verbatim>\<open>mac_u_signal.rs\<close> under \<^verbatim>\<open>crates/tetra-pdus/src/umac/pdus\<close>, with
  \<^verbatim>\<open>enums/reservation_requirement.rs\<close>, and the supplementary downlink PDU \<^verbatim>\<open>mac_d_blck.rs\<close>.  Each PDU is an
  interpretation of \<open>pdu_codec\<close>, and every parser is safe on any input.
\<close>

section \<open>Reservation requirement\<close>

datatype reservation_requirement =
  Req1Subslot | Req1Slot | Req2Slots | Req3Slots | Req4Slots | Req5Slots | Req6Slots | Req8Slots
| Req10Slots | Req13Slots | Req17Slots | Req24Slots | Req34Slots | Req51Slots | Req68Slots | ReqOver68

definition res_req_try_from :: "u64 \<Rightarrow> reservation_requirement option" where
  "res_req_try_from x =
     (if x = 0 then Some Req1Subslot
      else if x = 1 then Some Req1Slot
      else if x = 2 then Some Req2Slots
      else if x = 3 then Some Req3Slots
      else if x = 4 then Some Req4Slots
      else if x = 5 then Some Req5Slots
      else if x = 6 then Some Req6Slots
      else if x = 7 then Some Req8Slots
      else if x = 8 then Some Req10Slots
      else if x = 9 then Some Req13Slots
      else if x = 10 then Some Req17Slots
      else if x = 11 then Some Req24Slots
      else if x = 12 then Some Req34Slots
      else if x = 13 then Some Req51Slots
      else if x = 14 then Some Req68Slots
      else if x = 15 then Some ReqOver68
      else None)"

fun res_req_into_raw :: "reservation_requirement \<Rightarrow> u64" where
  "res_req_into_raw Req1Subslot = 0"
| "res_req_into_raw Req1Slot = 1"
| "res_req_into_raw Req2Slots = 2"
| "res_req_into_raw Req3Slots = 3"
| "res_req_into_raw Req4Slots = 4"
| "res_req_into_raw Req5Slots = 5"
| "res_req_into_raw Req6Slots = 6"
| "res_req_into_raw Req8Slots = 7"
| "res_req_into_raw Req10Slots = 8"
| "res_req_into_raw Req13Slots = 9"
| "res_req_into_raw Req17Slots = 10"
| "res_req_into_raw Req24Slots = 11"
| "res_req_into_raw Req34Slots = 12"
| "res_req_into_raw Req51Slots = 13"
| "res_req_into_raw Req68Slots = 14"
| "res_req_into_raw ReqOver68 = 15"

definition res_req_from_req_slotcount :: "nat \<Rightarrow> reservation_requirement" where
  "res_req_from_req_slotcount req =
     (if req \<le> 0 then Req1Subslot
      else if req \<le> 1 then Req1Slot
      else if req \<le> 2 then Req2Slots
      else if req \<le> 3 then Req3Slots
      else if req \<le> 4 then Req4Slots
      else if req \<le> 5 then Req5Slots
      else if req \<le> 6 then Req6Slots
      else if req \<le> 8 then Req8Slots
      else if req \<le> 10 then Req10Slots
      else if req \<le> 13 then Req13Slots
      else if req \<le> 17 then Req17Slots
      else if req \<le> 24 then Req24Slots
      else if req \<le> 34 then Req34Slots
      else if req \<le> 51 then Req51Slots
      else if req \<le> 68 then Req68Slots
      else ReqOver68)"

fun res_req_to_req_slotcount :: "reservation_requirement \<Rightarrow> nat" where
  "res_req_to_req_slotcount Req1Subslot = 0"
| "res_req_to_req_slotcount Req1Slot = 1"
| "res_req_to_req_slotcount Req2Slots = 2"
| "res_req_to_req_slotcount Req3Slots = 3"
| "res_req_to_req_slotcount Req4Slots = 4"
| "res_req_to_req_slotcount Req5Slots = 5"
| "res_req_to_req_slotcount Req6Slots = 6"
| "res_req_to_req_slotcount Req8Slots = 8"
| "res_req_to_req_slotcount Req10Slots = 10"
| "res_req_to_req_slotcount Req13Slots = 13"
| "res_req_to_req_slotcount Req17Slots = 17"
| "res_req_to_req_slotcount Req24Slots = 24"
| "res_req_to_req_slotcount Req34Slots = 34"
| "res_req_to_req_slotcount Req51Slots = 51"
| "res_req_to_req_slotcount Req68Slots = 68"
| "res_req_to_req_slotcount ReqOver68 = 68"

section \<open>Addresses of the uplink\<close>

text \<open>MAC-ACCESS and MAC-DATA read, check and write their address in the same way; the names of the
  fields and the messages differ.\<close>

fun ssi_type_raw :: "ssi_type \<Rightarrow> u64" where
  "ssi_type_raw UnknownSsi = 0"
| "ssi_type_raw Ssi = 1"
| "ssi_type_raw Issi = 2"
| "ssi_type_raw Gssi = 3"
| "ssi_type_raw Ussi = 4"
| "ssi_type_raw Smi = 5"
| "ssi_type_raw Esi = 6"
| "ssi_type_raw EventLabelSsi = 7"

definition read_ul_addr :: "string \<Rightarrow> string \<Rightarrow> string \<Rightarrow> (tetra_address option \<times> u16 option) bbm" where
  "read_ul_addr ssi_name ussi_name smi_name =
     bindM (read_as 2 ''addr_type'') (\<lambda>addr_type :: u8.
     if addr_type = 0 then bindM (read_addr ssi_name Issi) (\<lambda>a. retM (Some a, None))
     else if addr_type = 1
     then bindM (read_as 10 ''event_label'') (\<lambda>l.
       if l = 0 \<or> l = 0x3ff then errM (InvalidValue ''event_label'' (ucast l)) else retM (None, Some l))
     else if addr_type = 2 then bindM (read_addr ussi_name Ussi) (\<lambda>a. retM (Some a, None))
     else if addr_type = 3 then bindM (read_addr smi_name Smi) (\<lambda>a. retM (Some a, None))
     else errM (InvalidValue ''addr_type'' (ucast addr_type)))"

definition validate_ul_addr ::
  "string \<Rightarrow> string \<Rightarrow> bool \<Rightarrow> tetra_address option \<Rightarrow> u16 option \<Rightarrow> (pdu_parse_err + 'a) \<Rightarrow> (pdu_parse_err + 'a)" where
  "validate_ul_addr reason encrypted_name enc a label k =
     (case (a, label) of
        (Some _, Some _) \<Rightarrow> Inl (Inconsistency ''addr/event_label'' reason)
      | (None, None) \<Rightarrow> Inl (FieldNotPresent (Some ''addr_or_event_label''))
      | (Some a, None) \<Rightarrow>
          check (ssi a > 0xffffff) (InvalidValue ''ssi'' (ucast (ssi a)))
         (check (ssi_type a = Esi) (NotImplemented (Some encrypted_name))
         (check (ssi_type a = UnknownSsi \<or> ssi_type a = EventLabelSsi) (InvalidValue ''ssi_type'' (ssi_type_raw (ssi_type a)))
         (check enc (NotImplemented (Some encrypted_name)) k)))
      | (None, Some l) \<Rightarrow>
          check (l = 0 \<or> l = 0x3ff \<or> l > 0x3ff) (InvalidValue ''event_label'' (ucast l)) k)"

definition write_ul_addr :: "string \<Rightarrow> tetra_address option \<Rightarrow> u16 option \<Rightarrow> unit bbm" where
  "write_ul_addr encrypted_name a label =
     (case a of
        Some a \<Rightarrow>
          (if ssi_type a = Ssi \<or> ssi_type a = Issi \<or> ssi_type a = Gssi then thenM (write_bits 0 2) (write_as (ssi a) 24)
           else if ssi_type a = Ussi then thenM (write_bits 2 2) (write_as (ssi a) 24)
           else if ssi_type a = Smi then thenM (write_bits 3 2) (write_as (ssi a) 24)
           else if ssi_type a = Esi then errM (NotImplemented (Some encrypted_name))
           else errM (InvalidValue ''ssi_type'' (ssi_type_raw (ssi_type a))))
      | None \<Rightarrow> (case label of Some l \<Rightarrow> thenM (write_bits 1 2) (write_as l 10) | None \<Rightarrow> retM ()))"

section \<open>MAC-ACCESS\<close>

record mac_access =
  acc_fill_bits :: bool
  acc_encrypted :: bool
  acc_addr :: "tetra_address option"
  acc_event_label :: "u16 option"
  acc_length_ind :: "u8 option"
  acc_frag_flag :: "bool option"
  acc_reservation_req :: "reservation_requirement option"

definition access_read_optional :: "(u8 option \<times> bool option \<times> reservation_requirement option) bbm" where
  "access_read_optional =
     bindM (read_flag ''optional_field_flag'') (\<lambda>opt.
     if opt
     then bindM (read_field 1 ''length_ind_or_cap_req'') (\<lambda>c.
          if c = 0 then bindM (read_as 5 ''length_ind'') (\<lambda>len. retM (Some len, None, None))
          else bindM (read_flag ''frag_flag'') (\<lambda>frag.
               bindM (read_enum 4 ''reservation_req'' res_req_try_from) (\<lambda>req. retM (None, Some frag, Some req))))
     else retM (None, None, None))"

definition access_from_bitbuf :: "mac_access bbm" where
  "access_from_bitbuf =
     thenM (expect_value 1 ''mac_pdu_type'' 0)
    (bindM (read_flag ''fill_bits'') (\<lambda>fill.
     bindM (read_flag ''encrypted'') (\<lambda>enc.
     bindM (read_ul_addr ''ssi'' ''ussi'' ''smi'') (\<lambda>(a, l).
     bindM access_read_optional (\<lambda>(len, frag, req).
     retM \<lparr>acc_fill_bits = fill, acc_encrypted = enc, acc_addr = a, acc_event_label = l, acc_length_ind = len,
       acc_frag_flag = frag, acc_reservation_req = req\<rparr>)))))"

definition access_validate :: "mac_access \<Rightarrow> pdu_parse_err + unit" where
  "access_validate m =
     validate_ul_addr ''MAC-ACCESS shall contain one address field selected by address type'' ''encrypted_mac_access_address''
       (acc_encrypted m) (acc_addr m) (acc_event_label m)
    (check (some_exceeds (acc_length_ind m) 0x1f) (InvalidValue ''length_ind'' (some_value (acc_length_ind m)))
    (check (acc_length_ind m \<noteq> None \<and> (acc_frag_flag m \<noteq> None \<or> acc_reservation_req m \<noteq> None))
      (Inconsistency ''length_ind_or_capacity_request'' ''MAC-ACCESS may contain length indication or capacity request, not both'')
    (check ((acc_frag_flag m \<noteq> None) \<noteq> (acc_reservation_req m \<noteq> None))
      (Inconsistency ''capacity_request'' ''capacity request requires fragmentation flag and reservation requirement'')
    (Inr ()))))"

definition access_write_optional :: "mac_access \<Rightarrow> unit bbm" where
  "access_write_optional m =
     (if acc_length_ind m \<noteq> None \<or> acc_frag_flag m \<noteq> None \<or> acc_reservation_req m \<noteq> None
      then thenM (write_bits 1 1)
        (case (acc_length_ind m, acc_frag_flag m, acc_reservation_req m) of
           (Some len, _, _) \<Rightarrow> thenM (write_bits 0 1) (write_as len 5)
         | (None, Some frag, Some req) \<Rightarrow>
             thenM (write_bits 1 1) (thenM (write_flag frag) (write_bits (res_req_into_raw req) 4))
         | _ \<Rightarrow> errM (Inconsistency ''capacity_request'' ''capacity request requires fragmentation flag and reservation requirement''))
      else write_bits 0 1)"

definition access_try_to_bitbuf :: "mac_access \<Rightarrow> unit bbm" where
  "access_try_to_bitbuf m =
     (case access_validate m of
        Inl e \<Rightarrow> errM e
      | Inr _ \<Rightarrow>
          thenM (write_bits 0 1)
         (thenM (write_flag (acc_fill_bits m))
         (thenM (write_flag (acc_encrypted m))
         (thenM (write_ul_addr ''encrypted_mac_access_address'' (acc_addr m) (acc_event_label m))
                (access_write_optional m)))))"

definition access_to_bitbuf :: "mac_access \<Rightarrow> unit bbm" where
  "access_to_bitbuf m = swallow (access_try_to_bitbuf m)"

definition access_is_null_pdu :: "mac_access \<Rightarrow> bool" where
  "access_is_null_pdu m \<longleftrightarrow> (case acc_length_ind m of Some l \<Rightarrow> l | None \<Rightarrow> 1) = 0"

definition access_is_frag_start :: "mac_access \<Rightarrow> bool" where
  "access_is_frag_start m \<longleftrightarrow> acc_frag_flag m = Some True"

section \<open>MAC-DATA\<close>

record mac_data =
  dat_fill_bits :: bool
  dat_encrypted :: bool
  dat_addr :: "tetra_address option"
  dat_event_label :: "u16 option"
  dat_length_ind :: "u8 option"
  dat_frag_flag :: "bool option"
  dat_reservation_req :: "reservation_requirement option"

text \<open>The reserved bit is read with \<open>read_bits(1)\<close>, whose result is ignored.\<close>

definition data_read_length :: "(u8 option \<times> bool option \<times> reservation_requirement option) bbm" where
  "data_read_length =
     bindM (read_field 1 ''length_ind_or_cap_req'') (\<lambda>c.
     if c = 0 then bindM (read_as 6 ''length_ind'') (\<lambda>len. retM (Some len, None, None))
     else if c = 1
     then bindM (read_flag ''frag_flag'') (\<lambda>frag.
          bindM (read_enum 4 ''reservation_requirement'' res_req_try_from) (\<lambda>req.
          bindM (read_bits 1) (\<lambda>_. retM (None, Some frag, Some req))))
     else errM (InvalidValue ''length_ind_or_cap_req'' c))"

definition data_from_bitbuf :: "mac_data bbm" where
  "data_from_bitbuf =
     thenM (expect_value 2 ''mac_pdu_type'' 0)
    (bindM (read_flag ''fill_bits'') (\<lambda>fill.
     bindM (read_flag ''encrypted'') (\<lambda>enc.
     bindM (read_ul_addr ''ssi'' ''ssi'' ''ssi'') (\<lambda>(a, l).
     bindM data_read_length (\<lambda>(len, frag, req).
     retM \<lparr>dat_fill_bits = fill, dat_encrypted = enc, dat_addr = a, dat_event_label = l, dat_length_ind = len,
       dat_frag_flag = frag, dat_reservation_req = req\<rparr>)))))"

definition data_validate :: "mac_data \<Rightarrow> pdu_parse_err + unit" where
  "data_validate m =
     validate_ul_addr ''MAC-DATA shall contain one address field selected by address type'' ''encrypted_mac_data_address''
       (dat_encrypted m) (dat_addr m) (dat_event_label m)
    (check (some_exceeds (dat_length_ind m) 0x3f) (InvalidValue ''length_ind'' (some_value (dat_length_ind m)))
    (check (dat_length_ind m \<noteq> None \<and> (dat_frag_flag m \<noteq> None \<or> dat_reservation_req m \<noteq> None))
      (Inconsistency ''length_ind_or_capacity_request'' ''MAC-DATA may contain length indication or capacity request, not both'')
    (check (dat_length_ind m = None \<and> \<not> (dat_frag_flag m \<noteq> None \<and> dat_reservation_req m \<noteq> None))
      (Inconsistency ''capacity_request'' ''MAC-DATA requires either length indication or a complete capacity request'')
    (Inr ()))))"

definition data_write_length :: "mac_data \<Rightarrow> unit bbm" where
  "data_write_length m =
     (case (dat_length_ind m, dat_frag_flag m, dat_reservation_req m) of
        (Some len, _, _) \<Rightarrow> thenM (write_bits 0 1) (write_as len 6)
      | (None, Some frag, Some req) \<Rightarrow>
          thenM (write_bits 1 1) (thenM (write_flag frag) (thenM (write_bits (res_req_into_raw req) 4) (write_bits 0 1)))
      | _ \<Rightarrow> errM (Inconsistency ''capacity_request'' ''MAC-DATA requires either length indication or a complete capacity request''))"

definition data_try_to_bitbuf :: "mac_data \<Rightarrow> unit bbm" where
  "data_try_to_bitbuf m =
     (case data_validate m of
        Inl e \<Rightarrow> errM e
      | Inr _ \<Rightarrow>
          thenM (write_bits 0 2)
         (thenM (write_flag (dat_fill_bits m))
         (thenM (write_flag (dat_encrypted m))
         (thenM (write_ul_addr ''encrypted_mac_data_address'' (dat_addr m) (dat_event_label m))
                (data_write_length m)))))"

definition data_to_bitbuf :: "mac_data \<Rightarrow> unit bbm" where
  "data_to_bitbuf m = swallow (data_try_to_bitbuf m)"

section \<open>MAC-FRAG and MAC-END\<close>

record mac_frag_ul =
  frag_ul_fill_bits :: bool

definition frag_ul_from_bitbuf :: "mac_frag_ul bbm" where
  "frag_ul_from_bitbuf =
     thenM (expect_value 2 ''mac_pdu_type'' 1)
    (thenM (expect_value 1 ''pdu_subtype'' 0)
    (bindM (read_flag ''fill_bits'') (\<lambda>fill. retM \<lparr>frag_ul_fill_bits = fill\<rparr>)))"

definition frag_ul_to_bitbuf :: "mac_frag_ul \<Rightarrow> unit bbm" where
  "frag_ul_to_bitbuf f = thenM (write_bits 1 2) (thenM (write_bits 0 1) (write_flag (frag_ul_fill_bits f)))"

record mac_end_ul =
  end_ul_fill_bits :: bool
  end_ul_length_ind :: "u8 option"
  end_ul_reservation_req :: "reservation_requirement option"

definition end_ul_decode :: "u64 \<Rightarrow> (u8 option \<times> reservation_requirement option) bbm" where
  "end_ul_decode v =
     (if v = 0 then errM (InvalidValue ''length_ind_cap_req'' v)
      else if v \<le> 46 then retM (Some (ucast v), None)
      else if v < 48 then errM (InvalidValue ''length_ind_cap_req'' v)
      else (case res_req_try_from (v AND 15) of
          Some req \<Rightarrow> retM (None, Some req)
        | None \<Rightarrow> errM (InvalidValue ''reservation_req'' (v AND 15))))"

definition end_ul_from_bitbuf :: "mac_end_ul bbm" where
  "end_ul_from_bitbuf =
     thenM (expect_value 2 ''mac_pdu_type'' 1)
    (thenM (expect_value 1 ''pdu_subtype'' 1)
    (bindM (read_flag ''fill_bits'') (\<lambda>fill.
     bindM (bindM (read_field 6 ''length_ind_cap_req'') end_ul_decode) (\<lambda>(len, req).
     retM \<lparr>end_ul_fill_bits = fill, end_ul_length_ind = len, end_ul_reservation_req = req\<rparr>))))"

definition one_of :: "string \<Rightarrow> 'b option \<Rightarrow> 'c option \<Rightarrow> (pdu_parse_err + 'a) \<Rightarrow> (pdu_parse_err + 'a)" where
  "one_of reason x y k =
     (if x \<noteq> None \<and> y \<noteq> None then Inl (Inconsistency ''length_ind/reservation_req'' reason)
      else if x = None \<and> y = None then Inl (FieldNotPresent (Some ''length_ind_or_reservation_req'')) else k)"

definition end_ul_to_bitbuf :: "mac_end_ul \<Rightarrow> unit bbm" where
  "end_ul_to_bitbuf e =
     (case one_of ''MAC-END uplink shall contain one length indication or reservation requirement''
        (end_ul_length_ind e) (end_ul_reservation_req e)
       (check (end_ul_length_ind e = Some 0 \<or> some_exceeds (end_ul_length_ind e) 46)
         (InvalidValue ''length_ind'' (some_value (end_ul_length_ind e))) (Inr ())) of
        Inl e \<Rightarrow> errM e
      | Inr _ \<Rightarrow>
          thenM (write_bits 1 2)
         (thenM (write_bits 1 1)
         (thenM (write_flag (end_ul_fill_bits e))
         (case (end_ul_length_ind e, end_ul_reservation_req e) of
            (Some len, _) \<Rightarrow> write_as len 6
          | (None, Some req) \<Rightarrow> thenM (write_bits 3 2) (write_bits (res_req_into_raw req) 4)
          | (None, None) \<Rightarrow> retM ()))))"

record mac_end_hu =
  end_hu_fill_bits :: bool
  end_hu_length_ind :: "u8 option"
  end_hu_reservation_req :: "reservation_requirement option"

definition end_hu_read_length :: "(u8 option \<times> reservation_requirement option) bbm" where
  "end_hu_read_length =
     bindM (read_field 1 ''length_ind_or_cap_req'') (\<lambda>c.
     if c = 0
     then bindM (read_as 4 ''length_ind'') (\<lambda>len.
       if len = 0 then errM (InvalidValue ''length_ind'' (ucast len)) else retM (Some len, None))
     else bindM (read_enum 4 ''reservation_req'' res_req_try_from) (\<lambda>req. retM (None, Some req)))"

definition end_hu_from_bitbuf :: "mac_end_hu bbm" where
  "end_hu_from_bitbuf =
     thenM (expect_value 1 ''mac_pdu_type'' 1)
    (bindM (read_flag ''fill_bits'') (\<lambda>fill.
     bindM end_hu_read_length (\<lambda>(len, req).
     retM \<lparr>end_hu_fill_bits = fill, end_hu_length_ind = len, end_hu_reservation_req = req\<rparr>)))"

definition end_hu_try_to_bitbuf :: "mac_end_hu \<Rightarrow> unit bbm" where
  "end_hu_try_to_bitbuf e =
     (case one_of ''MAC-END-HU shall contain only one of length indication or reservation requirement''
        (end_hu_length_ind e) (end_hu_reservation_req e)
       (check (end_hu_length_ind e = Some 0 \<or> some_exceeds (end_hu_length_ind e) 15)
         (InvalidValue ''length_ind'' (some_value (end_hu_length_ind e))) (Inr ())) of
        Inl e \<Rightarrow> errM e
      | Inr _ \<Rightarrow>
          thenM (write_bits 1 1)
         (thenM (write_flag (end_hu_fill_bits e))
         (case (end_hu_length_ind e, end_hu_reservation_req e) of
            (Some len, _) \<Rightarrow> thenM (write_bits 0 1) (write_as len 4)
          | (None, Some req) \<Rightarrow> thenM (write_bits 1 1) (write_bits (res_req_into_raw req) 4)
          | (None, None) \<Rightarrow> retM ())))"

definition end_hu_to_bitbuf :: "mac_end_hu \<Rightarrow> unit bbm" where
  "end_hu_to_bitbuf e = swallow (end_hu_try_to_bitbuf e)"

section \<open>Supplementary PDUs\<close>

record mac_u_blck =
  ublck_fill_bits :: bool
  ublck_encrypted :: bool
  ublck_event_label :: u16
  ublck_reservation_req :: u8

definition ublck_from_bitbuf :: "mac_u_blck bbm" where
  "ublck_from_bitbuf =
     thenM (expect_value 2 ''mac_pdu_type'' 3)
    (thenM (expect_value 1 ''supp_pdu_subtype'' 0)
    (bindM (read_flag ''fill_bits'') (\<lambda>fill.
     bindM (read_flag ''encrypted'') (\<lambda>enc.
     bindM (read_as 10 ''event_label'') (\<lambda>l.
     bindM (read_as 4 ''reservation_req'') (\<lambda>req.
     retM \<lparr>ublck_fill_bits = fill, ublck_encrypted = enc, ublck_event_label = l, ublck_reservation_req = req\<rparr>))))))"

definition ublck_try_to_bitbuf :: "mac_u_blck \<Rightarrow> unit bbm" where
  "ublck_try_to_bitbuf m =
     (if ublck_event_label m > 0x3ff then errM (InvalidValue ''event_label'' (ucast (ublck_event_label m)))
      else if ublck_reservation_req m > 0xf then errM (InvalidValue ''reservation_req'' (ucast (ublck_reservation_req m)))
      else
        thenM (write_bits 3 2)
       (thenM (write_bits 0 1)
       (thenM (write_flag (ublck_fill_bits m))
       (thenM (write_flag (ublck_encrypted m))
       (thenM (write_as (ublck_event_label m) 10)
              (write_as (ublck_reservation_req m) 4))))))"

definition ublck_to_bitbuf :: "mac_u_blck \<Rightarrow> unit bbm" where
  "ublck_to_bitbuf m = swallow (ublck_try_to_bitbuf m)"

definition ublck_reservation_requirement :: "mac_u_blck \<Rightarrow> reservation_requirement option" where
  "ublck_reservation_requirement m =
     (let r = ublck_reservation_req m in
      if r \<le> 13 then res_req_try_from (ucast r) else if r = 14 then Some ReqOver68 else None)"

record mac_u_signal =
  second_half_stolen :: bool

definition usignal_from_bitbuf :: "mac_u_signal bbm" where
  "usignal_from_bitbuf =
     thenM (expect_value 2 ''mac_pdu_type'' 3)
    (bindM (read_flag ''second_half_stolen'') (\<lambda>s. retM \<lparr>second_half_stolen = s\<rparr>))"

definition usignal_to_bitbuf :: "mac_u_signal \<Rightarrow> unit bbm" where
  "usignal_to_bitbuf m = thenM (write_bits 3 2) (write_flag (second_half_stolen m))"

record mac_d_blck =
  dblck_fill_bits :: bool
  dblck_encryption_mode :: u8
  dblck_event_label :: u16
  imm_napping_permission :: bool
  dblck_slot_granting :: "basic_slotgrant option"

definition dblck_from_bitbuf :: "mac_d_blck bbm" where
  "dblck_from_bitbuf =
     thenM (expect_value 2 ''mac_pdu_type'' 3)
    (thenM (expect_value 1 ''pdu_subtype'' 0)
    (bindM (read_flag ''fill_bits'') (\<lambda>fill.
     bindM (read_as 2 ''encryption_mode'') (\<lambda>enc.
     bindM (read_as 10 ''event_label'') (\<lambda>l.
     bindM (read_flag ''imm_napping_permission'') (\<lambda>nap.
     bindM (read_opt ''slot_granting_flag'' slotgrant_from_bitbuf) (\<lambda>sg.
     retM \<lparr>dblck_fill_bits = fill, dblck_encryption_mode = enc, dblck_event_label = l, imm_napping_permission = nap,
       dblck_slot_granting = sg\<rparr>)))))))"

definition dblck_try_to_bitbuf :: "mac_d_blck \<Rightarrow> unit bbm" where
  "dblck_try_to_bitbuf m =
     (if dblck_encryption_mode m > 3 then errM (InvalidValue ''encryption_mode'' (ucast (dblck_encryption_mode m)))
      else if dblck_event_label m > 0x3ff then errM (InvalidValue ''event_label'' (ucast (dblck_event_label m)))
      else
        thenM (write_bits 3 2)
       (thenM (write_bits 0 1)
       (thenM (write_flag (dblck_fill_bits m))
       (thenM (write_as (dblck_encryption_mode m) 2)
       (thenM (write_as (dblck_event_label m) 10)
       (thenM (write_flag (imm_napping_permission m))
              (write_opt slotgrant_to_bitbuf (dblck_slot_granting m))))))))"

definition dblck_to_bitbuf :: "mac_d_blck \<Rightarrow> unit bbm" where
  "dblck_to_bitbuf m = swallow (dblck_try_to_bitbuf m)"

section \<open>The PDUs are codecs\<close>

lemma res_req_raw: "res_req_try_from (res_req_into_raw e) = Some e" "unat (res_req_into_raw e) < 16"
  by (cases e; simp add: res_req_try_from_def)+

interpretation res_req: raw_enum res_req_try_from res_req_into_raw "\<lambda>_. True" 4
  by unfold_locales (simp_all add: res_req_raw)

text \<open>A request for up to 68 slots is encoded by a requirement of at least that many.\<close>

lemma from_req_slotcount_enough:
  "req \<le> 68 \<Longrightarrow> req \<le> res_req_to_req_slotcount (res_req_from_req_slotcount req)"
  by (simp add: res_req_from_req_slotcount_def)

definition ul_addr_norm :: "tetra_address \<Rightarrow> tetra_address" where
  "ul_addr_norm a = (if ssi_type a = Ssi \<or> ssi_type a = Gssi then a\<lparr>ssi_type := Issi\<rparr> else a)"

definition ul_addr_ok :: "bool \<Rightarrow> tetra_address option \<Rightarrow> u16 option \<Rightarrow> bool" where
  "ul_addr_ok enc a l \<longleftrightarrow>
     (case (a, l) of
        (Some a, None) \<Rightarrow> fits 24 (ssi a) \<and> ssi_type a \<in> {Ssi, Issi, Gssi, Ussi, Smi} \<and> \<not> enc
      | (None, Some l) \<Rightarrow> l \<noteq> 0 \<and> l < 0x3ff
      | _ \<Rightarrow> False)"

definition ul_addr_bits :: "tetra_address option \<Rightarrow> u16 option \<Rightarrow> bool list" where
  "ul_addr_bits a l =
     (case a of
        Some a \<Rightarrow> msb_bits 2 (if ssi_type a = Ussi then 2 else if ssi_type a = Smi then 3 else 0 :: u64) @ word_bits 24 (ssi a)
      | None \<Rightarrow> msb_bits 2 (1 :: u64) @ word_bits 10 (the l))"

lemma validate_ul_addr_eq:
  assumes "ul_addr_ok enc a l"
  shows "validate_ul_addr r n enc a l k = k"
proof -
  have "\<not> 0xffffff < ssi x" if "fits 24 (ssi x)" for x using that by (simp add: fits_def word_less_nat_alt)
  then show ?thesis
    using assms by (auto simp: ul_addr_ok_def validate_ul_addr_def check_def word_less_nat_alt word_le_nat_alt split: option.splits)
qed

lemma parses_header_append:
  "fits 2 (c :: u8) \<Longrightarrow> ucast c = (d :: u64) \<Longrightarrow> parses (f c) xs v \<Longrightarrow> parses (bindM (read_as 2 s) f) (msb_bits 2 d @ xs) v"
  using parses_header [of c d f "[xs]" v s] by simp

lemma ul_addr_codec:
  assumes "ul_addr_ok enc a l"
  shows "emits (write_ul_addr n a l) (ul_addr_bits a l)"
    and "parses (read_ul_addr n1 n2 n3) (ul_addr_bits a l) (map_option ul_addr_norm a, l)"
proof -
  have "emits (write_ul_addr n a l) (ul_addr_bits a l)
      \<and> parses (read_ul_addr n1 n2 n3) (ul_addr_bits a l) (map_option ul_addr_norm a, l)"
  proof (cases a)
    case None
    then obtain e where e: "l = Some e" "e \<noteq> 0" "e < 0x3ff" using assms by (auto simp: ul_addr_ok_def split: option.splits)
    have f: "fits 10 e" using e(3) by (simp add: fits_def word_less_nat_alt)
    have "emits (thenM (write_bits 1 2) (write_as e 10)) (msb_bits 2 (1 :: u64) @ word_bits 10 e)"
      using f by (intro emits_then emits_const emits_as) simp_all
    moreover have "parses (read_ul_addr n1 n2 n3) (msb_bits 2 (1 :: u64) @ word_bits 10 e) (None, Some e)"
      unfolding read_ul_addr_def using f e
      by (intro parses_header_append [where c = 1]) (auto simp: fits_def intro!: parses_bind_end [OF parses_as] parses_ret)
    ultimately show ?thesis using None e by (simp add: write_ul_addr_def ul_addr_bits_def)
  next
    case (Some x)
    then have x: "l = None" "fits 24 (ssi x)" "ssi_type x \<in> {Ssi, Issi, Gssi, Ussi, Smi}"
      using assms by (auto simp: ul_addr_ok_def split: option.splits)
    have w: "emits (thenM (write_bits c 2) (write_as (ssi x) 24)) (msb_bits 2 c @ word_bits 24 (ssi x))" if "unat c < 4" for c
      using x(2) that by (intro emits_then emits_const emits_as) simp_all
    have p: "parses (bindM (read_addr s t) (\<lambda>a. retM (Some a, None))) (word_bits 24 (ssi x)) (Some \<lparr>ssi = ssi x, ssi_type = t\<rparr>, None)" for s t
      using x(2) by (intro parses_map parses_addr)
    have "parses (read_ul_addr n1 n2 n3) (msb_bits 2 (0 :: u64) @ word_bits 24 (ssi x)) (Some \<lparr>ssi = ssi x, ssi_type = Issi\<rparr>, None)"
      "parses (read_ul_addr n1 n2 n3) (msb_bits 2 (2 :: u64) @ word_bits 24 (ssi x)) (Some \<lparr>ssi = ssi x, ssi_type = Ussi\<rparr>, None)"
      "parses (read_ul_addr n1 n2 n3) (msb_bits 2 (3 :: u64) @ word_bits 24 (ssi x)) (Some \<lparr>ssi = ssi x, ssi_type = Smi\<rparr>, None)"
      unfolding read_ul_addr_def
      by (rule parses_header_append [where c = 0] parses_header_append [where c = 2] parses_header_append [where c = 3]; simp add: fits_def p)+
    then show ?thesis using Some x w [of 0] w [of 2] w [of 3]
      by (cases x) (auto simp: write_ul_addr_def ul_addr_bits_def ul_addr_norm_def)
  qed
  then show "emits (write_ul_addr n a l) (ul_addr_bits a l)"
    and "parses (read_ul_addr n1 n2 n3) (ul_addr_bits a l) (map_option ul_addr_norm a, l)" by simp_all
qed

text \<open>The length indication or the capacity request.\<close>

definition cap_req_bits :: "bool \<Rightarrow> reservation_requirement \<Rightarrow> bool list" where
  "cap_req_bits frag req = concat [[frag], msb_bits 4 (res_req_into_raw req)]"

definition access_valid :: "mac_access \<Rightarrow> bool" where
  "access_valid m \<longleftrightarrow> ul_addr_ok (acc_encrypted m) (acc_addr m) (acc_event_label m) \<and>
     (case (acc_length_ind m, acc_frag_flag m, acc_reservation_req m) of
        (Some len, None, None) \<Rightarrow> fits 5 len
      | (None, Some _, Some _) \<Rightarrow> True
      | (None, None, None) \<Rightarrow> True
      | _ \<Rightarrow> False)"

definition access_opt_bits :: "mac_access \<Rightarrow> bool list" where
  "access_opt_bits m =
     (case (acc_length_ind m, acc_frag_flag m, acc_reservation_req m) of
        (Some len, _, _) \<Rightarrow> True # False # word_bits 5 len
      | (None, Some frag, Some req) \<Rightarrow> True # True # cap_req_bits frag req
      | _ \<Rightarrow> [False])"

definition access_bits :: "mac_access \<Rightarrow> bool list" where
  "access_bits m = concat
     [[False], [acc_fill_bits m], [acc_encrypted m], ul_addr_bits (acc_addr m) (acc_event_label m), access_opt_bits m]"

definition access_norm :: "mac_access \<Rightarrow> mac_access" where
  "access_norm m = m\<lparr>acc_addr := map_option ul_addr_norm (acc_addr m)\<rparr>"

lemma flag_bit: "emits (write_bits 0 1) [False]" "emits (write_bits 1 1) [True]"
  by (rule emits_const_bit)+

lemma cap_req_codec:
  "emits (thenM (write_flag frag) (write_bits (res_req_into_raw req) 4)) (cap_req_bits frag req)"
  "parses (bindM (read_flag s) (\<lambda>frag. bindM (read_enum 4 t res_req_try_from) (\<lambda>req. retM (None, Some frag, Some req))))
    (cap_req_bits frag req) (None, Some frag, Some req)"
  unfolding cap_req_bits_def
  by (intro emits_seg emits_done emits_flag res_req.emits_enum TrueI)
    (intro parses_seg [OF parses_flag] res_req.parses_seg_enum parses_done refl TrueI)

lemma not_exceeds: "opt_all (fits n) x \<Longrightarrow> unat m + 1 = 2 ^ n \<Longrightarrow> \<not> some_exceeds x m"
  by (auto simp: some_exceeds_def opt_all_def fits_def word_less_nat_alt split: option.splits)

lemma access_opt_codec:
  assumes "access_valid m"
  shows "emits (access_write_optional m) (access_opt_bits m)"
    and "parses access_read_optional (access_opt_bits m) (acc_length_ind m, acc_frag_flag m, acc_reservation_req m)"
    and "access_validate m = Inr ()"
proof -
  have av: "access_validate m = Inr ()" if "opt_all (fits 5) (acc_length_ind m)"
    "acc_length_ind m \<noteq> None \<longrightarrow> acc_frag_flag m = None \<and> acc_reservation_req m = None"
    "acc_frag_flag m = None \<longleftrightarrow> acc_reservation_req m = None"
    using assms not_exceeds [OF that(1), of 31] that
    by (auto simp: access_validate_def access_valid_def validate_ul_addr_eq check_def)
  consider (len) len where "acc_length_ind m = Some len" "acc_frag_flag m = None" "acc_reservation_req m = None" "fits 5 len"
  | (cap) frag req where "acc_length_ind m = None" "acc_frag_flag m = Some frag" "acc_reservation_req m = Some req"
  | (none) "acc_length_ind m = None" "acc_frag_flag m = None" "acc_reservation_req m = None"
    using assms by (auto simp: access_valid_def split: option.splits)
  then have "emits (access_write_optional m) (access_opt_bits m)
    \<and> parses access_read_optional (access_opt_bits m) (acc_length_ind m, acc_frag_flag m, acc_reservation_req m)
    \<and> access_validate m = Inr ()"
  proof cases
    case len
    have "parses access_read_optional (True # False # word_bits 5 len) (Some len, None, None)"
      unfolding access_read_optional_def
      by (rule parses_bind_Cons [OF parses_flag], subst if_P [OF TrueI], rule parses_bind_Cons [OF parses_field_bit])
        (use len(4) in \<open>auto intro!: parses_map parses_as\<close>)
    moreover have "emits (thenM (write_bits 1 1) (thenM (write_bits 0 1) (write_as len 5))) (True # False # word_bits 5 len)"
      using len(4) by (intro emits_then_Cons flag_bit emits_as) simp_all
    ultimately show ?thesis using len av by (simp add: access_opt_bits_def access_write_optional_def)
  next
    case cap
    have "parses access_read_optional (True # True # cap_req_bits frag req) (None, Some frag, Some req)"
      unfolding access_read_optional_def
      by (rule parses_bind_Cons [OF parses_flag], subst if_P [OF TrueI], rule parses_bind_Cons [OF parses_field_bit])
        (simp add: cap_req_codec)
    moreover have "emits (thenM (write_bits 1 1) (thenM (write_bits 1 1) (thenM (write_flag frag) (write_bits (res_req_into_raw req) 4))))
        (True # True # cap_req_bits frag req)"
      by (intro emits_then_Cons flag_bit cap_req_codec)
    ultimately show ?thesis using cap av by (simp add: access_opt_bits_def access_write_optional_def)
  next
    case none
    have "parses access_read_optional [False] (None, None, None)"
      unfolding access_read_optional_def by (rule parses_bind_end [OF parses_flag]) (simp add: parses_ret)
    then show ?thesis using none av flag_bit by (simp add: access_opt_bits_def access_write_optional_def)
  qed
  then show "emits (access_write_optional m) (access_opt_bits m)"
    and "parses access_read_optional (access_opt_bits m) (acc_length_ind m, acc_frag_flag m, acc_reservation_req m)"
    and "access_validate m = Inr ()" by simp_all
qed

lemma parses_seg_expect_bit:
  "parses (f ()) (concat xs) v \<Longrightarrow> parses (bindM (expect_value 1 s 0) f) (concat ([False] # xs)) v"
  "parses (f ()) (concat xs) v \<Longrightarrow> parses (bindM (expect_value 1 s 1) f) (concat ([True] # xs)) v"
  using parses_seg [OF parses_expect [of 1 0 s]] parses_seg [OF parses_expect [of 1 1 s]] by (simp_all add: msb_bits_Suc)

interpretation mac_access: pdu_codec access_to_bitbuf access_from_bitbuf access_valid access_bits access_norm
proof
  fix m assume v: "access_valid m"
  then have a: "ul_addr_ok (acc_encrypted m) (acc_addr m) (acc_event_label m)" by (simp add: access_valid_def)
  note o = access_opt_codec [OF v] and ac = ul_addr_codec [OF a]
  have "emits (access_try_to_bitbuf m) (access_bits m)"
    unfolding access_try_to_bitbuf_def access_bits_def o(3) sum.case
    by (intro emits_seg [OF flag_bit(1)] emits_seg [OF emits_flag] emits_seg [OF ac(1)] emits_done o(1))
  then show "emits (access_to_bitbuf m) (access_bits m)" by (simp add: access_to_bitbuf_def emits_swallow)
  show "parses access_from_bitbuf (access_bits m) (access_norm m)"
    unfolding access_from_bitbuf_def access_bits_def
    by (intro parses_seg_expect_bit parses_seg [OF parses_flag] parses_seg2 [OF ac(2)] parses_seg3 [OF o(2)] parses_done)
      (simp add: access_norm_def)
qed

text \<open>MAC-DATA.\<close>

definition data_valid :: "mac_data \<Rightarrow> bool" where
  "data_valid m \<longleftrightarrow> ul_addr_ok (dat_encrypted m) (dat_addr m) (dat_event_label m) \<and>
     (case (dat_length_ind m, dat_frag_flag m, dat_reservation_req m) of
        (Some len, None, None) \<Rightarrow> fits 6 len
      | (None, Some _, Some _) \<Rightarrow> True
      | _ \<Rightarrow> False)"

definition data_len_bits :: "mac_data \<Rightarrow> bool list" where
  "data_len_bits m =
     (case (dat_length_ind m, dat_frag_flag m, dat_reservation_req m) of
        (Some len, _, _) \<Rightarrow> False # word_bits 6 len
      | (_, frag, req) \<Rightarrow> True # concat [[the frag], msb_bits 4 (res_req_into_raw (the req)), [False]])"

definition data_bits :: "mac_data \<Rightarrow> bool list" where
  "data_bits m = concat
     [msb_bits 2 (0 :: u64), [dat_fill_bits m], [dat_encrypted m], ul_addr_bits (dat_addr m) (dat_event_label m), data_len_bits m]"

definition data_norm :: "mac_data \<Rightarrow> mac_data" where
  "data_norm m = m\<lparr>dat_addr := map_option ul_addr_norm (dat_addr m)\<rparr>"

lemma data_len_codec:
  assumes "data_valid m"
  shows "emits (data_write_length m) (data_len_bits m)"
    and "parses data_read_length (data_len_bits m) (dat_length_ind m, dat_frag_flag m, dat_reservation_req m)"
    and "data_validate m = Inr ()"
proof -
  have av: "data_validate m = Inr ()" if "opt_all (fits 6) (dat_length_ind m)"
    "dat_length_ind m = None \<longleftrightarrow> dat_frag_flag m \<noteq> None" "dat_length_ind m = None \<longleftrightarrow> dat_reservation_req m \<noteq> None"
    using assms not_exceeds [OF that(1), of 63] that
    by (auto simp: data_validate_def data_valid_def validate_ul_addr_eq check_def)
  consider (len) len where "dat_length_ind m = Some len" "dat_frag_flag m = None" "dat_reservation_req m = None" "fits 6 len"
  | (cap) frag req where "dat_length_ind m = None" "dat_frag_flag m = Some frag" "dat_reservation_req m = Some req"
    using assms by (auto simp: data_valid_def split: option.splits)
  then have "emits (data_write_length m) (data_len_bits m)
    \<and> parses data_read_length (data_len_bits m) (dat_length_ind m, dat_frag_flag m, dat_reservation_req m)
    \<and> data_validate m = Inr ()"
  proof cases
    case len
    have "parses data_read_length (False # word_bits 6 len) (Some len, None, None)"
      unfolding data_read_length_def
      by (rule parses_bind_Cons [OF parses_field_bit]) (use len(4) in \<open>auto intro!: parses_map parses_as\<close>)
    moreover have "emits (thenM (write_bits 0 1) (write_as len 6)) (False # word_bits 6 len)"
      using len(4) by (intro emits_then_Cons flag_bit emits_as) simp_all
    ultimately show ?thesis using len av by (simp add: data_len_bits_def data_write_length_def)
  next
    case cap
    let ?bits = "concat [[frag], msb_bits 4 (res_req_into_raw req), [False]]"
    have "parses (bindM (read_flag ''frag_flag'') (\<lambda>frag. bindM (read_enum 4 ''reservation_requirement'' res_req_try_from) (\<lambda>req.
        bindM (read_bits 1) (\<lambda>_. retM (None, Some frag, Some req))))) ?bits (None, Some frag, Some req)"
      by (intro parses_seg [OF parses_flag] res_req.parses_seg_enum parses_seg [OF parses_read_bits] parses_done refl TrueI) simp_all
    then have "parses data_read_length (True # ?bits) (None, Some frag, Some req)"
      unfolding data_read_length_def by (intro parses_bind_Cons [OF parses_field_bit]) simp
    moreover have "emits (thenM (write_bits 1 1) (thenM (write_flag frag) (thenM (write_bits (res_req_into_raw req) 4) (write_bits 0 1))))
        (True # ?bits)"
      by (intro emits_then_Cons [OF flag_bit(2)] emits_seg emits_done emits_flag res_req.emits_enum flag_bit TrueI)
    ultimately show ?thesis using cap av by (simp add: data_len_bits_def data_write_length_def)
  qed
  then show "emits (data_write_length m) (data_len_bits m)"
    and "parses data_read_length (data_len_bits m) (dat_length_ind m, dat_frag_flag m, dat_reservation_req m)"
    and "data_validate m = Inr ()" by simp_all
qed

interpretation mac_data: pdu_codec data_to_bitbuf data_from_bitbuf data_valid data_bits data_norm
proof
  fix m assume v: "data_valid m"
  then have a: "ul_addr_ok (dat_encrypted m) (dat_addr m) (dat_event_label m)" by (simp add: data_valid_def)
  note o = data_len_codec [OF v] and ac = ul_addr_codec [OF a]
  have "emits (data_try_to_bitbuf m) (data_bits m)"
    unfolding data_try_to_bitbuf_def data_bits_def o(3) sum.case
    by (intro emits_seg [OF emits_const] emits_seg [OF emits_flag] emits_seg [OF ac(1)] emits_done o(1)) simp_all
  then show "emits (data_to_bitbuf m) (data_bits m)" by (simp add: data_to_bitbuf_def emits_swallow)
  show "parses data_from_bitbuf (data_bits m) (data_norm m)"
    unfolding data_from_bitbuf_def data_bits_def
    by (intro parses_seg [OF parses_expect] parses_seg [OF parses_flag] parses_seg2 [OF ac(2)] parses_seg3 [OF o(2)] parses_done)
      (simp_all add: data_norm_def)
qed

text \<open>MAC-FRAG, MAC-END and MAC-END-HU.\<close>

definition frag_ul_bits :: "mac_frag_ul \<Rightarrow> bool list" where
  "frag_ul_bits f = concat [msb_bits 2 (1 :: u64), msb_bits 1 (0 :: u64), [frag_ul_fill_bits f]]"

interpretation frag_ul: pdu_codec frag_ul_to_bitbuf frag_ul_from_bitbuf "\<lambda>_. True" frag_ul_bits id
proof
  fix f
  show "emits (frag_ul_to_bitbuf f) (frag_ul_bits f)"
    unfolding frag_ul_to_bitbuf_def frag_ul_bits_def by (intro emits_seg emits_done emits_const emits_flag) simp_all
  show "parses frag_ul_from_bitbuf (frag_ul_bits f) (id f)"
    unfolding frag_ul_from_bitbuf_def frag_ul_bits_def by (intro seg_rules) simp_all
qed

definition end_ul_valid :: "mac_end_ul \<Rightarrow> bool" where
  "end_ul_valid e \<longleftrightarrow>
     (case (end_ul_length_ind e, end_ul_reservation_req e) of
        (Some len, None) \<Rightarrow> len \<noteq> 0 \<and> len \<le> 46
      | (None, Some _) \<Rightarrow> True
      | _ \<Rightarrow> False)"

definition end_ul_len_bits :: "mac_end_ul \<Rightarrow> bool list" where
  "end_ul_len_bits e =
     (case (end_ul_length_ind e, end_ul_reservation_req e) of
        (Some len, _) \<Rightarrow> word_bits 6 len
      | (None, req) \<Rightarrow> msb_bits 2 (3 :: u64) @ msb_bits 4 (res_req_into_raw (the req)))"

definition end_ul_bits :: "mac_end_ul \<Rightarrow> bool list" where
  "end_ul_bits e = concat [msb_bits 2 (1 :: u64), msb_bits 1 (1 :: u64), [end_ul_fill_bits e], end_ul_len_bits e]"

lemma msb_bits_take_bit: "msb_bits n (take_bit n w) = msb_bits n (w :: 'a::len word)"
  by (rule nth_equalityI) (auto simp: nth_msb_bits bit_take_bit_iff)

lemma cap_req_field:
  "drop_bit 4 (48 + res_req_into_raw q) = 3" "take_bit 4 (48 + res_req_into_raw q) = res_req_into_raw q"
  "(48 + res_req_into_raw q) AND 15 = res_req_into_raw q" "\<not> 48 + res_req_into_raw q < 48" "\<not> 48 + res_req_into_raw q \<le> 46"
  "48 + res_req_into_raw q \<noteq> 0" "unat (48 + res_req_into_raw q) < 64"
  by (cases q; simp)+

lemma cap_req_bits_6: "msb_bits 2 (3 :: u64) @ msb_bits 4 (res_req_into_raw q) = msb_bits 6 (48 + res_req_into_raw q)"
  using msb_bits_append [of 2 4 "48 + res_req_into_raw q"] msb_bits_take_bit [of 4 "48 + res_req_into_raw q"]
  by (simp add: cap_req_field)

lemma parses_end_ul_len:
  assumes "end_ul_valid e"
  shows "parses (bindM (read_field 6 s) end_ul_decode) (end_ul_len_bits e) (end_ul_length_ind e, end_ul_reservation_req e)"
proof (cases "end_ul_length_ind e")
  case None
  then obtain q where q: "end_ul_reservation_req e = Some q" using assms by (auto simp: end_ul_valid_def split: option.splits)
  have "parses (bindM (read_field 6 s) end_ul_decode) (msb_bits 6 (48 + res_req_into_raw q)) (None, Some q)"
    by (rule parses_bind_end [OF parses_field_val])
      (simp_all add: end_ul_decode_def cap_req_field res_req_raw parses_ret)
  then show ?thesis using None q by (simp add: end_ul_len_bits_def cap_req_bits_6)
next
  case (Some l)
  then have l: "l \<noteq> 0" "l \<le> 46" "end_ul_reservation_req e = None" using assms by (auto simp: end_ul_valid_def split: option.splits)
  have c: "(ucast l :: u64) \<noteq> 0" "(ucast l :: u64) \<le> 46" "unat l < 64" using l by (auto simp: word_le_nat_alt simp flip: unat_eq_0)
  have "parses (bindM (read_field 6 s) end_ul_decode) (msb_bits 6 (ucast l :: u64)) (Some l, None)"
    by (rule parses_bind_end [OF parses_field_val]) (use c in \<open>simp_all add: end_ul_decode_def parses_ret\<close>)
  then show ?thesis using Some l by (simp add: end_ul_len_bits_def word_bits_def)
qed

interpretation end_ul: pdu_codec end_ul_to_bitbuf end_ul_from_bitbuf end_ul_valid end_ul_bits id
proof
  fix e assume v: "end_ul_valid e"
  show "parses end_ul_from_bitbuf (end_ul_bits e) (id e)"
    unfolding end_ul_from_bitbuf_def end_ul_bits_def
    by (intro parses_seg [OF parses_expect] parses_seg [OF parses_flag] parses_seg2 [OF parses_end_ul_len [OF v]] parses_done) simp_all
  consider (len) l where "end_ul_length_ind e = Some l" "end_ul_reservation_req e = None" "l \<noteq> 0" "l \<le> 46"
  | (cap) q where "end_ul_length_ind e = None" "end_ul_reservation_req e = Some q"
    using v by (auto simp: end_ul_valid_def split: option.splits)
  then show "emits (end_ul_to_bitbuf e) (end_ul_bits e)"
  proof cases
    case len
    have "fits 6 l" "\<not> l > 46" using len(4) by (auto simp: fits_def word_le_nat_alt word_less_nat_alt)
    then have "emits (thenM (write_bits 1 2) (thenM (write_bits 1 1) (thenM (write_flag (end_ul_fill_bits e)) (write_as l 6))))
        (concat [msb_bits 2 (1 :: u64), msb_bits 1 (1 :: u64), [end_ul_fill_bits e], word_bits 6 l])"
      by (intro emits_seg emits_done emits_const emits_flag emits_as) simp_all
    then show ?thesis using len \<open>\<not> l > 46\<close>
      by (simp add: end_ul_to_bitbuf_def one_of_def check_def some_exceeds_def end_ul_bits_def end_ul_len_bits_def)
  next
    case cap
    have "emits (thenM (write_bits 1 2) (thenM (write_bits 1 1) (thenM (write_flag (end_ul_fill_bits e))
          (thenM (write_bits 3 2) (write_bits (res_req_into_raw q) 4)))))
        (concat [msb_bits 2 (1 :: u64), msb_bits 1 (1 :: u64), [end_ul_fill_bits e], msb_bits 2 (3 :: u64), msb_bits 4 (res_req_into_raw q)])"
      by (intro emits_seg emits_done emits_const emits_flag res_req.emits_enum TrueI) simp_all
    then show ?thesis using cap
      by (simp add: end_ul_to_bitbuf_def one_of_def check_def some_exceeds_def end_ul_bits_def end_ul_len_bits_def)
  qed
qed

definition end_hu_valid :: "mac_end_hu \<Rightarrow> bool" where
  "end_hu_valid e \<longleftrightarrow>
     (case (end_hu_length_ind e, end_hu_reservation_req e) of
        (Some len, None) \<Rightarrow> len \<noteq> 0 \<and> len \<le> 15
      | (None, Some _) \<Rightarrow> True
      | _ \<Rightarrow> False)"

definition end_hu_len_bits :: "mac_end_hu \<Rightarrow> bool list" where
  "end_hu_len_bits e =
     (case (end_hu_length_ind e, end_hu_reservation_req e) of
        (Some len, _) \<Rightarrow> False # word_bits 4 len
      | (None, req) \<Rightarrow> True # msb_bits 4 (res_req_into_raw (the req)))"

definition end_hu_bits :: "mac_end_hu \<Rightarrow> bool list" where
  "end_hu_bits e = concat [[True], [end_hu_fill_bits e], end_hu_len_bits e]"

interpretation end_hu: pdu_codec end_hu_to_bitbuf end_hu_from_bitbuf end_hu_valid end_hu_bits id
proof
  fix e assume v: "end_hu_valid e"
  consider (len) l where "end_hu_length_ind e = Some l" "end_hu_reservation_req e = None" "l \<noteq> 0" "l \<le> 15"
  | (cap) q where "end_hu_length_ind e = None" "end_hu_reservation_req e = Some q"
    using v by (auto simp: end_hu_valid_def split: option.splits)
  then have "emits (end_hu_try_to_bitbuf e) (end_hu_bits e)
    \<and> parses end_hu_read_length (end_hu_len_bits e) (end_hu_length_ind e, end_hu_reservation_req e)"
  proof cases
    case len
    have f: "fits 4 l" "\<not> l > 15" using len(4) by (auto simp: fits_def word_le_nat_alt word_less_nat_alt)
    then have "emits (thenM (write_bits 1 1) (thenM (write_flag (end_hu_fill_bits e)) (thenM (write_bits 0 1) (write_as l 4))))
        (concat [[True], [end_hu_fill_bits e], [False], word_bits 4 l])"
      by (intro emits_seg emits_done flag_bit emits_flag emits_as) simp_all
    moreover have "parses end_hu_read_length (False # word_bits 4 l) (Some l, None)"
      unfolding end_hu_read_length_def
      by (rule parses_bind_Cons [OF parses_field_bit]) (use len f in \<open>auto intro!: parses_bind_end [OF parses_as] parses_ret\<close>)
    ultimately show ?thesis using len f(2)
      by (simp add: end_hu_try_to_bitbuf_def one_of_def check_def some_exceeds_def end_hu_bits_def end_hu_len_bits_def)
  next
    case cap
    have "emits (thenM (write_bits 1 1) (thenM (write_flag (end_hu_fill_bits e)) (thenM (write_bits 1 1) (write_bits (res_req_into_raw q) 4))))
        (concat [[True], [end_hu_fill_bits e], [True], msb_bits 4 (res_req_into_raw q)])"
      by (intro emits_seg emits_done flag_bit emits_flag res_req.emits_enum TrueI)
    moreover have "parses end_hu_read_length (True # msb_bits 4 (res_req_into_raw q)) (None, Some q)"
      unfolding end_hu_read_length_def
      by (rule parses_bind_Cons [OF parses_field_bit]) (use parses_map [OF res_req.parses_enum [of "''reservation_req''" q], of "\<lambda>req. (None, Some req)"] in simp)
    ultimately show ?thesis using cap
      by (simp add: end_hu_try_to_bitbuf_def one_of_def check_def some_exceeds_def end_hu_bits_def end_hu_len_bits_def)
  qed
  then have e: "emits (end_hu_try_to_bitbuf e) (end_hu_bits e)"
    and p: "parses end_hu_read_length (end_hu_len_bits e) (end_hu_length_ind e, end_hu_reservation_req e)" by simp_all
  show "emits (end_hu_to_bitbuf e) (end_hu_bits e)" using e by (simp add: end_hu_to_bitbuf_def emits_swallow)
  show "parses end_hu_from_bitbuf (end_hu_bits e) (id e)"
    unfolding end_hu_from_bitbuf_def end_hu_bits_def
    by (intro parses_seg_expect_bit parses_seg [OF parses_flag] parses_seg2 [OF p] parses_done) simp
qed

text \<open>The supplementary PDUs.\<close>

definition ublck_valid :: "mac_u_blck \<Rightarrow> bool" where
  "ublck_valid m \<longleftrightarrow> fits 10 (ublck_event_label m) \<and> fits 4 (ublck_reservation_req m)"

definition ublck_bits :: "mac_u_blck \<Rightarrow> bool list" where
  "ublck_bits m = concat [msb_bits 2 (3 :: u64), msb_bits 1 (0 :: u64), [ublck_fill_bits m], [ublck_encrypted m],
     word_bits 10 (ublck_event_label m), word_bits 4 (ublck_reservation_req m)]"

interpretation ublck: pdu_codec ublck_to_bitbuf ublck_from_bitbuf ublck_valid ublck_bits id
proof
  fix m assume v: "ublck_valid m"
  have le: "\<not> ublck_event_label m > 0x3ff" "\<not> ublck_reservation_req m > 0xf"
    using v by (simp_all add: ublck_valid_def fits_def word_less_nat_alt)
  have "emits (ublck_try_to_bitbuf m) (ublck_bits m)"
    unfolding ublck_try_to_bitbuf_def ublck_bits_def if_not_P [OF le(1)] if_not_P [OF le(2)]
    using v by (intro emits_seg emits_done emits_const emits_flag emits_as) (simp_all add: ublck_valid_def)
  then show "emits (ublck_to_bitbuf m) (ublck_bits m)" by (simp add: ublck_to_bitbuf_def emits_swallow)
  show "parses ublck_from_bitbuf (ublck_bits m) (id m)"
    unfolding ublck_from_bitbuf_def ublck_bits_def using v by (intro seg_rules) (simp_all add: ublck_valid_def)
qed

definition usignal_bits :: "mac_u_signal \<Rightarrow> bool list" where
  "usignal_bits m = concat [msb_bits 2 (3 :: u64), [second_half_stolen m]]"

interpretation usignal: pdu_codec usignal_to_bitbuf usignal_from_bitbuf "\<lambda>_. True" usignal_bits id
proof
  fix m
  show "emits (usignal_to_bitbuf m) (usignal_bits m)"
    unfolding usignal_to_bitbuf_def usignal_bits_def by (intro emits_seg emits_done emits_const emits_flag) simp_all
  show "parses usignal_from_bitbuf (usignal_bits m) (id m)"
    unfolding usignal_from_bitbuf_def usignal_bits_def by (intro seg_rules) simp_all
qed

definition dblck_valid :: "mac_d_blck \<Rightarrow> bool" where
  "dblck_valid m \<longleftrightarrow> fits 2 (dblck_encryption_mode m) \<and> fits 10 (dblck_event_label m) \<and> opt_all slotgrant_valid (dblck_slot_granting m)"

definition dblck_bits :: "mac_d_blck \<Rightarrow> bool list" where
  "dblck_bits m = concat [msb_bits 2 (3 :: u64), msb_bits 1 (0 :: u64), [dblck_fill_bits m], word_bits 2 (dblck_encryption_mode m),
     word_bits 10 (dblck_event_label m), [imm_napping_permission m], opt_bits slotgrant_bits (dblck_slot_granting m)]"

interpretation dblck: pdu_codec dblck_to_bitbuf dblck_from_bitbuf dblck_valid dblck_bits id
proof
  fix m assume v: "dblck_valid m"
  have le: "\<not> dblck_encryption_mode m > 3" "\<not> dblck_event_label m > 0x3ff"
    using v by (simp_all add: dblck_valid_def fits_def word_less_nat_alt)
  have "emits (dblck_try_to_bitbuf m) (dblck_bits m)"
    unfolding dblck_try_to_bitbuf_def dblck_bits_def if_not_P [OF le(1)] if_not_P [OF le(2)]
    using v by (intro emits_seg emits_done emits_const emits_flag emits_as emits_slotgrant) (simp_all add: dblck_valid_def)
  then show "emits (dblck_to_bitbuf m) (dblck_bits m)" by (simp add: dblck_to_bitbuf_def emits_swallow)
  show "parses dblck_from_bitbuf (dblck_bits m) (id m)"
    unfolding dblck_from_bitbuf_def dblck_bits_def
    using v by (intro parses_slotgrant seg_rules) (simp_all add: dblck_valid_def)
qed

text \<open>Every parser is total on arbitrary input.\<close>

lemma safe_ul_parts [safe_rules]: "safe (read_ul_addr r s t)" "safe access_read_optional" "safe data_read_length"
    "safe (end_ul_decode v)" "safe end_hu_read_length"
  unfolding read_ul_addr_def read_addr_def access_read_optional_def data_read_length_def end_ul_decode_def end_hu_read_length_def
  by (intro safe_rules)+

lemma safe_mac_ul [safe_rules]: "safe access_from_bitbuf" "safe data_from_bitbuf" "safe frag_ul_from_bitbuf" "safe end_ul_from_bitbuf"
    "safe end_hu_from_bitbuf" "safe ublck_from_bitbuf" "safe usignal_from_bitbuf" "safe dblck_from_bitbuf"
  unfolding access_from_bitbuf_def data_from_bitbuf_def frag_ul_from_bitbuf_def end_ul_from_bitbuf_def end_hu_from_bitbuf_def
    ublck_from_bitbuf_def usignal_from_bitbuf_def dblck_from_bitbuf_def
  by (intro safe_rules)+

section \<open>Properties\<close>

text \<open>C16: no received block makes a PDU parser of the upper MAC panic: on every well-formed buffer the
  parsers of the uplink and downlink MAC headers return a PDU or an error, and move the cursor only
  forward and inside the window.\<close>

theorem mac_parsers_are_safe:
  "safe access_from_bitbuf \<and> safe data_from_bitbuf \<and> safe frag_ul_from_bitbuf \<and> safe end_ul_from_bitbuf
    \<and> safe end_hu_from_bitbuf \<and> safe ublck_from_bitbuf \<and> safe usignal_from_bitbuf \<and> safe dblck_from_bitbuf
    \<and> safe resource_from_bitbuf \<and> safe frag_from_bitbuf \<and> safe end_from_bitbuf"
  using safe_mac_ul safe_mac_dl by blast

text \<open>C17: MAC-ACCESS and MAC-DATA are round trips: what their serialisers accept is read back with
  nothing left over, up to the address types the encoding merges.\<close>

theorem uplink_headers_round_trip:
  assumes "access_valid m" and "data_valid d"
  shows "(\<exists>b. access_to_bitbuf m (bb_new_autoexpand k) = Ok () b \<and> thenM (seek 0) access_from_bitbuf b = Ok (access_norm m) (b\<lparr>bb_pos := bb_end b\<rparr>))
    \<and> (\<exists>b. data_to_bitbuf d (bb_new_autoexpand k) = Ok () b \<and> thenM (seek 0) data_from_bitbuf b = Ok (data_norm d) (b\<lparr>bb_pos := bb_end b\<rparr>))"
  using mac_access.enc_dec [OF assms(1), of k] mac_data.enc_dec [OF assms(2), of k] by blast

theorem uplink_headers_round_trip_witness:
  "(\<exists>b. access_to_bitbuf \<lparr>acc_fill_bits = False, acc_encrypted = False, acc_addr = Some \<lparr>ssi = 1234, ssi_type = Issi\<rparr>, acc_event_label = None,
      acc_length_ind = None, acc_frag_flag = Some True, acc_reservation_req = Some Req1Slot\<rparr> (bb_new_autoexpand 32) = Ok () b)
    \<and> (\<exists>b. data_to_bitbuf \<lparr>dat_fill_bits = False, dat_encrypted = False, dat_addr = None, dat_event_label = Some 77,
      dat_length_ind = Some 20, dat_frag_flag = None, dat_reservation_req = None\<rparr> (bb_new_autoexpand 32) = Ok () b)"
proof -
  let ?m = "\<lparr>acc_fill_bits = False, acc_encrypted = False, acc_addr = Some \<lparr>ssi = 1234, ssi_type = Issi\<rparr>, acc_event_label = None,
      acc_length_ind = None, acc_frag_flag = Some True, acc_reservation_req = Some Req1Slot\<rparr> :: mac_access"
  let ?d = "\<lparr>dat_fill_bits = False, dat_encrypted = False, dat_addr = None, dat_event_label = Some 77,
      dat_length_ind = Some 20, dat_frag_flag = None, dat_reservation_req = None\<rparr> :: mac_data"
  have "access_valid ?m" "data_valid ?d" by (simp_all add: access_valid_def data_valid_def ul_addr_ok_def fits_def)
  from uplink_headers_round_trip [OF this, of 32] show ?thesis by blast
qed

end
