(* ===== verification/Umac_Ms.thy ===== *)
theory Umac_Ms
  imports Bs_Frag Defrag Mac_Broadcast Mac_Ul Error_Control
begin

unbundle bit_operations_syntax

text \<open>
  The upper MAC of a mobile station: \<^verbatim>\<open>crates/tetra-entities/src/umac/umac_ms.rs\<close>, with the message
  queue of \<^verbatim>\<open>messagerouter.rs\<close> as the list of the messages it holds.  Every handler maps the state,
  the queue and the received block to their new values; \<open>None\<close> is a panic.  Log output is not
  modelled.  The lemmas say what each handler does with a block that starts with a PDU of the
  fragmenter, that a station only leaves the loop over the PDUs of a block after finitely many of
  them, and which received blocks make a handler panic.
\<close>

section \<open>State and messages\<close>

datatype phy_block_num = BothBlocks | Block1 | Block2 | UndefinedBlock

datatype tma_report =
  ConfirmHandle | SuccessRandomAccess | SuccessReservedOrStealing | FailedTransfer | FragmentationFailure | RandomAccessFailure

record tma_unitdata_ind =
  tma_pdu :: "bitbuf option"
  tma_main_address :: tetra_address
  tma_scrambling_code :: u32
  tma_encryption :: u8

datatype ms_msg =
  TmaUnitdataInd tma_unitdata_ind
| TmaReportInd int tma_report
| TmvConfigureReq "u32 option" "bool option" "tdma_time option"
| TmvUnitdataReq tdma_time tmv_unitdata_req
| TlmbSysinfoInd bitbuf
| TlmbSyncInd bitbuf

record umac_ms =
  ms_dltime :: tdma_time
  ms_frags :: ms_defrag
  ms_mcc :: "u16 option"
  ms_mnc :: "u16 option"
  ms_cc :: "u8 option"
  ms_scrambling :: "u32 option"

definition umac_ms_new :: umac_ms where
  "umac_ms_new = \<lparr>ms_dltime = tdma_default, ms_frags = ms_defrag_new, ms_mcc = None, ms_mnc = None, ms_cc = None,
     ms_scrambling = None\<rparr>"

record tmv_unitdata_ind =
  ind_pdu :: bitbuf
  ind_block_num :: phy_block_num
  ind_lchan :: logical_channel
  ind_scrambling :: u32

type_synonym ms_queue = "ms_msg list"

definition push_back :: "ms_queue \<Rightarrow> ms_msg \<Rightarrow> ms_queue" where
  "push_back q m = q @ [m]"

definition push_immediate :: "ms_queue \<Rightarrow> ms_msg \<Rightarrow> ms_queue" where
  "push_immediate q m = m # q"

text \<open>A parser whose error is handled by the caller; the buffer keeps the cursor it was left with.\<close>

definition try_bb :: "'a bbm \<Rightarrow> bitbuf \<Rightarrow> ('a option \<times> bitbuf) option" where
  "try_bb p b = (case p b of Ok a b' \<Rightarrow> Some (Some a, b') | Err _ b' \<Rightarrow> Some (None, b') | Panic \<Rightarrow> None)"

section \<open>MAC-RESOURCE, MAC-FRAG and MAC-END\<close>

definition count_fill_bits :: "bool \<Rightarrow> nat \<Rightarrow> bitbuf \<Rightarrow> nat option" where
  "count_fill_bits fill pdu_len b = (if fill then map_option fst (run_bb (get_num_fill_bits pdu_len) b) else Some 0)"

text \<open>The window moves behind the PDU, so that the caller can parse the next one.\<close>

definition advance_window :: "nat \<Rightarrow> nat \<Rightarrow> bitbuf \<Rightarrow> bitbuf option" where
  "advance_window orig_end len b = do {
     (_, b) \<leftarrow> run_bb (set_raw_end orig_end) b;
     (_, b) \<leftarrow> run_bb (set_raw_pos (bb_start b + len)) b;
     (_, b) \<leftarrow> run_bb (set_raw_start (bb_pos b)) b;
     Some b
   }"

definition deliver_resource :: "u32 \<Rightarrow> mac_resource \<Rightarrow> tetra_address \<Rightarrow> umac_ms \<Rightarrow> ms_queue \<Rightarrow> bitbuf \<Rightarrow> (umac_ms \<times> ms_queue \<times> bitbuf) option" where
  "deliver_resource scr pdu a s q b =
     (if res_length_ind pdu = 63
      then do { (b, frags) \<leftarrow> ms_insert_first (ms_frags s) b (ms_dltime s) a None; Some (s\<lparr>ms_frags := frags\<rparr>, q, b) }
      else if res_length_ind pdu = 62 then Some (s, q, b)
      else do {
        (rest, _) \<leftarrow> run_bb get_len_remaining b;
        if res_length_ind pdu = 0 \<or> rest = 0 then Some (s, q, b)
        else do {
          sdu \<leftarrow> bb_from_bitbuffer_pos b;
          Some (s, push_back q (TmaUnitdataInd \<lparr>tma_pdu = Some sdu, tma_main_address = a, tma_scrambling_code = scr,
            tma_encryption = encryption_mode pdu\<rparr>), b)
        }
      })"

definition rx_resource_body :: "u32 \<Rightarrow> mac_resource \<Rightarrow> nat \<Rightarrow> nat \<Rightarrow> umac_ms \<Rightarrow> ms_queue \<Rightarrow> bitbuf \<Rightarrow> (umac_ms \<times> ms_queue \<times> bitbuf) option" where
  "rx_resource_body scr pdu len pdu_len s q b =
     (if pdu_len > len then Some (s, q, b)
      else do {
        fill \<leftarrow> count_fill_bits (res_fill_bits pdu) pdu_len b;
        rest \<leftarrow> sub_opt pdu_len fill;
        let orig_end = bb_end b;
        (_, b) \<leftarrow> run_bb (set_raw_end (bb_start b + rest)) b;
        (case addr pdu of
           None \<Rightarrow> Some (s, q, b)
         | Some a \<Rightarrow>
             if encryption_mode pdu > 0 then Some (s, q, b)
             else do {
               (s, q, b) \<leftarrow> deliver_resource scr pdu a s q b;
               b \<leftarrow> advance_window orig_end (rest + fill) b;
               Some (s, q, b)
             })
      })"

definition rx_mac_resource :: "u32 \<Rightarrow> umac_ms \<Rightarrow> ms_queue \<Rightarrow> bitbuf \<Rightarrow> (umac_ms \<times> ms_queue \<times> bitbuf) option" where
  "rx_mac_resource scr s q b = do {
     (pos, _) \<leftarrow> run_bb get_pos b;
     assert_opt (pos = 0);
     (r, b) \<leftarrow> try_bb resource_from_bitbuf b;
     (case r of
        None \<Rightarrow> Some (s, q, b)
      | Some pdu \<Rightarrow> do {
          (len, _) \<leftarrow> run_bb get_len b;
          let l = res_length_ind pdu;
          if 1 \<le> l \<and> l < 58 then rx_resource_body scr pdu len (unat l * 8) s q b
          else if l = 62 \<or> l = 63 then rx_resource_body scr pdu len len s q b
          else Some (s, q, b)
        })
   }"

definition buffer_aie :: "umac_ms \<Rightarrow> int option option" where
  "buffer_aie s = do { ts \<leftarrow> ts_index (ms_dltime s); Some (db_aie_info (ms_frags s ! ts)) }"

definition rx_mac_frag :: "umac_ms \<Rightarrow> bitbuf \<Rightarrow> (umac_ms \<times> bitbuf) option" where
  "rx_mac_frag s b = do {
     (pos, _) \<leftarrow> run_bb get_pos b;
     assert_opt (pos = 0);
     (r, b) \<leftarrow> try_bb frag_from_bitbuf b;
     (case r of
        None \<Rightarrow> Some (s, b)
      | Some pdu \<Rightarrow> do {
          (pdu_len, _) \<leftarrow> run_bb get_len b;
          fill \<leftarrow> count_fill_bits (frag_fill_bits pdu) pdu_len b;
          rest \<leftarrow> sub_opt pdu_len fill;
          (_, b) \<leftarrow> run_bb (set_raw_end (bb_start b + rest)) b;
          aie \<leftarrow> buffer_aie s;
          if aie \<noteq> None then Some (s, b)
          else do { (b, frags) \<leftarrow> ms_insert_next (ms_frags s) b (ms_dltime s); Some (s\<lparr>ms_frags := frags\<rparr>, b) }
        })
   }"

definition rx_mac_end :: "u32 \<Rightarrow> umac_ms \<Rightarrow> ms_queue \<Rightarrow> bitbuf \<Rightarrow> (umac_ms \<times> ms_queue \<times> bitbuf) option" where
  "rx_mac_end scr s q b = do {
     (pos, _) \<leftarrow> run_bb get_pos b;
     assert_opt (pos = 0);
     (r, b) \<leftarrow> try_bb end_from_bitbuf b;
     (case r of
        None \<Rightarrow> Some (s, q, b)
      | Some pdu \<Rightarrow> do {
          let pdu_len = unat (end_length_ind pdu) * 8;
          (len, _) \<leftarrow> run_bb get_len b;
          if pdu_len > len then Some (s, q, b)
          else do {
            fill \<leftarrow> count_fill_bits (end_fill_bits pdu) pdu_len b;
            rest \<leftarrow> sub_opt pdu_len fill;
            let orig_end = bb_end b;
            (_, b) \<leftarrow> run_bb (set_raw_end (bb_start b + rest)) b;
            aie \<leftarrow> buffer_aie s;
            if aie \<noteq> None then Some (s, q, b)
            else do {
              (b, frags) \<leftarrow> ms_insert_last (ms_frags s) b (ms_dltime s);
              (r, frags) \<leftarrow> take_defragged_buf frags (ms_dltime s);
              let s = s\<lparr>ms_frags := frags\<rparr>;
              (case r of
                 None \<Rightarrow> Some (s, q, b)
               | Some d \<Rightarrow> do {
                   let q = push_back q (TmaUnitdataInd \<lparr>tma_pdu = Some (db_buffer d), tma_main_address = db_addr d,
                     tma_scrambling_code = scr, tma_encryption = 0\<rparr>);
                   b \<leftarrow> advance_window orig_end (rest + fill) b;
                   Some (s, q, b)
                 })
            }
          }
        })
   }"

section \<open>Broadcast PDUs\<close>

datatype broadcast_type = Sysinfo | AccessDefine | SysinfoDa

definition broadcast_type_try_from :: "u64 \<Rightarrow> broadcast_type option" where
  "broadcast_type_try_from x =
     (if x = 0 then Some Sysinfo else if x = 1 then Some AccessDefine else if x = 2 then Some SysinfoDa else None)"

definition rx_broadcast_sysinfo :: "umac_ms \<Rightarrow> ms_queue \<Rightarrow> bitbuf \<Rightarrow> (ms_queue \<times> bitbuf) option" where
  "rx_broadcast_sysinfo s q b = do {
     (r, b) \<leftarrow> try_bb sysinfo_from_bitbuf b;
     (case r of
        None \<Rightarrow> Some (q, b)
      | Some pdu \<Rightarrow> do {
          let q = (case hyperframe_number pdu of
              Some h \<Rightarrow> if h \<noteq> tt_h (ms_dltime s) then push_back q (TmvConfigureReq None None (Some ((ms_dltime s)\<lparr>tt_h := h\<rparr>))) else q
            | None \<Rightarrow> q);
          sdu \<leftarrow> bb_from_bitbuffer_pos b;
          Some (push_back q (TlmbSysinfoInd sdu), b)
        })
   }"

definition rx_broadcast :: "umac_ms \<Rightarrow> ms_queue \<Rightarrow> bitbuf \<Rightarrow> (ms_queue \<times> bitbuf) option" where
  "rx_broadcast s q b = do {
     (t, _) \<leftarrow> run_bb (peek_bits 2) b;
     t \<leftarrow> t;
     assert_opt (t = 2);
     (bits, _) \<leftarrow> run_bb (peek_bits_posoffset 2 2) b;
     bits \<leftarrow> bits;
     bcast_type \<leftarrow> broadcast_type_try_from bits;
     if bcast_type = Sysinfo then rx_broadcast_sysinfo s q b else Some (q, b)
   }"

section \<open>The PDUs of a signalling block\<close>

datatype mac_pdu_type = MacResourceMacData | MacFragMacEnd | Broadcast | SuppMacUSignal

definition mac_pdu_type_try_from :: "u64 \<Rightarrow> mac_pdu_type option" where
  "mac_pdu_type_try_from x =
     (if x = 0 then Some MacResourceMacData else if x = 1 then Some MacFragMacEnd
      else if x = 2 then Some Broadcast else if x = 3 then Some SuppMacUSignal else None)"

definition rx_pdu :: "u32 \<Rightarrow> mac_pdu_type \<Rightarrow> u64 \<Rightarrow> umac_ms \<Rightarrow> ms_queue \<Rightarrow> bitbuf \<Rightarrow> (umac_ms \<times> ms_queue \<times> bitbuf) option" where
  "rx_pdu scr pdu_type bits s q b =
     (case pdu_type of
        MacResourceMacData \<Rightarrow> rx_mac_resource scr s q b
      | MacFragMacEnd \<Rightarrow>
          if bits AND 1 = 0 then map_option (\<lambda>(s, b). (s, q, b)) (rx_mac_frag s b) else rx_mac_end scr s q b
      | Broadcast \<Rightarrow> map_option (\<lambda>(q, b). (s, q, b)) (rx_broadcast s q b)
      | SuppMacUSignal \<Rightarrow> Some (s, q, b))"

text \<open>One round of the loop: the new state, and whether another PDU follows.\<close>

definition sch_round :: "u32 \<Rightarrow> umac_ms \<Rightarrow> ms_queue \<Rightarrow> bitbuf \<Rightarrow> ((umac_ms \<times> ms_queue \<times> bitbuf) \<times> bool) option" where
  "sch_round scr s q b = do {
     (bits, _) \<leftarrow> run_bb (peek_bits 3) b;
     (case bits of
        None \<Rightarrow> Some ((s, q, b), False)
      | Some bits \<Rightarrow>
          (case mac_pdu_type_try_from (drop_bit 1 bits) of
             None \<Rightarrow> Some ((s, q, b), False)
           | Some pdu_type \<Rightarrow> do {
               let orig_start = bb_start b;
               (s, q, b) \<leftarrow> rx_pdu scr pdu_type bits s q b;
               if bb_start b = orig_start then Some ((s, q, b), False)
               else do { (len, _) \<leftarrow> run_bb get_len b; Some ((s, q, b), len \<ge> 16) }
             }))
   }"

section \<open>Partial correctness of option computations\<close>

definition ensures :: "'a option \<Rightarrow> ('a \<Rightarrow> bool) \<Rightarrow> bool" where
  "ensures x P \<longleftrightarrow> (\<forall>v. x = Some v \<longrightarrow> P v)"

named_theorems ensures_rules

lemma ensures_Some [ensures_rules]: "P v \<Longrightarrow> ensures (Some v) P"
  and ensures_None [ensures_rules]: "ensures None P"
  and ensures_bind [ensures_rules]: "(\<And>v. m = Some v \<Longrightarrow> ensures (f v) P) \<Longrightarrow> ensures (Option.bind m f) P"
  and ensures_map [ensures_rules]: "(\<And>v. m = Some v \<Longrightarrow> P (k v)) \<Longrightarrow> ensures (map_option k m) P"
  and ensures_if [ensures_rules]: "(c \<Longrightarrow> ensures x P) \<Longrightarrow> (\<not> c \<Longrightarrow> ensures y P) \<Longrightarrow> ensures (if c then x else y) P"
  and ensures_option [ensures_rules]:
    "(z = None \<Longrightarrow> ensures x P) \<Longrightarrow> (\<And>a. z = Some a \<Longrightarrow> ensures (g a) P) \<Longrightarrow> ensures (case z of None \<Rightarrow> x | Some a \<Rightarrow> g a) P"
  and ensures_prod [ensures_rules]: "(\<And>a b. w = (a, b) \<Longrightarrow> ensures (j a b) P) \<Longrightarrow> ensures (case w of (a, b) \<Rightarrow> j a b) P"
  and ensures_let [ensures_rules]: "ensures (h l) P \<Longrightarrow> ensures (Let l h) P"
  by (auto simp: ensures_def bind_eq_Some_conv split: option.splits prod.splits)

lemma ensuresD: "ensures x P \<Longrightarrow> x = Some v \<Longrightarrow> P v"
  by (simp add: ensures_def)

section \<open>Reading keeps the window\<close>

text \<open>Whatever the buffer, reading moves only the cursor.\<close>

definition keeps_window :: "'a bbm \<Rightarrow> bool" where
  "keeps_window p \<longleftrightarrow> (\<forall>b v e b'. p b = Ok v b' \<or> p b = Err e b' \<longrightarrow> bb_start b' = bb_start b \<and> bb_end b' = bb_end b)"

named_theorems keeps_rules

lemma keeps_bind [keeps_rules]: "keeps_window p \<Longrightarrow> (\<And>a. keeps_window (f a)) \<Longrightarrow> keeps_window (bindM p f)"
  unfolding keeps_window_def bindM_def by (fastforce split: outcome.splits)

lemma keeps_if [keeps_rules]: "keeps_window p \<Longrightarrow> keeps_window q \<Longrightarrow> keeps_window (if c then p else q)"
  by simp

lemma keeps_option [keeps_rules]:
  "keeps_window p \<Longrightarrow> (\<And>a. keeps_window (f a)) \<Longrightarrow> keeps_window (case x of None \<Rightarrow> p | Some a \<Rightarrow> f a)"
  by (cases x) auto

lemma keeps_prod [keeps_rules]: "(\<And>a b. keeps_window (f a b)) \<Longrightarrow> keeps_window (case x of (a, b) \<Rightarrow> f a b)"
  by (cases x) auto

lemma keeps_let [keeps_rules]: "keeps_window (f a) \<Longrightarrow> keeps_window (Let a f)"
  by simp

lemma keeps_basic [keeps_rules]:
  "keeps_window (retM v)" "keeps_window (errM e)" "keeps_window panicM" "keeps_window (seek_rel k)" "keeps_window get_pos"
  "keeps_window (assertM c)" "keeps_window (byte_at i)" "keeps_window (modM (\<lambda>b. b\<lparr>bb_pos := bb_pos b + n\<rparr>))"
  "keeps_window (Ok v)" "keeps_window (Err e)"
  by (auto simp: keeps_window_def seek_rel_def Let_def get_pos_def subM_def assertM_def byte_at_def modM_def split: if_splits)

lemma keeps_read_full: "keeps_window (read_full_bytes p n r)"
proof -
  have "read_full_bytes p n r b = Ok v b' \<or> read_full_bytes p n r b = Err e b' \<Longrightarrow> b' = b" for b v e b'
  proof (induction p n r b rule: read_full_bytes.induct)
    case (1 p n r b)
    then show ?case using read_full_bytes.simps [of p n r b] by (auto simp: byte_at_def split: if_splits)
  qed
  then show ?thesis unfolding keeps_window_def by metis
qed

lemma keeps_peek [keeps_rules]: "keeps_window (peek_bits_startoffset k n)"
proof -
  have "keeps_window (read_bits_at_unchecked p n)" for p
    unfolding read_bits_at_unchecked_def read_head_def by (intro keeps_rules keeps_read_full)
  then have "keeps_window (bindM (read_bits_at_unchecked p n) (\<lambda>v. retM (Some v)))" for p
    by (intro keeps_rules)
  then show ?thesis unfolding keeps_window_def peek_bits_startoffset_def Let_def by (auto split: if_splits)
qed

lemma keeps_read [keeps_rules]: "keeps_window (read_bits n)" "keeps_window (read_field n s)"
  unfolding read_bits_def read_field_def by (intro keeps_rules)+

lemma keeps_fields [keeps_rules]:
  "keeps_window (read_as n s)" "keeps_window (read_flag s)" "keeps_window (expect_value n s v)" "keeps_window (warn_value n s)"
  "keeps_window (read_enum n s g)" "keeps_window p \<Longrightarrow> keeps_window (read_opt s p)"
  unfolding read_as_def read_flag_def expect_value_def warn_value_def read_enum_def read_opt_def by (intro keeps_rules; assumption?)+

lemma keeps_addr [keeps_rules]: "keeps_window (read_addr_fields t)"
  by (cases t) (simp_all only: read_addr_fields.simps read_addr_def; intro keeps_rules)+

lemma keeps_elements [keeps_rules]: "keeps_window slotgrant_from_bitbuf" "keeps_window chan_alloc_from_bitbuf"
  unfolding slotgrant_from_bitbuf_def chan_alloc_from_bitbuf_def by (intro keeps_rules)+

lemma keeps_mac_dl: "keeps_window resource_from_bitbuf" "keeps_window frag_from_bitbuf" "keeps_window end_from_bitbuf"
  unfolding resource_from_bitbuf_def frag_from_bitbuf_def end_from_bitbuf_def by (intro keeps_rules)+

lemma keeps_sysinfo_option [keeps_rules]: "keeps_window (read_sysinfo_option opt)"
proof -
  have "keeps_window access_code_from_bitbuf" "keeps_window (ext_services_from_bitbuf aie)" for aie
    unfolding access_code_from_bitbuf_def ext_services_from_bitbuf_def read_security_classes_def read_security_info_def
    by (intro keeps_rules)+
  then show ?thesis by (cases opt) (simp_all only: read_sysinfo_option.simps; intro keeps_rules; assumption)+
qed

lemma keeps_sysinfo: "keeps_window sysinfo_from_bitbuf"
  unfolding sysinfo_from_bitbuf_def read_cck_or_hyperframe_def by (intro keeps_rules)

lemma keeps_try: "keeps_window p \<Longrightarrow> try_bb p b = Some (r, b') \<Longrightarrow> bb_start b' = bb_start b \<and> bb_end b' = bb_end b"
  by (auto simp: try_bb_def keeps_window_def split: outcome.splits)

lemma copy_bits_src_start: "copy_bits src n dst = Ok src' dst' \<Longrightarrow> bb_start src' = bb_start src"
proof (induction src n dst rule: copy_bits.induct)
  case (1 src n dst)
  have r: "bb_start b' = bb_start b" if "read_bits k b = Ok v b'" for k b v b'
    using keeps_read(1) [of k] that by (auto simp: keeps_window_def)
  show ?case
    using 1 copy_bits.simps [of src n dst]
    by (auto simp: get_len_remaining_def subM_def Let_def split: if_splits outcome.splits option.splits dest!: r)
qed

lemma append_rest_start: "append_rest src dst = Some (src', dst') \<Longrightarrow> bb_start src' = bb_start src"
  by (auto simp: append_rest_def run_bb_def get_len_remaining_def subM_def bind_eq_Some_conv split: outcome.splits if_splits
      dest!: copy_bits_src_start)

lemma ms_insert_start:
  "ms_insert_first ms b t a aie = Some (b', ms') \<Longrightarrow> bb_start b' = bb_start b"
  "ms_insert_piece st ms b t = Some (b', ms') \<Longrightarrow> bb_start b' = bb_start b"
  by (auto simp: ms_insert_first_def buffer_start_def ms_insert_piece_def bind_eq_Some_conv Let_def split: if_splits
      dest!: append_rest_start)

lemma advance_windowD:
  "advance_window e n b = Some b' \<Longrightarrow> bb_start b' = bb_start b + n \<and> bb_end b' = e \<and> bb_pos b' = bb_start b'"
  by (auto simp: advance_window_def run_bb_def set_raw_end_def set_raw_pos_def set_raw_start_def split: if_splits)

text \<open>A handler either leaves the start of the window or moves it forward by at least one octet or
  to the end, the end being the same.\<close>

definition moved :: "bitbuf \<Rightarrow> bitbuf \<Rightarrow> bool" where
  "moved b b' \<longleftrightarrow> bb_start b' = bb_start b
     \<or> (bb_start b + 8 \<le> bb_start b' \<or> bb_start b' = bb_end b) \<and> bb_end b' = bb_end b \<and> bb_pos b' = bb_start b'"

definition pdu_size :: "bitbuf \<Rightarrow> nat \<Rightarrow> bool" where
  "pdu_size b n \<longleftrightarrow> 8 dvd n \<or> bb_start b + n = bb_end b"

lemma set_raw_end_start: "run_bb (set_raw_end e) b = Some (u, b') \<Longrightarrow> bb_start b' = bb_start b"
  by (auto simp: run_bb_def set_raw_end_def split: if_splits)

lemma moved_advance:
  assumes adv: "advance_window e (rest + fill) b1 = Some b'" and sub: "sub_opt n fill = Some rest" and n: "pdu_size b n"
    and b1: "bb_start b1 = bb_start b" "e = bb_end b"
  shows "moved b b'"
proof -
  have "rest + fill = n" using sub by (auto simp: sub_opt_def split: if_splits)
  moreover have "n = 0 \<or> 8 \<le> n \<or> bb_start b + n = bb_end b" using n by (auto simp: pdu_size_def dvd_imp_le)
  ultimately show ?thesis using advance_windowD [OF adv] b1 by (auto simp: moved_def)
qed

lemma moved_same: "bb_start b' = bb_start b \<Longrightarrow> moved b b'"
  by (simp add: moved_def)

lemma moved_keeps: "bb_start b1 = bb_start b \<and> bb_end b1 = bb_end b \<Longrightarrow> moved b1 b' \<Longrightarrow> moved b b'"
  by (simp add: moved_def)

lemma deliver_start: "ensures (deliver_resource scr pdu a s q b) (\<lambda>(s', q', b'). bb_start b' = bb_start b)"
  unfolding deliver_resource_def by (intro ensures_rules) (auto dest: ms_insert_start)

lemma rx_resource_body_moved:
  assumes "pdu_size b n"
  shows "ensures (rx_resource_body scr pdu len n s q b) (\<lambda>(s', q', b'). moved b b')"
  using assms unfolding rx_resource_body_def
  by (intro ensures_rules) (auto dest!: set_raw_end_start ensuresD [OF deliver_start] intro: moved_same moved_advance)

lemma rx_mac_resource_moved: "ensures (rx_mac_resource scr s q b) (\<lambda>(s', q', b'). moved b b')"
proof -
  have k: "ensures (rx_resource_body scr pdu len n s q b1) (\<lambda>(s', q', b'). moved b b')"
    if "bb_start b1 = bb_start b \<and> bb_end b1 = bb_end b" "pdu_size b1 n" for b1 pdu len n
    using rx_resource_body_moved [OF that(2), of scr pdu len s q] moved_keeps [OF that(1)] by (auto simp: ensures_def)
  have "pdu_size b1 n" if "run_bb get_len b1 = Some (n, b2)" for b1 b2 n
    using that by (auto simp: pdu_size_def run_bb_def get_len_def subM_def split: if_splits)
  then show ?thesis
    unfolding rx_mac_resource_def
    by (intro ensures_rules) (auto dest!: keeps_try [OF keeps_mac_dl(1)] intro: moved_same k simp: pdu_size_def [of _ "_ * 8"])
qed

lemma rx_mac_frag_moved: "ensures (rx_mac_frag s b) (\<lambda>(s', b'). bb_start b' = bb_start b)"
  unfolding rx_mac_frag_def ms_insert_next_def
  by (intro ensures_rules) (auto dest!: keeps_try [OF keeps_mac_dl(2)] set_raw_end_start ms_insert_start)

lemma rx_mac_end_moved: "ensures (rx_mac_end scr s q b) (\<lambda>(s', q', b'). moved b b')"
  unfolding rx_mac_end_def ms_insert_last_def
  by (intro ensures_rules)
    (auto dest!: keeps_try [OF keeps_mac_dl(3)] set_raw_end_start ms_insert_start intro: moved_same
      elim!: moved_advance simp: pdu_size_def)

lemma rx_broadcast_moved: "ensures (rx_broadcast s q b) (\<lambda>(q', b'). bb_start b' = bb_start b)"
  unfolding rx_broadcast_def rx_broadcast_sysinfo_def
  by (intro ensures_rules) (auto dest!: keeps_try [OF keeps_sysinfo])

lemma rx_pdu_moved: "rx_pdu scr t bits s q b = Some (s', q', b') \<Longrightarrow> moved b b'"
  using ensuresD [OF rx_mac_resource_moved] ensuresD [OF rx_mac_end_moved]
    ensuresD [OF rx_mac_frag_moved] ensuresD [OF rx_broadcast_moved]
  by (fastforce simp: rx_pdu_def intro: moved_same split: mac_pdu_type.splits if_splits)

lemma sch_round_progress:
  "ensures (sch_round scr s q b) (\<lambda>((s', q', b'), again). again \<longrightarrow>
     bb_start b + 8 \<le> bb_start b' \<and> bb_end b' = bb_end b \<and> bb_pos b' = bb_start b' \<and> bb_start b' + 16 \<le> bb_end b')"
  unfolding sch_round_def
  by (intro ensures_rules) (auto dest!: rx_pdu_moved simp: moved_def run_bb_def get_len_def subM_def split: if_splits)

section \<open>The loop over the PDUs of a block\<close>

function rx_tmv_sch :: "u32 \<Rightarrow> umac_ms \<Rightarrow> ms_queue \<Rightarrow> bitbuf \<Rightarrow> (umac_ms \<times> ms_queue) option" where
  "rx_tmv_sch scr s q b =
     (case sch_round scr s q b of
        None \<Rightarrow> None
      | Some ((s', q', b'), again) \<Rightarrow> if again then rx_tmv_sch scr s' q' b' else Some (s', q'))"
  by auto
termination
  by (relation "measure (\<lambda>(scr, s, q, b). bb_end b - bb_start b)") (auto dest!: ensuresD [OF sch_round_progress])

declare rx_tmv_sch.simps [simp del]

text \<open>The number of PDUs the loop looks at.\<close>

function sch_pdus :: "u32 \<Rightarrow> umac_ms \<Rightarrow> ms_queue \<Rightarrow> bitbuf \<Rightarrow> nat" where
  "sch_pdus scr s q b =
     (case sch_round scr s q b of
        None \<Rightarrow> 1
      | Some ((s', q', b'), again) \<Rightarrow> if again then Suc (sch_pdus scr s' q' b') else 1)"
  by auto
termination
  by (relation "measure (\<lambda>(scr, s, q, b). bb_end b - bb_start b)") (auto dest!: ensuresD [OF sch_round_progress])

declare sch_pdus.simps [simp del]

lemma sch_pdus_bound: "sch_pdus scr s q b \<le> 1 + (bb_end b - bb_start b) div 8"
proof (induction scr s q b rule: sch_pdus.induct)
  case (1 scr s q b)
  show ?case
  proof (cases "\<exists>s' q' b'. sch_round scr s q b = Some ((s', q', b'), True)")
    case True
    then obtain s' q' b' where r: "sch_round scr s q b = Some ((s', q', b'), True)" by blast
    have p: "bb_start b + 8 \<le> bb_start b'" "bb_end b' = bb_end b" "bb_start b' + 16 \<le> bb_end b'"
      using ensuresD [OF sch_round_progress r] by simp_all
    then have "(bb_end b' - bb_start b' + 8) div 8 \<le> (bb_end b - bb_start b) div 8" by (intro div_le_mono) simp
    moreover have "sch_pdus scr s' q' b' \<le> 1 + (bb_end b' - bb_start b') div 8" using 1(1) [OF r] by simp
    ultimately show ?thesis by (simp add: sch_pdus.simps [of scr s q b] r)
  next
    case False
    then show ?thesis by (auto simp: sch_pdus.simps [of scr s q b] split: option.split)
  qed
qed

section \<open>The other primitives\<close>

definition rx_tmv_aach :: "umac_ms \<Rightarrow> ms_queue \<Rightarrow> bitbuf \<Rightarrow> ms_queue option" where
  "rx_tmv_aach s q b =
     (if tt_f (ms_dltime s) \<noteq> 18
      then do {
        (r, _) \<leftarrow> try_bb aa_from_bitbuf b;
        Some (case r of
           None \<Rightarrow> q
         | Some pdu \<Rightarrow> push_immediate q (TmvConfigureReq None (Some (case dl_usage pdu of DlTraffic _ \<Rightarrow> True | _ \<Rightarrow> False)) None))
      }
      else do {
        (r, _) \<leftarrow> try_bb fr18_from_bitbuf b;
        Some (case r of None \<Rightarrow> q | Some _ \<Rightarrow> push_immediate q (TmvConfigureReq None (Some False) None))
      })"

definition update_scrambling_and_submit_to_lmac :: "umac_ms \<Rightarrow> ms_queue \<Rightarrow> umac_ms \<times> ms_queue" where
  "update_scrambling_and_submit_to_lmac s q =
     (case (ms_mcc s, ms_mnc s, ms_cc s) of
        (Some mcc, Some mnc, Some cc) \<Rightarrow>
          let code = push_bit 2 (ucast cc OR push_bit 6 (ucast mnc) OR push_bit 20 (ucast mcc)) OR 3 in
          (s\<lparr>ms_scrambling := Some code\<rparr>, push_back q (TmvConfigureReq (Some code) None None))
      | _ \<Rightarrow> (s, q))"

definition rx_tmv_bsch :: "umac_ms \<Rightarrow> ms_queue \<Rightarrow> bitbuf \<Rightarrow> (umac_ms \<times> ms_queue) option" where
  "rx_tmv_bsch s q b = do {
     (r, b) \<leftarrow> try_bb sync_from_bitbuf b;
     (case r of
        None \<Rightarrow> Some (s, q)
      | Some pdu \<Rightarrow> do {
          let s = s\<lparr>ms_dltime := sync_time pdu, ms_cc := Some (sync_colour_code pdu)\<rparr>;
          let q = push_back q (TmvConfigureReq None None (Some (sync_time pdu)));
          let (s, q) = update_scrambling_and_submit_to_lmac s q;
          sdu \<leftarrow> bb_from_bitbuffer_pos b;
          Some (s, push_back q (TlmbSyncInd sdu))
        })
   }"

definition rx_tmv_unitdata_ind :: "umac_ms \<Rightarrow> ms_queue \<Rightarrow> tmv_unitdata_ind \<Rightarrow> (umac_ms \<times> ms_queue) option" where
  "rx_tmv_unitdata_ind s q prim =
     (let lchan = ind_lchan prim in
      if lchan = Aach then map_option (\<lambda>q. (s, q)) (rx_tmv_aach s q (ind_pdu prim))
      else if lchan = Bsch then rx_tmv_bsch s q (ind_pdu prim)
      else if lchan = SchF
      then do { assert_opt (ind_block_num prim = BothBlocks); rx_tmv_sch (ind_scrambling prim) s q (ind_pdu prim) }
      else if lchan = Bnch \<or> lchan = Stch \<or> lchan = SchHd
      then do {
        assert_opt (ind_block_num prim = Block1 \<or> ind_block_num prim = Block2);
        rx_tmv_sch (ind_scrambling prim) s q (ind_pdu prim)
      }
      else None)"

record tma_unitdata_req =
  req_handle :: int
  req_pdu :: bitbuf
  req_main_address :: tetra_address
  req_air_interface_encryption :: "int option"
  req_tx_reporter :: "tx_reporter option"

definition SCH_HU_TYPE1_CAP_BITS :: nat where
  "SCH_HU_TYPE1_CAP_BITS = 92"

text \<open>A method of the reporter, if there is one; the value is the reporter afterwards.\<close>

definition tell_reporter :: "(tx_reporter, unit) comp \<Rightarrow> tx_reporter option \<Rightarrow> tx_reporter option option" where
  "tell_reporter m r =
     (case r of None \<Rightarrow> Some None | Some r \<Rightarrow> (case m r of Ok _ r' \<Rightarrow> Some (Some r') | _ \<Rightarrow> None))"

definition access_for :: "tetra_address \<Rightarrow> bool \<Rightarrow> mac_access" where
  "access_for a fill = \<lparr>acc_fill_bits = fill, acc_encrypted = False, acc_addr = Some a, acc_event_label = None,
     acc_length_ind = None, acc_frag_flag = None, acc_reservation_req = None\<rparr>"

definition rx_tma_unitdata_req :: "umac_ms \<Rightarrow> ms_queue \<Rightarrow> tma_unitdata_req \<Rightarrow> (tx_reporter option \<times> ms_queue) option" where
  "rx_tma_unitdata_req s q prim =
     (if (case req_air_interface_encryption prim of Some e \<Rightarrow> e | None \<Rightarrow> 0) \<noteq> 0
      then do { r \<leftarrow> tell_reporter mark_discarded (req_tx_reporter prim); Some (r, q) }
      else if \<not> (ssi_type (req_main_address prim) = Issi \<or> ssi_type (req_main_address prim) = Ssi)
      then do { r \<leftarrow> tell_reporter mark_discarded (req_tx_reporter prim); Some (r, q) }
      else do {
        (sdu_len, _) \<leftarrow> run_bb get_len (req_pdu prim);
        (_, probe) \<leftarrow> run_bb (access_to_bitbuf (access_for (req_main_address prim) False)) (bb_new_autoexpand 32);
        (header_len, _) \<leftarrow> run_bb get_len_written probe;
        if header_len + sdu_len > SCH_HU_TYPE1_CAP_BITS
        then do { r \<leftarrow> tell_reporter mark_discarded (req_tx_reporter prim); Some (r, q) }
        else do {
          let fill_bits = SCH_HU_TYPE1_CAP_BITS - header_len - sdu_len;
          (_, block) \<leftarrow> run_bb (access_to_bitbuf (access_for (req_main_address prim) (fill_bits > 0))) (bb_new SCH_HU_TYPE1_CAP_BITS);
          (_, pdu) \<leftarrow> run_bb (seek 0) (req_pdu prim);
          (_, block) \<leftarrow> run_bb (copy_bits pdu sdu_len) block;
          (_, block) \<leftarrow> run_bb (write_fill_bits (Some fill_bits)) block;
          (_, block) \<leftarrow> run_bb (seek 0) block;
          let q = push_back q (TmvUnitdataReq (ms_dltime s) \<lparr>mac_block = block, logical_channel = SchHu,
            scrambling_code = (case ms_scrambling s of Some c \<Rightarrow> c | None \<Rightarrow> 0)\<rparr>);
          r \<leftarrow> tell_reporter mark_transmitted (req_tx_reporter prim);
          Some (r, push_back q (TmaReportInd (req_handle prim) SuccessRandomAccess))
        }
      })"

text \<open>\<open>valid_addresses\<close> carries the network codes.\<close>

definition rx_tlmc_configure_req :: "umac_ms \<Rightarrow> ms_queue \<Rightarrow> (u16 \<times> u16) option \<Rightarrow> umac_ms \<times> ms_queue" where
  "rx_tlmc_configure_req s q valid_addresses =
     (case valid_addresses of
        Some (mcc, mnc) \<Rightarrow> update_scrambling_and_submit_to_lmac (s\<lparr>ms_mcc := Some mcc, ms_mnc := Some mnc\<rparr>) q
      | None \<Rightarrow> (s, q))"

text \<open>The primitives the station receives, and what one of them does.  The transmit report of a
  request is shared with its sender and part of the result.\<close>

datatype ms_prim = TmvInd tmv_unitdata_ind | TmaReq tma_unitdata_req | TlmcConfigure "(u16 \<times> u16) option" | TlmbPrim

fun ms_rx_prim :: "umac_ms \<Rightarrow> ms_queue \<Rightarrow> ms_prim \<Rightarrow> (tx_reporter option \<times> umac_ms \<times> ms_queue) option" where
  "ms_rx_prim s q (TmvInd prim) = map_option (\<lambda>(s, q). (None, s, q)) (rx_tmv_unitdata_ind s q prim)"
| "ms_rx_prim s q (TmaReq prim) = map_option (\<lambda>(r, q). (r, s, q)) (rx_tma_unitdata_req s q prim)"
| "ms_rx_prim s q (TlmcConfigure v) = Some (None, rx_tlmc_configure_req s q v)"
| "ms_rx_prim s q TlmbPrim = Some (None, s, q)"

section \<open>One received PDU\<close>

text \<open>A block that starts, at its cursor, with a header, a piece of an SDU and fill bits.\<close>

definition pdu_at :: "bitbuf \<Rightarrow> bool list \<Rightarrow> bool list \<Rightarrow> nat \<Rightarrow> bool list \<Rightarrow> bool" where
  "pdu_at b h p k rest \<longleftrightarrow> bb_wf b \<and> bb_pos b = bb_start b \<and> window b = h @ p @ fill_pattern k @ rest"

lemma pdu_at_facts:
  assumes "pdu_at b h p k rest"
  shows "bb_wf b" and "bb_pos b = bb_start b" and "unread b = h @ p @ fill_pattern k @ rest"
    and "window b = h @ p @ fill_pattern k @ rest"
    and "bb_end b = bb_start b + length h + length p + k + length rest"
    and "run_bb get_pos b = Some (0, b)"
proof -
  show w: "bb_wf b" "bb_pos b = bb_start b" "window b = h @ p @ fill_pattern k @ rest" using assms by (simp_all add: pdu_at_def)
  then show "unread b = h @ p @ fill_pattern k @ rest" by (simp add: unread_def window_def)
  have "length (window b) = length h + length p + k + length rest" using w(3) by simp
  then show "bb_end b = bb_start b + length h + length p + k + length rest"
    using w(1) by (auto simp: window_def bb_wf_def)
  show "run_bb get_pos b = Some (0, b)" using run_simps(1) [OF w(1)] w(2) by simp
qed

lemma try_header:
  assumes "pdu_at b h p k rest" and "parses q h v"
  shows "try_bb q b = Some (Some v, bb_adv (length h) b)"
  using parsesD [OF assms(2) pdu_at_facts(1,3) [OF assms(1)]] by (simp add: try_bb_def)

lemma fill_counted:
  assumes b: "pdu_at b h p k rest"
  shows "count_fill_bits (k > 0) (length h + length p + k) (bb_adv (length h) b) = Some k"
proof (cases "k > 0")
  case True
  note f = pdu_at_facts [OF b]
  have "get_num_fill_bits (length h + length p + k) (bb_adv (length h) b) = Ok k (bb_adv (length h) b)"
  proof (rule get_num_fill_bits_eq [OF _ True])
    show "bb_wf (bb_adv (length h) b)" using bb_wf_adv [OF f(1), of "length h"] f(3) by (simp del: length_unread)
    have w: "window (bb_adv (length h) b) = h @ p @ fill_pattern k @ rest" using f(4) by (simp add: window_def)
    then show "length h + length p + k \<le> length (window (bb_adv (length h) b))" by simp
    show "bb_pos (bb_adv (length h) b) - bb_start (bb_adv (length h) b) \<le> length h + length p" using f(2) by simp
    show "take k (drop (length h + length p) (window (bb_adv (length h) b))) = fill_pattern k" unfolding w by simp
  qed
  then show ?thesis using True by (simp add: count_fill_bits_def run_bb_def)
qed (simp add: count_fill_bits_def)

text \<open>The window is cut behind the piece.\<close>

lemma cut_piece:
  assumes b: "pdu_at b h p k rest"
  obtains b' where "run_bb (set_raw_end (bb_start b + (length h + length p))) (bb_adv (length h) b) = Some ((), b')"
    and "bb_wf b'" and "unread b' = p" and "bb_start b' = bb_start b" and "bb_buffer b' = bb_buffer b"
    and "bb_pos b' = bb_start b + length h" and "bb_end b' = bb_start b + (length h + length p)"
proof
  note f = pdu_at_facts [OF b]
  let ?b' = "(bb_adv (length h) b)\<lparr>bb_end := bb_start b + (length h + length p)\<rparr>"
  show wf: "bb_wf ?b'" using f(1,2,5) by (simp add: bb_wf_def)
  show "run_bb (set_raw_end (bb_start b + (length h + length p))) (bb_adv (length h) b) = Some ((), ?b')"
    using f(1,2,5) by (simp add: run_bb_def set_raw_end_def bb_wf_def)
  have l: "length h \<le> length (unread b)" using f(3) by (simp del: length_unread)
  have "unread (bb_adv (length h) b) = p @ fill_pattern k @ rest" using unread_adv [OF l] f(3) by simp
  moreover have "length p \<le> length (unread (bb_adv (length h) b))" using f(2,5) by simp
  ultimately have "bb_slice (bb_buffer b) (bb_pos b + length h) (bb_pos b + length h + length p) = p"
    using take_unread [of "length p" "bb_adv (length h) b"] by (simp del: length_unread)
  then show "unread ?b' = p" using f(2) by (simp add: unread_def add.assoc)
qed (use pdu_at_facts(2) [OF b] in simp_all)

text \<open>And the window is moved behind the PDU.\<close>

lemma advance_piece:
  assumes b: "pdu_at b h p k rest" and b': "bb_start b' = bb_start b" "bb_buffer b' = bb_buffer b" "bb_pos b' \<le> bb_end b"
    "bb_start b' \<le> bb_end b" "bb_start b \<le> bb_pos b'"
  obtains b'' where "advance_window (bb_end b) (length h + length p + k) b' = Some b''" and "bb_wf b''"
    and "bb_pos b'' = bb_start b''" and "bb_start b'' = bb_start b + (length h + length p + k)" and "bb_end b'' = bb_end b"
    and "window b'' = rest"
proof
  note f = pdu_at_facts [OF b]
  let ?n = "length h + length p + k"
  let ?b = "b'\<lparr>bb_end := bb_end b, bb_pos := bb_start b + ?n, bb_start := bb_start b + ?n\<rparr>"
  have len: "bb_end b \<le> length (bb_buffer b) * 8" using f(1) by (simp add: bb_wf_def)
  show "advance_window (bb_end b) ?n b' = Some ?b"
    using b' f(5) len by (simp add: advance_window_def run_bb_def set_raw_end_def set_raw_pos_def set_raw_start_def)
  show "bb_wf ?b" using f(5) len b' by (simp add: bb_wf_def)
  have "?n \<le> length (unread b)" using f(2,5) by simp
  then have "unread (bb_adv ?n b) = rest" using unread_adv [of ?n b] f(3) by simp
  then show "window ?b = rest" using f(2) b' by (simp add: window_def unread_def)
qed simp_all

lemma from_pos_unread:
  assumes "bb_wf b"
  obtains sdu where "bb_from_bitbuffer_pos b = Some sdu" and "unread sdu = unread b"
proof -
  have "bb_pos b \<le> bb_end b" using assms by (simp add: bb_wf_def)
  then obtain sdu where "bb_slice_from (bb_pos b) (bb_end b - bb_pos b) b = Some sdu"
    "window sdu = bb_slice (bb_buffer b) (bb_pos b) (bb_end b)" "bb_pos sdu = bb_start sdu"
    using bb_slice_from_eq [OF assms] by blast
  then show thesis
    using that get_len_remaining_eq [OF assms] by (simp add: bb_from_bitbuffer_pos_def unread_def window_def)
qed


section \<open>The invariant of the station\<close>

lemma try_safe_wf: "safe p \<Longrightarrow> try_bb p b = Some (r, b') \<Longrightarrow> bb_wf b \<Longrightarrow> bb_wf b'"
  by (auto simp: try_bb_def dest: safeD forward_wf split: outcome.splits)

lemma set_raw_end_wf: "run_bb (set_raw_end e) b = Some (u, b') \<Longrightarrow> bb_wf b \<Longrightarrow> bb_wf b'"
  by (auto simp: run_bb_def set_raw_end_def bb_wf_def split: if_splits)

lemma advance_window_wf: "advance_window e n b = Some b' \<Longrightarrow> bb_wf b \<Longrightarrow> bb_wf b'"
  by (auto simp: advance_window_def run_bb_def set_raw_end_def set_raw_pos_def set_raw_start_def bb_wf_def split: if_splits)

lemma append_rest_wf: "bb_wf src \<Longrightarrow> holds dst xs \<Longrightarrow> append_rest src dst = Some (src', dst') \<Longrightarrow> bb_wf src'"
  using append_rest_holds [of src dst xs] bb_wf_adv [of src "length (unread src)"] by auto

lemma ms_insert_first_inv:
  assumes inv: "ms_inv ms" and b: "bb_wf b" and r: "ms_insert_first ms b t a aie = Some (b', ms')"
  shows "ms_inv ms'" and "bb_wf b'"
proof -
  have "place_ok (t, a, aie)" using r by (auto simp: place_ok_def ms_insert_first_def bind_eq_Some_conv)
  then show "ms_inv ms'" using ms_first_law [OF inv _ b, of "(t, a, aie)"] r by (auto simp: ms_first_def)
  obtain i where i: "ts_index t = Some i" using r by (auto simp: ms_insert_first_def bind_eq_Some_conv)
  then have "ms_buffer_ok (ms ! i)" using inv ts_index_less by (auto simp: ms_inv_def)
  then have "holds (db_buffer (if db_state (ms ! i) \<noteq> Inactive then defrag_buffer_reset (ms ! i) else ms ! i)) []"
    by (auto simp: ms_buffer_ok_def defrag_buffer_reset_def holds_new)
  then show "bb_wf b'"
    using r i append_rest_wf [OF b] by (auto simp: ms_insert_first_def buffer_start_def bind_eq_Some_conv Let_def split: if_splits)
qed

lemma ms_insert_piece_wf:
  assumes inv: "ms_inv ms" and b: "bb_wf b" and r: "ms_insert_piece st ms b t = Some (b', ms')"
  shows "bb_wf b'"
proof -
  obtain i where i: "ts_index t = Some i" using r by (auto simp: ms_insert_piece_def bind_eq_Some_conv)
  then have "ms_buffer_ok (ms ! i)" using inv ts_index_less by (auto simp: ms_inv_def)
  then have "db_state (ms ! i) = Active \<Longrightarrow> holds (db_buffer (ms ! i)) (window (db_buffer (ms ! i)))" by (simp add: ms_buffer_ok_def)
  then show ?thesis
    using r i b append_rest_wf [OF b] by (auto simp: ms_insert_piece_def bind_eq_Some_conv Let_def split: if_splits)
qed

lemma ms_insert_next_inv:
  assumes inv: "ms_inv ms" and b: "bb_wf b" and r: "ms_insert_next ms b t = Some (b', ms')"
  shows "ms_inv ms'" and "bb_wf b'"
proof -
  have "place_ok (t, undefined, None)" using r by (auto simp: place_ok_def ms_insert_next_def ms_insert_piece_def bind_eq_Some_conv)
  then show "ms_inv ms'" using ms_next_law [OF inv _ b, of "(t, undefined, None)"] r by (auto simp: ms_next_def)
  show "bb_wf b'" using ms_insert_piece_wf [OF inv b] r by (auto simp: ms_insert_next_def)
qed

lemma ms_insert_last_inv:
  assumes inv: "ms_inv ms" and b: "bb_wf b" and r: "ms_insert_last ms b t = Some (b', ms1)"
    and take: "take_defragged_buf ms1 t = Some (d, ms')"
  shows "ms_inv ms'" and "bb_wf b'"
proof -
  have "place_ok (t, undefined, None)" using r by (auto simp: place_ok_def ms_insert_last_def ms_insert_piece_def bind_eq_Some_conv)
  then show "ms_inv ms'" using ms_last_law [OF inv _ b, of "(t, undefined, None)"] r take by (auto simp: ms_last_def)
  show "bb_wf b'" using ms_insert_piece_wf [OF inv b] r by (auto simp: ms_insert_last_def)
qed

definition station_ok :: "umac_ms \<Rightarrow> bitbuf \<Rightarrow> bool" where
  "station_ok s b \<longleftrightarrow> ms_inv (ms_frags s) \<and> bb_wf b"

lemma deliver_ok:
  assumes "station_ok s b"
  shows "ensures (deliver_resource scr pdu a s q b) (\<lambda>(s', q', b'). station_ok s' b')"
  using assms unfolding deliver_resource_def station_ok_def
  by (intro ensures_rules) (auto dest: ms_insert_first_inv [rotated 2])

lemma rx_resource_body_ok:
  assumes "station_ok s b"
  shows "ensures (rx_resource_body scr pdu len n s q b) (\<lambda>(s', q', b'). station_ok s' b')"
  using assms unfolding rx_resource_body_def
  by (intro ensures_rules)
    (auto simp: station_ok_def dest!: ensuresD [OF deliver_ok, rotated] dest: set_raw_end_wf advance_window_wf)

lemma rx_mac_resource_ok:
  assumes "station_ok s b"
  shows "ensures (rx_mac_resource scr s q b) (\<lambda>(s', q', b'). station_ok s' b')"
  using assms unfolding rx_mac_resource_def
  by (intro ensures_rules rx_resource_body_ok) (auto simp: station_ok_def dest: try_safe_wf [OF safe_mac_dl(1)])

lemma rx_mac_frag_ok:
  assumes "station_ok s b"
  shows "ensures (rx_mac_frag s b) (\<lambda>(s', b'). station_ok s' b')"
  using assms unfolding rx_mac_frag_def station_ok_def
  by (intro ensures_rules) (auto dest: try_safe_wf [OF safe_mac_dl(2)] set_raw_end_wf ms_insert_next_inv [rotated 2])

lemma rx_mac_end_ok:
  assumes "station_ok s b"
  shows "ensures (rx_mac_end scr s q b) (\<lambda>(s', q', b'). station_ok s' b')"
  using assms unfolding rx_mac_end_def station_ok_def
  by (intro ensures_rules)
    (auto dest: try_safe_wf [OF safe_mac_dl(3)] set_raw_end_wf ms_insert_last_inv [rotated 2] advance_window_wf)

lemma rx_pdu_ok:
  assumes "station_ok s b"
  shows "ensures (rx_pdu scr t bits s q b) (\<lambda>(s', q', b'). ms_inv (ms_frags s') \<and> (bb_wf b' \<or> bb_start b' = bb_start b))"
  using assms ensuresD [OF rx_mac_resource_ok [OF assms]] ensuresD [OF rx_mac_end_ok [OF assms]]
    ensuresD [OF rx_mac_frag_ok [OF assms]] ensuresD [OF rx_broadcast_moved]
  by (fastforce simp: rx_pdu_def ensures_def station_ok_def split: mac_pdu_type.splits if_splits)

lemma sch_round_ok:
  assumes "station_ok s b"
  shows "ensures (sch_round scr s q b) (\<lambda>((s', q', b'), again). ms_inv (ms_frags s') \<and> (again \<longrightarrow> bb_wf b'))"
  using assms unfolding sch_round_def
  by (intro ensures_rules) (auto simp: station_ok_def dest: ensuresD [OF rx_pdu_ok, rotated])

lemma rx_tmv_sch_ok:
  "station_ok s b \<Longrightarrow> ensures (rx_tmv_sch scr s q b) (\<lambda>(s', q'). ms_inv (ms_frags s'))"
proof (induction scr s q b rule: rx_tmv_sch.induct)
  case (1 scr s q b)
  have IH: "ensures (rx_tmv_sch scr s' q' b') (\<lambda>(s', q'). ms_inv (ms_frags s'))"
    if "sch_round scr s q b = Some ((s', q', b'), True)" for s' q' b'
    using 1(1) [OF that] ensuresD [OF sch_round_ok [OF 1(2)] that] by (simp add: station_ok_def)
  show ?case
    unfolding rx_tmv_sch.simps [of scr s q b]
    using IH ensuresD [OF sch_round_ok [OF 1(2)], of scr q]
    by (intro ensures_rules) (auto split: if_splits)
qed

fun prim_wf :: "ms_prim \<Rightarrow> bool" where
  "prim_wf (TmvInd prim) = bb_wf (ind_pdu prim)"
| "prim_wf _ = True"

lemma update_scrambling_frags: "ms_frags (fst (update_scrambling_and_submit_to_lmac s q)) = ms_frags s"
  by (simp add: update_scrambling_and_submit_to_lmac_def Let_def split: option.split)

lemma ms_rx_prim_ok:
  assumes "ms_inv (ms_frags s)" and "prim_wf p"
  shows "ensures (ms_rx_prim s q p) (\<lambda>(r, s', q'). ms_inv (ms_frags s'))"
proof (cases p)
  case (TmvInd prim)
  have "ensures (rx_tmv_bsch s q (ind_pdu prim)) (\<lambda>(s', q'). ms_inv (ms_frags s'))"
    unfolding rx_tmv_bsch_def
    using assms(1) update_scrambling_frags by (intro ensures_rules) (auto dest!: arg_cong [where f = fst] simp: update_scrambling_frags)
  moreover have "ensures (rx_tmv_sch scr s q (ind_pdu prim)) (\<lambda>(s', q'). ms_inv (ms_frags s'))" for scr
    using rx_tmv_sch_ok assms TmvInd by (simp add: station_ok_def)
  ultimately have "ensures (rx_tmv_unitdata_ind s q prim) (\<lambda>(s', q'). ms_inv (ms_frags s'))"
    unfolding rx_tmv_unitdata_ind_def using assms(1) by (intro ensures_rules) auto
  then show ?thesis using TmvInd by (auto simp: ensures_def)
next
  case (TlmcConfigure v)
  then show ?thesis
    using assms(1) update_scrambling_frags
    by (auto simp: ensures_def rx_tlmc_configure_req_def split: option.splits prod.splits dest!: arg_cong [where f = fst])
qed (use assms(1) in \<open>auto simp: ensures_def\<close>)

text \<open>A station that receives one primitive after the other, with the reports of its requests.\<close>

fun ms_run :: "umac_ms \<Rightarrow> ms_queue \<Rightarrow> ms_prim list \<Rightarrow> (umac_ms \<times> ms_queue) option" where
  "ms_run s q [] = Some (s, q)"
| "ms_run s q (p # ps) = do { (_, s, q) \<leftarrow> ms_rx_prim s q p; ms_run s q ps }"

lemma ms_run_ok:
  "ms_inv (ms_frags s) \<Longrightarrow> \<forall>p \<in> set ps. prim_wf p \<Longrightarrow> ensures (ms_run s q ps) (\<lambda>(s', q'). ms_inv (ms_frags s'))"
proof (induction ps arbitrary: s q)
  case (Cons p ps)
  then show ?case
    by (simp only: ms_run.simps) (intro ensures_rules, auto dest: ensuresD [OF ms_rx_prim_ok, rotated 2])
qed (simp add: ensures_def)


section \<open>The scrambling code\<close>

definition scrambling_code_of :: "u16 \<Rightarrow> u16 \<Rightarrow> u8 \<Rightarrow> u32" where
  "scrambling_code_of mcc mnc cc = push_bit 2 (ucast cc OR push_bit 6 (ucast mnc) OR push_bit 20 (ucast mcc)) OR 3"

lemma fits_bit: "fits n w \<Longrightarrow> bit w i \<Longrightarrow> i < n"
proof (rule ccontr)
  assume "fits n w" "bit w i" "\<not> i < n"
  then have "bit (drop_bit n w) (i - n)" by (simp add: bit_drop_bit_eq)
  then show False using \<open>fits n w\<close> by (simp add: fits_def flip: drop_bit_0_iff)
qed

text \<open>The fields of the code, when the network codes have the widths of the standard.\<close>

lemma scrambling_code_fields:
  assumes "fits 6 cc" and "fits 14 mnc" and "fits 10 mcc"
  shows "take_bit 6 (drop_bit 2 (scrambling_code_of mcc mnc cc)) = ucast cc"
    and "take_bit 14 (drop_bit 8 (scrambling_code_of mcc mnc cc)) = ucast mnc"
    and "drop_bit 22 (scrambling_code_of mcc mnc cc) = ucast mcc"
proof -
  note b = fits_bit [OF assms(1)] fits_bit [OF assms(2)] fits_bit [OF assms(3)]
  have three: "bit (3 :: u32) i \<longleftrightarrow> i < 2" for i
    by (simp add: bit_numeral_rec(2) bit_1_iff split: nat.split) (auto simp: less_Suc_eq numeral_2_eq_2)
  note e = scrambling_code_of_def bit_take_bit_iff bit_drop_bit_eq bit_or_iff bit_push_bit_iff bit_ucast_iff three
  show "take_bit 6 (drop_bit 2 (scrambling_code_of mcc mnc cc)) = ucast cc"
    by (rule bit_word_eqI) (auto simp: e dest: b)
  show "take_bit 14 (drop_bit 8 (scrambling_code_of mcc mnc cc)) = ucast mnc"
    by (rule bit_word_eqI) (auto simp: e dest: b)
  show "drop_bit 22 (scrambling_code_of mcc mnc cc) = ucast mcc"
    by (rule bit_word_eqI) (auto simp: e dest: b)
qed

lemma update_scrambling_eq:
  assumes "ms_mcc s = Some mcc" and "ms_mnc s = Some mnc" and "ms_cc s = Some cc"
  shows "update_scrambling_and_submit_to_lmac s q = (s\<lparr>ms_scrambling := Some (scrambling_code_of mcc mnc cc)\<rparr>,
    push_back q (TmvConfigureReq (Some (scrambling_code_of mcc mnc cc)) None None))"
  using assms by (simp add: update_scrambling_and_submit_to_lmac_def scrambling_code_of_def Let_def)

section \<open>Random access\<close>

lemma access_for_valid: "fits 24 (ssi a) \<Longrightarrow> ssi_type a = Issi \<or> ssi_type a = Ssi \<Longrightarrow> access_valid (access_for a fill)"
  by (auto simp: access_valid_def access_for_def ul_addr_ok_def)

lemma length_access_for: "length (access_bits (access_for a fill)) = 30"
  by (simp add: access_bits_def access_for_def ul_addr_bits_def access_opt_bits_def)

lemma random_access_block:
  assumes pdu: "bb_wf (req_pdu prim)" "length (window (req_pdu prim)) \<le> 62"
    and a: "fits 24 (ssi (req_main_address prim))" "ssi_type (req_main_address prim) = Issi \<or> ssi_type (req_main_address prim) = Ssi"
    and enc: "req_air_interface_encryption prim = None \<or> req_air_interface_encryption prim = Some 0"
    and rep: "\<And>r. req_tx_reporter prim = Some r \<Longrightarrow> get_state r = Pending \<and> cell_ok r"
  defines "k \<equiv> 62 - length (window (req_pdu prim))"
  obtains block where "rx_tma_unitdata_req s q prim = Some (map_option (\<lambda>r. r\<lparr>tx_cell := tx_raw Transmitted\<rparr>) (req_tx_reporter prim),
      q @ [TmvUnitdataReq (ms_dltime s) \<lparr>mac_block = block, logical_channel = SchHu,
             scrambling_code = (case ms_scrambling s of Some c \<Rightarrow> c | None \<Rightarrow> 0)\<rparr>,
           TmaReportInd (req_handle prim) SuccessRandomAccess])"
    and "bb_wf block" and "unread block = access_bits (access_for (req_main_address prim) (k > 0)) @ window (req_pdu prim) @ fill_pattern k"
proof -
  let ?a = "req_main_address prim" and ?pdu = "req_pdu prim\<lparr>bb_pos := bb_start (req_pdu prim)\<rparr>"
  define n where "n = length (window (req_pdu prim))"
  note v = access_for_valid [OF a]
  obtain probe where pr: "run_bb (access_to_bitbuf (access_for ?a False)) (bb_new_autoexpand 32) = Some ((), probe)"
    "wrote (bb_new_autoexpand 32) (access_bits (access_for ?a False)) probe"
    using run_emits [OF mac_access.enc_emits [OF v]] can_write_new(2) by metis
  have probe: "bb_wf probe" "length (written probe) = 30"
    using pr(2) by (simp_all add: wrote_def written_def length_access_for bb_new_autoexpand_def)
  have sk: "run_bb (seek 0) (req_pdu prim) = Some ((), ?pdu)" "bb_wf ?pdu" "unread ?pdu = window (req_pdu prim)"
    using seek_0_eq [OF pdu(1)] by (simp_all add: run_bb_def)
  have nk: "30 + n + k = 92" using pdu(2) by (simp add: k_def n_def)
  have cw: "can_write (length (access_bits (access_for ?a (k > 0))) + n + k) (bb_new 92)"
    using nk by (intro can_write_new) (simp add: length_access_for)
  have le: "n \<le> length (unread ?pdu)" unfolding sk(3) n_def by simp
  obtain b1 b2 b3 where b: "run_bb (access_to_bitbuf (access_for ?a (k > 0))) (bb_new 92) = Some ((), b1)"
    "run_bb (copy_bits ?pdu n) b1 = Some (bb_adv n ?pdu, b2)" "run_bb (write_fill_bits (Some k)) b2 = Some ((), b3)"
    "wrote (bb_new 92) (access_bits (access_for ?a (k > 0)) @ take n (unread ?pdu) @ fill_pattern k) b3"
    by (rule write_pieces [OF mac_access.enc_emits [OF v] sk(2) le emits_fill cw])
  have wf3: "bb_wf b3" and w3: "window b3 = access_bits (access_for ?a (k > 0)) @ window (req_pdu prim) @ fill_pattern k"
    using b(4) nk unfolding sk(3) n_def
    by (auto simp: wrote_def window_def [of b3] length_access_for bb_new_def max_def simp del: length_unread)
  have sk3: "run_bb (seek 0) b3 = Some ((), b3\<lparr>bb_pos := bb_start b3\<rparr>)" "bb_wf (b3\<lparr>bb_pos := bb_start b3\<rparr>)"
    "unread (b3\<lparr>bb_pos := bb_start b3\<rparr>) = window b3"
    using seek_0_eq [OF wf3] by (simp_all add: run_bb_def)
  have tell: "tell_reporter mark_transmitted (req_tx_reporter prim) = Some (map_option (\<lambda>r. r\<lparr>tx_cell := tx_raw Transmitted\<rparr>) (req_tx_reporter prim))"
    using rep by (auto simp: tell_reporter_def mark_transmitted_def mark_def compare_exchange_def cell_ok_def split: option.split)
  have kn: "62 - n = k" "n < 62 \<longleftrightarrow> 0 < k" using nk by auto
  show thesis
    using that [of "b3\<lparr>bb_pos := bb_start b3\<rparr>"] pr(1) run_simps(4) [OF probe(1)] probe(2) run_simps(2) [OF pdu(1)] b(1-3) sk(1) sk3 w3 tell enc a(2) nk
    by (auto simp: rx_tma_unitdata_req_def SCH_HU_TYPE1_CAP_BITS_def push_back_def Let_def n_def [symmetric] kn simp del: length_unread)
qed

section \<open>Properties\<close>

text \<open>C12: the loop over the PDUs of a signalling block always ends, on every block and in every state,
  after at most one PDU for every octet of the block and one more.\<close>

theorem signalling_loop_ends: "sch_pdus scr s q b \<le> 1 + (bb_end b - bb_start b) div 8"
  by (rule sch_pdus_bound)

text \<open>C13: whatever primitives a new station receives, as long as it does not panic, every buffer of its
  defragmenter is in order: inactive and empty, or active and holding exactly the bits collected so
  far behind its start.\<close>

theorem station_invariant:
  assumes "\<forall>p \<in> set ps. prim_wf p" and "ms_run umac_ms_new q ps = Some (s, q')"
  shows "ms_inv (ms_frags s)"
proof -
  have "ms_inv (ms_frags umac_ms_new)" by (simp add: umac_ms_new_def ms_inv_new)
  then show ?thesis using ensuresD [OF ms_run_ok assms(2)] assms(1) by simp
qed

theorem station_invariant_witness:
  "\<exists>s q. ms_run umac_ms_new [] [TlmcConfigure (Some (262, 1)), TlmbPrim,
       TmvInd \<lparr>ind_pdu = bb_from_vec [], ind_block_num = BothBlocks, ind_lchan = SchF, ind_scrambling = 3\<rparr>] = Some (s, q)
     \<and> ms_inv (ms_frags s)"
proof -
  have "peek_bits 3 (bb_from_vec []) = Ok None (bb_from_vec [])"
    using peek_bits_eq [OF bb_wf_new(3), of 3 "[]"] by (simp add: bb_from_vec_def)
  then have "ms_run umac_ms_new [] [TlmcConfigure (Some (262, 1)), TlmbPrim,
       TmvInd \<lparr>ind_pdu = bb_from_vec [], ind_block_num = BothBlocks, ind_lchan = SchF, ind_scrambling = 3\<rparr>]
     = Some (umac_ms_new\<lparr>ms_mcc := Some 262, ms_mnc := Some 1\<rparr>, [])"
    by (simp add: rx_tlmc_configure_req_def update_scrambling_and_submit_to_lmac_def umac_ms_new_def rx_tmv_unitdata_ind_def
        rx_tmv_sch.simps [of _ _ _ "bb_from_vec []"] sch_round_def run_bb_def)
  moreover from this have "ms_inv (ms_frags (umac_ms_new\<lparr>ms_mcc := Some 262, ms_mnc := Some 1\<rparr>))"
    by (rule station_invariant [rotated]) simp
  ultimately show ?thesis by blast
qed

text \<open>C22: a block that starts with a broadcast PDU of the reserved broadcast type, or with fewer than four
  bits of a broadcast PDU, makes the station panic instead of being dropped.\<close>

theorem reserved_broadcast_type_panics:
  assumes "bb_wf b" and "take 4 (unread b) = [True, False, True, True] \<or> unread b = [True, False, x]"
  shows "rx_tmv_sch scr s q b = None"
proof -
  obtain z ys where u: "unread b = True # False # z # ys" and ys: "ys = [] \<or> z \<and> (\<exists>zs. ys = True # zs)"
    using assms(2) by (auto simp: numeral_eq_Suc take_Suc_conv_app_nth) (metis append_take_drop_id append_Cons append_Nil)
  have l: "length (unread b) = 3 + length ys" using u by simp
  have "rx_broadcast s q b = None"
  proof -
    have two: "of_bits [True, False] = (2 :: u64)" and three: "of_bits [True, True] = (3 :: u64)" by (simp_all add: of_bits_def)
    have "peek_bits_posoffset 2 2 b = Ok (if ys = [] then None else Some 3) b"
      using peek_bits_posoffset_eq [OF assms(1), of 2 2] l ys three unfolding u by (auto simp del: length_unread)
    moreover have "peek_bits 2 b = Ok (Some 2) b"
      using peek_bits_eq [OF assms(1), of 2] l two unfolding u by (simp del: length_unread)
    ultimately show ?thesis by (simp add: rx_broadcast_def run_bb_def broadcast_type_try_from_def)
  qed
  moreover have "peek_bits 3 b = Ok (Some (of_bits [True, False, z])) b"
    using peek_bits_eq [OF assms(1), of 3] l unfolding u by (simp add: numeral_3_eq_3 del: length_unread)
  moreover have "mac_pdu_type_try_from (drop_bit 1 (of_bits [True, False, z])) = Some Broadcast"
    by (cases z) (simp_all add: of_bits_def mac_pdu_type_try_from_def)
  ultimately have "sch_round scr s q b = None" by (simp add: sch_round_def run_bb_def rx_pdu_def)
  then show ?thesis by (simp add: rx_tmv_sch.simps [of scr s q b])
qed

theorem reserved_broadcast_type_panics_witness: "rx_tmv_sch 3 umac_ms_new [] (bb_from_vec [0xB0]) = None"
proof (rule reserved_broadcast_type_panics [where x = False])
  have "unread (bb_from_vec [0xB0]) = bb_slice [0xB0] (8 * 0) (8 * 0 + 8)" by (simp add: unread_def bb_from_vec_def)
  also have "\<dots> = [True, False, True, True, False, False, False, False]"
    unfolding bb_slice_byte by (simp add: msb_bits_def upt_rec)
  finally show "take 4 (unread (bb_from_vec [0xB0])) = [True, False, True, True] \<or> unread (bb_from_vec [0xB0]) = [True, False, False]"
    by simp
qed simp

text \<open>C14: a request to send at most 62 bits to an individual address is answered by exactly one random
  access block and one report, in this order, and its receipt is marked as transmitted.  The block is
  full, and its receiver reads back a MAC-ACCESS with the address of the request, followed by the
  bits of the SDU and the fill bits.\<close>

theorem random_access_round_trip:
  assumes "bb_wf (req_pdu prim)" and "length (window (req_pdu prim)) \<le> 62" and "fits 24 (ssi (req_main_address prim))"
    and "ssi_type (req_main_address prim) = Issi \<or> ssi_type (req_main_address prim) = Ssi"
    and "req_air_interface_encryption prim = None \<or> req_air_interface_encryption prim = Some 0"
    and "req_tx_reporter prim = Some r" and "get_state r = Pending" and "cell_ok r"
  shows "\<exists>block b'. rx_tma_unitdata_req s q prim = Some (Some (r\<lparr>tx_cell := tx_raw Transmitted\<rparr>),
      q @ [TmvUnitdataReq (ms_dltime s) \<lparr>mac_block = block, logical_channel = SchHu,
             scrambling_code = (case ms_scrambling s of Some c \<Rightarrow> c | None \<Rightarrow> 0)\<rparr>,
           TmaReportInd (req_handle prim) SuccessRandomAccess])
    \<and> length (unread block) = SCH_HU_TYPE1_CAP_BITS
    \<and> access_from_bitbuf block = Ok (access_for ((req_main_address prim)\<lparr>ssi_type := Issi\<rparr>) (length (window (req_pdu prim)) < 62)) b'
    \<and> unread b' = window (req_pdu prim) @ fill_pattern (62 - length (window (req_pdu prim)))"
proof -
  let ?k = "62 - length (window (req_pdu prim))" and ?a = "req_main_address prim"
  have rep: "get_state r' = Pending \<and> cell_ok r'" if "req_tx_reporter prim = Some r'" for r' using that assms(6-8) by simp
  obtain block where b: "rx_tma_unitdata_req s q prim = Some (map_option (\<lambda>r. r\<lparr>tx_cell := tx_raw Transmitted\<rparr>) (req_tx_reporter prim),
      q @ [TmvUnitdataReq (ms_dltime s) \<lparr>mac_block = block, logical_channel = SchHu,
             scrambling_code = (case ms_scrambling s of Some c \<Rightarrow> c | None \<Rightarrow> 0)\<rparr>,
           TmaReportInd (req_handle prim) SuccessRandomAccess])" "bb_wf block"
    "unread block = access_bits (access_for ?a (?k > 0)) @ window (req_pdu prim) @ fill_pattern ?k"
    by (rule random_access_block [OF assms(1-5) rep])
  let ?n = "length (access_bits (access_for ?a (?k > 0)))"
  have p: "access_from_bitbuf block = Ok (access_norm (access_for ?a (?k > 0))) (bb_adv ?n block)"
    by (rule parsesD [OF mac_access.dec_parses [OF access_for_valid [OF assms(3,4)]] b(2,3)])
  have norm: "access_norm (access_for ?a f) = access_for (?a\<lparr>ssi_type := Issi\<rparr>) f" for f
    using assms(4) by (auto simp: access_norm_def access_for_def ul_addr_norm_def)
  have l: "length (unread block) = 92" unfolding b(3) using assms(2) by (simp add: length_access_for)
  have "unread (bb_adv ?n block) = window (req_pdu prim) @ fill_pattern ?k"
    using unread_adv [of ?n block] l unfolding b(3) by (simp add: length_access_for)
  then show ?thesis
    using b(1) l p assms(6) unfolding norm by (intro exI [of _ block] exI [of _ "bb_adv ?n block"]) (simp add: SCH_HU_TYPE1_CAP_BITS_def)
qed

definition example_request :: tma_unitdata_req where
  "example_request = \<lparr>req_handle = 7, req_pdu = bb_from_vec [1, 2, 3], req_main_address = \<lparr>ssi = 1234, ssi_type = Ssi\<rparr>,
     req_air_interface_encryption = None, req_tx_reporter = Some reporter_new\<rparr>"

theorem random_access_round_trip_witness:
  "\<exists>block b'. rx_tma_unitdata_req umac_ms_new [] example_request = Some (Some (reporter_new\<lparr>tx_cell := tx_raw Transmitted\<rparr>),
      [TmvUnitdataReq tdma_default \<lparr>mac_block = block, logical_channel = SchHu, scrambling_code = 0\<rparr>,
       TmaReportInd 7 SuccessRandomAccess])
    \<and> access_from_bitbuf block = Ok (access_for \<lparr>ssi = 1234, ssi_type = Issi\<rparr> True) b'"
proof -
  have l: "length (window (bb_from_vec [1, 2, 3])) = 24" by (simp add: window_def bb_from_vec_def)
  have "bb_wf (req_pdu example_request)" "length (window (req_pdu example_request)) \<le> 62"
    "fits 24 (ssi (req_main_address example_request))"
    "ssi_type (req_main_address example_request) = Issi \<or> ssi_type (req_main_address example_request) = Ssi"
    "req_air_interface_encryption example_request = None \<or> req_air_interface_encryption example_request = Some 0"
    "req_tx_reporter example_request = Some reporter_new" "get_state reporter_new = Pending" "cell_ok reporter_new"
    using l cell_ok_new(1) by (simp_all add: example_request_def fits_def) (simp add: get_state_def reporter_new_def from_raw_def)
  from random_access_round_trip [OF this, of umac_ms_new "[]"] show ?thesis
    using l by (auto simp: example_request_def umac_ms_new_def)
qed

text \<open>C23: once the network codes and the colour code are known, the station configures the lower MAC with a
  scrambling code.  For a colour code other than 0 it is the code the base station scrambles with; its
  fields are, from the least significant end, two ones, the colour code, the network code and the country
  code, so that codes that fit their fields are told apart by it.  For colour code 0 the two sides differ:
  the base station uses code 0, the station never does.\<close>

theorem scrambling_code_matches_unless_colour_zero:
  assumes "ms_mcc s = Some mcc" and "ms_mnc s = Some mnc" and "ms_cc s = Some cc"
    and "fits 10 mcc" and "fits 14 mnc" and "fits 6 cc"
  shows "\<exists>code. update_scrambling_and_submit_to_lmac s q
      = (s\<lparr>ms_scrambling := Some code\<rparr>, q @ [TmvConfigureReq (Some code) None None])
    \<and> (if cc = 0 then tetra_scramb_get_init mcc mnc cc = 0 \<and> code \<noteq> 0
       else code = tetra_scramb_get_init mcc mnc cc \<and> take_bit 2 code = 3 \<and> take_bit 6 (drop_bit 2 code) = ucast cc
         \<and> take_bit 14 (drop_bit 8 code) = ucast mnc \<and> drop_bit 22 code = ucast mcc)"
proof -
  have "take_bit 2 (scrambling_code_of mcc mnc cc) = 3"
    by (simp add: scrambling_code_of_def take_bit_or take_bit_push_bit)
  moreover from this have "scrambling_code_of mcc mnc cc \<noteq> 0" by auto
  moreover have "scrambling_code_of mcc mnc cc = tetra_scramb_get_init mcc mnc cc" if "cc \<noteq> 0"
    using that by (simp add: scrambling_code_of_def tetra_scramb_get_init_def SCRAMB_INIT_def)
  ultimately show ?thesis
    using update_scrambling_eq [OF assms(1-3), of q] scrambling_code_fields [OF assms(6,5,4)]
    by (auto simp: push_back_def tetra_scramb_get_init_def)
qed

theorem scrambling_code_matches_unless_colour_zero_witness:
  "(\<exists>code. update_scrambling_and_submit_to_lmac (umac_ms_new\<lparr>ms_mcc := Some 262, ms_mnc := Some 1001, ms_cc := Some 17\<rparr>) []
      = (umac_ms_new\<lparr>ms_mcc := Some 262, ms_mnc := Some 1001, ms_cc := Some 17, ms_scrambling := Some code\<rparr>,
         [TmvConfigureReq (Some code) None None])
    \<and> code = tetra_scramb_get_init 262 1001 17 \<and> take_bit 6 (drop_bit 2 code) = 17)
   \<and> (\<exists>code. update_scrambling_and_submit_to_lmac (umac_ms_new\<lparr>ms_mcc := Some 262, ms_mnc := Some 1001, ms_cc := Some 0\<rparr>) []
      = (umac_ms_new\<lparr>ms_mcc := Some 262, ms_mnc := Some 1001, ms_cc := Some 0, ms_scrambling := Some code\<rparr>,
         [TmvConfigureReq (Some code) None None])
    \<and> code \<noteq> tetra_scramb_get_init 262 1001 0)"
proof -
  let ?s = "\<lambda>cc. umac_ms_new\<lparr>ms_mcc := Some 262, ms_mnc := Some 1001, ms_cc := Some cc\<rparr>"
  have "ms_mcc (?s cc) = Some 262" "ms_mnc (?s cc) = Some 1001" "ms_cc (?s cc) = Some cc" for cc by simp_all
  note w = scrambling_code_matches_unless_colour_zero [OF this, of _ "[]"]
  have "fits 10 (262 :: u16)" "fits 14 (1001 :: u16)" "fits 6 (17 :: u8)" "fits 6 (0 :: u8)" by (simp_all add: fits_def)
  from w [OF this(1-3)] w [OF this(1,2,4)] show ?thesis by auto
qed

end
