(* ===== verification/Ms_Delivery.thy ===== *)
theory Ms_Delivery
  imports Umac_Ms
begin

unbundle bit_operations_syntax

text \<open>
  The downlink path of an SDU: the fragmenter of the base station (\<^verbatim>\<open>bs_frag.rs\<close>) writes MAC blocks
  and the upper MAC of the mobile station (\<^verbatim>\<open>umac_ms.rs\<close>) receives them.  The theory says what
  the station does with every PDU the fragmenter writes, and composes the two: after a bounded
  number of blocks the SDU is delivered once, bit for bit, to the address it was sent to.
\<close>

section \<open>MAC-RESOURCE\<close>

lemma parse_resource:
  assumes "resource_valid r"
  shows "parses resource_from_bitbuf (resource_bits r) (resource_norm r)"
  by (rule mac_resource.dec_parses [OF assms])

lemma resource_norm_simps:
  assumes "resource_valid r" and "\<not> is_null_pdu r"
  shows "res_length_ind (resource_norm r) = res_length_ind r" "res_fill_bits (resource_norm r) = res_fill_bits r"
    "addr (resource_norm r) = map_option addr_norm (addr r)" "encryption_mode (resource_norm r) = 0"
  using assms by (simp_all add: resource_norm_def resource_valid_def)

lemma rx_resource_step:
  assumes b: "pdu_at b (resource_bits r) p k rest" and v: "resource_valid r" "\<not> is_null_pdu r" "addr r = Some a"
    and fill: "res_fill_bits r \<longleftrightarrow> k > 0"
    and n: "n = length (resource_bits r) + length p + k"
    and len: "1 \<le> res_length_ind r \<and> res_length_ind r < 58 \<and> unat (res_length_ind r) * 8 = n \<or> res_length_ind r = 63 \<and> rest = []"
    and d: "\<And>b1. bb_wf b1 \<Longrightarrow> unread b1 = p \<Longrightarrow>
      \<exists>m s' q'. deliver_resource scr (resource_norm r) (addr_norm a) s q b1 = Some (s', q', bb_adv m b1) \<and> m \<le> length (unread b1) \<and> P s' q'"
  obtains s' q' b' where "rx_mac_resource scr s q b = Some (s', q', b')" and "P s' q'" and "bb_wf b'" and "bb_pos b' = bb_start b'"
    and "bb_start b' = bb_start b + n" and "window b' = rest"
proof -
  note f = pdu_at_facts [OF b]
  let ?r = "resource_norm r" and ?b = "bb_adv (length (resource_bits r)) b"
  note nf = resource_norm_simps [OF v(1,2)]
  have wf: "bb_wf ?b" using bb_wf_adv [OF f(1)] f(3) by (simp del: length_unread)
  have w: "length (window ?b) = n + length rest" using f(1,5) n by (simp add: window_def)
  obtain b1 where b1: "run_bb (set_raw_end (bb_start b + (length (resource_bits r) + length p))) ?b = Some ((), b1)"
    "bb_wf b1" "unread b1 = p" "bb_start b1 = bb_start b" "bb_buffer b1 = bb_buffer b"
    "bb_pos b1 = bb_start b + length (resource_bits r)" "bb_end b1 = bb_start b + (length (resource_bits r) + length p)"
    by (rule cut_piece [OF b])
  obtain m s' q' where m: "deliver_resource scr ?r (addr_norm a) s q b1 = Some (s', q', bb_adv m b1)" "m \<le> length (unread b1)" "P s' q'"
    using d [OF b1(2,3)] by blast
  obtain b2 where b2: "advance_window (bb_end b) (length (resource_bits r) + length p + k) (bb_adv m b1) = Some b2" "bb_wf b2"
    "bb_pos b2 = bb_start b2" "bb_start b2 = bb_start b + (length (resource_bits r) + length p + k)" "window b2 = rest"
    using advance_piece [OF b, of "bb_adv m b1"] b1 m(2) f(5) by auto
  have body: "rx_resource_body scr ?r l n s q ?b = Some (s', q', b2)" if "n \<le> l" for l
    using that fill_counted [OF b] fill b1(1) m(1) b2(1) v(3)
    by (simp add: rx_resource_body_def nf n Let_def)
  show thesis
  proof
    have "rx_mac_resource scr s q b =
        (if 1 \<le> res_length_ind r \<and> res_length_ind r < 58 then rx_resource_body scr ?r (n + length rest) (unat (res_length_ind r) * 8) s q ?b
         else if res_length_ind r = 62 \<or> res_length_ind r = 63 then rx_resource_body scr ?r (n + length rest) (n + length rest) s q ?b
         else Some (s, q, ?b))"
      using f(6) try_header [OF b parse_resource [OF v(1)]] run_simps(2) [OF wf] w
      by (simp add: rx_mac_resource_def nf Let_def)
    also have "\<dots> = Some (s', q', b2)" using len body by auto
    finally show "rx_mac_resource scr s q b = Some (s', q', b2)" .
  qed (use b2 n m(3) in simp_all)
qed

definition tma_ind :: "u32 \<Rightarrow> tetra_address \<Rightarrow> bitbuf \<Rightarrow> ms_msg" where
  "tma_ind scr a sdu = TmaUnitdataInd \<lparr>tma_pdu = Some sdu, tma_main_address = a, tma_scrambling_code = scr, tma_encryption = 0\<rparr>"

lemma addr_not_null: "addr r = Some a \<Longrightarrow> \<not> is_null_pdu r"
  by (simp add: is_null_pdu_def)

lemma rx_resource_whole:
  assumes b: "pdu_at b (resource_bits r) p k rest" and v: "resource_valid r" "addr r = Some a"
    and fill: "res_fill_bits r \<longleftrightarrow> k > 0"
    and len: "res_length_ind r < 58" "unat (res_length_ind r) * 8 = length (resource_bits r) + length p + k" and p: "p \<noteq> []"
  obtains sdu b' where "rx_mac_resource scr s q b = Some (s, push_back q (tma_ind scr (addr_norm a) sdu), b')"
    and "unread sdu = p" and "bb_wf b'" and "bb_pos b' = bb_start b'"
    and "bb_start b' = bb_start b + (length (resource_bits r) + length p + k)" and "window b' = rest"
proof -
  note nf = resource_norm_simps [OF v(1) addr_not_null [OF v(2)]]
  have "0 < unat (res_length_ind r)" using len(2) p by (cases "unat (res_length_ind r)") simp_all
  then have pos: "1 \<le> res_length_ind r" by (simp add: word_le_nat_alt)
  have ne: "res_length_ind r \<noteq> 63" "res_length_ind r \<noteq> 62" "res_length_ind r \<noteq> 0" using len(1) pos by auto
  define P where "P s' q' \<longleftrightarrow> s' = s \<and> (\<exists>sdu. q' = push_back q (tma_ind scr (addr_norm a) sdu) \<and> unread sdu = p)" for s' q'
  have d: "\<exists>m s' q'. deliver_resource scr (resource_norm r) (addr_norm a) s q b1 = Some (s', q', bb_adv m b1) \<and> m \<le> length (unread b1)
      \<and> P s' q'" if wf: "bb_wf b1" and u: "unread b1 = p" for b1
  proof -
    obtain sdu where "bb_from_bitbuffer_pos b1 = Some sdu" "unread sdu = p" using from_pos_unread [OF wf] u by metis
    then show ?thesis
      using run_simps(3) [OF wf] u p ne
      by (intro exI [of _ 0] exI [of _ s] exI [of _ "push_back q (tma_ind scr (addr_norm a) sdu)"])
        (auto simp: deliver_resource_def nf tma_ind_def P_def simp del: length_unread)
  qed
  have l: "1 \<le> res_length_ind r \<and> res_length_ind r < 58 \<and> unat (res_length_ind r) * 8 = length (resource_bits r) + length p + k
      \<or> res_length_ind r = 63 \<and> rest = []" using len pos by simp
  show thesis
    by (rule rx_resource_step [OF b v(1) addr_not_null [OF v(2)] v(2) fill refl l d]) (auto simp: P_def intro: that)
qed

text \<open>The station has collected \<open>xs\<close> of a burst for \<open>a\<close> on timeslot \<open>i\<close>.\<close>

definition collecting :: "umac_ms \<Rightarrow> nat \<Rightarrow> tetra_address \<Rightarrow> bool list \<Rightarrow> bool" where
  "collecting s i a xs \<longleftrightarrow> ts_index (ms_dltime s) = Some i \<and> ms_inv (ms_frags s) \<and> db_state (ms_frags s ! i) = Active
     \<and> db_addr (ms_frags s ! i) = a \<and> db_aie_info (ms_frags s ! i) = None \<and> holds (db_buffer (ms_frags s ! i)) xs"

lemma collect_first:
  assumes inv: "ms_inv (ms_frags s)" and i: "ts_index (ms_dltime s) = Some i" and b: "bb_wf b"
  obtains frags where "ms_insert_first (ms_frags s) b (ms_dltime s) a None = Some (bb_adv (length (unread b)) b, frags)"
    and "collecting (s\<lparr>ms_frags := frags\<rparr>) i a (unread b)"
proof -
  have i4: "i < length (ms_frags s)" and ok: "ms_buffer_ok (ms_frags s ! i)"
    using inv ts_index_less [OF i] by (auto simp: ms_inv_def)
  define buf where "buf = (if db_state (ms_frags s ! i) \<noteq> Inactive then defrag_buffer_reset (ms_frags s ! i) else ms_frags s ! i)"
  have "holds (db_buffer buf) []" using ok by (auto simp: buf_def ms_buffer_ok_def defrag_buffer_reset_def holds_new)
  then obtain buffer where s: "buffer_start buf b (ms_dltime s) a None = Some (bb_adv (length (unread b)) b,
      buf\<lparr>db_state := Active, db_addr := a, db_t_first := ms_dltime s, db_t_last := ms_dltime s, db_num_frags := 1,
        db_aie_info := None, db_buffer := buffer\<rparr>)"
    "holds buffer (unread b)"
    by (rule buffer_start_holds [OF b])
  let ?buf = "buf\<lparr>db_state := Active, db_addr := a, db_t_first := ms_dltime s, db_t_last := ms_dltime s, db_num_frags := 1,
      db_aie_info := None, db_buffer := buffer\<rparr>"
  have "ms_buffer_ok ?buf" using s(2) holds_window [OF s(2)] by (simp add: ms_buffer_ok_def)
  then have "collecting (s\<lparr>ms_frags := (ms_frags s)[i := ?buf]\<rparr>) i a (unread b)"
    using ms_inv_update [OF inv] i i4 s(2) by (simp add: collecting_def)
  then show thesis using that s(1) i by (simp add: ms_insert_first_def buf_def [symmetric])
qed

lemma collect_piece:
  assumes c: "collecting s i a xs" and b: "bb_wf b" and len: "length xs + length (unread b) \<le> DEFRAG_BUF_MAX_LEN"
  obtains buf where "ms_insert_piece st (ms_frags s) b (ms_dltime s) = Some (bb_adv (length (unread b)) b, (ms_frags s)[i := buf])"
    and "db_state buf = st" and "db_addr buf = a" and "db_aie_info buf = None" and "holds (db_buffer buf) (xs @ unread b)"
proof -
  let ?buf = "ms_frags s ! i"
  have h: "holds (db_buffer ?buf) xs" and i: "ts_index (ms_dltime s) = Some i" and st: "db_state ?buf = Active"
    using c by (simp_all add: collecting_def)
  obtain buffer where ap: "append_rest b (db_buffer ?buf) = Some (bb_adv (length (unread b)) b, buffer)" "holds buffer (xs @ unread b)"
    by (rule append_rest_holds [OF b h])
  have "ms_insert_piece st (ms_frags s) b (ms_dltime s) = Some (bb_adv (length (unread b)) b,
      (ms_frags s)[i := ?buf\<lparr>db_state := st, db_t_last := ms_dltime s, db_num_frags := db_num_frags ?buf + 1, db_buffer := buffer\<rparr>])"
    using i st holds_len [OF h] run_simps(3) [OF b] len ap(1) by (simp add: ms_insert_piece_def Let_def del: length_unread)
  then show thesis using that ap(2) c by (simp add: collecting_def)
qed

lemma rx_resource_start:
  assumes b: "pdu_at b (resource_bits r) p k []" and v: "resource_valid r" "addr r = Some a"
    and fill: "res_fill_bits r \<longleftrightarrow> k > 0" and len: "res_length_ind r = 63"
    and inv: "ms_inv (ms_frags s)" and i: "ts_index (ms_dltime s) = Some i"
  obtains frags b' where "rx_mac_resource scr s q b = Some (s\<lparr>ms_frags := frags\<rparr>, q, b')"
    and "collecting (s\<lparr>ms_frags := frags\<rparr>) i (addr_norm a) p" and "bb_wf b'" and "window b' = []"
proof -
  note nf = resource_norm_simps [OF v(1) addr_not_null [OF v(2)]]
  define P where "P s' q' \<longleftrightarrow> q' = q \<and> (\<exists>frags. s' = s\<lparr>ms_frags := frags\<rparr> \<and> collecting s' i (addr_norm a) p)" for s' q'
  have d: "\<exists>m s' q'. deliver_resource scr (resource_norm r) (addr_norm a) s q b1 = Some (s', q', bb_adv m b1) \<and> m \<le> length (unread b1)
      \<and> P s' q'" if wf: "bb_wf b1" and u: "unread b1 = p" for b1
  proof -
    obtain frags where "ms_insert_first (ms_frags s) b1 (ms_dltime s) (addr_norm a) None = Some (bb_adv (length (unread b1)) b1, frags)"
      "collecting (s\<lparr>ms_frags := frags\<rparr>) i (addr_norm a) p"
      using collect_first [OF inv i wf] u by metis
    then show ?thesis
      by (intro exI [of _ "length (unread b1)"] exI [of _ "s\<lparr>ms_frags := frags\<rparr>"] exI [of _ q])
        (auto simp: deliver_resource_def nf len P_def simp del: length_unread)
  qed
  show thesis
    by (rule rx_resource_step [OF b v(1) addr_not_null [OF v(2)] v(2) fill refl _ d]) (auto simp: P_def len intro: that)
qed

section \<open>MAC-FRAG and MAC-END\<close>

lemma collecting_aie: "collecting s i a xs \<Longrightarrow> buffer_aie s = Some None"
  by (simp add: collecting_def buffer_aie_def)

lemma collecting_update:
  assumes c: "collecting s i a xs" and buf: "db_state buf = Active" "db_addr buf = a" "db_aie_info buf = None" "holds (db_buffer buf) ys"
  shows "collecting (s\<lparr>ms_frags := (ms_frags s)[i := buf]\<rparr>) i a ys"
proof -
  have "i < length (ms_frags s)" using c ts_index_less by (auto simp: collecting_def ms_inv_def)
  moreover have "ms_buffer_ok buf" using buf(1,4) holds_window [OF buf(4)] by (simp add: ms_buffer_ok_def)
  ultimately show ?thesis using c buf ms_inv_update by (simp add: collecting_def)
qed

lemma rx_frag:
  assumes b: "pdu_at b (frag_bits \<lparr>frag_fill_bits = k > 0\<rparr>) p k []" and c: "collecting s i a xs"
    and len: "length xs + length p \<le> DEFRAG_BUF_MAX_LEN"
  obtains frags b' where "rx_mac_frag s b = Some (s\<lparr>ms_frags := frags\<rparr>, b')" and "collecting (s\<lparr>ms_frags := frags\<rparr>) i a (xs @ p)"
    and "bb_start b' = bb_start b"
proof -
  note f = pdu_at_facts [OF b]
  let ?h = "frag_bits \<lparr>frag_fill_bits = k > 0\<rparr>"
  let ?b = "bb_adv (length ?h) b"
  have wf: "bb_wf ?b" using bb_wf_adv [OF f(1)] f(3) by (simp del: length_unread length_frag_bits)
  have w: "length (window ?b) = length ?h + length p + k" using f(5) by (simp add: window_def)
  obtain b1 where b1: "run_bb (set_raw_end (bb_start b + (length ?h + length p))) ?b = Some ((), b1)"
    "bb_wf b1" "unread b1 = p" "bb_start b1 = bb_start b"
    by (rule cut_piece [OF b])
  obtain buf where ins: "ms_insert_piece Active (ms_frags s) b1 (ms_dltime s) = Some (bb_adv (length (unread b1)) b1, (ms_frags s)[i := buf])"
    "db_state buf = Active" "db_addr buf = a" "db_aie_info buf = None" "holds (db_buffer buf) (xs @ p)"
    using collect_piece [OF c b1(2), of Active] len unfolding b1(3) by blast
  have "rx_mac_frag s b = Some (s\<lparr>ms_frags := (ms_frags s)[i := buf]\<rparr>, bb_adv (length (unread b1)) b1)"
    using f(6) try_header [OF b mac_frag.dec_parses [OF TrueI]] run_simps(2) [OF wf] w fill_counted [OF b] b1(1)
      collecting_aie [OF c] ins(1)
    by (simp add: rx_mac_frag_def ms_insert_next_def Let_def del: length_unread length_frag_bits)
  then show thesis using that collecting_update [OF c ins(2-5)] b1(4) by simp
qed

lemma take_collected:
  assumes "ts_index t = Some i" and "i < length ms" and "db_state (ms ! i) = Complete" and h: "holds (db_buffer (ms ! i)) xs"
  obtains d where "take_defragged_buf ms t = Some (Some d, ms[i := defrag_buffer_new])" and "db_addr d = db_addr (ms ! i)"
    and "unread (db_buffer d) = xs"
proof -
  let ?buffer = "db_buffer (ms ! i)"
  have e: "?buffer\<lparr>bb_end := bb_pos ?buffer\<rparr> = ?buffer" using h by (simp add: holds_def)
  have "run_bb (set_raw_end (bb_pos ?buffer)) ?buffer = Some ((), ?buffer)"
    using h e by (simp add: run_bb_def set_raw_end_def holds_def bb_wf_def)
  moreover have "bb_wf ?buffer" "window ?buffer = xs" using h by (simp_all add: holds_def)
  moreover note seek_0_eq [of ?buffer]
  ultimately show thesis
    using that [of "(ms ! i)\<lparr>db_buffer := ?buffer\<lparr>bb_pos := bb_start ?buffer\<rparr>\<rparr>"] assms(1-3)
    by (simp add: take_defragged_buf_def run_bb_def Let_def)
qed

lemma rx_end:
  assumes b: "pdu_at b (end_bits e) p k rest" and v: "end_valid e" and fill: "end_fill_bits e \<longleftrightarrow> k > 0"
    and len: "unat (end_length_ind e) * 8 = length (end_bits e) + length p + k"
    and c: "collecting s i a xs" and max: "length xs + length p \<le> DEFRAG_BUF_MAX_LEN"
  obtains sdu frags b' where "rx_mac_end scr s q b = Some (s\<lparr>ms_frags := frags\<rparr>, push_back q (tma_ind scr a sdu), b')"
    and "unread sdu = xs @ p" and "ms_inv frags" and "bb_wf b'" and "bb_pos b' = bb_start b'"
    and "bb_start b' = bb_start b + (length (end_bits e) + length p + k)" and "window b' = rest"
proof -
  note f = pdu_at_facts [OF b]
  let ?h = "end_bits e"
  let ?b = "bb_adv (length ?h) b"
  have wf: "bb_wf ?b" using bb_wf_adv [OF f(1)] f(3) by (simp del: length_unread)
  have w: "length (window ?b) = length ?h + length p + k + length rest" using f(5) by (simp add: window_def)
  have i: "ts_index (ms_dltime s) = Some i" "i < length (ms_frags s)" and inv: "ms_inv (ms_frags s)"
    using c ts_index_less by (auto simp: collecting_def ms_inv_def)
  obtain b1 where b1: "run_bb (set_raw_end (bb_start b + (length ?h + length p))) ?b = Some ((), b1)"
    "bb_wf b1" "unread b1 = p" "bb_start b1 = bb_start b" "bb_buffer b1 = bb_buffer b"
    "bb_pos b1 = bb_start b + length ?h" "bb_end b1 = bb_start b + (length ?h + length p)"
    by (rule cut_piece [OF b])
  let ?b1 = "bb_adv (length (unread b1)) b1"
  obtain buf where ins: "ms_insert_piece Complete (ms_frags s) b1 (ms_dltime s) = Some (?b1, (ms_frags s)[i := buf])"
    "db_state buf = Complete" "db_addr buf = a" "holds (db_buffer buf) (xs @ p)"
    using collect_piece [OF c b1(2), of Complete] max unfolding b1(3) by blast
  obtain d where d: "take_defragged_buf ((ms_frags s)[i := buf]) (ms_dltime s) = Some (Some d, (ms_frags s)[i := defrag_buffer_new])"
    "db_addr d = a" "unread (db_buffer d) = xs @ p"
    using take_collected [OF i(1), of "(ms_frags s)[i := buf]" "xs @ p"] i(2) ins(2-4) by auto
  obtain b2 where b2: "advance_window (bb_end b) (length ?h + length p + k) ?b1 = Some b2" "bb_wf b2"
    "bb_pos b2 = bb_start b2" "bb_start b2 = bb_start b + (length ?h + length p + k)" "window b2 = rest"
    using advance_piece [OF b, of ?b1] b1 f(5) by auto
  have n: "end_length_ind (end_norm e) = end_length_ind e" "end_fill_bits (end_norm e) = end_fill_bits e"
    by (simp_all add: end_norm_def)
  have "rx_mac_end scr s q b = Some (s\<lparr>ms_frags := (ms_frags s)[i := defrag_buffer_new]\<rparr>, push_back q (tma_ind scr a (db_buffer d)), b2)"
    using f(6) try_header [OF b mac_end.dec_parses [OF v]] run_simps(2) [OF wf] w fill_counted [OF b] b1(1)
      collecting_aie [OF c] ins(1) d(1,2) b2(1)
    by (simp add: rx_mac_end_def ms_insert_last_def Let_def n len fill tma_ind_def del: length_unread)
  then show thesis
    using that d(3) ms_inv_update [OF inv ms_new_ok(1)] b2(2-5) by simp
qed

section \<open>The loop on a block of the fragmenter\<close>

lemma pdu_type_bits:
  "mac_pdu_type_try_from (drop_bit 1 (of_bits [False, False, x])) = Some MacResourceMacData"
  "mac_pdu_type_try_from (drop_bit 1 (of_bits [False, True, x])) = Some MacFragMacEnd"
  "of_bits [False, True, x] AND 1 = (of_bool x :: u64)"
  by (cases x; simp add: of_bits_def mac_pdu_type_try_from_def; fail)+

lemma header_starts:
  "\<exists>x ys. resource_bits r = False # False # x # ys" "\<exists>ys. frag_bits f = False # True # False # ys"
  "\<exists>ys. end_bits e = False # True # True # ys"
  by (simp_all add: resource_bits_def frag_bits_def end_bits_def msb_bits_def upt_rec)

lemma peek_type:
  assumes "bb_wf b" and "unread b = x # y # z # ys"
  shows "run_bb (peek_bits 3) b = Some (Some (of_bits [x, y, z]), b)"
proof -
  have "length (unread b) = Suc (Suc (Suc (length ys)))" using assms(2) by simp
  then show ?thesis using peek_bits_eq [OF assms(1), of 3] assms(2) by (simp add: run_bb_def numeral_3_eq_3 del: length_unread)
qed

text \<open>What the loop does after one PDU.\<close>

lemma sch_after:
  assumes wf: "bb_wf b" and u: "unread b = x # y # z # ys"
    and t: "mac_pdu_type_try_from (drop_bit 1 (of_bits [x, y, z])) = Some t"
    and rx: "rx_pdu scr t (of_bits [x, y, z]) s q b = Some (s', q', b')" and wf': "bb_wf b'"
  shows "bb_start b' \<noteq> bb_start b \<Longrightarrow> length (window b') \<ge> 16 \<Longrightarrow> rx_tmv_sch scr s q b = rx_tmv_sch scr s' q' b'"
    and "bb_start b' = bb_start b \<or> length (window b') < 16 \<Longrightarrow> rx_tmv_sch scr s q b = Some (s', q')"
proof -
  have r: "sch_round scr s q b = Some ((s', q', b'), bb_start b' \<noteq> bb_start b \<and> length (window b') \<ge> 16)"
    using peek_type [OF wf u] t rx run_simps(2) [OF wf'] by (simp add: sch_round_def Let_def)
  show "bb_start b' \<noteq> bb_start b \<Longrightarrow> length (window b') \<ge> 16 \<Longrightarrow> rx_tmv_sch scr s q b = rx_tmv_sch scr s' q' b'"
    "bb_start b' = bb_start b \<or> length (window b') < 16 \<Longrightarrow> rx_tmv_sch scr s q b = Some (s', q')"
    using r by (auto simp: rx_tmv_sch.simps [of scr s q b])
qed

lemma parses_zeroes: "parses resource_from_bitbuf (replicate 16 False) (null_pdu\<lparr>res_length_ind := 0\<rparr>)"
proof -
  have z: "replicate 16 False = concat [msb_bits 2 (0 :: u64), [False], word_bits 1 (0 :: u8), word_bits 2 (0 :: u8), [False],
      word_bits 6 (0 :: u8), msb_bits 3 (addr_type_into_raw NullPdu), []]"
    by (simp add: word_bits_def msb_bits_def upt_rec numeral_eq_Suc)
  show ?thesis
    unfolding z resource_from_bitbuf_def
    by (intro seg_rules addr_type.parses_seg_enum parses_seg3 [of _ _ None None None])
      (simp_all add: fits_def parses_ret)
qed

text \<open>Zero bits behind the last PDU of a block are a null PDU, which is dropped.\<close>

lemma sch_zero_tail:
  assumes wf: "bb_wf b" and pos: "bb_pos b = bb_start b" and w: "window b = replicate m False" and m: "16 \<le> m"
  shows "rx_tmv_sch scr s q b = Some (s, q)"
proof -
  have "replicate m False = replicate 16 False @ replicate (m - 16) False"
    using m by (simp flip: replicate_add)
  then have u: "unread b = replicate 16 False @ replicate (m - 16) False" using pos w by (simp add: unread_def window_def)
  then have u3: "unread b = False # False # False # (replicate 13 False @ replicate (m - 16) False)"
    by (simp add: numeral_eq_Suc)
  have l: "16 \<le> length (unread b)" using u by (simp del: length_unread)
  then have wf': "bb_wf (bb_adv 16 b)" by (rule bb_wf_adv [OF wf])
  have "rx_mac_resource scr s q b = Some (s, q, bb_adv 16 b)"
    using run_simps(1) [OF wf] pos parsesD [OF parses_zeroes wf u] run_simps(2) [OF wf']
    by (simp add: rx_mac_resource_def try_bb_def null_pdu_def)
  then show ?thesis
    using sch_after(2) [OF wf u3 pdu_type_bits(1), of scr s q s q "bb_adv 16 b"] wf' by (simp add: rx_pdu_def)
qed

lemma pdu_at_start:
  assumes "pdu_at b h p k rest"
  shows "h = x # y # z # ys \<Longrightarrow> unread b = x # y # z # (ys @ p @ fill_pattern k @ rest)"
  using pdu_at_facts(3) [OF assms] by simp

text \<open>One lemma per PDU of the fragmenter.\<close>

lemma sch_start:
  assumes b: "pdu_at b (resource_bits r) p k []" and v: "resource_valid r" "addr r = Some a" "res_fill_bits r \<longleftrightarrow> k > 0" "res_length_ind r = 63"
    and s: "ms_inv (ms_frags s)" "ts_index (ms_dltime s) = Some i"
  obtains frags where "rx_tmv_sch scr s q b = Some (s\<lparr>ms_frags := frags\<rparr>, q)" and "collecting (s\<lparr>ms_frags := frags\<rparr>) i (addr_norm a) p"
proof -
  obtain frags b' where rx: "rx_mac_resource scr s q b = Some (s\<lparr>ms_frags := frags\<rparr>, q, b')"
    "collecting (s\<lparr>ms_frags := frags\<rparr>) i (addr_norm a) p" "bb_wf b'" "window b' = []"
    by (rule rx_resource_start [OF b v s])
  obtain x ys where "resource_bits r = False # False # x # ys" using header_starts(1) by blast
  from sch_after(2) [OF pdu_at_facts(1) [OF b] pdu_at_start [OF b this] pdu_type_bits(1) _ rx(3), of scr s q] rx(1,4)
  have "rx_tmv_sch scr s q b = Some (s\<lparr>ms_frags := frags\<rparr>, q)" by (simp add: rx_pdu_def)
  then show thesis using that rx(2) by blast
qed

lemma sch_frag:
  assumes b: "pdu_at b (frag_bits \<lparr>frag_fill_bits = k > 0\<rparr>) p k []" and c: "collecting s i a xs" "length xs + length p \<le> DEFRAG_BUF_MAX_LEN"
  obtains frags where "rx_tmv_sch scr s q b = Some (s\<lparr>ms_frags := frags\<rparr>, q)" and "collecting (s\<lparr>ms_frags := frags\<rparr>) i a (xs @ p)"
proof -
  obtain frags b' where rx: "rx_mac_frag s b = Some (s\<lparr>ms_frags := frags\<rparr>, b')" "collecting (s\<lparr>ms_frags := frags\<rparr>) i a (xs @ p)"
    "bb_start b' = bb_start b"
    by (rule rx_frag [OF b c])
  obtain ys where h: "frag_bits \<lparr>frag_fill_bits = k > 0\<rparr> = False # True # False # ys" using header_starts(2) by metis
  have "sch_round scr s q b = Some ((s\<lparr>ms_frags := frags\<rparr>, q, b'), False)"
    using peek_type [OF pdu_at_facts(1) [OF b] pdu_at_start [OF b h]] pdu_type_bits(2,3) [of False] rx(1,3)
    by (simp add: sch_round_def rx_pdu_def)
  then show thesis using that rx(2) by (simp add: rx_tmv_sch.simps [of scr s q b])
qed

text \<open>After a PDU that ends inside the block, with zero bits behind it.\<close>

lemma sch_then_zeroes:
  assumes wf: "bb_wf b" and u: "unread b = x # y # z # ys"
    and t: "mac_pdu_type_try_from (drop_bit 1 (of_bits [x, y, z])) = Some t"
    and rx: "rx_pdu scr t (of_bits [x, y, z]) s q b = Some (s', q', b')"
    and b': "bb_wf b'" "bb_pos b' = bb_start b'" "window b' = replicate m False"
  shows "rx_tmv_sch scr s q b = Some (s', q')"
  using sch_after [OF wf u t rx b'(1)] sch_zero_tail [OF b'] b'(3) by (cases "bb_start b' = bb_start b \<or> m < 16") auto

lemma sch_whole:
  assumes b: "pdu_at b (resource_bits r) p k (replicate m False)" and v: "resource_valid r" "addr r = Some a" "res_fill_bits r \<longleftrightarrow> k > 0"
    and len: "res_length_ind r < 58" "unat (res_length_ind r) * 8 = length (resource_bits r) + length p + k" and p: "p \<noteq> []"
  obtains sdu where "rx_tmv_sch scr s q b = Some (s, push_back q (tma_ind scr (addr_norm a) sdu))" and "unread sdu = p"
proof -
  obtain sdu b' where rx: "rx_mac_resource scr s q b = Some (s, push_back q (tma_ind scr (addr_norm a) sdu), b')"
    "unread sdu = p" "bb_wf b'" "bb_pos b' = bb_start b'" "window b' = replicate m False"
    by (rule rx_resource_whole [OF b v len p])
  obtain x ys where "resource_bits r = False # False # x # ys" using header_starts(1) by blast
  from sch_then_zeroes [OF pdu_at_facts(1) [OF b] pdu_at_start [OF b this] pdu_type_bits(1) _ rx(3-5)] rx(1)
  have "rx_tmv_sch scr s q b = Some (s, push_back q (tma_ind scr (addr_norm a) sdu))" by (simp add: rx_pdu_def)
  then show thesis using that rx(2) by blast
qed

lemma sch_end:
  assumes b: "pdu_at b (end_bits e) p k (replicate m False)" and v: "end_valid e" "end_fill_bits e \<longleftrightarrow> k > 0"
    "unat (end_length_ind e) * 8 = length (end_bits e) + length p + k"
    and c: "collecting s i a xs" "length xs + length p \<le> DEFRAG_BUF_MAX_LEN"
  obtains sdu frags where "rx_tmv_sch scr s q b = Some (s\<lparr>ms_frags := frags\<rparr>, push_back q (tma_ind scr a sdu))" and "unread sdu = xs @ p"
    and "ms_inv frags"
proof -
  obtain sdu frags b' where rx: "rx_mac_end scr s q b = Some (s\<lparr>ms_frags := frags\<rparr>, push_back q (tma_ind scr a sdu), b')"
    "unread sdu = xs @ p" "ms_inv frags" "bb_wf b'" "bb_pos b' = bb_start b'" "window b' = replicate m False"
    by (rule rx_end [OF b v c])
  obtain ys where "end_bits e = False # True # True # ys" using header_starts(3) by blast
  from sch_then_zeroes [OF pdu_at_facts(1) [OF b] pdu_at_start [OF b this] pdu_type_bits(2) _ rx(4-6)] rx(1) pdu_type_bits(3) [of True]
  have "rx_tmv_sch scr s q b = Some (s\<lparr>ms_frags := frags\<rparr>, push_back q (tma_ind scr a sdu))" by (simp add: rx_pdu_def)
  then show thesis using that rx(2,3) by blast
qed

section \<open>Sending and receiving\<close>

text \<open>For every block the base station lets the fragmenter write into a new buffer of the given
  capacity, and the station receives the block.\<close>

fun downlink :: "u32 \<Rightarrow> nat list \<Rightarrow> bs_fragger \<Rightarrow> umac_ms \<Rightarrow> ms_queue \<Rightarrow> (bool \<times> bs_fragger \<times> umac_ms \<times> ms_queue) option" where
  "downlink scr [] f s q = Some (False, f, s, q)"
| "downlink scr (c # cs) f s q = do {
     (done, f, mb) \<leftarrow> get_next_chunk f (bb_new c);
     (_, b) \<leftarrow> run_bb (seek 0) mb;
     (s, q) \<leftarrow> rx_tmv_sch scr s q b;
     if done then Some (True, f, s, q) else downlink scr cs f s q
   }"

lemma new_bits: "i < c \<Longrightarrow> \<not> bb_bit (bb_buffer (bb_new c)) i"
proof -
  assume "i < c"
  then have "i div 8 < (c + 7) div 8" by (simp add: div_less_iff_less_mult less_eq_div_iff_mult_less_eq Suc_le_eq [symmetric])
  then show ?thesis by (simp add: bb_bit_def bb_new_def)
qed

lemma block_received:
  assumes w: "wrote (bb_new c) (h @ p @ fill_pattern k) mb" and len: "length h + length p + k \<le> c"
  obtains b where "run_bb (seek 0) mb = Some ((), b)" and "pdu_at b h p k (replicate (c - (length h + length p + k)) False)"
proof -
  let ?n = "length h + length p + k"
  have mb: "bb_wf mb" "bb_start mb = 0" "bb_end mb = c" "bb_slice (bb_buffer mb) 0 ?n = h @ p @ fill_pattern k"
    "\<forall>i. ?n \<le> i \<longrightarrow> i < c \<longrightarrow> bb_bit (bb_buffer mb) i = bb_bit (bb_buffer (bb_new c)) i"
    using w len by (auto simp: wrote_def bb_new_def max_def add.assoc)
  have "bb_slice (bb_buffer mb) ?n c = replicate (c - ?n) False"
    using mb(5) new_bits by (intro nth_equalityI) simp_all
  then have "window mb = h @ p @ fill_pattern k @ replicate (c - ?n) False"
    using mb(2-4) bb_slice_append [of 0 ?n c "bb_buffer mb"] len by (simp add: window_def)
  moreover have "window (mb\<lparr>bb_pos := bb_start mb\<rparr>) = window mb" by (simp add: window_def)
  ultimately show thesis
    using that seek_0_eq [OF mb(1)] by (auto simp: pdu_at_def run_bb_def)
qed

lemma chan_alloc_len: "chan_alloc_compute_len c \<le> 27"
  by (simp add: chan_alloc_compute_len_def)

lemma end_hdr_len: "end_compute_hdr_len False ca \<le> 40"
  using chan_alloc_len by (auto simp: end_compute_hdr_len_def intro: le_trans split: option.split)

lemma header_len: "compute_header_len (without_ca r) \<le> 80"
  by (simp add: compute_header_len_def without_ca_def split: option.split)

lemma usable_new: "c < 512 \<Longrightarrow> usable (bb_new c) \<and> length (unread (bb_new c)) = c"
  using bb_wf_new(1) [of c] by (simp add: usable_def written_def unread_def bb_new_def)

lemma downlink_end:
  assumes f: "started f" and c: "c < 512" and col: "collecting s i a xs"
    and len: "length xs + length (unread (fr_sdu f)) \<le> DEFRAG_BUF_MAX_LEN"
    and fit: "(end_compute_hdr_len False (fragmented_chan_alloc f) + length (unread (fr_sdu f)) + 7) div 8 * 8 \<le> c"
  obtains f' frags sdu where "downlink scr (c # cs) f s q = Some (True, f', s\<lparr>ms_frags := frags\<rparr>, push_back q (tma_ind scr a sdu))"
    and "unread sdu = xs @ unread (fr_sdu f)" and "is_fully_transmitted f'" and "ms_inv frags"
proof -
  have mb: "usable (bb_new c)" "length (unread (bb_new c)) = c" using usable_new [OF c] by simp_all
  define E where "E = end_compute_hdr_len False (fragmented_chan_alloc f)"
  define S where "S = length (unread (fr_sdu f))"
  define L where "L = (E + S + 7) div 8"
  define k where "k = L * 8 - (E + S)"
  define e where "e = \<lparr>end_fill_bits = k > 0, end_pos_of_grant = 0, end_length_ind = of_nat L, end_slot_granting = None,
    end_chan_alloc = fragmented_chan_alloc f\<rparr>"
  note d = E_def S_def L_def k_def e_def
  have fit': "(end_compute_hdr_len False (fragmented_chan_alloc f) + length (unread (fr_sdu f)) + 7) div 8 * 8
      \<le> length (unread (bb_new c))" using fit mb(2) by simp
  obtain mb' where n: "get_next_chunk f (bb_new c) = Some (True, f\<lparr>fr_sdu := bb_adv S (fr_sdu f), is_fully_transmitted := True,
      fragmented_chan_alloc := None, fr_tx_reporter := report try_mark_transmitted (fr_tx_reporter f)\<rparr>, mb')"
    "wrote (bb_new c) (end_bits e @ unread (fr_sdu f) @ fill_pattern k) mb'" "end_valid e" "length (end_bits e) = E" "E + S + k = L * 8"
    by (rule next_end [OF f mb(1) fit', folded E_def S_def, folded L_def, folded k_def, folded e_def])
  have total: "length (end_bits e) + length (unread (fr_sdu f)) + k \<le> c"
    using n(4,5) fit by (simp add: d(1-3) [symmetric] del: length_unread)
  obtain b where b: "run_bb (seek 0) mb' = Some ((), b)"
    "pdu_at b (end_bits e) (unread (fr_sdu f)) k (replicate (c - (length (end_bits e) + length (unread (fr_sdu f)) + k)) False)"
    by (rule block_received [OF n(2) total])
  have "L < 64" using n(5) total n(4) c by (simp add: S_def [symmetric] del: length_unread)
  then have lind: "unat (end_length_ind e) * 8 = length (end_bits e) + length (unread (fr_sdu f)) + k"
    using n(4,5) by (simp add: e_def S_def unat_of_nat take_bit_nat_eq_self del: length_unread)
  obtain sdu frags where "rx_tmv_sch scr s q b = Some (s\<lparr>ms_frags := frags\<rparr>, push_back q (tma_ind scr a sdu))"
    "unread sdu = xs @ unread (fr_sdu f)" "ms_inv frags"
    by (rule sch_end [OF b(2) n(3) _ lind col len]) (simp_all add: e_def)
  then show thesis using that n(1) b(1) by simp
qed

lemma downlink_frag:
  assumes f: "started f" and c: "16 \<le> c" "c < 512" and col: "collecting s i a xs"
    and len: "length xs + length (unread (fr_sdu f)) \<le> DEFRAG_BUF_MAX_LEN"
    and big: "(end_compute_hdr_len False (fragmented_chan_alloc f) + length (unread (fr_sdu f)) + 7) div 8 * 8 > c"
    and S: "unread (fr_sdu f) \<noteq> []"
  defines "n \<equiv> min (c - 4) (length (unread (fr_sdu f)))"
  obtains f' frags where "downlink scr (c # cs) f s q = downlink scr cs f' (s\<lparr>ms_frags := frags\<rparr>) q"
    and "collecting (s\<lparr>ms_frags := frags\<rparr>) i a (xs @ take n (unread (fr_sdu f)))" and "started f'"
    and "unread (fr_sdu f') = drop n (unread (fr_sdu f))"
proof -
  have mb: "usable (bb_new c)" "length (unread (bb_new c)) = c" using usable_new [OF c(2)] by simp_all
  define k where "k = c - 4 - n"
  have big': "(end_compute_hdr_len False (fragmented_chan_alloc f) + length (unread (fr_sdu f)) + 7) div 8 * 8 > length (unread (bb_new c))"
    and c': "16 \<le> length (unread (bb_new c))" and S': "0 < length (unread (fr_sdu f))"
    using big c(1) S mb(2) by (simp_all del: length_unread)
  obtain mb' where m: "get_next_chunk f (bb_new c) = Some (False, f\<lparr>fr_sdu := bb_adv n (fr_sdu f)\<rparr>, mb')"
    "wrote (bb_new c) (frag_bits \<lparr>frag_fill_bits = k > 0\<rparr> @ take n (unread (fr_sdu f)) @ fill_pattern k) mb'"
    "n \<le> length (unread (fr_sdu f))" "4 + n + k = c"
    by (rule next_frag [OF f mb(1) big' c' S', unfolded mb(2), folded n_def, folded k_def])
  have p: "length (take n (unread (fr_sdu f))) = n" using m(3) by (simp del: length_unread)
  have total: "length (frag_bits \<lparr>frag_fill_bits = k > 0\<rparr>) + length (take n (unread (fr_sdu f))) + k \<le> c"
    using m(4) p by (simp del: length_unread length_take)
  obtain b where b: "run_bb (seek 0) mb' = Some ((), b)"
    "pdu_at b (frag_bits \<lparr>frag_fill_bits = k > 0\<rparr>) (take n (unread (fr_sdu f))) k []"
    using block_received [OF m(2) total] m(4) p by (simp del: length_unread length_take) blast
  have "length xs + length (take n (unread (fr_sdu f))) \<le> DEFRAG_BUF_MAX_LEN" using len m(3) p by linarith
  then obtain frags where rx: "rx_tmv_sch scr s q b = Some (s\<lparr>ms_frags := frags\<rparr>, q)"
    "collecting (s\<lparr>ms_frags := frags\<rparr>) i a (xs @ take n (unread (fr_sdu f)))"
    by (rule sch_frag [OF b(2) col])
  have "started (f\<lparr>fr_sdu := bb_adv n (fr_sdu f)\<rparr>)" using f m(3) bb_wf_adv by (simp add: started_def)
  then show thesis
    using that [of "f\<lparr>fr_sdu := bb_adv n (fr_sdu f)\<rparr>" frags] m(1,3) b(1) rx unread_adv by simp
qed

text \<open>The fragments after the first: with blocks of at least 124 bits every block but the last
  carries at least 120 bits or all that is left.\<close>

lemma downlink_rest:
  assumes "started f" and "\<forall>c \<in> set caps. 124 \<le> c \<and> c < 512" and "collecting s i a xs"
    and "length xs + length (unread (fr_sdu f)) \<le> DEFRAG_BUF_MAX_LEN"
    and "(length (unread (fr_sdu f)) + 119) div 120 + 1 \<le> length caps"
  shows "\<exists>f' frags sdu. downlink scr caps f s q = Some (True, f', s\<lparr>ms_frags := frags\<rparr>, push_back q (tma_ind scr a sdu))
    \<and> unread sdu = xs @ unread (fr_sdu f) \<and> is_fully_transmitted f' \<and> ms_inv frags"
  using assms
proof (induction caps arbitrary: f s xs)
  case (Cons c cs)
  have c: "16 \<le> c" "c < 512" "124 \<le> c" using Cons.prems(2) by auto
  show ?case
  proof (cases "(end_compute_hdr_len False (fragmented_chan_alloc f) + length (unread (fr_sdu f)) + 7) div 8 * 8 \<le> c")
    case True
    then show ?thesis using downlink_end [OF Cons.prems(1) c(2) Cons.prems(3,4)] by metis
  next
    case False
    then have big: "(end_compute_hdr_len False (fragmented_chan_alloc f) + length (unread (fr_sdu f)) + 7) div 8 * 8 > c" by simp
    define n where "n = min (c - 4) (length (unread (fr_sdu f)))"
    have ne: "unread (fr_sdu f) \<noteq> []"
      using big c(3) end_hdr_len [of "fragmented_chan_alloc f"] by (auto simp del: length_unread)
    obtain f' frags where d: "downlink scr (c # cs) f s q = downlink scr cs f' (s\<lparr>ms_frags := frags\<rparr>) q"
      "collecting (s\<lparr>ms_frags := frags\<rparr>) i a (xs @ take n (unread (fr_sdu f)))" "started f'"
      "unread (fr_sdu f') = drop n (unread (fr_sdu f))"
      using downlink_frag [OF Cons.prems(1) c(1,2) Cons.prems(3,4) big ne] unfolding n_def by metis
    define S where "S = length (unread (fr_sdu f))"
    have l: "length (unread (fr_sdu f')) = S - n" and n: "n \<le> S" "n = S \<or> 120 \<le> n" and S: "0 < S"
      using d(4) ne c(3) by (auto simp: S_def n_def simp del: length_unread)
    have "(S - n + 119) div 120 + 1 \<le> (S + 119) div 120"
    proof (cases "n = S")
      case True
      have "1 \<le> (S + 119) div 120" using S div_le_mono [of 120 "S + 119" 120] by simp
      then show ?thesis using True by simp
    next
      case False
      then have "(S - n + 119) div 120 \<le> (S + 119 - 120) div 120" using n by (intro div_le_mono) simp
      then show ?thesis using S by (simp add: le_div_geq)
    qed
    then have caps: "(length (unread (fr_sdu f')) + 119) div 120 + 1 \<le> length cs"
      using Cons.prems(5) unfolding l by (simp add: S_def [symmetric] del: length_unread)
    have max: "length (xs @ take n (unread (fr_sdu f))) + length (unread (fr_sdu f')) \<le> DEFRAG_BUF_MAX_LEN"
      using Cons.prems(4) n unfolding l by (simp add: S_def [symmetric] del: length_unread)
    show ?thesis
      using Cons.IH [OF d(3) _ d(2) max caps] Cons.prems(2) d(1,4) by simp
  qed
qed simp

lemma downlink_start:
  assumes f: "fresh f" and a: "addr (resource f) = Some a" and c: "124 \<le> c" "c < 512"
    and s: "ms_inv (ms_frags s)" "ts_index (ms_dltime s) = Some i"
    and big: "compute_header_len (resource f) + length (unread (fr_sdu f)) > c"
  obtains f' frags n where "downlink scr (c # cs) f s q = downlink scr cs f' (s\<lparr>ms_frags := frags\<rparr>) q"
    and "collecting (s\<lparr>ms_frags := frags\<rparr>) i (addr_norm a) (take n (unread (fr_sdu f)))" and "started f'"
    and "unread (fr_sdu f') = drop n (unread (fr_sdu f))"
proof -
  have mb: "usable (bb_new c)" "length (unread (bb_new c)) = c" using usable_new [OF c(2)] by simp_all
  define H where "H = compute_header_len (without_ca (resource f))"
  define n where "n = min (c - H) (length (unread (fr_sdu f)))"
  define k where "k = c - H - n"
  define r where "r = resource_for (without_ca (resource f)) 63 k"
  have "H \<le> 80" by (simp add: H_def header_len)
  then have pre: "compute_header_len (resource f) + length (unread (fr_sdu f)) > length (unread (bb_new c))"
    "32 \<le> length (unread (bb_new c))" "compute_header_len (without_ca (resource f)) \<le> length (unread (bb_new c))"
    using big c(1) unfolding mb(2) by (simp_all add: H_def)
  obtain mb' where m: "get_next_chunk f (bb_new c) = Some (False, f\<lparr>fragmented_chan_alloc := res_chan_alloc (resource f), resource := r,
      fr_sdu := bb_adv n (fr_sdu f), mac_hdr_is_written := True, is_fully_transmitted := False\<rparr>, mb')"
    "wrote (bb_new c) (resource_bits r @ take n (unread (fr_sdu f)) @ fill_pattern k) mb'"
    "resource_valid r" "length (resource_bits r) = H" "n \<le> length (unread (fr_sdu f))" "H + n + k = c"
    by (rule next_start [OF f mb(1) pre, unfolded mb(2), folded H_def, folded n_def, folded k_def, folded r_def])
  let ?f = "f\<lparr>fragmented_chan_alloc := res_chan_alloc (resource f), resource := r, fr_sdu := bb_adv n (fr_sdu f),
      mac_hdr_is_written := True, is_fully_transmitted := False\<rparr>"
  have p: "length (take n (unread (fr_sdu f))) = n" using m(5) by (simp del: length_unread)
  have total: "length (resource_bits r) + length (take n (unread (fr_sdu f))) + k = c" using m(4,6) p by simp
  obtain b where b: "run_bb (seek 0) mb' = Some ((), b)" "pdu_at b (resource_bits r) (take n (unread (fr_sdu f))) k []"
    using block_received [OF m(2)] total by (metis diff_self_eq_0 order_refl replicate_0)
  have r: "addr r = Some a" "res_fill_bits r \<longleftrightarrow> k > 0" "res_length_ind r = 63"
    using a by (simp_all add: r_def resource_for_def without_ca_def)
  obtain frags where rx: "rx_tmv_sch scr s q b = Some (s\<lparr>ms_frags := frags\<rparr>, q)"
    "collecting (s\<lparr>ms_frags := frags\<rparr>) i (addr_norm a) (take n (unread (fr_sdu f)))"
    by (rule sch_start [OF b(2) m(3) r s])
  have "ca_ok (res_chan_alloc (resource f))" using f by (simp add: fresh_def sendable_def resource_valid_def)
  then have "started ?f" using f m(5) bb_wf_adv by (simp add: started_def fresh_def)
  then show thesis using that [of ?f frags n] m(1,5) b(1) rx unread_adv by simp
qed

lemma compute_required_aligned:
  assumes "n \<le> c div 8 * 8"
  shows "(n + compute_required n c) mod 8 = 0" and "n + compute_required n c \<le> c"
proof -
  define m where "m = n + compute_required_bytealigned n"
  have "(n + (8 - n mod 8) mod 8) mod 8 = (n mod 8 + (8 - n mod 8)) mod 8" by (simp only: mod_simps)
  also have "n mod 8 + (8 - n mod 8) = 8" by (rule le_add_diff_inverse) (simp add: less_imp_le)
  finally have m: "m mod 8 = 0" by (simp add: m_def compute_required_bytealigned_def)
  obtain e where e: "m = 8 * e" using m by (metis mod_0_imp_dvd dvdE)
  define d where "d = c div 8"
  have "8 * e < n + 8" unfolding e [symmetric] by (simp add: m_def compute_required_bytealigned_def)
  then have "8 * e < 8 * d + 8" using assms unfolding d_def [symmetric] by linarith
  then have "m \<le> c div 8 * 8" by (simp add: e d_def)
  moreover have c: "c div 8 * 8 \<le> c" by simp
  ultimately have mc: "m \<le> c" by linarith
  have "n + compute_required n c = m"
  proof (cases "n < c")
    case False
    then have "n = c" "m = n" using assms c mc by (simp_all add: m_def)
    then show ?thesis by (simp add: compute_required_def)
  qed (use mc in \<open>simp add: compute_required_def Let_def m_def\<close>)
  then show "(n + compute_required n c) mod 8 = 0" and "n + compute_required n c \<le> c" using m mc by simp_all
qed

lemma downlink_whole:
  assumes f: "fresh f" and a: "addr (resource f) = Some a" and c: "c < 464" and S: "unread (fr_sdu f) \<noteq> []"
    and fit: "compute_header_len (resource f) + length (unread (fr_sdu f)) \<le> c div 8 * 8"
  obtains f' sdu where "downlink scr (c # cs) f s q = Some (True, f', s, push_back q (tma_ind scr (addr_norm a) sdu))"
    and "unread sdu = unread (fr_sdu f)" and "is_fully_transmitted f'"
proof -
  have mb: "usable (bb_new c)" "length (unread (bb_new c)) = c" using usable_new [of c] c by simp_all
  define H where "H = compute_header_len (resource f)"
  define k where "k = compute_required (H + length (unread (fr_sdu f))) c"
  define r where "r = resource_for (resource f) (of_nat ((H + length (unread (fr_sdu f)) + k) div 8)) k"
  have "c div 8 * 8 \<le> c" by simp
  then have pre: "compute_header_len (resource f) + length (unread (fr_sdu f)) \<le> length (unread (bb_new c))"
    using fit unfolding mb(2) by linarith
  obtain mb' where m: "get_next_chunk f (bb_new c) = Some (True, f\<lparr>resource := r, fr_sdu := bb_adv (length (unread (fr_sdu f))) (fr_sdu f),
      mac_hdr_is_written := True, is_fully_transmitted := True, fr_tx_reporter := report try_mark_transmitted (fr_tx_reporter f)\<rparr>, mb')"
    "wrote (bb_new c) (resource_bits r @ unread (fr_sdu f) @ fill_pattern k) mb'" "resource_valid r" "length (resource_bits r) = H"
    by (rule next_whole [OF f mb(1) pre, unfolded mb(2), folded H_def, folded k_def, folded r_def])
  have t: "(H + length (unread (fr_sdu f)) + k) mod 8 = 0" "H + length (unread (fr_sdu f)) + k \<le> c"
    using compute_required_aligned [OF fit] by (simp_all add: H_def k_def del: length_unread)
  obtain b m' where b: "run_bb (seek 0) mb' = Some ((), b)" "pdu_at b (resource_bits r) (unread (fr_sdu f)) k (replicate m' False)"
    using block_received [OF m(2)] t(2) m(4) by metis
  let ?L = "(H + length (unread (fr_sdu f)) + k) div 8"
  have L: "?L < 58" "?L * 8 = H + length (unread (fr_sdu f)) + k" using t c by (auto simp del: length_unread)
  then have u: "unat (of_nat ?L :: u8) = ?L" by (simp add: unat_of_nat take_bit_nat_eq_self)
  have r: "addr r = Some a" "res_fill_bits r \<longleftrightarrow> k > 0" "res_length_ind r < 58"
    "unat (res_length_ind r) * 8 = length (resource_bits r) + length (unread (fr_sdu f)) + k"
    using a L u m(4) by (simp_all add: r_def resource_for_def word_less_nat_alt del: length_unread)
  obtain sdu where "rx_tmv_sch scr s q b = Some (s, push_back q (tma_ind scr (addr_norm a) sdu))" "unread sdu = unread (fr_sdu f)"
    by (rule sch_whole [OF b(2) m(3) r S])
  then show thesis using that m(1) b(1) by simp
qed

lemma downlink_delivers:
  assumes new: "fragger_new r sdu reporter = Some f" and sdu: "bb_wf sdu" "unread sdu \<noteq> []" and r: "sendable r" "addr r = Some a"
    and s: "ms_inv (ms_frags s)" "ts_index (ms_dltime s) = Some i"
    and max: "length (unread sdu) \<le> DEFRAG_BUF_MAX_LEN"
    and caps: "\<forall>c \<in> set caps. 124 \<le> c \<and> c < 464" "(length (unread sdu) + 119) div 120 + 2 \<le> length caps"
    and tail: "compute_header_len r + length (unread sdu) \<le> hd caps div 8 * 8 \<or> hd caps < compute_header_len r + length (unread sdu)"
  shows "\<exists>f' frags out. downlink scr caps f s q = Some (True, f', s\<lparr>ms_frags := frags\<rparr>, push_back q (tma_ind scr (addr_norm a) out))
    \<and> unread out = unread sdu \<and> is_fully_transmitted f' \<and> ms_inv frags"
proof -
  obtain c cs where c: "caps = c # cs" using caps(2) by (cases caps) auto
  have c1: "124 \<le> c" "c < 464" "c < 512" using caps(1) by (auto simp: c)
  have f: "fresh f" "fr_sdu f = sdu" "resource f = r"
    using new sdu r run_simps(1) [OF sdu(1)]
    by (auto simp: fragger_new_def fresh_def assert_opt_def bb_wf_def split: if_splits)
  have a: "addr (resource f) = Some a" using r f by simp
  show ?thesis
  proof (cases "compute_header_len r + length (unread sdu) \<le> c div 8 * 8")
    case True
    then have "compute_header_len (resource f) + length (unread (fr_sdu f)) \<le> c div 8 * 8" "unread (fr_sdu f) \<noteq> []" using f sdu by simp_all
    then obtain f' out where "downlink scr (c # cs) f s q = Some (True, f', s, push_back q (tma_ind scr (addr_norm a) out))"
      "unread out = unread sdu" "is_fully_transmitted f'"
      using downlink_whole [OF f(1) a c1(2)] unfolding f(2) by metis
    then show ?thesis unfolding c using s(1) by (intro exI [of _ f'] exI [of _ "ms_frags s"] exI [of _ out]) simp
  next
    case False
    then have big: "compute_header_len (resource f) + length (unread (fr_sdu f)) > c" using tail f by (simp add: c del: length_unread)
    obtain f' frags n where d: "downlink scr (c # cs) f s q = downlink scr cs f' (s\<lparr>ms_frags := frags\<rparr>) q"
      "collecting (s\<lparr>ms_frags := frags\<rparr>) i (addr_norm a) (take n (unread sdu))" "started f'" "unread (fr_sdu f') = drop n (unread sdu)"
      using downlink_start [OF f(1) a c1(1,3) s big] unfolding f(2) by metis
    have len: "length (unread (fr_sdu f')) \<le> length (unread sdu)"
      "length (take n (unread sdu)) + length (unread (fr_sdu f')) \<le> DEFRAG_BUF_MAX_LEN"
      using max by (simp_all add: d(4) del: length_unread)
    have "(length (unread (fr_sdu f')) + 119) div 120 \<le> (length (unread sdu) + 119) div 120" using len(1) by (intro div_le_mono) simp
    then have l: "(length (unread (fr_sdu f')) + 119) div 120 + 1 \<le> length cs" using caps(2) by (simp add: c del: length_unread)
    have cs: "\<forall>c \<in> set cs. 124 \<le> c \<and> c < 512" using caps(1) by (auto simp: c)
    show ?thesis unfolding c d(1) using downlink_rest [OF d(3) cs d(2) len(2) l] d(4) by simp
  qed
qed

section \<open>Where delivery fails\<close>

text \<open>A MAC-RESOURCE that fills a block whose size is not a number of octets announces the octets
  rounded down.\<close>

lemma downlink_truncates:
  assumes f: "fresh f" and a: "addr (resource f) = Some a" and c: "c < 464"
    and full: "compute_header_len (resource f) + length (unread (fr_sdu f)) = c" and tail: "c mod 8 < length (unread (fr_sdu f))"
  obtains f' sdu where "downlink scr (c # cs) f s q = Some (True, f', s, push_back q (tma_ind scr (addr_norm a) sdu))"
    and "unread sdu = take (length (unread (fr_sdu f)) - c mod 8) (unread (fr_sdu f))" and "is_fully_transmitted f'"
proof -
  have mb: "usable (bb_new c)" "length (unread (bb_new c)) = c" using usable_new [of c] c by simp_all
  define r where "r = resource_for (resource f) (of_nat (c div 8)) 0"
  define n where "n = length (unread (fr_sdu f)) - c mod 8"
  have z: "compute_required c c = 0" by (simp add: compute_required_def)
  have pre: "compute_header_len (resource f) + length (unread (fr_sdu f)) \<le> length (unread (bb_new c))" using full mb(2) by simp
  obtain mb' where m: "get_next_chunk f (bb_new c) = Some (True, f\<lparr>resource := r, fr_sdu := bb_adv (length (unread (fr_sdu f))) (fr_sdu f),
      mac_hdr_is_written := True, is_fully_transmitted := True, fr_tx_reporter := report try_mark_transmitted (fr_tx_reporter f)\<rparr>, mb')"
    "wrote (bb_new c) (resource_bits r @ unread (fr_sdu f) @ fill_pattern 0) mb'" "resource_valid r"
    "length (resource_bits r) = compute_header_len (resource f)"
    using next_whole [OF f mb(1) pre] unfolding mb(2) full z r_def by (metis add.right_neutral)
  have "length (resource_bits r) + length (unread (fr_sdu f)) + 0 \<le> c" using full m(4) by simp
  then obtain b where b: "run_bb (seek 0) mb' = Some ((), b)" "pdu_at b (resource_bits r) (unread (fr_sdu f)) 0 []"
    using block_received [OF m(2)] full m(4) by (metis add.right_neutral diff_self_eq_0 replicate_0)
  have b': "pdu_at b (resource_bits r) (take n (unread (fr_sdu f))) 0 (drop n (unread (fr_sdu f)))"
    using b(2) by (simp add: pdu_at_def fill_pattern_def)
  have ne: "take n (unread (fr_sdu f)) \<noteq> []" and ln: "length (take n (unread (fr_sdu f))) = n"
    using tail by (auto simp: n_def simp del: length_unread)
  have L: "c div 8 < 58" using c by simp
  then have u: "unat (of_nat (c div 8) :: u8) = c div 8" by (simp add: unat_of_nat take_bit_nat_eq_self)
  have d: "c div 8 * 8 = c - c mod 8" by (simp add: minus_mod_eq_div_mult)
  have len: "c div 8 * 8 = length (resource_bits r) + length (take n (unread (fr_sdu f))) + 0"
    unfolding ln d using full tail m(4) by (simp add: n_def del: length_unread)
  have r: "addr r = Some a" "res_fill_bits r \<longleftrightarrow> (0::nat) > 0" "res_length_ind r < 58"
    "unat (res_length_ind r) * 8 = length (resource_bits r) + length (take n (unread (fr_sdu f))) + 0"
    using a L u len by (simp_all add: r_def resource_for_def word_less_nat_alt del: length_unread)
  obtain sdu b'' where rx: "rx_mac_resource scr s q b = Some (s, push_back q (tma_ind scr (addr_norm a) sdu), b'')"
    "unread sdu = take n (unread (fr_sdu f))" "bb_wf b''" "window b'' = drop n (unread (fr_sdu f))"
    by (rule rx_resource_whole [OF b' m(3) r ne])
  have "length (window b'') < 16" using rx(4) tail by (simp add: n_def del: length_unread)
  moreover obtain x ys where "resource_bits r = False # False # x # ys" using header_starts(1) by blast
  ultimately have "rx_tmv_sch scr s q b = Some (s, push_back q (tma_ind scr (addr_norm a) sdu))"
    using sch_after(2) [OF pdu_at_facts(1) [OF b'] pdu_at_start [OF b'] pdu_type_bits(1) _ rx(3), of x ys scr s q] rx(1)
    by (simp add: rx_pdu_def)
  then show thesis using that m(1) b(1) rx(2) by (simp add: n_def)
qed

text \<open>A length indication that ends inside the header violates an assertion of the bit buffer.\<close>

lemma short_length_panics:
  assumes b: "pdu_at b (resource_bits r) p 0 rest" and v: "resource_valid r" "\<not> is_null_pdu r" "\<not> res_fill_bits r"
    and len: "res_length_ind r < 58" "unat (res_length_ind r) * 8 < length (resource_bits r)"
  shows "rx_tmv_sch scr s q b = None"
proof -
  note f = pdu_at_facts [OF b] and nf = resource_norm_simps [OF v(1,2)]
  let ?b = "bb_adv (length (resource_bits r)) b"
  have "\<exists>t. validate_for_serialization r = Inr t" using v(1) by (simp add: resource_valid_def)
  then have "res_length_ind r \<noteq> 0" using validate_Inr(4) by blast
  then have pos: "1 \<le> res_length_ind r" by (simp add: word_le_nat_alt flip: unat_gt_0)
  have wf: "bb_wf ?b" using bb_wf_adv [OF f(1)] f(3) by (simp del: length_unread)
  have w: "length (window ?b) = length (resource_bits r) + length p + length rest" using f(5) by (simp add: window_def)
  have "rx_mac_resource scr s q b = None"
    using f(2,6) try_header [OF b parse_resource [OF v(1)]] run_simps(2) [OF wf] w pos len v(3)
    by (simp add: rx_mac_resource_def rx_resource_body_def count_fill_bits_def nf Let_def run_bb_def [of "set_raw_end _"] set_raw_end_def)
  moreover obtain x ys where h: "resource_bits r = False # False # x # ys" using header_starts(1) by blast
  ultimately have "sch_round scr s q b = None"
    using peek_type [OF f(1) pdu_at_start [OF b h]] pdu_type_bits(1) by (simp add: sch_round_def rx_pdu_def)
  then show ?thesis by (simp add: rx_tmv_sch.simps [of scr s q b])
qed

section \<open>Properties\<close>

definition example_resource :: "u8 \<Rightarrow> mac_resource" where
  "example_resource l = \<lparr>res_fill_bits = False, res_pos_of_grant = 0, encryption_mode = 0, random_access_flag = False,
     res_length_ind = l, addr = Some \<lparr>ssi = 1234, ssi_type = Issi\<rparr>, event_label = None, usage_marker = None,
     power_control_element = None, res_slot_granting = None, res_chan_alloc = None\<rparr>"

lemma example_simps [simp]: "addr (example_resource l) = Some \<lparr>ssi = 1234, ssi_type = Issi\<rparr>" "\<not> is_null_pdu (example_resource l)"
  "\<not> res_fill_bits (example_resource l)" "res_length_ind (example_resource l) = l"
  "(example_resource l)\<lparr>res_length_ind := l'\<rparr> = example_resource l'"
  by (simp_all add: example_resource_def is_null_pdu_def)

lemma example_valid: "l \<noteq> 0 \<Longrightarrow> l \<le> 63 \<Longrightarrow> resource_valid (example_resource l)"
  by (simp add: resource_valid_def validate_for_serialization_def example_resource_def select_addr_type_def is_null_pdu_def check_def
      some_exceeds_def ca_ok_def not_less)

lemma example_sendable: "sendable (example_resource l)"
  using example_valid [of 63] by (simp add: sendable_def)

lemma example_header: "compute_header_len (example_resource l) = 43"
  by (simp add: compute_header_len_def example_resource_def is_null_pdu_def)

lemma example_fragger:
  "\<exists>f. fragger_new (example_resource 1) (bb_from_vec xs) None = Some f \<and> fresh f \<and> resource f = example_resource 1
     \<and> fr_sdu f = bb_from_vec xs"
proof -
  have "bb_pos (bb_from_vec xs) = 0" "bb_start (bb_from_vec xs) = 0" by (simp_all add: bb_from_vec_def)
  then show ?thesis
    using example_sendable [of 1] run_simps(1) [of "bb_from_vec xs"] by (simp add: fragger_new_def fresh_def)
qed

lemma length_unread_vec: "length (unread (bb_from_vec xs)) = 8 * length xs" "unread (bb_from_vec xs) = [] \<longleftrightarrow> xs = []"
proof -
  show l: "length (unread (bb_from_vec xs)) = 8 * length xs" by (simp add: bb_from_vec_def)
  show "unread (bb_from_vec xs) = [] \<longleftrightarrow> xs = []" unfolding length_0_conv [symmetric] l by simp
qed

lemma new_station: "ms_inv (ms_frags umac_ms_new)" "ts_index (ms_dltime umac_ms_new) = Some 0"
  by (simp_all add: umac_ms_new_def ms_inv_new ts_index_def tdma_default_def)

text \<open>C1: an SDU handed to the fragmenter of the base station reaches the mobile station.  With blocks of
  124 to 463 bits, at most two blocks more than the SDU has pieces of 120 bits are enough: the
  fragmenter then has sent everything, and the upper MAC of the station has delivered exactly one
  SDU, with the bits that were sent and the address they were sent to.  The SDU is not
  empty and has at most 4096 bits, its header is one the fragmenter can send, and it does not end in the
  last, incomplete octet of the first block; blocks of 124 and 268 bits end in such an octet.\<close>

theorem downlink_sdu_is_delivered:
  assumes "fragger_new r sdu reporter = Some f" and "bb_wf sdu" and "unread sdu \<noteq> []" and "sendable r" and "addr r = Some a"
    and "ms_inv (ms_frags s)" and "ts_index (ms_dltime s) = Some i" and "length (unread sdu) \<le> DEFRAG_BUF_MAX_LEN"
    and "\<forall>c \<in> set caps. 124 \<le> c \<and> c < 464" and "(length (unread sdu) + 119) div 120 + 2 \<le> length caps"
    and "compute_header_len r + length (unread sdu) \<le> hd caps div 8 * 8 \<or> hd caps < compute_header_len r + length (unread sdu)"
  shows "\<exists>f' frags out. downlink scr caps f s q = Some (True, f', s\<lparr>ms_frags := frags\<rparr>, push_back q (tma_ind scr (addr_norm a) out))
    \<and> unread out = unread sdu \<and> is_fully_transmitted f' \<and> ms_inv frags"
  using assms by (rule downlink_delivers)

theorem downlink_sdu_is_delivered_witness:
  "\<exists>f f' frags out. fragger_new (example_resource 1) (bb_from_vec (replicate 25 0xA5)) None = Some f
     \<and> downlink 3 [124, 124, 124, 268] f umac_ms_new [] = Some (True, f', umac_ms_new\<lparr>ms_frags := frags\<rparr>,
         [tma_ind 3 \<lparr>ssi = 1234, ssi_type = Ssi\<rparr> out])
     \<and> unread out = unread (bb_from_vec (replicate 25 0xA5))"
proof -
  obtain f where f: "fragger_new (example_resource 1) (bb_from_vec (replicate 25 0xA5)) None = Some f" using example_fragger by blast
  have "\<exists>f' frags out. downlink 3 [124, 124, 124, 268] f umac_ms_new [] = Some (True, f', umac_ms_new\<lparr>ms_frags := frags\<rparr>,
      push_back [] (tma_ind 3 (addr_norm \<lparr>ssi = 1234, ssi_type = Issi\<rparr>) out))
    \<and> unread out = unread (bb_from_vec (replicate 25 0xA5)) \<and> is_fully_transmitted f' \<and> ms_inv frags"
    by (rule downlink_sdu_is_delivered [OF f _ _ example_sendable _ new_station])
      (simp_all add: length_unread_vec example_header DEFRAG_BUF_MAX_LEN_def del: length_unread)
  then show ?thesis using f by (simp add: push_back_def addr_norm_def) blast
qed

text \<open>C20: an SDU that, with its header, exactly fills a block whose capacity is not a whole number of
  octets is sent in one MAC-RESOURCE that announces the octets rounded down, and is reported as
  transmitted; the station then delivers it without its last bits.\<close>

theorem unaligned_block_loses_sdu_bits:
  assumes "fresh f" and "addr (resource f) = Some a" and "c < 464"
    and "compute_header_len (resource f) + length (unread (fr_sdu f)) = c" and "c mod 8 < length (unread (fr_sdu f))"
  shows "\<exists>f' sdu. downlink scr [c] f s q = Some (True, f', s, push_back q (tma_ind scr (addr_norm a) sdu))
    \<and> unread sdu = take (length (unread (fr_sdu f)) - c mod 8) (unread (fr_sdu f)) \<and> is_fully_transmitted f'"
  using downlink_truncates [OF assms, of scr "[]" s q] by metis

theorem unaligned_block_loses_sdu_bits_witness:
  "\<exists>f f' sdu. resource f = example_resource 1 \<and> fr_sdu f = bb_from_vec (replicate 10 0xA5)
     \<and> downlink 3 [123] f umac_ms_new [] = Some (True, f', umac_ms_new, [tma_ind 3 \<lparr>ssi = 1234, ssi_type = Ssi\<rparr> sdu])
     \<and> length (unread (fr_sdu f)) = 80 \<and> length (unread sdu) = 77"
proof -
  obtain f where f: "fresh f" "resource f = example_resource 1" "fr_sdu f = bb_from_vec (replicate 10 0xA5)" using example_fragger by blast
  have l: "length (unread (fr_sdu f)) = 80" unfolding f(3) length_unread_vec by simp
  have "\<exists>f' sdu. downlink 3 [123] f umac_ms_new [] = Some (True, f', umac_ms_new,
      push_back [] (tma_ind 3 (addr_norm \<lparr>ssi = 1234, ssi_type = Issi\<rparr>) sdu))
    \<and> unread sdu = take (length (unread (fr_sdu f)) - 123 mod 8) (unread (fr_sdu f)) \<and> is_fully_transmitted f'"
    by (rule unaligned_block_loses_sdu_bits [OF f(1)]) (simp_all add: l f(2) example_header del: length_unread)
  then obtain f' sdu where d: "downlink 3 [123] f umac_ms_new [] = Some (True, f', umac_ms_new,
      push_back [] (tma_ind 3 (addr_norm \<lparr>ssi = 1234, ssi_type = Issi\<rparr>) sdu))" "unread sdu = take 77 (unread (fr_sdu f))"
    unfolding l by auto
  have "length (unread sdu) = 77" unfolding d(2) length_take l by simp
  then show ?thesis using f d(1) l by (intro exI [of _ f] exI [of _ f'] exI [of _ sdu]) (simp add: push_back_def addr_norm_def del: length_unread)
qed

text \<open>C21: a MAC-RESOURCE whose length indication ends before its own header makes the station panic,
  whatever follows in the block.\<close>

theorem short_length_indication_panics:
  assumes "bb_wf b" and "bb_pos b = bb_start b" and "window b = resource_bits r @ rest"
    and "resource_valid r" and "\<not> is_null_pdu r" and "\<not> res_fill_bits r"
    and "res_length_ind r < 58" and "unat (res_length_ind r) * 8 < length (resource_bits r)"
  shows "rx_tmv_sch scr s q b = None"
proof -
  have "pdu_at b (resource_bits r) [] 0 rest" using assms(1-3) by (simp add: pdu_at_def fill_pattern_def)
  then show ?thesis using assms(4-8) by (rule short_length_panics)
qed

theorem short_length_indication_panics_witness:
  "\<exists>b. bb_wf b \<and> window b = resource_bits (example_resource 1) \<and> rx_tmv_sch 3 umac_ms_new [] b = None"
proof -
  have v: "resource_valid (example_resource 1)" by (rule example_valid) simp_all
  have l: "length (resource_bits (example_resource 1)) = 43" using length_resource_bits [OF v] by (simp add: example_header)
  obtain mb where w: "run_bb (resource_to_bitbuf (example_resource 1)) (bb_new 43) = Some ((), mb)" "wrote (bb_new 43) (resource_bits (example_resource 1)) mb"
    by (rule run_emits [OF mac_resource.enc_emits [OF v], of "bb_new 43"]) (simp_all add: l can_write_new)
  then have "wrote (bb_new 43) (resource_bits (example_resource 1) @ [] @ fill_pattern 0) mb" by (simp add: fill_pattern_def)
  then obtain b where b: "pdu_at b (resource_bits (example_resource 1)) [] 0 (replicate (43 - (43 + 0 + 0)) False)"
    by (rule block_received [where c = 43, unfolded l]) (simp_all add: l)
  then have "bb_wf b" "bb_pos b = bb_start b" "window b = resource_bits (example_resource 1) @ []" by (simp_all add: pdu_at_def fill_pattern_def)
  then have "rx_tmv_sch 3 umac_ms_new [] b = None"
    using v by (rule short_length_indication_panics) (simp_all add: l)
  then show ?thesis using b by (auto simp: pdu_at_def fill_pattern_def)
qed

end
