(* ===== verification/Circuit_Mgr.thy ===== *)
theory Circuit_Mgr
  imports Umac_Ms
begin

text \<open>
  The circuits of the base station's upper MAC:
  \<^verbatim>\<open>crates/tetra-entities/src/umac/subcomp/circuit_mgr.rs\<close> with the circuit of
  \<^verbatim>\<open>crates/tetra-saps/src/control/call_control.rs\<close>.  A manager has one circuit slot per direction
  and timeslot and one queue of media blocks per timeslot.  The arrays of four are lists of four,
  and every operation checks its timeslot before it indexes them.  The lemmas show that the queue
  of a timeslot without downlink circuit is empty and that a queue is the sliding window of the
  blocks put into it.
\<close>

section \<open>Circuits\<close>

datatype direction = DirNone | DirUl | DirDl | DirBoth

datatype circuit_mode_type = TchSMode | Tch72 | Tch48n1 | Tch48n4 | Tch48n8 | Tch24n1 | Tch24n4 | Tch24n8

datatype circuit_dl_media_source = LocalLoopback | LocalParrot | SwMI

record circuit =
  circ_direction :: direction
  circ_ts :: u8
  circ_peer_ts :: "u8 option"
  circ_usage :: u8
  circ_mode :: circuit_mode_type
  circ_speech_service :: "u8 option"
  circ_etee_encrypted :: bool
  circ_dl_media_source :: circuit_dl_media_source
  circ_active_addr :: "tetra_address option"
  circ_active_secondary_addrs :: "tetra_address list"

section \<open>The manager\<close>

definition MAX_TX_DATA_BLOCKS_PER_TIMESLOT :: nat where
  "MAX_TX_DATA_BLOCKS_PER_TIMESLOT = 18"

datatype circuit_tx_block =
  AcElp "u8 option" "tetra_address option" "u8 list"
| RawTchSHalfSlot "u8 option" "tetra_address option" phy_block_num "u8 list"

fun block_source :: "circuit_tx_block \<Rightarrow> u8 option \<times> tetra_address option" where
  "block_source (AcElp source_ul_ts speaker_addr block) = (source_ul_ts, speaker_addr)"
| "block_source (RawTchSHalfSlot source_ul_ts speaker_addr block_num type5_bits) = (source_ul_ts, speaker_addr)"

definition matches_source :: "u8 \<Rightarrow> tetra_address \<Rightarrow> circuit_tx_block \<Rightarrow> bool" where
  "matches_source source_ul_ts source_addr b =
     (let (block_source_ul_ts, speaker_addr) = block_source b in
      block_source_ul_ts = Some source_ul_ts
      \<and> (case speaker_addr of None \<Rightarrow> True | Some adr \<Rightarrow> adr = source_addr))"

record circuit_mgr =
  mgr_dl :: "circuit option list"
  mgr_ul :: "circuit option list"
  mgr_tx_data :: "circuit_tx_block list list"

definition circuit_mgr_new :: circuit_mgr where
  "circuit_mgr_new = \<lparr>mgr_dl = [None, None, None, None], mgr_ul = [None, None, None, None], mgr_tx_data = [[], [], [], []]\<rparr>"

definition ts_in_range :: "u8 \<Rightarrow> bool" where
  "ts_in_range ts \<longleftrightarrow> 1 \<le> ts \<and> ts \<le> 4"

definition slot_index :: "u8 \<Rightarrow> nat" where
  "slot_index ts = unat ts - 1"

definition is_active :: "circuit_mgr \<Rightarrow> direction \<Rightarrow> u8 \<Rightarrow> bool" where
  "is_active s dir ts =
     (if \<not> ts_in_range ts then False
      else case dir of
             DirDl \<Rightarrow> mgr_dl s ! slot_index ts \<noteq> None
           | DirUl \<Rightarrow> mgr_ul s ! slot_index ts \<noteq> None
           | _ \<Rightarrow> False)"

definition get_usage :: "circuit_mgr \<Rightarrow> direction \<Rightarrow> u8 \<Rightarrow> u8 option" where
  "get_usage s dir ts =
     (if \<not> ts_in_range ts then None
      else case dir of
             DirDl \<Rightarrow> map_option circ_usage (mgr_dl s ! slot_index ts)
           | DirUl \<Rightarrow> map_option circ_usage (mgr_ul s ! slot_index ts)
           | _ \<Rightarrow> None)"

definition mgr_close_circuit :: "direction \<Rightarrow> u8 \<Rightarrow> circuit_mgr \<Rightarrow> circuit option \<times> circuit_mgr" where
  "mgr_close_circuit dir ts s =
     (if \<not> ts_in_range ts then (None, s)
      else case dir of
             DirDl \<Rightarrow> (mgr_dl s ! slot_index ts,
                      s\<lparr>mgr_tx_data := (mgr_tx_data s)[slot_index ts := []], mgr_dl := (mgr_dl s)[slot_index ts := None]\<rparr>)
           | DirUl \<Rightarrow> (mgr_ul s ! slot_index ts, s\<lparr>mgr_ul := (mgr_ul s)[slot_index ts := None]\<rparr>)
           | _ \<Rightarrow> (None, s))"

definition mgr_create_circuit :: "direction \<Rightarrow> circuit \<Rightarrow> circuit_mgr \<Rightarrow> circuit_mgr" where
  "mgr_create_circuit dir c s =
     (let ts = circ_ts c in
      if \<not> ts_in_range ts then s
      else let s = (if is_active s dir ts then snd (mgr_close_circuit dir ts s) else s) in
           case dir of
             DirDl \<Rightarrow>
               let s = (if mgr_tx_data s ! slot_index ts \<noteq> []
                        then s\<lparr>mgr_tx_data := (mgr_tx_data s)[slot_index ts := []]\<rparr> else s) in
               s\<lparr>mgr_dl := (mgr_dl s)[slot_index ts := Some c]\<rparr>
           | DirUl \<Rightarrow> s\<lparr>mgr_ul := (mgr_ul s)[slot_index ts := Some c]\<rparr>
           | _ \<Rightarrow> s)"

definition set_dl_media_source :: "u8 \<Rightarrow> circuit_dl_media_source \<Rightarrow> circuit_mgr \<Rightarrow> bool \<times> circuit_mgr" where
  "set_dl_media_source ts src s =
     (if \<not> ts_in_range ts then (False, s)
      else let i = slot_index ts; upd = map_option (\<lambda>c. c\<lparr>circ_dl_media_source := src\<rparr>) in
           (mgr_dl s ! i \<noteq> None \<or> mgr_ul s ! i \<noteq> None,
            s\<lparr>mgr_dl := (mgr_dl s)[i := upd (mgr_dl s ! i)], mgr_ul := (mgr_ul s)[i := upd (mgr_ul s ! i)]\<rparr>))"

definition push_tx_data_bounded :: "u8 \<Rightarrow> circuit_tx_block \<Rightarrow> circuit_mgr \<Rightarrow> circuit_mgr" where
  "push_tx_data_bounded ts b s =
     (let i = slot_index ts;
          queue = mgr_tx_data s ! i;
          queue = (if length queue \<ge> MAX_TX_DATA_BLOCKS_PER_TIMESLOT then tl queue else queue) in
      s\<lparr>mgr_tx_data := (mgr_tx_data s)[i := queue @ [b]]\<rparr>)"

definition put_block_with_source ::
  "u8 \<Rightarrow> u8 option \<Rightarrow> tetra_address option \<Rightarrow> u8 list \<Rightarrow> circuit_mgr \<Rightarrow> circuit_mgr" where
  "put_block_with_source ts source_ul_ts speaker_addr block s =
     (if \<not> ts_in_range ts then s
      else if \<not> is_active s DirDl ts then s
      else push_tx_data_bounded ts (AcElp source_ul_ts speaker_addr block) s)"

definition put_block :: "u8 \<Rightarrow> u8 list \<Rightarrow> circuit_mgr \<Rightarrow> circuit_mgr" where
  "put_block ts block = put_block_with_source ts None None block"

definition put_block_from_ul :: "u8 \<Rightarrow> u8 \<Rightarrow> tetra_address option \<Rightarrow> u8 list \<Rightarrow> circuit_mgr \<Rightarrow> circuit_mgr" where
  "put_block_from_ul ts source_ul_ts speaker_addr block = put_block_with_source ts (Some source_ul_ts) speaker_addr block"

definition put_raw_tch_s_half_slot_with_source ::
  "u8 \<Rightarrow> u8 option \<Rightarrow> tetra_address option \<Rightarrow> phy_block_num \<Rightarrow> u8 list \<Rightarrow> circuit_mgr \<Rightarrow> circuit_mgr" where
  "put_raw_tch_s_half_slot_with_source ts source_ul_ts speaker_addr block_num type5_bits s =
     (if \<not> ts_in_range ts then s
      else if \<not> is_active s DirDl ts then s
      else push_tx_data_bounded ts (RawTchSHalfSlot source_ul_ts speaker_addr block_num type5_bits) s)"

definition put_raw_tch_s_half_slot :: "u8 \<Rightarrow> phy_block_num \<Rightarrow> u8 list \<Rightarrow> circuit_mgr \<Rightarrow> circuit_mgr" where
  "put_raw_tch_s_half_slot ts block_num type5_bits = put_raw_tch_s_half_slot_with_source ts None None block_num type5_bits"

definition put_raw_tch_s_half_slot_from_ul ::
  "u8 \<Rightarrow> u8 \<Rightarrow> tetra_address option \<Rightarrow> phy_block_num \<Rightarrow> u8 list \<Rightarrow> circuit_mgr \<Rightarrow> circuit_mgr" where
  "put_raw_tch_s_half_slot_from_ul ts source_ul_ts speaker_addr block_num type5_bits =
     put_raw_tch_s_half_slot_with_source ts (Some source_ul_ts) speaker_addr block_num type5_bits"

definition clear_tx_data :: "u8 \<Rightarrow> circuit_mgr \<Rightarrow> nat \<times> circuit_mgr" where
  "clear_tx_data ts s =
     (if \<not> ts_in_range ts then (0, s)
      else (length (mgr_tx_data s ! slot_index ts), s\<lparr>mgr_tx_data := (mgr_tx_data s)[slot_index ts := []]\<rparr>))"

definition clear_tx_data_except_source :: "u8 \<Rightarrow> u8 \<Rightarrow> tetra_address \<Rightarrow> circuit_mgr \<Rightarrow> nat \<times> circuit_mgr" where
  "clear_tx_data_except_source ts source_ul_ts source_addr s =
     (if \<not> ts_in_range ts then (0, s)
      else let queue = mgr_tx_data s ! slot_index ts;
               kept = filter (matches_source source_ul_ts source_addr) queue in
           (length queue - length kept, s\<lparr>mgr_tx_data := (mgr_tx_data s)[slot_index ts := kept]\<rparr>))"

definition take_block :: "u8 \<Rightarrow> circuit_mgr \<Rightarrow> circuit_tx_block option \<times> circuit_mgr" where
  "take_block ts s =
     (if \<not> is_active s DirDl ts then (None, s)
      else case mgr_tx_data s ! slot_index ts of
             [] \<Rightarrow> (None, s)
           | b # queue \<Rightarrow> (Some b, s\<lparr>mgr_tx_data := (mgr_tx_data s)[slot_index ts := queue]\<rparr>))"

section \<open>The invariant\<close>

text \<open>Four slots each; a circuit stands in the slot of its own timeslot; a queue has at most
  eighteen blocks and none without a downlink circuit.\<close>

definition mgr_ok :: "circuit_mgr \<Rightarrow> bool" where
  "mgr_ok s \<longleftrightarrow> length (mgr_dl s) = 4 \<and> length (mgr_ul s) = 4 \<and> length (mgr_tx_data s) = 4
     \<and> (\<forall>i < 4. length (mgr_tx_data s ! i) \<le> MAX_TX_DATA_BLOCKS_PER_TIMESLOT
          \<and> (mgr_dl s ! i = None \<longrightarrow> mgr_tx_data s ! i = [])
          \<and> (\<forall>c. mgr_dl s ! i = Some c \<or> mgr_ul s ! i = Some c \<longrightarrow> ts_in_range (circ_ts c) \<and> slot_index (circ_ts c) = i))"

named_theorems mgr_defs

lemmas [mgr_defs] = mgr_ok_def is_active_def mgr_close_circuit_def mgr_create_circuit_def set_dl_media_source_def
  push_tx_data_bounded_def put_block_with_source_def put_raw_tch_s_half_slot_with_source_def clear_tx_data_def
  clear_tx_data_except_source_def take_block_def MAX_TX_DATA_BLOCKS_PER_TIMESLOT_def Let_def

lemma slot_index_less: "ts_in_range ts \<Longrightarrow> slot_index ts < 4"
  by (auto simp: ts_in_range_def slot_index_def word_le_nat_alt)

lemma slot_index_inj: "ts_in_range ts \<Longrightarrow> ts_in_range ts' \<Longrightarrow> slot_index ts = slot_index ts' \<longleftrightarrow> ts = ts'"
  by (auto simp: ts_in_range_def slot_index_def word_le_nat_alt word_unat_eq_iff)

lemma mgr_ok_new: "mgr_ok circuit_mgr_new"
  by (auto simp: mgr_ok_def circuit_mgr_new_def MAX_TX_DATA_BLOCKS_PER_TIMESLOT_def less_Suc_eq numeral_eq_Suc)

lemma mgr_close_ok: "mgr_ok s \<Longrightarrow> mgr_ok (snd (mgr_close_circuit dir ts s))"
  using slot_index_less [of ts]
  by (cases dir) (auto simp: mgr_defs nth_list_update)

lemma mgr_create_ok: "mgr_ok s \<Longrightarrow> mgr_ok (mgr_create_circuit dir c s)"
  using slot_index_less [of "circ_ts c"]
  by (cases dir) (auto simp: mgr_defs nth_list_update)

lemma set_dl_media_source_ok: "mgr_ok s \<Longrightarrow> mgr_ok (snd (set_dl_media_source ts src s))"
  using slot_index_less [of ts]
  by (auto simp: mgr_defs nth_list_update)

lemma push_ok: "mgr_ok s \<Longrightarrow> ts_in_range ts \<Longrightarrow> is_active s DirDl ts \<Longrightarrow> mgr_ok (push_tx_data_bounded ts b s)"
  using slot_index_less [of ts]
  by (auto simp: mgr_defs nth_list_update)

lemma put_ok:
  assumes "mgr_ok s"
  shows "mgr_ok (put_block_with_source ts src adr block s)"
    and "mgr_ok (put_raw_tch_s_half_slot_with_source ts src adr n bits s)"
  using assms push_ok by (auto simp: put_block_with_source_def put_raw_tch_s_half_slot_with_source_def)

lemma clear_ok:
  assumes "mgr_ok s"
  shows "mgr_ok (snd (clear_tx_data ts s))" and "mgr_ok (snd (clear_tx_data_except_source ts src adr s))"
    and "mgr_ok (snd (take_block ts s))"
  using assms slot_index_less [of ts]
  by (auto simp: mgr_defs nth_list_update split: list.splits intro: order_trans [OF length_filter_le])

section \<open>The media queue as a sliding window\<close>

text \<open>What the queue holds of all blocks put into it: the last eighteen.\<close>

definition last_blocks :: "'a list \<Rightarrow> 'a list" where
  "last_blocks bs = drop (length bs - MAX_TX_DATA_BLOCKS_PER_TIMESLOT) bs"

lemma last_blocks_snoc:
  "last_blocks (bs @ [b]) =
     (if length (last_blocks bs) \<ge> MAX_TX_DATA_BLOCKS_PER_TIMESLOT then tl (last_blocks bs) else last_blocks bs) @ [b]"
proof (cases "length bs < 18")
  case False
  then have "length bs - 17 = Suc (length bs - 18)" by simp
  with False show ?thesis
    by (simp add: last_blocks_def MAX_TX_DATA_BLOCKS_PER_TIMESLOT_def drop_Suc tl_drop)
qed (simp add: last_blocks_def MAX_TX_DATA_BLOCKS_PER_TIMESLOT_def)

text \<open>The operations of the media path and what a sequence of them takes out.\<close>

datatype media_op =
  PutAcElp u8 "u8 option" "tetra_address option" "u8 list"
| PutRaw u8 "u8 option" "tetra_address option" phy_block_num "u8 list"
| TakeBlock u8

fun media_step :: "media_op \<Rightarrow> circuit_mgr \<Rightarrow> (u8 \<times> circuit_tx_block option) list \<times> circuit_mgr" where
  "media_step (PutAcElp ts src adr block) s = ([], put_block_with_source ts src adr block s)"
| "media_step (PutRaw ts src adr n bits) s = ([], put_raw_tch_s_half_slot_with_source ts src adr n bits s)"
| "media_step (TakeBlock ts) s = (let (b, s') = take_block ts s in ([(ts, b)], s'))"

fun media_run :: "media_op list \<Rightarrow> circuit_mgr \<Rightarrow> (u8 \<times> circuit_tx_block option) list \<times> circuit_mgr" where
  "media_run [] s = ([], s)"
| "media_run (p # ps) s = (let (out, s1) = media_step p s; (outs, s2) = media_run ps s1 in (out @ outs, s2))"

text \<open>The specification for one timeslot: a queue that forgets its oldest block when it has
  eighteen, fed with the blocks of this timeslot only.  \<open>None\<close> asks for a block.\<close>

fun window_queue :: "circuit_tx_block option list \<Rightarrow> circuit_tx_block list \<Rightarrow> circuit_tx_block option list" where
  "window_queue [] q = []"
| "window_queue (Some b # ps) q = window_queue ps (last_blocks (q @ [b]))"
| "window_queue (None # ps) [] = None # window_queue ps []"
| "window_queue (None # ps) (b # q) = Some b # window_queue ps q"

fun for_slot :: "u8 \<Rightarrow> media_op \<Rightarrow> circuit_tx_block option list" where
  "for_slot ts (PutAcElp t src adr block) = (if t = ts then [Some (AcElp src adr block)] else [])"
| "for_slot ts (PutRaw t src adr n bits) = (if t = ts then [Some (RawTchSHalfSlot src adr n bits)] else [])"
| "for_slot ts (TakeBlock t) = (if t = ts then [None] else [])"

lemma last_blocks_short: "length q \<le> MAX_TX_DATA_BLOCKS_PER_TIMESLOT \<Longrightarrow> last_blocks q = q"
  by (simp add: last_blocks_def)

lemma push_queue:
  assumes "mgr_ok s" and "ts_in_range ts" and "ts_in_range t"
  shows "mgr_tx_data (push_tx_data_bounded t b s) ! slot_index ts =
    (if t = ts then last_blocks (mgr_tx_data s ! slot_index ts @ [b]) else mgr_tx_data s ! slot_index ts)"
proof -
  have i: "slot_index ts < 4" "slot_index t < 4" using assms slot_index_less by auto
  have "last_blocks (mgr_tx_data s ! slot_index ts) = mgr_tx_data s ! slot_index ts"
    using assms(1) i(1) by (intro last_blocks_short) (simp add: mgr_ok_def)
  then show ?thesis
    using assms i slot_index_inj [OF assms(2,3)]
    by (auto simp: push_tx_data_bounded_def mgr_ok_def last_blocks_snoc Let_def)
qed

lemma is_active_cong: "mgr_dl s' = mgr_dl s \<Longrightarrow> is_active s' DirDl ts = is_active s DirDl ts"
  by (simp add: is_active_def)

lemma media_step_dl: "mgr_dl (snd (media_step p s)) = mgr_dl s"
  by (cases p)
    (simp_all add: put_block_with_source_def put_raw_tch_s_half_slot_with_source_def push_tx_data_bounded_def
       take_block_def Let_def split: list.split)

lemma media_step_keeps:
  assumes "mgr_ok s"
  shows "mgr_ok (snd (media_step p s))" and "is_active (snd (media_step p s)) DirDl ts = is_active s DirDl ts"
proof -
  show "mgr_ok (snd (media_step p s))"
    using assms put_ok clear_ok(3) by (cases p) (simp_all add: split_beta)
  show "is_active (snd (media_step p s)) DirDl ts = is_active s DirDl ts"
    by (rule is_active_cong) (rule media_step_dl)
qed

lemma media_step_slot:
  assumes "mgr_ok s" and "is_active s DirDl ts"
  shows "map snd (filter (\<lambda>x. fst x = ts) (fst (media_step p s)))
      @ window_queue ps (mgr_tx_data (snd (media_step p s)) ! slot_index ts)
    = window_queue (for_slot ts p @ ps) (mgr_tx_data s ! slot_index ts)"
proof -
  have r: "ts_in_range ts" using assms(2) by (auto simp: is_active_def split: if_splits)
  have t: "is_active s DirDl t \<Longrightarrow> ts_in_range t" for t by (auto simp: is_active_def split: if_splits)
  show ?thesis
  proof (cases p)
    case (TakeBlock t)
    then show ?thesis
      using assms r t [of t] slot_index_inj [of ts t] slot_index_less [of ts] slot_index_less [of t]
      by (auto simp: take_block_def mgr_ok_def nth_list_update split: list.splits)
  qed (use assms r t push_queue [OF assms(1) r] in \<open>auto simp: put_block_with_source_def put_raw_tch_s_half_slot_with_source_def\<close>)
qed

lemma media_run_slot:
  assumes "mgr_ok s" and "is_active s DirDl ts"
  shows "map snd (filter (\<lambda>x. fst x = ts) (fst (media_run ps s)))
    = window_queue (concat (map (for_slot ts) ps)) (mgr_tx_data s ! slot_index ts)"
  using assms
proof (induction ps arbitrary: s)
  case (Cons p ps)
  then have "map snd (filter (\<lambda>x. fst x = ts) (fst (media_run ps (snd (media_step p s)))))
    = window_queue (concat (map (for_slot ts) ps)) (mgr_tx_data (snd (media_step p s)) ! slot_index ts)"
    by (intro Cons.IH) (simp_all add: media_step_keeps)
  then show ?case using media_step_slot [OF Cons.prems, of p] by (simp add: split_beta)
qed simp

lemma create_dl:
  assumes "mgr_ok s" and "ts_in_range (circ_ts c)"
  shows "is_active (mgr_create_circuit DirDl c s) DirDl (circ_ts c)"
    and "mgr_tx_data (mgr_create_circuit DirDl c s) ! slot_index (circ_ts c) = []"
proof -
  have i: "slot_index (circ_ts c) < 4" using assms(2) by (rule slot_index_less)
  have l: "length (mgr_dl s) = 4" "length (mgr_tx_data s) = 4" using assms(1) by (simp_all add: mgr_ok_def)
  show "is_active (mgr_create_circuit DirDl c s) DirDl (circ_ts c)"
    using i l assms(2) by (simp add: mgr_create_circuit_def mgr_close_circuit_def is_active_def Let_def)
  show "mgr_tx_data (mgr_create_circuit DirDl c s) ! slot_index (circ_ts c) = []"
    using i l assms(2) by (simp add: mgr_create_circuit_def mgr_close_circuit_def Let_def)
qed

lemma media_run_ok: "mgr_ok s \<Longrightarrow> mgr_ok (snd (media_run ps s))"
  by (induction ps arbitrary: s) (simp_all add: split_beta media_step_keeps)

section \<open>Properties\<close>

text \<open>C39: from the opening of a downlink circuit on, whatever media blocks are put and taken on any
  timeslots in any order, the blocks taken on the circuit's timeslot are those of a queue of the last
  eighteen blocks put on this timeslot, and the manager stays well formed.\<close>

theorem media_queue_is_sliding_window:
  assumes "mgr_ok s" and "ts_in_range (circ_ts c)"
  shows "map snd (filter (\<lambda>x. fst x = circ_ts c) (fst (media_run ps (mgr_create_circuit DirDl c s))))
      = window_queue (concat (map (for_slot (circ_ts c)) ps)) []
    \<and> mgr_ok (snd (media_run ps (mgr_create_circuit DirDl c s)))"
  using media_run_slot [OF mgr_create_ok [OF assms(1)] create_dl(1) [OF assms], of ps] create_dl(2) [OF assms]
    media_run_ok [OF mgr_create_ok [OF assms(1)]]
  by simp

definition example_circuit :: circuit where
  "example_circuit = \<lparr>circ_direction = DirDl, circ_ts = 3, circ_peer_ts = None, circ_usage = 7, circ_mode = TchSMode,
     circ_speech_service = Some 0, circ_etee_encrypted = False, circ_dl_media_source = SwMI, circ_active_addr = None,
     circ_active_secondary_addrs = []\<rparr>"

theorem media_queue_is_sliding_window_witness:
  "map snd (filter (\<lambda>x. fst x = 3) (fst (media_run [PutAcElp 3 None None [1], PutAcElp 2 None None [9], TakeBlock 3, TakeBlock 3]
      (mgr_create_circuit DirDl example_circuit circuit_mgr_new)))) = [Some (AcElp None None [1]), None]"
proof -
  have ts: "circ_ts example_circuit = 3" "ts_in_range 3" by (simp_all add: example_circuit_def ts_in_range_def)
  have "map snd (filter (\<lambda>x. fst x = circ_ts example_circuit)
      (fst (media_run [PutAcElp 3 None None [1], PutAcElp 2 None None [9], TakeBlock 3, TakeBlock 3]
        (mgr_create_circuit DirDl example_circuit circuit_mgr_new))))
    = window_queue (concat (map (for_slot (circ_ts example_circuit))
        [PutAcElp 3 None None [1], PutAcElp 2 None None [9], TakeBlock 3, TakeBlock 3])) []"
    by (rule conjunct1 [OF media_queue_is_sliding_window [OF mgr_ok_new]]) (simp add: ts)
  then show ?thesis by (simp add: ts last_blocks_short MAX_TX_DATA_BLOCKS_PER_TIMESLOT_def)
qed

end
