(* ===== verification/Ul_Sched.thy ===== *)
theory Ul_Sched
  imports Circuit_Mgr Tdma_Time Timeslot_Alloc Mac_Ul Access_Assign
begin

unbundle bit_operations_syntax

text \<open>
  The uplink side of the base station's channel scheduler
  (\<^verbatim>\<open>crates/tetra-entities/src/umac/subcomp/bs_sched.rs\<close>): the schedule of reserved uplink slots, the
  search for grant opportunities, their reservation, the debts of pending grants, the packet-data
  channel assignments, and the access assignment that announces the schedule.  The state has the
  fields of \<open>BsChannelScheduler\<close> that these operations read or write; the downlink queues are not
  among them, and the operations that also drop or add queue elements are modelled in what they do
  to the fields here.  \<open>None\<close> is a panic: an index that underflows or is out of range, a failed
  assertion, an overflow of the clock.
\<close>

section \<open>State\<close>

definition MACSCHED_NUM_FRAMES :: nat where "MACSCHED_NUM_FRAMES = 90"
definition MAX_RESERVED_ACCESS_GRANT_CHUNK_SLOTS :: nat where "MAX_RESERVED_ACCESS_GRANT_CHUNK_SLOTS = 4"
definition BASIC_GRANT_FULL_SLOT_COUNTS_DESC :: "nat list" where
  "BASIC_GRANT_FULL_SLOT_COUNTS_DESC = [68, 51, 34, 24, 17, 13, 10, 8, 6, 5, 4, 3, 2, 1]"
definition PACKET_DATA_ASSIGNED_SCCH_TS :: u8 where "PACKET_DATA_ASSIGNED_SCCH_TS = 2"
definition MAX_PACKET_DATA_PENDING_GRANT_WAIT_GRANTS :: u8 where "MAX_PACKET_DATA_PENDING_GRANT_WAIT_GRANTS = 24"
definition PACKET_DATA_ASSIGNMENT_TTL_TIMESLOTS :: int where "PACKET_DATA_ASSIGNMENT_TTL_TIMESLOTS = 4 * 18 * 300"

record timeslot_schedule =
  ul1 :: "u32 option"
  ul2 :: "u32 option"
  sched_marker :: "u8 option"

definition EMPTY_SCHED :: "timeslot_schedule list list" where
  "EMPTY_SCHED = replicate 4 (replicate MACSCHED_NUM_FRAMES \<lparr>ul1 = None, ul2 = None, sched_marker = None\<rparr>)"

record packet_data_assignment =
  pda_addr :: tetra_address
  pda_ul_dl_assigned :: ul_dl_assignment
  pda_carrier_num :: u16
  pda_expires_at :: tdma_time

datatype packet_data_assignment_update =
  UpdReplace tetra_address "bool list" ul_dl_assignment u16
| UpdAdditional tetra_address "bool list" ul_dl_assignment u16
| UpdQuitAndGo tetra_address

record bs_sched =
  cur_dltime :: tdma_time
  ulsched :: "timeslot_schedule list list"
  circuits :: circuit_mgr
  hangtime :: "bool list"
  next_usage_marker :: "u8 list"
  packet_data_assignments :: "packet_data_assignment option list"
  loss_events :: "tetra_address list"

definition bs_sched_new :: bs_sched where
  "bs_sched_new = \<lparr>cur_dltime = \<lparr>tt_t = 0, tt_f = 0, tt_m = 0, tt_h = 0\<rparr>, ulsched = EMPTY_SCHED, circuits = circuit_mgr_new,
     hangtime = [False, False, False, False], next_usage_marker = [4, 4, 4, 4],
     packet_data_assignments = [None, None, None, None], loss_events = []\<rparr>"

definition purge_schedule :: "bs_sched \<Rightarrow> bs_sched" where
  "purge_schedule s = s\<lparr>ulsched := EMPTY_SCHED, packet_data_assignments := [None, None, None, None], loss_events := []\<rparr>"

definition set_dl_time :: "tdma_time \<Rightarrow> bs_sched \<Rightarrow> bs_sched" where
  "set_dl_time new_ts s = purge_schedule (s\<lparr>cur_dltime := new_ts\<rparr>)"

definition tick_start :: "tdma_time \<Rightarrow> bs_sched \<Rightarrow> bs_sched option" where
  "tick_start ts s = do {
     t \<leftarrow> add_timeslots (cur_dltime s) 1;
     assert_opt (ts = t);
     Some (s\<lparr>cur_dltime := t\<rparr>) }"

section \<open>Debts of pending grants\<close>

record pending_grant_debt =
  res_req :: reservation_requirement
  remaining_slots :: nat
  wait_grants :: u8

datatype pending_grant_origin = CommonControlOrigin | PacketDataOrigin u8

definition debt_new :: "reservation_requirement \<Rightarrow> pending_grant_debt" where
  "debt_new r = \<lparr>res_req = r, remaining_slots = (if r = Req1Subslot then 1 else res_req_to_req_slotcount r), wait_grants = 0\<rparr>"

definition debt_is_halfslot :: "pending_grant_debt \<Rightarrow> bool" where
  "debt_is_halfslot d \<longleftrightarrow> res_req d = Req1Subslot"

definition next_chunk_slots :: "pending_grant_debt \<Rightarrow> nat" where
  "next_chunk_slots d =
     (if debt_is_halfslot d then 1 else min (remaining_slots d) MAX_RESERVED_ACCESS_GRANT_CHUNK_SLOTS)"

definition remaining_after_grant :: "pending_grant_debt \<Rightarrow> nat \<Rightarrow> pending_grant_debt option" where
  "remaining_after_grant d granted_slots =
     (if debt_is_halfslot d \<or> granted_slots \<ge> remaining_slots d then None
      else let left = remaining_slots d - granted_slots in
           Some \<lparr>res_req = res_req_from_req_slotcount left, remaining_slots = left, wait_grants = 0\<rparr>)"

definition wait_capacity_allocation :: "pending_grant_debt \<Rightarrow> basic_slotgrant_cap_alloc" where
  "wait_capacity_allocation d =
     (if debt_is_halfslot d then FirstSubslotGranted else from_req_slotcount (remaining_slots d))"

definition coalesce_max :: "pending_grant_debt \<Rightarrow> pending_grant_debt \<Rightarrow> pending_grant_debt" where
  "coalesce_max d other =
     (if remaining_slots other > remaining_slots d
      then other\<lparr>wait_grants := max (wait_grants d) (wait_grants other)\<rparr>
      else d\<lparr>wait_grants := max (wait_grants d) (wait_grants other)\<rparr>)"

definition after_wait_grant :: "pending_grant_debt \<Rightarrow> pending_grant_debt" where
  "after_wait_grant d = d\<lparr>wait_grants := (if wait_grants d = 255 then 255 else wait_grants d + 1)\<rparr>"

definition packet_data_wait_budget_exhausted :: "pending_grant_debt \<Rightarrow> bool" where
  "packet_data_wait_budget_exhausted d \<longleftrightarrow> wait_grants d \<ge> MAX_PACKET_DATA_PENDING_GRANT_WAIT_GRANTS"

section \<open>Packet-data assignments\<close>

definition packet_data_allocator_blocks_assignment :: "timeslot_allocator option \<Rightarrow> u8 \<Rightarrow> bool" where
  "packet_data_allocator_blocks_assignment alloc ts =
     (case Option.bind alloc (\<lambda>a. owner_of a ts) of None \<Rightarrow> False | Some ow \<Rightarrow> ow \<noteq> PacketData)"

definition packet_data_allocator_confirms_assignment :: "timeslot_allocator option \<Rightarrow> u8 \<Rightarrow> bool" where
  "packet_data_allocator_confirms_assignment alloc ts =
     (case alloc of None \<Rightarrow> True | Some a \<Rightarrow> owner_of a ts = Some PacketData)"

definition reserve_packet_data_allocator_slot :: "u8 \<Rightarrow> timeslot_allocator option \<Rightarrow> bool \<times> timeslot_allocator option" where
  "reserve_packet_data_allocator_slot ts alloc =
     (case alloc of
        None \<Rightarrow> (True, None)
      | Some a \<Rightarrow>
          (case owner_of a ts of
             None \<Rightarrow> (let (r, a') = reserve PacketData ts a in (case r of Inr _ \<Rightarrow> True | Inl _ \<Rightarrow> False, Some a'))
           | Some ow \<Rightarrow> (ow = PacketData, Some a)))"

definition release_packet_data_allocator_slot :: "u8 \<Rightarrow> timeslot_allocator option \<Rightarrow> timeslot_allocator option" where
  "release_packet_data_allocator_slot ts alloc =
     (case alloc of
        None \<Rightarrow> None
      | Some a \<Rightarrow> if owner_of a ts = Some PacketData then Some (snd (release PacketData ts a)) else Some a)"

definition packet_data_slot_has_voice_circuit :: "bs_sched \<Rightarrow> u8 \<Rightarrow> bool" where
  "packet_data_slot_has_voice_circuit s ts =
     (if \<not> (2 \<le> ts \<and> ts \<le> 4) then False
      else is_active (circuits s) DirDl ts \<or> is_active (circuits s) DirUl ts)"

definition packet_data_slot_has_other_assignment :: "bs_sched \<Rightarrow> u8 \<Rightarrow> tetra_address \<Rightarrow> bool" where
  "packet_data_slot_has_other_assignment s ts adr =
     (if \<not> (2 \<le> ts \<and> ts \<le> 4) then False
      else case packet_data_assignments s ! slot_index ts of None \<Rightarrow> False | Some a \<Rightarrow> pda_addr a \<noteq> adr)"

definition packet_data_has_active_assignment_for_other_addr ::
  "bs_sched \<Rightarrow> tetra_address \<Rightarrow> timeslot_allocator option \<Rightarrow> bool" where
  "packet_data_has_active_assignment_for_other_addr s adr alloc =
     (let ts = PACKET_DATA_ASSIGNED_SCCH_TS in
      case packet_data_assignments s ! slot_index ts of
        None \<Rightarrow> False
      | Some a \<Rightarrow> pda_addr a \<noteq> adr \<and> \<not> packet_data_slot_has_voice_circuit s ts
          \<and> packet_data_allocator_confirms_assignment alloc ts)"

definition packet_data_slot_available_for_assignment ::
  "bs_sched \<Rightarrow> u8 \<Rightarrow> tetra_address \<Rightarrow> timeslot_allocator option \<Rightarrow> bool" where
  "packet_data_slot_available_for_assignment s ts adr alloc \<longleftrightarrow>
     \<not> packet_data_slot_has_voice_circuit s ts
     \<and> \<not> packet_data_allocator_blocks_assignment alloc ts
     \<and> \<not> packet_data_slot_has_other_assignment s ts adr"

definition packet_data_assignment_supports_uplink :: "packet_data_assignment \<Rightarrow> bool" where
  "packet_data_assignment_supports_uplink a \<longleftrightarrow> pda_ul_dl_assigned a = Ul \<or> pda_ul_dl_assigned a = Both"

definition packet_data_requested_traffic_slot_count :: "bool list \<Rightarrow> nat" where
  "packet_data_requested_traffic_slot_count assigned =
     (let requested_non_mcch = length (filter id (drop 1 assigned)) in
      if requested_non_mcch > 0 then requested_non_mcch
      else if assigned ! 0 then 1 else 0)"

definition plan_packet_data_traffic_slots_with_allocator ::
  "bs_sched \<Rightarrow> nat \<Rightarrow> tetra_address \<Rightarrow> timeslot_allocator option \<Rightarrow> bool list" where
  "plan_packet_data_traffic_slots_with_allocator s requested_count adr alloc =
     (let planned = [False, False, False, False]; ts = PACKET_DATA_ASSIGNED_SCCH_TS in
      if requested_count = 0 then planned
      else if packet_data_has_active_assignment_for_other_addr s adr alloc then planned
      else if packet_data_slot_available_for_assignment s ts adr alloc then planned[slot_index ts := True]
      else planned)"

text \<open>One round of the loop over the traffic timeslots, the same for both kinds of update.\<close>

definition assign_slot ::
  "bool list \<Rightarrow> packet_data_assignment \<Rightarrow> u8 \<Rightarrow> bs_sched \<times> timeslot_allocator option \<Rightarrow> bs_sched \<times> timeslot_allocator option" where
  "assign_slot planned a ts = (\<lambda>(s, alloc).
     let slot = slot_index ts;
         available = planned ! slot \<and> packet_data_slot_available_for_assignment s ts (pda_addr a) alloc;
         (reserved, alloc1) = (if available then reserve_packet_data_allocator_slot ts alloc else (False, alloc));
         clear = (s\<lparr>packet_data_assignments := (packet_data_assignments s)[slot := None]\<rparr>,
                  release_packet_data_allocator_slot ts alloc1) in
     if available \<and> reserved
     then (s\<lparr>packet_data_assignments := (packet_data_assignments s)[slot := Some a]\<rparr>, alloc1)
     else if planned ! slot then clear
     else case packet_data_assignments s ! slot of
            Some b \<Rightarrow> if pda_addr b = pda_addr a then clear else (s, alloc1)
          | None \<Rightarrow> (s, alloc1))"

definition quit_slot :: "tetra_address \<Rightarrow> u8 \<Rightarrow> bs_sched \<times> timeslot_allocator option \<Rightarrow> bs_sched \<times> timeslot_allocator option" where
  "quit_slot adr ts = (\<lambda>(s, alloc).
     case packet_data_assignments s ! slot_index ts of
       Some b \<Rightarrow>
         if pda_addr b = adr
         then (s\<lparr>packet_data_assignments := (packet_data_assignments s)[slot_index ts := None]\<rparr>,
               release_packet_data_allocator_slot ts alloc)
         else (s, alloc)
     | None \<Rightarrow> (s, alloc))"

fun apply_packet_data_assignment_update_with_allocator ::
  "packet_data_assignment_update \<Rightarrow> tdma_time \<Rightarrow> bs_sched \<times> timeslot_allocator option
     \<Rightarrow> (bs_sched \<times> timeslot_allocator option) option" where
  "apply_packet_data_assignment_update_with_allocator (UpdReplace adr assigned ul_dl carrier) now (s, alloc) = do {
     expires_at \<leftarrow> add_timeslots now PACKET_DATA_ASSIGNMENT_TTL_TIMESLOTS;
     let planned = plan_packet_data_traffic_slots_with_allocator s (packet_data_requested_traffic_slot_count assigned) adr alloc;
     let a = \<lparr>pda_addr = adr, pda_ul_dl_assigned = ul_dl, pda_carrier_num = carrier, pda_expires_at = expires_at\<rparr>;
     Some (fold (assign_slot planned a) [2, 3, 4] (s, alloc)) }"
| "apply_packet_data_assignment_update_with_allocator (UpdAdditional adr assigned ul_dl carrier) now (s, alloc) = do {
     expires_at \<leftarrow> add_timeslots now PACKET_DATA_ASSIGNMENT_TTL_TIMESLOTS;
     let planned = plan_packet_data_traffic_slots_with_allocator s (packet_data_requested_traffic_slot_count assigned) adr alloc;
     let a = \<lparr>pda_addr = adr, pda_ul_dl_assigned = ul_dl, pda_carrier_num = carrier, pda_expires_at = expires_at\<rparr>;
     Some (fold (assign_slot planned a) [2, 3, 4] (s, alloc)) }"
| "apply_packet_data_assignment_update_with_allocator (UpdQuitAndGo adr) now (s, alloc) = do {
     expires_at \<leftarrow> add_timeslots now PACKET_DATA_ASSIGNMENT_TTL_TIMESLOTS;
     Some (fold (quit_slot adr) [2, 3, 4] (s, alloc)) }"

fun expire_loop ::
  "tdma_time \<Rightarrow> u8 list \<Rightarrow> bs_sched \<times> timeslot_allocator option \<Rightarrow> (bs_sched \<times> timeslot_allocator option) option" where
  "expire_loop now [] sa = Some sa"
| "expire_loop now (ts # tss) (s, alloc) =
     (case packet_data_assignments s ! slot_index ts of
        None \<Rightarrow> expire_loop now tss (s, alloc)
      | Some a \<Rightarrow> do {
          left \<leftarrow> diff (pda_expires_at a) now;
          if left \<le> 0
          then expire_loop now tss (s\<lparr>packet_data_assignments := (packet_data_assignments s)[slot_index ts := None]\<rparr>,
                                    release_packet_data_allocator_slot ts alloc)
          else expire_loop now tss (s, alloc) })"

definition expire_packet_data_assignments_with_allocator ::
  "tdma_time \<Rightarrow> bs_sched \<times> timeslot_allocator option \<Rightarrow> (bs_sched \<times> timeslot_allocator option) option" where
  "expire_packet_data_assignments_with_allocator now sa = expire_loop now [2, 3, 4] sa"

definition packet_data_assignment_for_timeslot_with_allocator ::
  "bs_sched \<Rightarrow> tdma_time \<Rightarrow> timeslot_allocator option \<Rightarrow> packet_data_assignment option" where
  "packet_data_assignment_for_timeslot_with_allocator s ts alloc =
     (if tt_t ts \<noteq> PACKET_DATA_ASSIGNED_SCCH_TS \<or> tt_f ts = 18 then None
      else if \<not> packet_data_allocator_confirms_assignment alloc (tt_t ts) then None
      else if packet_data_slot_has_voice_circuit s (tt_t ts) then None
      else packet_data_assignments s ! slot_index (tt_t ts))"

definition packet_data_pending_grant_origin_is_valid ::
  "bs_sched \<Rightarrow> tetra_address \<Rightarrow> pending_grant_origin \<Rightarrow> timeslot_allocator option \<Rightarrow> bool" where
  "packet_data_pending_grant_origin_is_valid s adr origin alloc =
     (case origin of
        CommonControlOrigin \<Rightarrow> True
      | PacketDataOrigin assigned_ts \<Rightarrow>
          if \<not> (2 \<le> assigned_ts \<and> assigned_ts \<le> 4) then False
          else if assigned_ts \<noteq> PACKET_DATA_ASSIGNED_SCCH_TS then False
          else if packet_data_slot_has_voice_circuit s assigned_ts then False
          else if \<not> packet_data_allocator_confirms_assignment alloc assigned_ts then False
          else case packet_data_assignments s ! slot_index assigned_ts of
                 None \<Rightarrow> False
               | Some a \<Rightarrow> pda_addr a = adr \<and> packet_data_assignment_supports_uplink a)"

definition packet_data_active_uplink_slots_for_addr_with_allocator ::
  "bs_sched \<Rightarrow> tetra_address \<Rightarrow> timeslot_allocator option \<Rightarrow> u8 list" where
  "packet_data_active_uplink_slots_for_addr_with_allocator s adr alloc =
     filter (\<lambda>ts. case packet_data_assignments s ! slot_index ts of
         None \<Rightarrow> False
       | Some a \<Rightarrow> pda_addr a = adr \<and> packet_data_assignment_supports_uplink a
           \<and> \<not> packet_data_slot_has_voice_circuit s ts
           \<and> packet_data_allocator_confirms_assignment alloc ts) [PACKET_DATA_ASSIGNED_SCCH_TS]"

text \<open>The purges of the downlink queues and the release message queued on timeslot 1 do not touch the
  fields here.\<close>

definition clear_packet_data_assignment_for_slot ::
  "u8 \<Rightarrow> bs_sched \<times> timeslot_allocator option \<Rightarrow> tetra_address option \<times> bs_sched \<times> timeslot_allocator option" where
  "clear_packet_data_assignment_for_slot ts = (\<lambda>(s, alloc).
     if \<not> ts_in_range ts then (None, s, alloc)
     else case packet_data_assignments s ! slot_index ts of
            None \<Rightarrow> (None, s, alloc)
          | Some a \<Rightarrow> (Some (pda_addr a), s\<lparr>packet_data_assignments := (packet_data_assignments s)[slot_index ts := None]\<rparr>,
                      release_packet_data_allocator_slot ts alloc))"

definition sync_slot :: "u8 \<Rightarrow> bs_sched \<times> timeslot_allocator option \<Rightarrow> bs_sched \<times> timeslot_allocator option" where
  "sync_slot ts = (\<lambda>(s, alloc).
     if packet_data_assignments s ! slot_index ts = None then (s, alloc)
     else if ts \<noteq> PACKET_DATA_ASSIGNED_SCCH_TS \<or> packet_data_slot_has_voice_circuit s ts
          \<or> (case alloc of None \<Rightarrow> False | Some a \<Rightarrow> owner_of a ts \<noteq> Some PacketData)
     then let (r, s', alloc') = clear_packet_data_assignment_for_slot ts (s, alloc) in
          (case r of
             None \<Rightarrow> s'
           | Some adr \<Rightarrow> if adr \<in> set (loss_events s') then s' else s'\<lparr>loss_events := loss_events s' @ [adr]\<rparr>, alloc')
     else (s, alloc))"

definition sync_packet_data_assignments_with_allocator ::
  "bs_sched \<times> timeslot_allocator option \<Rightarrow> bs_sched \<times> timeslot_allocator option" where
  "sync_packet_data_assignments_with_allocator sa = fold sync_slot [2, 3, 4] sa"

definition drain_packet_data_allocator_loss_events :: "bs_sched \<Rightarrow> tetra_address list \<times> bs_sched" where
  "drain_packet_data_allocator_loss_events s = (loss_events s, s\<lparr>loss_events := []\<rparr>)"

section \<open>The uplink schedule\<close>

definition nth_opt :: "'a list \<Rightarrow> nat \<Rightarrow> 'a option" where
  "nth_opt xs i = (if i < length xs then Some (xs ! i) else None)"

definition usize_pred :: "'a::len word \<Rightarrow> nat option" where
  "usize_pred w = (if w = 0 then None else Some (unat w - 1))"

definition ul_ts_to_sched_index :: "tdma_time \<Rightarrow> nat option" where
  "ul_ts_to_sched_index ts = do {
     f \<leftarrow> usize_pred (tt_f ts);
     m \<leftarrow> usize_pred (tt_m ts);
     let to_index = f + m * 18 + unat (tt_h ts) * 18 * 60;
     Some (to_index mod MACSCHED_NUM_FRAMES) }"

text \<open>The element \<open>ulsched[ts.t - 1][index]\<close>, and the schedule with it replaced.\<close>

definition sched_elem :: "timeslot_schedule list list \<Rightarrow> tdma_time \<Rightarrow> timeslot_schedule option" where
  "sched_elem u ts = do {
     index \<leftarrow> ul_ts_to_sched_index ts;
     t \<leftarrow> usize_pred (tt_t ts);
     chan \<leftarrow> nth_opt u t;
     nth_opt chan index }"

definition put_elem :: "timeslot_schedule list list \<Rightarrow> tdma_time \<Rightarrow> timeslot_schedule \<Rightarrow> timeslot_schedule list list" where
  "put_elem u ts e =
     (case (usize_pred (tt_t ts), ul_ts_to_sched_index ts) of
        (Some t, Some index) \<Rightarrow> u[t := (u ! t)[index := e]]
      | _ \<Rightarrow> u)"

definition slot_is_open :: "bool \<Rightarrow> u32 option \<Rightarrow> timeslot_schedule \<Rightarrow> bool" where
  "slot_is_open is_halfslot reusable_owner e \<longleftrightarrow>
     (let same_owner_full_slot =
        (case reusable_owner of None \<Rightarrow> False | Some ow \<Rightarrow> \<not> is_halfslot \<and> ul1 e = Some ow \<and> ul2 e = Some ow) in
      (ul1 e = None \<and> ul2 e = None) \<or> same_owner_full_slot \<or> (is_halfslot \<and> (ul1 e = None \<or> ul2 e = None)))"

text \<open>The loop over the distances from the first opportunity.\<close>

fun grant_search ::
  "bs_sched \<Rightarrow> tdma_time \<Rightarrow> u8 list \<Rightarrow> nat \<Rightarrow> bool \<Rightarrow> u32 option \<Rightarrow> nat list \<Rightarrow> nat \<Rightarrow> tdma_time list
     \<Rightarrow> (nat \<times> tdma_time list) option option" where
  "grant_search s first channel num_slots is_halfslot reusable_owner [] skipped grant = Some None"
| "grant_search s first channel num_slots is_halfslot reusable_owner (dist # dists) skipped grant = do {
     candidate_t \<leftarrow> add_timeslots first (int dist);
     if tt_t candidate_t \<notin> set channel
     then grant_search s first channel num_slots is_halfslot reusable_owner dists skipped grant
     else if is_mandatory_clch candidate_t
     then grant_search s first channel num_slots is_halfslot reusable_owner dists
            (if grant = [] then skipped + 1 else skipped) grant
     else do {
       elem \<leftarrow> sched_elem (ulsched s) candidate_t;
       let (skipped', grant') =
         (if slot_is_open is_halfslot reusable_owner elem then (skipped, grant @ [candidate_t])
          else (skipped + (length grant + 1), []));
       if length grant' = num_slots then Some (Some (skipped', grant'))
       else grant_search s first channel num_slots is_halfslot reusable_owner dists skipped' grant' } }"

definition ul_find_grant_opportunity_on_channel_from ::
  "bs_sched \<Rightarrow> tdma_time \<Rightarrow> u8 \<Rightarrow> u8 list \<Rightarrow> nat \<Rightarrow> bool \<Rightarrow> u32 option \<Rightarrow> (nat \<times> tdma_time list) option option" where
  "ul_find_grant_opportunity_on_channel_from s base_dltime grant_timeslot channel_timeslots num_slots is_halfslot reusable_owner =
     (if channel_timeslots = [] \<or> grant_timeslot \<notin> set channel_timeslots then Some None
      else do {
        first_opportunity \<leftarrow> forward_to_timeslot base_dltime grant_timeslot;
        assert_opt (\<not> is_halfslot \<or> num_slots = 1);
        grant_search s first_opportunity channel_timeslots num_slots is_halfslot reusable_owner
          [0..<(MACSCHED_NUM_FRAMES - 1) * 4] 0 [] })"

definition ul_find_grant_opportunity_from ::
  "bs_sched \<Rightarrow> tdma_time \<Rightarrow> u8 \<Rightarrow> nat \<Rightarrow> bool \<Rightarrow> (nat \<times> tdma_time list) option option" where
  "ul_find_grant_opportunity_from s base_dltime t num_slots is_halfslot =
     ul_find_grant_opportunity_on_channel_from s base_dltime t [t] num_slots is_halfslot None"

definition ul_find_grant_opportunity_for_addr_from ::
  "bs_sched \<Rightarrow> tdma_time \<Rightarrow> u8 \<Rightarrow> tetra_address \<Rightarrow> nat \<Rightarrow> bool \<Rightarrow> timeslot_allocator option
     \<Rightarrow> (nat \<times> tdma_time list) option option" where
  "ul_find_grant_opportunity_for_addr_from s base_dltime timeslot adr num_slots is_halfslot alloc =
     (let packet_data_uplink_slots = packet_data_active_uplink_slots_for_addr_with_allocator s adr alloc in
      if timeslot \<in> set packet_data_uplink_slots
      then ul_find_grant_opportunity_on_channel_from s base_dltime timeslot packet_data_uplink_slots num_slots is_halfslot
             (Some (ssi adr))
      else if packet_data_uplink_slots \<noteq> [] then Some None
      else ul_find_grant_opportunity_from s base_dltime timeslot num_slots is_halfslot)"

fun reserve_loop ::
  "u32 \<Rightarrow> bool \<Rightarrow> u8 option \<Rightarrow> tdma_time list \<Rightarrow> timeslot_schedule list list \<Rightarrow> (u8 \<times> timeslot_schedule list list) option" where
  "reserve_loop sub is_halfslot marker [] u = Some (0, u)"
| "reserve_loop sub is_halfslot marker (ts # tss) u = do {
     elem0 \<leftarrow> sched_elem u ts;
     let elem = (case marker of Some m \<Rightarrow> elem0\<lparr>sched_marker := Some m\<rparr> | None \<Rightarrow> elem0);
     if is_halfslot
     then (if ul1 elem = None then Some (1, put_elem u ts (elem\<lparr>ul1 := Some sub\<rparr>))
           else do { assert_opt (ul2 elem = None); Some (2, put_elem u ts (elem\<lparr>ul2 := Some sub\<rparr>)) })
     else if ul1 elem = Some sub \<and> ul2 elem = Some sub
     then reserve_loop sub is_halfslot marker tss (put_elem u ts elem)
     else do {
       assert_opt (ul1 elem = None);
       assert_opt (ul2 elem = None);
       reserve_loop sub is_halfslot marker tss (put_elem u ts (elem\<lparr>ul1 := Some sub, ul2 := Some sub\<rparr>)) } }"

definition ul_reserve_grant ::
  "u32 \<Rightarrow> tdma_time list \<Rightarrow> bool \<Rightarrow> u8 option \<Rightarrow> bs_sched \<Rightarrow> (u8 \<times> bs_sched) option" where
  "ul_reserve_grant sub grant_timestamps is_halfslot marker s = do {
     assert_opt (grant_timestamps \<noteq> []);
     assert_opt (\<not> is_halfslot \<or> length grant_timestamps = 1);
     (subslot, u) \<leftarrow> reserve_loop sub is_halfslot marker grant_timestamps (ulsched s);
     Some (subslot, s\<lparr>ulsched := u\<rparr>) }"

definition alloc_usage_marker :: "u8 \<Rightarrow> bs_sched \<Rightarrow> (u8 \<times> bs_sched) option" where
  "alloc_usage_marker timeslot s = do {
     t \<leftarrow> usize_pred timeslot;
     let i = min t 3;
     marker \<leftarrow> nth_opt (next_usage_marker s) i;
     let nxt = (if marker \<ge> 62 then 4 else marker + 1);
     Some (marker, s\<lparr>next_usage_marker := (next_usage_marker s)[i := nxt]\<rparr>) }"

text \<open>The loop over the candidate capacities: the first that has an opportunity with a delay of at
  most 13.  A later opportunity is remembered by the code for its log message only.\<close>

fun choose_grant ::
  "bs_sched \<Rightarrow> tdma_time \<Rightarrow> u8 \<Rightarrow> tetra_address \<Rightarrow> bool \<Rightarrow> timeslot_allocator option \<Rightarrow> nat list
     \<Rightarrow> (nat \<times> nat \<times> tdma_time list) option option" where
  "choose_grant s base_dltime timeslot adr is_halfslot alloc [] = Some None"
| "choose_grant s base_dltime timeslot adr is_halfslot alloc (cap # caps) = do {
     candidate_op \<leftarrow> ul_find_grant_opportunity_for_addr_from s base_dltime timeslot adr cap is_halfslot alloc;
     case candidate_op of
       Some (skips, grant_timestamps) \<Rightarrow>
         if skips \<le> 13 then Some (Some (cap, skips, grant_timestamps))
         else choose_grant s base_dltime timeslot adr is_halfslot alloc caps
     | None \<Rightarrow> choose_grant s base_dltime timeslot adr is_halfslot alloc caps }"

definition grant_element :: "bool \<Rightarrow> u8 \<Rightarrow> nat \<Rightarrow> nat \<Rightarrow> basic_slotgrant option" where
  "grant_element is_halfslot subslot granted_cap skips = do {
     cap_alloc \<leftarrow>
       (if is_halfslot
        then (if subslot = 1 then Some FirstSubslotGranted else if subslot = 2 then Some SecondSubslotGranted else None)
        else Some (from_req_slotcount granted_cap));
     Some \<lparr>capacity_allocation = cap_alloc,
           granting_delay = (if skips = 0 then CapAllocAtNextOpportunity else DelayNOpportunities (of_nat skips))\<rparr> }"

definition ul_process_pending_grant_from_with_allocator ::
  "tdma_time \<Rightarrow> u8 \<Rightarrow> tetra_address \<Rightarrow> pending_grant_debt \<Rightarrow> timeslot_allocator option \<Rightarrow> bs_sched
     \<Rightarrow> ((basic_slotgrant \<times> u8 option \<times> nat) option \<times> bs_sched) option" where
  "ul_process_pending_grant_from_with_allocator base_dltime timeslot adr debt alloc s = do {
     let is_halfslot = debt_is_halfslot debt;
     let requested_cap = next_chunk_slots debt;
     let candidate_caps = filter (\<lambda>cap. cap \<le> requested_cap) (if is_halfslot then [1] else BASIC_GRANT_FULL_SLOT_COUNTS_DESC);
     grant_op \<leftarrow> choose_grant s base_dltime timeslot adr is_halfslot alloc candidate_caps;
     case grant_op of
       None \<Rightarrow> Some (None, s)
     | Some (granted_cap, skips, grant_timestamps) \<Rightarrow> do {
         (marker, s1) \<leftarrow>
           (if \<not> is_halfslot \<and> granted_cap \<ge> 2
            then map_option (\<lambda>(m, s1). (Some m, s1)) (alloc_usage_marker timeslot s) else Some (None, s));
         (subslot, s2) \<leftarrow> ul_reserve_grant (ssi adr) grant_timestamps is_halfslot marker s1;
         grant \<leftarrow> grant_element is_halfslot subslot granted_cap skips;
         Some (Some (grant, marker, granted_cap), s2) } }"

text \<open>One pending grant in the loop of \<open>dl_integrate_sched_elems_for_timeslot_with_allocator\<close>: the grant
  for the station, if there is one to send, and the debt that is queued again for the next frame.  The
  allocator is read only, also where the assignment of the station is given up.\<close>

definition serve_pending_grant ::
  "tdma_time \<Rightarrow> tetra_address \<Rightarrow> pending_grant_debt \<Rightarrow> pending_grant_origin \<Rightarrow> timeslot_allocator option \<Rightarrow> bs_sched
     \<Rightarrow> ((basic_slotgrant \<times> u8 option) option \<times> pending_grant_debt option \<times> bs_sched) option" where
  "serve_pending_grant ts adr debt origin alloc s =
     (if \<not> packet_data_pending_grant_origin_is_valid s adr origin alloc then Some (None, None, s)
      else do {
        (r, s1) \<leftarrow> ul_process_pending_grant_from_with_allocator ts (tt_t ts) adr debt alloc s;
        case r of
          Some (grant, marker, granted_slots) \<Rightarrow> Some (Some (grant, marker), remaining_after_grant debt granted_slots, s1)
        | None \<Rightarrow>
            if packet_data_wait_budget_exhausted debt
            then (case origin of
                    CommonControlOrigin \<Rightarrow> Some (None, None, s1)
                  | PacketDataOrigin assigned_ts \<Rightarrow> do {
                      i \<leftarrow> usize_pred assigned_ts;
                      assignment \<leftarrow> nth_opt (packet_data_assignments s1) i;
                      Some (None, None,
                        (case assignment of
                           None \<Rightarrow> s1
                         | Some a \<Rightarrow> if pda_addr a = adr
                             then s1\<lparr>packet_data_assignments := (packet_data_assignments s1)[i := None]\<rparr> else s1)) })
            else Some (Some (\<lparr>capacity_allocation = wait_capacity_allocation debt,
                              granting_delay = WaitForAnotherSlotgrantMessage\<rparr>, None),
                       Some (after_wait_grant debt), s1) })"

definition ul_process_cap_req_from ::
  "tdma_time \<Rightarrow> u8 \<Rightarrow> tetra_address \<Rightarrow> reservation_requirement \<Rightarrow> bs_sched
     \<Rightarrow> ((basic_slotgrant \<times> u8 option) option \<times> bs_sched) option" where
  "ul_process_cap_req_from base_dltime timeslot adr r s =
     map_option (\<lambda>(g, s'). (map_option (\<lambda>(grant, marker, n). (grant, marker)) g, s'))
       (ul_process_pending_grant_from_with_allocator base_dltime timeslot adr (debt_new r) None s)"

definition ul_process_cap_req ::
  "u8 \<Rightarrow> tetra_address \<Rightarrow> reservation_requirement \<Rightarrow> bs_sched \<Rightarrow> ((basic_slotgrant \<times> u8 option) option \<times> bs_sched) option" where
  "ul_process_cap_req timeslot adr r s = ul_process_cap_req_from (cur_dltime s) timeslot adr r s"

definition ul_get_slot_owner :: "bs_sched \<Rightarrow> tdma_time \<Rightarrow> phy_block_num \<Rightarrow> u32 option option" where
  "ul_get_slot_owner s ts slot = do {
     e \<leftarrow> sched_elem (ulsched s) ts;
     case slot of
       Block1 \<Rightarrow> Some (ul1 e)
     | Block2 \<Rightarrow> Some (ul2 e)
     | BothBlocks \<Rightarrow> Some (if ul1 e \<noteq> ul2 e then None else ul1 e)
     | UndefinedBlock \<Rightarrow> None }"

definition packet_data_uplink_owner :: "bs_sched \<Rightarrow> tdma_time \<Rightarrow> phy_block_num \<Rightarrow> tetra_address option" where
  "packet_data_uplink_owner s ts slot =
     (if slot \<noteq> BothBlocks then None
      else case packet_data_assignment_for_timeslot_with_allocator s ts None of
             None \<Rightarrow> None
           | Some a \<Rightarrow> if pda_ul_dl_assigned a = Ul \<or> pda_ul_dl_assigned a = Both then Some (pda_addr a) else None)"

definition ul_get_usage :: "bs_sched \<Rightarrow> tdma_time \<Rightarrow> access_assign_ul_usage option" where
  "ul_get_usage s ts = do {
     e \<leftarrow> sched_elem (ulsched s) ts;
     case (ul1 e, ul2 e) of
       (Some _, Some _) \<Rightarrow> Some (case sched_marker e of Some m \<Rightarrow> UlTraffic m | None \<Rightarrow> UlAssignedOnly)
     | (Some _, None) \<Rightarrow> Some (case sched_marker e of Some m \<Rightarrow> UlTraffic m | None \<Rightarrow> UlCommonAndAssigned)
     | (None, None) \<Rightarrow> Some UlCommonOnly
     | (None, Some _) \<Rightarrow> None }"

text \<open>The end of \<open>finalize_ts_for_tick_inner\<close>: the entry of the frame before is freed.\<close>

definition release_passed_slot :: "tdma_time \<Rightarrow> bs_sched \<Rightarrow> bs_sched option" where
  "release_passed_slot ts s = do {
     passed \<leftarrow> add_timeslots ts (- 4);
     index \<leftarrow> ul_ts_to_sched_index passed;
     t \<leftarrow> usize_pred (tt_t ts);
     chan \<leftarrow> nth_opt (ulsched s) t;
     elem \<leftarrow> nth_opt chan index;
     Some (s\<lparr>ulsched := (ulsched s)[t := chan[index := elem\<lparr>ul1 := None, ul2 := None, sched_marker := None\<rparr>]]\<rparr>) }"

definition clear_elem :: "timeslot_schedule \<Rightarrow> timeslot_schedule" where
  "clear_elem e = (if ul1 e \<noteq> None \<or> ul2 e \<noteq> None \<or> sched_marker e \<noteq> None
     then e\<lparr>ul1 := None, ul2 := None, sched_marker := None\<rparr> else e)"

definition clear_future_uplink_reservations_for_timeslot :: "u8 \<Rightarrow> bs_sched \<Rightarrow> bs_sched" where
  "clear_future_uplink_reservations_for_timeslot ts s =
     (if \<not> ts_in_range ts then s
      else s\<lparr>ulsched := (ulsched s)[slot_index ts := map clear_elem (ulsched s ! slot_index ts)]\<rparr>)"

section \<open>Circuits\<close>

text \<open>Opening a circuit also drops queued downlink elements of its timeslot, as leaving hangtime does;
  neither call reads or writes the fields here.\<close>

definition sched_create_circuit :: "direction \<Rightarrow> circuit \<Rightarrow> bs_sched \<Rightarrow> tetra_address option \<times> bs_sched" where
  "sched_create_circuit dir c s =
     (if \<not> ts_in_range (circ_ts c) then (None, s)
      else if circ_ts c = 1 then (None, s)
      else let (preempted, s1, _) = clear_packet_data_assignment_for_slot (circ_ts c) (s, None);
               s2 = clear_future_uplink_reservations_for_timeslot (circ_ts c) s1 in
           (preempted, s2\<lparr>hangtime := (hangtime s2)[slot_index (circ_ts c) := False],
                         circuits := mgr_create_circuit dir c (circuits s2)\<rparr>))"

definition sched_close_circuit :: "direction \<Rightarrow> u8 \<Rightarrow> bs_sched \<Rightarrow> circuit option \<times> bs_sched" where
  "sched_close_circuit dir ts s =
     (let s1 = (if ts_in_range ts then s\<lparr>hangtime := (hangtime s)[slot_index ts := False]\<rparr> else s);
          (c, m) = mgr_close_circuit dir ts (circuits s1) in
      (c, s1\<lparr>circuits := m\<rparr>))"

definition set_hangtime :: "u8 \<Rightarrow> bool \<Rightarrow> bs_sched \<Rightarrow> bs_sched" where
  "set_hangtime ts active s =
     (if \<not> ts_in_range ts then s else s\<lparr>hangtime := (hangtime s)[slot_index ts := active]\<rparr>)"

section \<open>The access assignment of a slot\<close>

definition bbk_field :: "bool \<Rightarrow> access_field" where
  "bbk_field reserved = \<lparr>access_code = 0, base_frame_len = (if reserved then 0 else 4)\<rparr>"

definition aa_default :: access_assign where
  "aa_default = \<lparr>aa_header = 0, dl_usage = DlCommonControl, aa_ul_usage = UlCommonOnly, aa_f1_af1 = None, aa_f2_af2 = None,
     aa_f2_af = None\<rparr>"

definition fr18_default :: access_assign_fr18 where
  "fr18_default = \<lparr>fr18_header = 0, fr18_ul_usage = UlCommonOnly, fr18_f1_af1 = None, fr18_f1_traf_um = None, fr18_f2_af2 = None,
     fr18_f2_af = None\<rparr>"

text \<open>The access assignment outside frame 18; a timeslot that does not exist has none.\<close>

definition bbk_aach :: "bs_sched \<Rightarrow> tdma_time \<Rightarrow> bool \<Rightarrow> timeslot_allocator option \<Rightarrow> access_assign option option" where
  "bbk_aach s ts grant_pending alloc =
     (let ul_traffic = get_usage (circuits s) DirUl (tt_t ts); dl_traffic = get_usage (circuits s) DirDl (tt_t ts) in
      if tt_t ts = 1 then do {
        assert_opt (dl_traffic = None);
        assert_opt (ul_traffic = None);
        e \<leftarrow> sched_elem (ulsched s) ts;
        usage \<leftarrow> ul_get_usage s ts;
        case usage of
          UlTraffic m \<Rightarrow> Some (Some (aa_default\<lparr>dl_usage := DlCommonControl, aa_ul_usage := usage\<rparr>))
        | _ \<Rightarrow> Some (Some (aa_default\<lparr>dl_usage := DlCommonControl, aa_ul_usage := UlCommonOnly,
                 aa_f1_af1 := Some (bbk_field (ul1 e \<noteq> None)), aa_f2_af2 := Some (bbk_field (ul2 e \<noteq> None))\<rparr>)) }
      else if 2 \<le> tt_t ts \<and> tt_t ts \<le> 4 then do {
        t \<leftarrow> usize_pred (tt_t ts);
        hang \<leftarrow> nth_opt (hangtime s) t;
        if (hang \<and> \<not> grant_pending) \<and> (dl_traffic \<noteq> None \<or> ul_traffic \<noteq> None)
        then Some (Some (aa_default\<lparr>dl_usage := DlAssignedControl, aa_ul_usage := UlAssignedOnly, aa_f2_af := Some (bbk_field False)\<rparr>))
        else case (if dl_traffic = None \<and> ul_traffic = None
                   then packet_data_assignment_for_timeslot_with_allocator s ts alloc else None) of
               Some a \<Rightarrow> Some (Some (aa_default\<lparr>dl_usage := DlAssignedControl,
                   aa_ul_usage := (if pda_ul_dl_assigned a = Ul \<or> pda_ul_dl_assigned a = Both then UlAssignedOnly else UlCommonAndAssigned),
                   aa_f2_af := Some (bbk_field False)\<rparr>))
             | None \<Rightarrow> Some (Some (aa_default\<lparr>
                   dl_usage := (case dl_traffic of Some usage \<Rightarrow> DlTraffic usage | None \<Rightarrow> DlUnallocated),
                   aa_ul_usage := (case ul_traffic of Some usage \<Rightarrow> UlTraffic usage | None \<Rightarrow> UlUnallocated)\<rparr>)) }
      else Some None)"

definition bbk_aach_fr18 :: "bs_sched \<Rightarrow> tdma_time \<Rightarrow> access_assign_fr18 option" where
  "bbk_aach_fr18 s ts = do {
     usage \<leftarrow> (if is_mandatory_clch ts then Some UlCommonOnly else ul_get_usage s ts);
     e \<leftarrow> sched_elem (ulsched s) ts;
     Some (case usage of
         UlTraffic m \<Rightarrow> fr18_default\<lparr>fr18_ul_usage := usage, fr18_f2_af := Some (bbk_field True)\<rparr>
       | UlCommonAndAssigned \<Rightarrow> fr18_default\<lparr>fr18_ul_usage := usage,
           fr18_f1_af1 := Some (bbk_field (ul1 e \<noteq> None)), fr18_f2_af2 := Some (bbk_field (ul2 e \<noteq> None))\<rparr>
       | UlAssignedOnly \<Rightarrow> fr18_default\<lparr>fr18_ul_usage := usage,
           fr18_f1_af1 := Some (bbk_field (ul1 e \<noteq> None)), fr18_f2_af2 := Some (bbk_field (ul2 e \<noteq> None))\<rparr>
       | _ \<Rightarrow> fr18_default\<lparr>fr18_ul_usage := UlCommonOnly,
           fr18_f1_af1 := Some \<lparr>access_code = 0, base_frame_len = 1\<rparr>,
           fr18_f2_af2 := Some \<lparr>access_code = 0, base_frame_len = 0\<rparr>\<rparr>) }"

text \<open>The block; its logical channel and scrambling code are constants of the scheduler.\<close>

definition generate_bbk_block_with_group_floor_grant ::
  "bs_sched \<Rightarrow> tdma_time \<Rightarrow> bool \<Rightarrow> timeslot_allocator option \<Rightarrow> bitbuf option" where
  "generate_bbk_block_with_group_floor_grant s ts grant_pending alloc =
     (if tt_f ts \<noteq> 18
      then do {
        aach \<leftarrow> bbk_aach s ts grant_pending alloc;
        case aach of
          None \<Rightarrow> Some (bb_new 14)
        | Some a \<Rightarrow> do { (_, b) \<leftarrow> run_bb (aa_to_bitbuf a) (bb_new 14); Some b } }
      else do {
        a \<leftarrow> bbk_aach_fr18 s ts;
        (_, b) \<leftarrow> run_bb (fr18_to_bitbuf a) (bb_new 14);
        Some b })"

section \<open>Steps\<close>

text \<open>The operations that change the state, as one step each.\<close>

datatype sched_op =
  OpSetDlTime tdma_time
| OpTick tdma_time
| OpGrant tdma_time u8 tetra_address pending_grant_debt "timeslot_allocator option"
| OpServe tdma_time tetra_address pending_grant_debt pending_grant_origin "timeslot_allocator option"
| OpReleasePassed tdma_time
| OpAssign packet_data_assignment_update tdma_time "timeslot_allocator option"
| OpExpire tdma_time "timeslot_allocator option"
| OpSync "timeslot_allocator option"
| OpDrain
| OpCreateCircuit direction circuit
| OpCloseCircuit direction u8
| OpHangtime u8 bool
| OpMediaSource u8 circuit_dl_media_source
| OpMedia media_op
| OpClearMedia u8
| OpClearMediaExcept u8 u8 tetra_address

fun sched_step :: "sched_op \<Rightarrow> bs_sched \<Rightarrow> bs_sched option" where
  "sched_step (OpSetDlTime t) s = Some (set_dl_time t s)"
| "sched_step (OpTick t) s = tick_start t s"
| "sched_step (OpGrant base t adr debt alloc) s =
     map_option snd (ul_process_pending_grant_from_with_allocator base t adr debt alloc s)"
| "sched_step (OpServe t adr debt origin alloc) s = map_option (\<lambda>(g, d, s'). s') (serve_pending_grant t adr debt origin alloc s)"
| "sched_step (OpReleasePassed t) s = release_passed_slot t s"
| "sched_step (OpAssign upd now alloc) s = map_option fst (apply_packet_data_assignment_update_with_allocator upd now (s, alloc))"
| "sched_step (OpExpire now alloc) s = map_option fst (expire_packet_data_assignments_with_allocator now (s, alloc))"
| "sched_step (OpSync alloc) s = Some (fst (sync_packet_data_assignments_with_allocator (s, alloc)))"
| "sched_step OpDrain s = Some (snd (drain_packet_data_allocator_loss_events s))"
| "sched_step (OpCreateCircuit dir c) s = Some (snd (sched_create_circuit dir c s))"
| "sched_step (OpCloseCircuit dir ts) s = Some (snd (sched_close_circuit dir ts s))"
| "sched_step (OpHangtime ts active) s = Some (set_hangtime ts active s)"
| "sched_step (OpMediaSource ts src) s = Some (s\<lparr>circuits := snd (set_dl_media_source ts src (circuits s))\<rparr>)"
| "sched_step (OpMedia p) s = Some (s\<lparr>circuits := snd (media_step p (circuits s))\<rparr>)"
| "sched_step (OpClearMedia ts) s = Some (s\<lparr>circuits := snd (clear_tx_data ts (circuits s))\<rparr>)"
| "sched_step (OpClearMediaExcept ts src adr) s = Some (s\<lparr>circuits := snd (clear_tx_data_except_source ts src adr (circuits s))\<rparr>)"

text \<open>A circuit is opened with a usage number between 4 and 63, as its comment demands, and grants are
  looked for at a time, and on a timeslot, of the clock.\<close>

fun op_allowed :: "sched_op \<Rightarrow> bool" where
  "op_allowed (OpCreateCircuit dir c) \<longleftrightarrow> marker_ok (circ_usage c)"
| "op_allowed (OpGrant base ts adr debt alloc) \<longleftrightarrow> is_valid base \<and> ts_in_range ts"
| "op_allowed (OpServe t adr debt origin alloc) \<longleftrightarrow> is_valid t"
| "op_allowed _ \<longleftrightarrow> True"

inductive sched_reachable :: "bs_sched \<Rightarrow> bool" where
  init: "sched_reachable bs_sched_new"
| step: "sched_reachable s \<Longrightarrow> op_allowed p \<Longrightarrow> sched_step p s = Some s' \<Longrightarrow> sched_reachable s'"

section \<open>Cells of the schedule\<close>

text \<open>The schedule has one entry per timeslot and frame modulo 90.  Two times less than 360 slots apart
  share an entry only if they are equal, across every wrap of the clock.\<close>

definition dims :: "timeslot_schedule list list \<Rightarrow> bool" where
  "dims u \<longleftrightarrow> length u = 4 \<and> (\<forall>i < 4. length (u ! i) = 90)"

definition cell :: "tdma_time \<Rightarrow> nat \<times> nat" where
  "cell ts = (unat (tt_t ts) - 1, nat (to_int ts div 4 mod 90))"

lemma usize_pred_valid:
  assumes "is_valid ts"
  shows "usize_pred (tt_t ts) = Some (unat (tt_t ts) - 1)" "usize_pred (tt_f ts) = Some (unat (tt_f ts) - 1)"
    "usize_pred (tt_m ts) = Some (unat (tt_m ts) - 1)"
  using assms by (auto simp: usize_pred_def is_valid_def)

lemma int_unat_pred: "1 \<le> uint w \<Longrightarrow> int (unat w - 1) = uint w - 1"
proof -
  assume a: "1 \<le> uint w"
  then have "1 \<le> unat w" unfolding uint_nat by linarith
  then show ?thesis unfolding uint_nat by linarith
qed

lemma sched_index_eq:
  assumes "is_valid ts"
  shows "ul_ts_to_sched_index ts = Some (snd (cell ts))"
proof -
  let ?f = "uint (tt_f ts) - 1" and ?m = "uint (tt_m ts) - 1" and ?h = "uint (tt_h ts)"
  have v: "1 \<le> uint (tt_t ts)" "uint (tt_t ts) \<le> 4" "1 \<le> uint (tt_f ts)" "1 \<le> uint (tt_m ts)"
    using assms by (auto simp: valid_uint)
  have "to_int ts = (uint (tt_t ts) - 1) + 4 * (?f + ?m * 18 + ?h * 18 * 60)" by (simp add: to_int_def)
  then have d: "to_int ts div 4 = ?f + ?m * 18 + ?h * 18 * 60" using v(1,2) by simp
  let ?n = "unat (tt_f ts) - 1 + (unat (tt_m ts) - 1) * 18 + unat (tt_h ts) * 18 * 60"
  have "int ?n = to_int ts div 4"
    unfolding d by (simp only: of_nat_add of_nat_mult int_unat_pred [OF v(3)] int_unat_pred [OF v(4)]) simp
  then have "int (?n mod 90) = to_int ts div 4 mod 90" by (simp only: of_nat_mod) simp
  then have "?n mod 90 = nat (to_int ts div 4 mod 90)" by linarith
  then show ?thesis
    by (simp add: ul_ts_to_sched_index_def usize_pred_valid [OF assms] MACSCHED_NUM_FRAMES_def cell_def)
qed

lemma cell_bounds: "is_valid ts \<Longrightarrow> fst (cell ts) < 4 \<and> snd (cell ts) < 90"
  by (auto simp: cell_def is_valid_def word_le_nat_alt nat_less_iff)

lemma dims_nth: "dims u \<Longrightarrow> i < 4 \<Longrightarrow> length (u ! i) = 90"
  by (simp add: dims_def)

lemma sched_elem_eq: "dims u \<Longrightarrow> is_valid ts \<Longrightarrow> sched_elem u ts = Some (u ! fst (cell ts) ! snd (cell ts))"
  using cell_bounds [of ts] dims_nth [of u "fst (cell ts)"]
  by (auto simp: sched_elem_def sched_index_eq usize_pred_valid nth_opt_def dims_def cell_def)

lemma put_elem_eq:
  "is_valid ts \<Longrightarrow> put_elem u ts e = u[fst (cell ts) := (u ! fst (cell ts))[snd (cell ts) := e]]"
  by (simp add: put_elem_def sched_index_eq usize_pred_valid cell_def)

lemma dims_put: "dims u \<Longrightarrow> is_valid ts \<Longrightarrow> dims (put_elem u ts e)"
  using dims_nth [of u "fst (cell ts)"] cell_bounds [of ts]
  by (auto simp: dims_def put_elem_eq nth_list_update)

lemma get_put:
  assumes "dims u" and "is_valid ts" and "is_valid ts'"
  shows "sched_elem (put_elem u ts e) ts' = (if cell ts = cell ts' then Some e else sched_elem u ts')"
proof -
  obtain a i b j where c: "cell ts = (a, i)" "cell ts' = (b, j)" by (cases "cell ts"; cases "cell ts'")
  have "a < 4" "i < 90" "length (u ! a) = 90" "length u = 4"
    using cell_bounds [OF assms(2)] c dims_nth [OF assms(1)] assms(1) by (auto simp: dims_def)
  then show ?thesis
    using sched_elem_eq [OF dims_put [OF assms(1,2)] assms(3), of e] sched_elem_eq [OF assms(1,3)] c
    by (auto simp: put_elem_eq [OF assms(2)] nth_list_update)
qed

text \<open>What the operations on the schedule rely on: a store with one entry per key.  Updating the entries
  of pairwise different keys one after the other updates each of them once.\<close>

locale slot_store =
  fixes get :: "'u \<Rightarrow> 't \<Rightarrow> 'e option"
    and put :: "'u \<Rightarrow> 't \<Rightarrow> 'e \<Rightarrow> 'u"
    and key :: "'t \<Rightarrow> 'k"
    and ok :: "'u \<Rightarrow> bool"
    and time :: "'t \<Rightarrow> bool"
  assumes get_total: "ok u \<Longrightarrow> time t \<Longrightarrow> \<exists>e. get u t = Some e"
    and get_key: "ok u \<Longrightarrow> time t \<Longrightarrow> time t' \<Longrightarrow> key t = key t' \<Longrightarrow> get u t = get u t'"
    and put_keeps: "ok u \<Longrightarrow> time t \<Longrightarrow> ok (put u t e)"
    and get_after_put: "ok u \<Longrightarrow> time t \<Longrightarrow> time t' \<Longrightarrow> get (put u t e) t' = (if key t = key t' then Some e else get u t')"
begin

lemma update_all:
  assumes "ok u" and "\<forall>t \<in> set ts. time t" and "distinct (map key ts)"
  shows "ok (fold (\<lambda>t u. put u t (f (the (get u t)))) ts u)
    \<and> (\<forall>t. time t \<longrightarrow> get (fold (\<lambda>t u. put u t (f (the (get u t)))) ts u) t =
         (if key t \<in> key ` set ts then map_option f (get u t) else get u t))"
  using assms
proof (induction ts arbitrary: u)
  case (Cons x ts)
  have x: "time x" and k: "key x \<notin> key ` set ts" using Cons.prems by auto
  obtain e where e: "get u x = Some e" using get_total [OF Cons.prems(1) x] by blast
  define u1 where "u1 = put u x (f e)"
  have u1: "ok u1" "\<And>t. time t \<Longrightarrow> get u1 t = (if key x = key t then Some (f e) else get u t)"
    unfolding u1_def using put_keeps get_after_put Cons.prems(1) x e by simp_all
  have "get u t = Some e" if "time t" "key x = key t" for t using get_key [OF Cons.prems(1) x that] e by simp
  then show ?case
    using Cons.IH [OF u1(1)] Cons.prems(2,3) k u1 e by (auto simp: u1_def [symmetric])
qed simp

end

interpretation ulstore: slot_store sched_elem put_elem cell dims is_valid
proof (unfold_locales, goal_cases)
  case (2 u t t')
  then show ?case by (simp add: sched_elem_eq)
qed (simp_all add: sched_elem_eq [symmetric] dims_put get_put, simp add: sched_elem_eq)

lemma cell_from_int: "cell (from_int x) = (nat (x mod 4), nat (x div 4 mod 90))"
proof -
  have "unat (tt_t (from_int x)) - 1 = nat (x mod 4)"
    using uint_from_int(1) [of x] by (simp add: unat_eq_nat_uint nat_add_distrib)
  moreover have "x mod TIME_INT_WRAP div 4 mod 90 = x div 4 mod 90"
  proof -
    have "x mod 283115520 = 4 * (x div 4 mod 70778880) + x mod 4" using zmod_zmult2_eq [of 70778880 x 4] by simp
    then have "x mod 283115520 div 4 = x div 4 mod 70778880" by simp
    moreover have "x div 4 mod 70778880 mod 90 = x div 4 mod 90" by (rule mod_mod_cancel) simp
    ultimately show ?thesis by (simp add: TIME_INT_WRAP_def)
  qed
  ultimately show ?thesis by (simp add: cell_def to_int_from_int)
qed

lemma cell_inj:
  assumes "cell (from_int x) = cell (from_int y)" and "\<bar>x - y\<bar> < 360"
  shows "x = y"
proof -
  have "x mod 4 = y mod 4" "x div 4 mod 90 = y div 4 mod 90" using assms(1)
    by (simp_all only: cell_from_int prod.inject eq_nat_nat_iff [OF pos_mod_sign pos_mod_sign] zero_less_numeral)
  then have "x mod 360 = y mod 360" using zmod_zmult2_eq [of 90 x 4] zmod_zmult2_eq [of 90 y 4] by simp
  then have "360 dvd x - y" by (simp add: mod_eq_dvd_iff)
  then obtain k where "x - y = 360 * k" by (rule dvdE)
  then have "k = 0" using assms(2) by (simp add: abs_mult)
  with \<open>x - y = 360 * k\<close> show ?thesis by simp
qed

section \<open>The search\<close>

text \<open>The opportunity at a distance from the first one, and the search on the list of the
  opportunities of a channel: \<open>clch\<close> tells the linearisation slots, \<open>op\<close> the open ones.\<close>

definition opp :: "tdma_time \<Rightarrow> nat \<Rightarrow> tdma_time" where
  "opp first d = from_int (to_int first + int d)"

definition opportunities :: "tdma_time \<Rightarrow> u8 list \<Rightarrow> tdma_time list" where
  "opportunities first channel = filter (\<lambda>t. tt_t t \<in> set channel) (map (opp first) [0..<356])"

definition open_at :: "bs_sched \<Rightarrow> bool \<Rightarrow> u32 option \<Rightarrow> tdma_time \<Rightarrow> bool" where
  "open_at s half reuse t = (case sched_elem (ulsched s) t of None \<Rightarrow> False | Some e \<Rightarrow> slot_is_open half reuse e)"

fun run_search :: "('t \<Rightarrow> bool) \<Rightarrow> ('t \<Rightarrow> bool) \<Rightarrow> nat \<Rightarrow> 't list \<Rightarrow> nat \<Rightarrow> 't list \<Rightarrow> (nat \<times> 't list) option" where
  "run_search clch opn n [] skipped grant = None"
| "run_search clch opn n (t # ts) skipped grant =
     (if clch t then run_search clch opn n ts (if grant = [] then skipped + 1 else skipped) grant
      else if opn t
      then (if length grant + 1 = n then Some (skipped, grant @ [t]) else run_search clch opn n ts skipped (grant @ [t]))
      else (if n = 0 then Some (skipped + (length grant + 1), []) else run_search clch opn n ts (skipped + (length grant + 1)) []))"

lemma grant_search_eq:
  assumes "dims (ulsched s)" and "is_valid first" and "\<forall>d \<in> set dists. d < 1000000"
  shows "grant_search s first channel n half reuse dists skipped grant =
    Some (run_search is_mandatory_clch (open_at s half reuse) n
      (filter (\<lambda>t. tt_t t \<in> set channel) (map (opp first) dists)) skipped grant)"
  using assms(3)
proof (induction dists arbitrary: skipped grant)
  case (Cons d ds)
  have a: "add_timeslots first (int d) = Some (opp first d)"
    using Cons.prems unfolding opp_def by (intro add_timeslots_eq [OF assms(2)]) auto
  have v: "is_valid (opp first d)" by (simp add: opp_def from_int_valid)
  obtain e where e: "sched_elem (ulsched s) (opp first d) = Some e" using sched_elem_eq [OF assms(1) v] by blast
  have o: "open_at s half reuse (opp first d) = slot_is_open half reuse e" by (simp add: open_at_def e)
  show ?case using Cons by (auto simp: a e o)
qed simp

text \<open>The specification: the first position from which \<open>n\<close> slots in a row are open.\<close>

fun first_run :: "('t \<Rightarrow> bool) \<Rightarrow> nat \<Rightarrow> 't list \<Rightarrow> nat option" where
  "first_run P n [] = None"
| "first_run P n (x # xs) =
     (if n \<le> length (x # xs) \<and> list_all P (take n (x # xs)) then Some 0 else map_option Suc (first_run P n xs))"

lemma first_run_Some:
  "first_run P n xs = Some j \<Longrightarrow> j + n \<le> length xs \<and> list_all P (take n (drop j xs)) \<and> j < length xs"
  by (induction xs arbitrary: j) (auto split: if_splits)

lemma first_run_least:
  "first_run P n xs = Some j \<Longrightarrow> i < j \<Longrightarrow> \<not> list_all P (take n (drop i xs))"
proof (induction xs arbitrary: i j)
  case (Cons x xs)
  from Cons.prems have no: "\<not> (n \<le> length (x # xs) \<and> list_all P (take n (x # xs)))" by (auto split: if_splits)
  with Cons.prems obtain j' where j': "first_run P n xs = Some j'" "j = Suc j'" by auto
  then have "n \<le> length (x # xs)" using first_run_Some [OF j'(1)] by simp
  with no Cons j' show ?case by (cases i) auto
qed simp

lemma first_run_short: "length xs < n \<Longrightarrow> first_run P n xs = None"
  by (induction xs) auto

lemma first_run_None: "first_run P n xs = None \<Longrightarrow> i < length xs \<Longrightarrow> i + n \<le> length xs \<Longrightarrow> \<not> list_all P (take n (drop i xs))"
proof (induction xs arbitrary: i)
  case (Cons x xs)
  then show ?case by (cases i) (auto split: if_splits)
qed simp

lemma first_run_skip:
  assumes "length gs < n" and "\<not> P t"
  shows "first_run P n (gs @ t # xs) = map_option (\<lambda>j. j + (length gs + 1)) (first_run P n xs)"
  using assms(1)
proof (induction gs)
  case Nil
  then show ?case using assms(2) by (cases n) (auto simp: option.map_comp o_def)
next
  case (Cons g gs)
  then obtain m where n: "n = Suc m" "length gs < m" by (cases n) auto
  have "t \<in> set (take m (gs @ t # xs))" using n(2) by (cases "m - length gs") auto
  then have "\<not> list_all P (take n ((g # gs) @ t # xs))" using assms(2) n(1) by (auto simp: list_all_iff)
  then show ?case using Cons by (simp add: option.map_comp o_def)
qed

lemma run_search_first:
  fixes ts :: "'t list" and clch :: "'t \<Rightarrow> bool"
  assumes "list_all opn grant" and "length grant < n"
  defines "us \<equiv> filter (\<lambda>t. \<not> clch t) ts"
  shows "map_option snd (run_search clch opn n ts skipped grant) =
    map_option (\<lambda>j. take n (drop j (grant @ us))) (first_run opn n (grant @ us))"
  using assms(1,2) unfolding us_def
proof (induction ts arbitrary: skipped grant)
  case Nil
  then show ?case by (simp add: first_run_short)
next
  case (Cons t ts)
  let ?us = "filter (\<lambda>t. \<not> clch t) ts"
  consider "clch t" | "\<not> clch t" "opn t" "length grant + 1 = n" | "\<not> clch t" "opn t" "length grant + 1 \<noteq> n" | "\<not> clch t" "\<not> opn t"
    by blast
  then show ?case
  proof cases
    case 2
    then have "first_run opn n (grant @ t # ?us) = Some 0"
      using Cons.prems by (cases grant) auto
    moreover have "n - length grant = Suc 0" using 2 by simp
    ultimately show ?thesis using 2 by simp
  next
    case 3
    then show ?thesis using Cons.IH [of "grant @ [t]" skipped] Cons.prems by simp
  next
    case 4
    then show ?thesis
      using Cons.IH [of "[]" "skipped + (length grant + 1)"] Cons.prems first_run_skip [of grant n opn t ?us]
      by (simp add: option.map_comp o_def)
  qed (use Cons in simp)
qed

text \<open>How the delay is counted: the number of opportunities before the first slot of the grant, except
  that linearisation slots inside an abandoned run are missing.\<close>

definition counted :: "('t \<Rightarrow> bool) \<Rightarrow> nat \<Rightarrow> 't list \<Rightarrow> nat \<Rightarrow> nat \<Rightarrow> bool" where
  "counted clch n pre skipped q \<longleftrightarrow>
     skipped \<le> q \<and> (n = 1 \<or> (\<forall>t \<in> set (take q pre). \<not> clch t) \<longrightarrow> skipped = q)"

definition delay_inv :: "('t \<Rightarrow> bool) \<Rightarrow> nat \<Rightarrow> 't list \<Rightarrow> nat \<Rightarrow> 't list \<Rightarrow> bool" where
  "delay_inv clch n pre skipped grant \<longleftrightarrow>
     (if grant = [] then counted clch n pre skipped (length pre)
      else n \<noteq> 1 \<and> (\<exists>q < length pre. pre ! q = hd grant \<and> counted clch n pre skipped q \<and> q + length grant \<le> length pre
        \<and> ((\<forall>t \<in> set pre. \<not> clch t) \<longrightarrow> q + length grant = length pre)))"

lemma counted_append: "q \<le> length pre \<Longrightarrow> counted clch n (pre @ ts) skipped q = counted clch n pre skipped q"
  by (simp add: counted_def)

lemma delay_clch:
  assumes "delay_inv clch n pre skipped grant" and "clch t"
  shows "delay_inv clch n (pre @ [t]) (if grant = [] then skipped + 1 else skipped) grant"
proof (cases "grant = []")
  case True
  then show ?thesis using assms by (auto simp: delay_inv_def counted_def)
next
  case False
  then obtain q where q: "n \<noteq> 1" "q < length pre" "pre ! q = hd grant" "counted clch n pre skipped q" "q + length grant \<le> length pre"
    using assms by (auto simp: delay_inv_def)
  then show ?thesis using False assms(2) unfolding delay_inv_def
    by (auto simp: counted_append nth_append intro!: exI [of _ q])
qed

lemma delay_open:
  assumes "delay_inv clch n pre skipped grant" and "\<not> clch t" and "n \<noteq> 1"
  shows "delay_inv clch n (pre @ [t]) skipped (grant @ [t])"
proof (cases "grant = []")
  case True
  then show ?thesis using assms unfolding delay_inv_def
    by (auto simp: counted_append intro!: exI [of _ "length pre"])
next
  case False
  then obtain q where q: "n \<noteq> 1" "q < length pre" "pre ! q = hd grant" "counted clch n pre skipped q" "q + length grant \<le> length pre"
    "(\<forall>t \<in> set pre. \<not> clch t) \<longrightarrow> q + length grant = length pre"
    using assms by (auto simp: delay_inv_def)
  then show ?thesis using False assms(2) unfolding delay_inv_def
    by (auto simp: counted_append nth_append hd_append intro!: exI [of _ q])
qed

lemma delay_busy:
  assumes "delay_inv clch n pre skipped grant"
  shows "delay_inv clch n (pre @ [t]) (skipped + (length grant + 1)) []"
proof (cases "grant = []")
  case False
  then obtain q where q: "n \<noteq> 1" "q < length pre" "counted clch n pre skipped q" "q + length grant \<le> length pre"
    "(\<forall>t \<in> set pre. \<not> clch t) \<longrightarrow> q + length grant = length pre"
    using assms by (auto simp: delay_inv_def)
  then have "(\<forall>t \<in> set pre. \<not> clch t) \<longrightarrow> skipped = q" by (auto simp: counted_def dest: in_set_takeD)
  with q show ?thesis by (auto simp: delay_inv_def counted_def)
qed (use assms in \<open>auto simp: delay_inv_def counted_def\<close>)

lemma delay_found:
  assumes "delay_inv clch n pre skipped grant"
  shows "\<exists>q \<le> length pre. (pre @ [t]) ! q = hd (grant @ [t]) \<and> counted clch n (pre @ [t]) skipped q"
proof (cases "grant = []")
  case True
  then show ?thesis using assms by (auto simp: delay_inv_def counted_append intro!: exI [of _ "length pre"])
next
  case False
  then obtain q where "q < length pre" "pre ! q = hd grant" "counted clch n pre skipped q"
    using assms by (auto simp: delay_inv_def)
  then show ?thesis using False by (auto simp: counted_append nth_append hd_append intro!: exI [of _ q])
qed

lemma run_search_delay:
  assumes "run_search clch opn n ts skipped grant = Some (k, ys)" and "0 < n" and "length grant < n"
    and "delay_inv clch n pre skipped grant"
  shows "\<exists>q < length (pre @ ts). (pre @ ts) ! q = hd ys \<and> counted clch n (pre @ ts) k q"
  using assms(1,3,4)
proof (induction ts arbitrary: pre skipped grant)
  case (Cons t ts)
  consider "clch t" | "\<not> clch t" "opn t" "length grant + 1 = n" | "\<not> clch t" "opn t" "length grant + 1 \<noteq> n" | "\<not> clch t" "\<not> opn t"
    by blast
  then show ?case
  proof cases
    case 1
    then show ?thesis using Cons.IH [OF _ _ delay_clch [OF Cons.prems(3)]] Cons.prems by simp
  next
    case 2
    then have k: "k = skipped" "ys = grant @ [t]" using Cons.prems by simp_all
    obtain q where q: "q \<le> length pre" "(pre @ [t]) ! q = hd (grant @ [t])" "counted clch n (pre @ [t]) skipped q"
      using delay_found [OF Cons.prems(3)] by blast
    then have "counted clch n ((pre @ [t]) @ ts) skipped q" by (subst counted_append) simp_all
    with q k show ?thesis by (intro exI [of _ q]) (auto simp: nth_append)
  next
    case 3
    then show ?thesis
      using Cons.IH [OF _ _ delay_open [OF Cons.prems(3)]] Cons.prems by simp
  next
    case 4
    then show ?thesis using Cons.IH [OF _ _ delay_busy [OF Cons.prems(3)]] Cons.prems assms(2) by simp
  qed
qed simp

section \<open>Reservation\<close>

definition reserved_elem :: "u32 \<Rightarrow> u8 option \<Rightarrow> timeslot_schedule \<Rightarrow> timeslot_schedule" where
  "reserved_elem sub marker e =
     e\<lparr>ul1 := Some sub, ul2 := Some sub, sched_marker := (case marker of Some m \<Rightarrow> Some m | None \<Rightarrow> sched_marker e)\<rparr>"

lemma distinct_opps: "distinct (map cell (map (opp first) [0..<356]))"
proof -
  have "i = j" if "cell (opp first i) = cell (opp first j)" "i < 356" "j < 356" for i j
    using cell_inj [of "to_int first + int i" "to_int first + int j"] that by (auto simp: opp_def)
  then show ?thesis by (auto simp: distinct_map inj_on_def)
qed

lemma distinct_run: "distinct (map cell (take n (drop j (filter p (opportunities first channel)))))"
proof -
  have "distinct (map cell (filter p (opportunities first channel)))"
    unfolding opportunities_def by (intro distinct_map_filter distinct_opps)
  then show ?thesis by (metis distinct_drop distinct_take drop_map take_map)
qed

lemma opportunities_mem:
  "t \<in> set (opportunities first channel) \<Longrightarrow> is_valid t \<and> tt_t t \<in> set channel \<and> (\<exists>d < 356. t = opp first d)"
  by (auto simp: opportunities_def opp_def from_int_valid)

lemma reserve_step:
  assumes "sched_elem u t = Some e" and "slot_is_open False (Some sub) e"
  shows "reserve_loop sub False marker (t # tss) u = reserve_loop sub False marker tss (put_elem u t (reserved_elem sub marker e))"
proof (cases "ul1 e = Some sub")
  case True
  then have "reserved_elem sub marker e = (case marker of Some m \<Rightarrow> e\<lparr>sched_marker := Some m\<rparr> | None \<Rightarrow> e)"
    using assms(2) by (cases e) (auto simp: reserved_elem_def slot_is_open_def split: option.splits)
  then show ?thesis using True assms by (auto simp: slot_is_open_def split: option.splits)
next
  case False
  then have "ul1 e = None" "ul2 e = None" using assms(2) by (auto simp: slot_is_open_def)
  moreover have "(case marker of Some m \<Rightarrow> e\<lparr>sched_marker := Some m\<rparr> | None \<Rightarrow> e)\<lparr>ul1 := Some sub, ul2 := Some sub\<rparr>
      = reserved_elem sub marker e"
    by (cases e) (auto simp: reserved_elem_def split: option.splits)
  ultimately show ?thesis using assms(1) by (auto split: option.splits)
qed

lemma reserve_loop_fold:
  assumes "dims u" and "\<forall>t \<in> set tss. is_valid t \<and> (\<exists>e. sched_elem u t = Some e \<and> slot_is_open False (Some sub) e)"
    and "distinct (map cell tss)"
  shows "reserve_loop sub False marker tss u =
    Some (0, fold (\<lambda>t u. put_elem u t (reserved_elem sub marker (the (sched_elem u t)))) tss u)"
  using assms
proof (induction tss arbitrary: u)
  case (Cons t tss)
  then obtain e where t: "is_valid t" and e: "sched_elem u t = Some e" "slot_is_open False (Some sub) e" by auto
  have "sched_elem (put_elem u t (reserved_elem sub marker e)) t' = sched_elem u t'" if "t' \<in> set tss" for t'
    using that Cons.prems by (subst get_put) (auto simp: image_iff)
  then have "reserve_loop sub False marker tss (put_elem u t (reserved_elem sub marker e)) =
      Some (0, fold (\<lambda>t u. put_elem u t (reserved_elem sub marker (the (sched_elem u t)))) tss (put_elem u t (reserved_elem sub marker e)))"
    using Cons.prems dims_put [OF Cons.prems(1) t] by (intro Cons.IH) simp_all
  then show ?case by (simp only: reserve_step [OF e] fold_Cons o_apply e(1) option.sel)
qed simp

lemma reserve_full:
  assumes "dims u" and "\<forall>t \<in> set tss. is_valid t \<and> (\<exists>e. sched_elem u t = Some e \<and> slot_is_open False (Some sub) e)"
    and "distinct (map cell tss)"
  shows "\<exists>u'. reserve_loop sub False marker tss u = Some (0, u') \<and> dims u'
    \<and> (\<forall>t. is_valid t \<longrightarrow> sched_elem u' t =
         (if cell t \<in> cell ` set tss then map_option (reserved_elem sub marker) (sched_elem u t) else sched_elem u t))"
  using reserve_loop_fold [OF assms, of marker] ulstore.update_all [OF assms(1) _ assms(3), of "reserved_elem sub marker"] assms(2)
  by blast

section \<open>The invariant\<close>

text \<open>A second half is never reserved without the first, and a marker stands only on a slot both halves
  of which are reserved for the same station.\<close>

definition elem_ok :: "timeslot_schedule \<Rightarrow> bool" where
  "elem_ok e \<longleftrightarrow> (ul1 e = None \<longrightarrow> ul2 e = None)
     \<and> (case sched_marker e of None \<Rightarrow> True | Some m \<Rightarrow> 4 \<le> m \<and> m \<le> 62 \<and> ul1 e \<noteq> None \<and> ul2 e = ul1 e)"

definition entries_ok :: "timeslot_schedule list list \<Rightarrow> bool" where
  "entries_ok u \<longleftrightarrow> dims u \<and> (\<forall>i < 4. \<forall>j < 90. elem_ok (u ! i ! j))"

definition circuits_ok :: "circuit_mgr \<Rightarrow> bool" where
  "circuits_ok m \<longleftrightarrow> mgr_ok m \<and> mgr_dl m ! 0 = None \<and> mgr_ul m ! 0 = None
     \<and> (\<forall>i < 4. \<forall>c. mgr_dl m ! i = Some c \<or> mgr_ul m ! i = Some c \<longrightarrow> marker_ok (circ_usage c))"

definition assignments_ok :: "packet_data_assignment option list \<Rightarrow> bool" where
  "assignments_ok as \<longleftrightarrow> length as = 4 \<and> as ! 0 = None \<and> as ! 2 = None \<and> as ! 3 = None"

definition markers_ok :: "u8 list \<Rightarrow> bool" where
  "markers_ok ms \<longleftrightarrow> length ms = 4 \<and> (\<forall>m \<in> set ms. 4 \<le> m \<and> m \<le> 62)"

definition sched_ok :: "bs_sched \<Rightarrow> bool" where
  "sched_ok s \<longleftrightarrow> entries_ok (ulsched s) \<and> circuits_ok (circuits s) \<and> length (hangtime s) = 4
     \<and> markers_ok (next_usage_marker s) \<and> assignments_ok (packet_data_assignments s)"

lemma entries_ok_iff:
  "entries_ok u \<longleftrightarrow> dims u \<and> (\<forall>t. is_valid t \<longrightarrow> (\<exists>e. sched_elem u t = Some e \<and> elem_ok e))"
proof -
  have "elem_ok (u ! i ! j)" if d: "dims u" and a: "\<forall>t. is_valid t \<longrightarrow> (\<exists>e. sched_elem u t = Some e \<and> elem_ok e)"
    and "i < 4" "j < 90" for i j
  proof -
    have "cell (from_int (4 * int j + int i)) = (i, j)" using that(3,4) by (simp add: cell_from_int)
    then have "sched_elem u (from_int (4 * int j + int i)) = Some (u ! i ! j)"
      using sched_elem_eq [OF d from_int_valid [of "4 * int j + int i"]] by simp
    then show ?thesis using a from_int_valid [of "4 * int j + int i"] by fastforce
  qed
  moreover have "\<exists>e. sched_elem u t = Some e \<and> elem_ok e" if "entries_ok u" "is_valid t" for t
    using that sched_elem_eq [of u t] cell_bounds [of t] by (auto simp: entries_ok_def)
  ultimately show ?thesis by (auto simp: entries_ok_def)
qed

lemma entries_ok_empty: "entries_ok EMPTY_SCHED"
  by (auto simp: entries_ok_def dims_def EMPTY_SCHED_def MACSCHED_NUM_FRAMES_def elem_ok_def)

lemma entries_ok_put: "entries_ok u \<Longrightarrow> is_valid t \<Longrightarrow> elem_ok e \<Longrightarrow> entries_ok (put_elem u t e)"
  by (auto simp: entries_ok_iff dims_put get_put)

lemma alloc_marker:
  assumes "markers_ok (next_usage_marker s)" and "ts_in_range ts"
  shows "\<exists>m ms. alloc_usage_marker ts s = Some (m, s\<lparr>next_usage_marker := ms\<rparr>) \<and> 4 \<le> m \<and> m \<le> 62 \<and> markers_ok ms"
proof -
  have i: "slot_index ts < 4" and p: "usize_pred ts = Some (slot_index ts)"
    using slot_index_less [OF assms(2)] assms(2) by (auto simp: usize_pred_def ts_in_range_def slot_index_def)
  define m where "m = next_usage_marker s ! slot_index ts"
  define nxt where "nxt = (if m \<ge> 62 then 4 else m + 1)"
  have m: "4 \<le> m" "m \<le> 62" using assms(1) i by (auto simp: markers_ok_def m_def)
  then have "4 \<le> nxt \<and> nxt \<le> 62" unfolding nxt_def by (simp add: word_le_nat_alt unat_word_ariths)
  then have "markers_ok ((next_usage_marker s)[slot_index ts := nxt])"
    using assms(1) set_update_subset_insert [of "next_usage_marker s" "slot_index ts" nxt] by (auto simp: markers_ok_def)
  moreover have "alloc_usage_marker ts s = Some (m, s\<lparr>next_usage_marker := (next_usage_marker s)[slot_index ts := nxt]\<rparr>)"
    using i assms(1) by (simp add: alloc_usage_marker_def p nth_opt_def markers_ok_def m_def nxt_def min_def Let_def)
  ultimately show ?thesis using m by blast
qed

section \<open>Grants\<close>

definition first_opp :: "tdma_time \<Rightarrow> u8 \<Rightarrow> tdma_time" where
  "first_opp base ts = from_int (to_int base + (uint ts - uint (tt_t base)) mod 4)"

lemma find_on_channel:
  assumes "dims (ulsched s)" and "is_valid base" and "ts_in_range ts" and "ts \<in> set channel" and "half \<longrightarrow> n = 1"
  shows "ul_find_grant_opportunity_on_channel_from s base ts channel n half reuse =
    Some (run_search is_mandatory_clch (open_at s half reuse) n (opportunities (first_opp base ts) channel) 0 [])"
proof -
  have f: "forward_to_timeslot base ts = Some (first_opp base ts)"
    using forward_eq(1) [OF assms(2)] assms(3) by (simp add: first_opp_def ts_in_range_def)
  have v: "is_valid (first_opp base ts)" by (simp add: first_opp_def from_int_valid)
  have a: "assert_opt (\<not> half \<or> n = 1) = Some ()" using assms(5) by (auto simp: assert_opt_def)
  have l: "(MACSCHED_NUM_FRAMES - 1) * 4 = 356" by (simp add: MACSCHED_NUM_FRAMES_def)
  have c: "channel \<noteq> []" using assms(4) by auto
  show ?thesis
    unfolding ul_find_grant_opportunity_on_channel_from_def opportunities_def l
    using assms(4) c by (simp only: f a bind.bind_lunit) (simp add: grant_search_eq [OF assms(1) v])
qed

lemma active_uplink_slots: "set (packet_data_active_uplink_slots_for_addr_with_allocator s adr alloc) \<subseteq> {PACKET_DATA_ASSIGNED_SCCH_TS}"
  by (auto simp: packet_data_active_uplink_slots_for_addr_with_allocator_def)

lemma find_for_addr:
  assumes "dims (ulsched s)" and "is_valid base" and "ts_in_range ts" and "half \<longrightarrow> n = 1"
  shows "ul_find_grant_opportunity_for_addr_from s base ts adr n half alloc = Some None
    \<or> (\<exists>reuse \<in> {None, Some (ssi adr)}. ul_find_grant_opportunity_for_addr_from s base ts adr n half alloc =
        Some (run_search is_mandatory_clch (open_at s half reuse) n (opportunities (first_opp base ts) [ts]) 0 []))"
proof -
  let ?slots = "packet_data_active_uplink_slots_for_addr_with_allocator s adr alloc"
  have opps: "opportunities (first_opp base ts) ?slots = opportunities (first_opp base ts) [ts]" if "ts \<in> set ?slots"
    using that active_uplink_slots [of s adr alloc] unfolding opportunities_def by (intro filter_cong) auto
  show ?thesis
    unfolding ul_find_grant_opportunity_for_addr_from_def ul_find_grant_opportunity_from_def Let_def
    using find_on_channel [OF assms(1-3) _ assms(4), of ?slots "Some (ssi adr)"] opps
      find_on_channel [OF assms(1-3) _ assms(4), of "[ts]" None]
    by auto
qed

lemma found_run:
  assumes "run_search clch opn n (opportunities first channel) 0 [] = Some (k, ys)" and "0 < n"
  shows "length ys = n" and "distinct (map cell ys)"
    and "\<forall>t \<in> set ys. t \<in> set (opportunities first channel) \<and> \<not> clch t \<and> opn t"
proof -
  let ?us = "filter (\<lambda>t. \<not> clch t) (opportunities first channel)"
  have "map_option (\<lambda>j. take n (drop j ?us)) (first_run opn n ?us) = Some ys"
    using run_search_first [of opn "[]" n clch "opportunities first channel" 0] assms by simp
  then obtain j where j: "first_run opn n ?us = Some j" and ys: "ys = take n (drop j ?us)" by auto
  show "length ys = n" using first_run_Some [OF j] by (auto simp: ys)
  show "distinct (map cell ys)" unfolding ys by (rule distinct_run)
  have "list_all opn ys" using first_run_Some [OF j] by (auto simp: ys)
  moreover have "set ys \<subseteq> set ?us" unfolding ys by (meson set_drop_subset set_take_subset subset_trans)
  ultimately show "\<forall>t \<in> set ys. t \<in> set (opportunities first channel) \<and> \<not> clch t \<and> opn t" by (auto simp: list_all_iff)
qed

text \<open>What the chosen opportunity is: a run of that many open slots with a delay of at most 13.\<close>

definition chosen :: "bs_sched \<Rightarrow> tdma_time \<Rightarrow> u8 \<Rightarrow> u32 \<Rightarrow> bool \<Rightarrow> nat \<Rightarrow> nat \<Rightarrow> tdma_time list \<Rightarrow> bool" where
  "chosen s base ts sub half cap skips ys \<longleftrightarrow> skips \<le> 13 \<and> length ys = cap \<and> distinct (map cell ys)
     \<and> (\<forall>t \<in> set ys. t \<in> set (opportunities (first_opp base ts) [ts]) \<and> \<not> is_mandatory_clch t \<and> open_at s half (Some sub) t)"

lemma open_at_reuse: "reuse \<in> {None, Some sub} \<Longrightarrow> open_at s half reuse t \<Longrightarrow> open_at s half (Some sub) t"
  by (auto simp: open_at_def slot_is_open_def split: option.splits)

lemma open_atD: "open_at s half reuse t \<Longrightarrow> \<exists>e. sched_elem (ulsched s) t = Some e \<and> slot_is_open half reuse e"
  by (auto simp: open_at_def split: option.splits)

lemma choose_grant:
  assumes "dims (ulsched s)" and "is_valid base" and "ts_in_range ts" and "\<forall>c \<in> set caps. 0 < c \<and> (half \<longrightarrow> c = 1)"
  shows "choose_grant s base ts adr half alloc caps = Some None
    \<or> (\<exists>cap \<in> set caps. \<exists>skips ys. choose_grant s base ts adr half alloc caps = Some (Some (cap, skips, ys))
        \<and> chosen s base ts (ssi adr) half cap skips ys)"
  using assms(4)
proof (induction caps)
  case (Cons c caps)
  have c: "0 < c" "half \<longrightarrow> c = 1" using Cons.prems by simp_all
  from find_for_addr [OF assms(1-3) c(2), of adr alloc] show ?case
  proof
    assume "\<exists>reuse \<in> {None, Some (ssi adr)}. ul_find_grant_opportunity_for_addr_from s base ts adr c half alloc =
        Some (run_search is_mandatory_clch (open_at s half reuse) c (opportunities (first_opp base ts) [ts]) 0 [])"
    then obtain reuse where r: "reuse \<in> {None, Some (ssi adr)}" "ul_find_grant_opportunity_for_addr_from s base ts adr c half alloc =
        Some (run_search is_mandatory_clch (open_at s half reuse) c (opportunities (first_opp base ts) [ts]) 0 [])" by blast
    show ?case
    proof (cases "run_search is_mandatory_clch (open_at s half reuse) c (opportunities (first_opp base ts) [ts]) 0 []")
      case (Some r')
      then obtain k ys where k: "run_search is_mandatory_clch (open_at s half reuse) c (opportunities (first_opp base ts) [ts]) 0 []
          = Some (k, ys)" by (cases r') auto
      have "k \<le> 13 \<Longrightarrow> chosen s base ts (ssi adr) half c k ys"
        unfolding chosen_def using found_run [OF k c(1)] open_at_reuse [OF r(1)] by blast
      then show ?thesis using Cons r(2) k by auto
    qed (use Cons r(2) in auto)
  qed (use Cons in auto)
qed simp

text \<open>The owners of the two halves of a slot, and what a grant element says it does to them.\<close>

definition slot_owners :: "bs_sched \<Rightarrow> tdma_time \<Rightarrow> (u32 option \<times> u32 option) option" where
  "slot_owners s t = map_option (\<lambda>e. (ul1 e, ul2 e)) (sched_elem (ulsched s) t)"

definition slot_granted ::
  "u32 \<Rightarrow> basic_slotgrant_cap_alloc \<Rightarrow> (u32 option \<times> u32 option) option \<Rightarrow> (u32 option \<times> u32 option) option \<Rightarrow> bool" where
  "slot_granted sub cap old new =
     (case cap of
        FirstSubslotGranted \<Rightarrow> old = Some (None, None) \<and> new = Some (Some sub, None)
      | SecondSubslotGranted \<Rightarrow> (case old of Some (Some x, None) \<Rightarrow> new = Some (Some x, Some sub) | _ \<Rightarrow> False)
      | _ \<Rightarrow> (old = Some (None, None) \<or> old = Some (Some sub, Some sub)) \<and> new = Some (Some sub, Some sub))"

lemma small_caps: "n \<in> {1, 2, 3, 4} \<Longrightarrow> from_req_slotcount n \<in> {Grant1Slot, Grant2Slots, Grant3Slots, Grant4Slots}
    \<and> to_req_slotcount (from_req_slotcount n) = n"
  by (auto simp: from_req_slotcount_def try_from_req_slotcount_def)

lemma delay_valid: "k \<le> 13 \<Longrightarrow> granting_delay_wf (if k = 0 then CapAllocAtNextOpportunity else DelayNOpportunities (of_nat k))"
  by (auto simp: granting_delay_wf_def word_le_nat_alt unat_of_nat_word)

text \<open>The reservation of a chosen opportunity.\<close>

definition grant_done ::
  "bs_sched \<Rightarrow> bs_sched \<Rightarrow> tdma_time \<Rightarrow> u8 \<Rightarrow> u32 \<Rightarrow> u8 option \<Rightarrow> basic_slotgrant_cap_alloc \<Rightarrow> tdma_time list \<Rightarrow> bool" where
  "grant_done s s' base ts sub marker cap slots \<longleftrightarrow> distinct (map cell slots)
     \<and> (\<forall>t \<in> set slots. is_valid t \<and> tt_t t = ts \<and> (\<exists>d < 356. t = opp (first_opp base ts) d) \<and> \<not> is_mandatory_clch t
          \<and> slot_granted sub cap (slot_owners s t) (slot_owners s' t)
          \<and> (\<forall>m. marker = Some m \<longrightarrow> ul_get_usage s' t = Some (UlTraffic m)))
     \<and> (\<forall>t. is_valid t \<and> cell t \<notin> cell ` set slots \<longrightarrow> sched_elem (ulsched s') t = sched_elem (ulsched s) t)"

lemma reserve_chosen_full:
  assumes "entries_ok (ulsched s)" and "chosen s base ts sub False n skips ys" and "n \<in> {1, 2, 3, 4}"
    and "\<forall>m. marker = Some m \<longrightarrow> 4 \<le> m \<and> m \<le> 62"
  shows "\<exists>u. ul_reserve_grant sub ys False marker s = Some (0, s\<lparr>ulsched := u\<rparr>) \<and> entries_ok u
    \<and> grant_done s (s\<lparr>ulsched := u\<rparr>) base ts sub marker (from_req_slotcount n) ys"
proof -
  have d: "dims (ulsched s)" using assms(1) by (simp add: entries_ok_def)
  have ys: "ys \<noteq> []" "distinct (map cell ys)" using assms(2,3) by (auto simp: chosen_def)
  have mem: "is_valid t" "tt_t t = ts" "\<exists>d < 356. t = opp (first_opp base ts) d" "\<not> is_mandatory_clch t"
    "open_at s False (Some sub) t" if "t \<in> set ys" for t
    using assms(2) that opportunities_mem [of t "first_opp base ts" "[ts]"] by (auto simp: chosen_def)
  have "\<forall>t \<in> set ys. is_valid t \<and> (\<exists>e. sched_elem (ulsched s) t = Some e \<and> slot_is_open False (Some sub) e)"
    using mem(1) open_atD [OF mem(5)] by blast
  then obtain u where u: "reserve_loop sub False marker ys (ulsched s) = Some (0, u)" "dims u"
    "\<forall>t. is_valid t \<longrightarrow> sched_elem u t =
       (if cell t \<in> cell ` set ys then map_option (reserved_elem sub marker) (sched_elem (ulsched s) t) else sched_elem (ulsched s) t)"
    using reserve_full [OF d _ ys(2)] by blast
  have "elem_ok (reserved_elem sub marker e)" if "elem_ok e" for e
    using that assms(4) by (auto simp: elem_ok_def reserved_elem_def split: option.splits)
  then have ok: "entries_ok u" using assms(1) u(2,3) by (auto simp: entries_ok_iff)
  have new: "sched_elem u t = map_option (reserved_elem sub marker) (sched_elem (ulsched s) t)" if "t \<in> set ys" for t
    using u(3) mem(1) that by simp
  have "slot_granted sub (from_req_slotcount n) (slot_owners s t) (slot_owners (s\<lparr>ulsched := u\<rparr>) t)" if "t \<in> set ys" for t
    using mem(5) [OF that] new [OF that] small_caps [OF assms(3)]
    by (auto simp: slot_granted_def slot_owners_def open_at_def slot_is_open_def reserved_elem_def split: option.splits)
  moreover have "ul_get_usage (s\<lparr>ulsched := u\<rparr>) t = Some (UlTraffic m)" if "t \<in> set ys" "marker = Some m" for t m
    using mem(5) [OF that(1)] new [OF that(1)] that(2)
    by (auto simp: ul_get_usage_def open_at_def reserved_elem_def split: option.splits)
  ultimately have "grant_done s (s\<lparr>ulsched := u\<rparr>) base ts sub marker (from_req_slotcount n) ys"
    unfolding grant_done_def using ys(2) mem(1-4) u(3) by auto
  then show ?thesis using ok u(1) ys(1) by (auto simp: ul_reserve_grant_def)
qed

lemma reserve_chosen_half:
  assumes "entries_ok (ulsched s)" and "chosen s base ts sub True 1 skips ys"
  shows "\<exists>u k. ul_reserve_grant sub ys True None s = Some (k, s\<lparr>ulsched := u\<rparr>) \<and> k \<in> {1, 2} \<and> entries_ok u
    \<and> grant_done s (s\<lparr>ulsched := u\<rparr>) base ts sub None (if k = 1 then FirstSubslotGranted else SecondSubslotGranted) ys"
proof -
  have d: "dims (ulsched s)" using assms(1) by (simp add: entries_ok_def)
  obtain t where ys: "ys = [t]" using assms(2) by (auto simp: chosen_def length_Suc_conv)
  have t: "is_valid t" "tt_t t = ts" "\<exists>d < 356. t = opp (first_opp base ts) d" "\<not> is_mandatory_clch t"
    "open_at s True (Some sub) t"
    using assms(2) opportunities_mem [of t "first_opp base ts" "[ts]"] by (auto simp: chosen_def ys)
  then obtain e where e: "sched_elem (ulsched s) t = Some e" "slot_is_open True (Some sub) e" "elem_ok e"
    using assms(1) by (auto simp: open_at_def entries_ok_iff split: option.splits)
  define k :: u8 where "k = (if ul1 e = None then 1 else 2)"
  define e' where "e' = (if ul1 e = None then e\<lparr>ul1 := Some sub\<rparr> else e\<lparr>ul2 := Some sub\<rparr>)"
  have u2: "ul2 e = None" using e(2,3) by (auto simp: slot_is_open_def elem_ok_def split: option.splits)
  then have "elem_ok e'" using e(3) by (auto simp: elem_ok_def e'_def split: option.splits)
  then have ok: "entries_ok (put_elem (ulsched s) t e')" by (rule entries_ok_put [OF assms(1) t(1)])
  have "reserve_loop sub True None ys (ulsched s) = Some (k, put_elem (ulsched s) t e')"
    using e u2 by (auto simp: ys k_def e'_def Let_def)
  then have r: "ul_reserve_grant sub ys True None s = Some (k, s\<lparr>ulsched := put_elem (ulsched s) t e'\<rparr>)"
    by (simp add: ul_reserve_grant_def ys)
  have g: "sched_elem (put_elem (ulsched s) t e') t' = (if cell t = cell t' then Some e' else sched_elem (ulsched s) t')" if "is_valid t'" for t'
    by (rule get_put [OF d t(1) that])
  have "grant_done s (s\<lparr>ulsched := put_elem (ulsched s) t e'\<rparr>) base ts sub None
      (if k = 1 then FirstSubslotGranted else SecondSubslotGranted) ys"
    unfolding grant_done_def using t(1-4) g e(1) u2
    by (auto simp: ys slot_granted_def slot_owners_def k_def e'_def split: option.splits)
  then show ?thesis using r ok by (intro exI conjI) (auto simp: k_def)
qed

lemma candidate_caps:
  "\<forall>c \<in> set (filter (\<lambda>cap. cap \<le> next_chunk_slots d) (if debt_is_halfslot d then [1] else BASIC_GRANT_FULL_SLOT_COUNTS_DESC)).
     c \<in> {1, 2, 3, 4} \<and> c \<le> next_chunk_slots d \<and> (debt_is_halfslot d \<longrightarrow> c = 1)"
  by (auto simp: next_chunk_slots_def BASIC_GRANT_FULL_SLOT_COUNTS_DESC_def MAX_RESERVED_ACCESS_GRANT_CHUNK_SLOTS_def)

definition grant_outcome ::
  "bs_sched \<Rightarrow> bs_sched \<Rightarrow> tdma_time \<Rightarrow> u8 \<Rightarrow> u32 \<Rightarrow> pending_grant_debt \<Rightarrow> (basic_slotgrant \<times> u8 option \<times> nat) option \<Rightarrow> bool" where
  "grant_outcome s s' base ts sub debt r =
     (case r of
        None \<Rightarrow> s' = s
      | Some (grant, marker, n) \<Rightarrow> slotgrant_valid grant \<and> 1 \<le> n \<and> n \<le> next_chunk_slots debt
          \<and> (if debt_is_halfslot debt then capacity_allocation grant \<in> {FirstSubslotGranted, SecondSubslotGranted}
             else to_req_slotcount (capacity_allocation grant) = n)
          \<and> granting_delay grant \<noteq> WaitForAnotherSlotgrantMessage
          \<and> (marker \<noteq> None \<longleftrightarrow> \<not> debt_is_halfslot debt \<and> n \<ge> 2)
          \<and> (\<exists>slots. length slots = n \<and> grant_done s s' base ts sub marker (capacity_allocation grant) slots))"

lemma process_full:
  assumes ok: "entries_ok (ulsched s)" "markers_ok (next_usage_marker s)" and ts: "ts_in_range ts"
    and c: "choose_grant s base ts adr False alloc caps = Some (Some (n, skips, ys))" "chosen s base ts (ssi adr) False n skips ys"
    and n: "n \<in> {1, 2, 3, 4}" "n \<le> next_chunk_slots d" and full: "\<not> debt_is_halfslot d"
    and caps: "caps = filter (\<lambda>cap. cap \<le> next_chunk_slots d) BASIC_GRANT_FULL_SLOT_COUNTS_DESC"
  shows "\<exists>r u ms. ul_process_pending_grant_from_with_allocator base ts adr d alloc s
        = Some (r, s\<lparr>next_usage_marker := ms, ulsched := u\<rparr>) \<and> entries_ok u \<and> markers_ok ms
        \<and> grant_outcome s (s\<lparr>next_usage_marker := ms, ulsched := u\<rparr>) base ts (ssi adr) d r"
proof -
  obtain marker ms where m: "(if n \<ge> 2 then map_option (\<lambda>(m, s1). (Some m, s1)) (alloc_usage_marker ts s) else Some (None, s))
      = Some (marker, s\<lparr>next_usage_marker := ms\<rparr>)" "markers_ok ms" "\<forall>m. marker = Some m \<longrightarrow> 4 \<le> m \<and> m \<le> 62"
    "marker \<noteq> None \<longleftrightarrow> n \<ge> 2"
  proof (cases "n \<ge> 2")
    case True
    obtain m ms where "alloc_usage_marker ts s = Some (m, s\<lparr>next_usage_marker := ms\<rparr>)" "4 \<le> m" "m \<le> 62" "markers_ok ms"
      using alloc_marker [OF ok(2) ts] by blast
    with True show ?thesis by (intro that [of "Some m" ms]) auto
  next
    case False
    with ok(2) show ?thesis by (intro that [of None "next_usage_marker s"]) auto
  qed
  let ?s1 = "s\<lparr>next_usage_marker := ms\<rparr>"
  have e1: "sched_elem (ulsched ?s1) = sched_elem (ulsched s)" by simp
  have c1: "chosen ?s1 base ts (ssi adr) False n skips ys" using c(2) by (simp add: chosen_def open_at_def)
  have o1: "entries_ok (ulsched ?s1)" using ok(1) by simp
  obtain u where u: "ul_reserve_grant (ssi adr) ys False marker ?s1 = Some (0, ?s1\<lparr>ulsched := u\<rparr>)" "entries_ok u"
    "grant_done ?s1 (?s1\<lparr>ulsched := u\<rparr>) base ts (ssi adr) marker (from_req_slotcount n) ys"
    using reserve_chosen_full [OF o1 c1 n(1) m(3)] by blast
  define g where "g = \<lparr>capacity_allocation = from_req_slotcount n,
    granting_delay = (if skips = 0 then CapAllocAtNextOpportunity else DelayNOpportunities (of_nat skips))\<rparr>"
  have p: "ul_process_pending_grant_from_with_allocator base ts adr d alloc s
      = Some (Some (g, marker, n), s\<lparr>next_usage_marker := ms, ulsched := u\<rparr>)"
    unfolding ul_process_pending_grant_from_with_allocator_def Let_def
    using full c(1) m(1) u(1) caps by (auto simp: grant_element_def g_def split: if_splits)
  have gd: "grant_done s (s\<lparr>next_usage_marker := ms, ulsched := u\<rparr>) base ts (ssi adr) marker (capacity_allocation g) ys"
    using u(3) by (simp add: grant_done_def slot_owners_def g_def)
  have k: "skips \<le> 13" "length ys = n" using c(2) by (simp_all add: chosen_def)
  have gv: "slotgrant_valid g" using delay_valid [OF k(1)] by (simp add: g_def slotgrant_valid_def)
  have gc: "to_req_slotcount (capacity_allocation g) = n" using small_caps [OF n(1)] by (simp add: g_def)
  have "1 \<le> n" using n(1) by auto
  then have "grant_outcome s (s\<lparr>next_usage_marker := ms, ulsched := u\<rparr>) base ts (ssi adr) d (Some (g, marker, n))"
    unfolding grant_outcome_def using gd gv gc n(2) m(4) full k(2) by (auto simp: g_def)
  then show ?thesis using p u(2) m(2) by blast
qed

lemma process_half:
  assumes ok: "entries_ok (ulsched s)" "markers_ok (next_usage_marker s)"
    and c: "choose_grant s base ts adr True alloc [1] = Some (Some (1, skips, ys))" "chosen s base ts (ssi adr) True 1 skips ys"
    and half: "debt_is_halfslot d"
  shows "\<exists>r u ms. ul_process_pending_grant_from_with_allocator base ts adr d alloc s
        = Some (r, s\<lparr>next_usage_marker := ms, ulsched := u\<rparr>) \<and> entries_ok u \<and> markers_ok ms
        \<and> grant_outcome s (s\<lparr>next_usage_marker := ms, ulsched := u\<rparr>) base ts (ssi adr) d r"
proof -
  obtain u k where u: "ul_reserve_grant (ssi adr) ys True None s = Some (k, s\<lparr>ulsched := u\<rparr>)" "k \<in> {1, 2}" "entries_ok u"
    "grant_done s (s\<lparr>ulsched := u\<rparr>) base ts (ssi adr) None (if k = 1 then FirstSubslotGranted else SecondSubslotGranted) ys"
    using reserve_chosen_half [OF ok(1) c(2)] by blast
  define g where "g = \<lparr>capacity_allocation = (if k = 1 then FirstSubslotGranted else SecondSubslotGranted),
    granting_delay = (if skips = 0 then CapAllocAtNextOpportunity else DelayNOpportunities (of_nat skips))\<rparr>"
  have n: "next_chunk_slots d = 1" using half by (simp add: next_chunk_slots_def)
  have ge: "grant_element True k (Suc 0) skips = Some g" using u(2) by (auto simp: grant_element_def g_def)
  have s': "s\<lparr>next_usage_marker := next_usage_marker s, ulsched := u\<rparr> = s\<lparr>ulsched := u\<rparr>" by simp
  have p: "ul_process_pending_grant_from_with_allocator base ts adr d alloc s = Some (Some (g, None, 1), s\<lparr>ulsched := u\<rparr>)"
    unfolding ul_process_pending_grant_from_with_allocator_def Let_def
    using half c(1) u(1) n ge by simp
  have k: "skips \<le> 13" "length ys = 1" using c(2) by (simp_all add: chosen_def)
  have gv: "slotgrant_valid g" using delay_valid [OF k(1)] by (simp add: g_def slotgrant_valid_def)
  have "grant_outcome s (s\<lparr>ulsched := u\<rparr>) base ts (ssi adr) d (Some (g, None, 1))"
    unfolding grant_outcome_def using gv n half k(2) u(4) by (auto simp: g_def)
  then show ?thesis using p u(3) ok(2) s' by metis
qed

lemma process_grant:
  assumes ok: "entries_ok (ulsched s)" "markers_ok (next_usage_marker s)" and b: "is_valid base" and ts: "ts_in_range ts"
  shows "\<exists>r u ms. ul_process_pending_grant_from_with_allocator base ts adr d alloc s
        = Some (r, s\<lparr>next_usage_marker := ms, ulsched := u\<rparr>) \<and> entries_ok u \<and> markers_ok ms
        \<and> grant_outcome s (s\<lparr>next_usage_marker := ms, ulsched := u\<rparr>) base ts (ssi adr) d r"
proof -
  have d: "dims (ulsched s)" using ok(1) by (simp add: entries_ok_def)
  define caps where "caps = filter (\<lambda>cap. cap \<le> next_chunk_slots d) (if debt_is_halfslot d then [1] else BASIC_GRANT_FULL_SLOT_COUNTS_DESC)"
  have caps: "c \<in> {1, 2, 3, 4}" "c \<le> next_chunk_slots d" "debt_is_halfslot d \<longrightarrow> c = 1" if "c \<in> set caps" for c
    using candidate_caps [of d] that unfolding caps_def by blast+
  have pos: "\<forall>c \<in> set caps. 0 < c \<and> (debt_is_halfslot d \<longrightarrow> c = 1)" using caps by fastforce
  from choose_grant [OF d b ts pos, of adr alloc] show ?thesis
  proof
    assume "choose_grant s base ts adr (debt_is_halfslot d) alloc caps = Some None"
    then have "ul_process_pending_grant_from_with_allocator base ts adr d alloc s = Some (None, s)"
      unfolding ul_process_pending_grant_from_with_allocator_def Let_def caps_def by simp
    moreover have "s\<lparr>next_usage_marker := next_usage_marker s, ulsched := ulsched s\<rparr> = s" by simp
    moreover have "grant_outcome s s base ts (ssi adr) d None" by (simp add: grant_outcome_def)
    ultimately show ?thesis using ok by metis
  next
    assume "\<exists>cap \<in> set caps. \<exists>skips ys. choose_grant s base ts adr (debt_is_halfslot d) alloc caps = Some (Some (cap, skips, ys))
        \<and> chosen s base ts (ssi adr) (debt_is_halfslot d) cap skips ys"
    then obtain n skips ys where n: "n \<in> set caps" and c: "choose_grant s base ts adr (debt_is_halfslot d) alloc caps = Some (Some (n, skips, ys))"
      "chosen s base ts (ssi adr) (debt_is_halfslot d) n skips ys" by blast
    show ?thesis
    proof (cases "debt_is_halfslot d")
      case True
      then have "caps = [1]" by (simp add: caps_def next_chunk_slots_def)
      then show ?thesis using process_half [OF ok _ _ True] n c True by simp
    next
      case False
      then have "caps = filter (\<lambda>cap. cap \<le> next_chunk_slots d) BASIC_GRANT_FULL_SLOT_COUNTS_DESC" by (simp add: caps_def)
      then show ?thesis using process_full [OF ok ts _ _ caps(1,2) [OF n] False] c False by simp
    qed
  qed
qed


end
