(* ===== verification/Sched_Inv.thy ===== *)
theory Sched_Inv
  imports Ul_Sched
begin

text \<open>
  What the operations of \<^verbatim>\<open>Ul_Sched\<close> keep true in every order: the invariant of the scheduler, and
  what the access assignment of a slot tells the mobile stations about the schedule.
\<close>

section \<open>Every operation keeps the invariant\<close>

lemma sched_ok_new: "sched_ok bs_sched_new"
  by (auto simp: sched_ok_def bs_sched_new_def entries_ok_empty circuits_ok_def mgr_ok_new markers_ok_def assignments_ok_def)
    (auto simp: circuit_mgr_new_def less_Suc_eq numeral_eq_Suc)

lemma nth_update_None: "xs ! j = None \<Longrightarrow> xs[i := None] ! j = None" "xs[i := None] ! j = Some c \<Longrightarrow> xs ! j = Some c"
proof -
  have "xs[i := None] ! j = (if i = j \<and> i < length xs then None else xs ! j)"
    using list_update_beyond [of xs i None] by (cases "i < length xs") (auto simp: nth_list_update_eq nth_list_update_neq)
  then show "xs ! j = None \<Longrightarrow> xs[i := None] ! j = None" "xs[i := None] ! j = Some c \<Longrightarrow> xs ! j = Some c"
    by (auto split: if_splits)
qed

lemma assignments_ok_clear: "assignments_ok as \<Longrightarrow> assignments_ok (as[i := None])"
  by (simp add: assignments_ok_def nth_update_None(1))

lemma assignments_ok_ts2: "assignments_ok as \<Longrightarrow> assignments_ok (as[Suc 0 := x])"
  by (auto simp: assignments_ok_def)

lemma slot_index_numeral: "slot_index 2 = 1" "slot_index 3 = 2" "slot_index 4 = 3"
  by (simp_all add: slot_index_def)

lemma entries_ok_cleared:
  assumes "entries_ok u" and "ts < 4"
  shows "entries_ok (u[ts := map clear_elem (u ! ts)])"
proof -
  have "elem_ok (clear_elem e)" if "elem_ok e" for e using that by (simp add: clear_elem_def elem_ok_def)
  then show ?thesis using assms by (auto simp: entries_ok_def dims_def nth_list_update)
qed

lemma entries_ok_update:
  assumes "entries_ok u" and "elem_ok e"
  shows "entries_ok (u[i := (u ! i)[j := e]])"
proof -
  have l: "length u = 4" "\<And>i. i < 4 \<Longrightarrow> length (u ! i) = 90" using assms(1) by (simp_all add: entries_ok_def dims_def)
  have "elem_ok (u[i := (u ! i)[j := e]] ! a ! b)" if "a < 4" "b < 90" for a b
    using assms that l by (cases "a = i"; cases "b = j") (simp_all add: entries_ok_def)
  moreover have "length (u[i := (u ! i)[j := e]] ! a) = 90" if "a < 4" for a
    using that l by (cases "a = i") simp_all
  ultimately show ?thesis using l(1) by (simp add: entries_ok_def dims_def)
qed

lemma release_passed_ok:
  assumes "sched_ok s" and "release_passed_slot ts s = Some s'"
  shows "sched_ok s'"
proof -
  obtain i j where "s' = s\<lparr>ulsched := (ulsched s)[i := (ulsched s ! i)[j := (ulsched s ! i ! j)\<lparr>ul1 := None, ul2 := None, sched_marker := None\<rparr>]]\<rparr>"
    using assms(2) by (auto simp: release_passed_slot_def nth_opt_def bind_eq_Some_conv split: if_splits)
  moreover have "elem_ok (e\<lparr>ul1 := None, ul2 := None, sched_marker := None\<rparr>)" for e by (simp add: elem_ok_def)
  ultimately show ?thesis using assms(1) entries_ok_update by (simp add: sched_ok_def)
qed

text \<open>Operations that change the assignments only.\<close>

definition same_but_assignments :: "bs_sched \<Rightarrow> bs_sched \<Rightarrow> bool" where
  "same_but_assignments s s' \<longleftrightarrow> ulsched s' = ulsched s \<and> circuits s' = circuits s \<and> hangtime s' = hangtime s
     \<and> next_usage_marker s' = next_usage_marker s \<and> (assignments_ok (packet_data_assignments s) \<longrightarrow> assignments_ok (packet_data_assignments s'))"

lemma same_but_ok: "same_but_assignments s s' \<Longrightarrow> sched_ok s \<Longrightarrow> sched_ok s'"
  by (simp add: same_but_assignments_def sched_ok_def)

lemma same_but_trans: "same_but_assignments s s1 \<Longrightarrow> same_but_assignments s1 s2 \<Longrightarrow> same_but_assignments s s2"
  by (simp add: same_but_assignments_def)

lemma same_but_fold:
  assumes "\<And>x sa. x \<in> set xs \<Longrightarrow> same_but_assignments (fst sa) (fst (f x sa))"
  shows "same_but_assignments (fst sa) (fst (fold f xs sa))"
  using assms
proof (induction xs arbitrary: sa)
  case (Cons x xs)
  have "same_but_assignments (fst sa) (fst (f x sa))" by (rule Cons.prems) simp
  moreover have "same_but_assignments (fst (f x sa)) (fst (fold f xs (f x sa)))" using Cons by simp
  ultimately show ?case by (simp add: same_but_trans)
qed (simp add: same_but_assignments_def)

lemma plan_only_ts2:
  "plan_packet_data_traffic_slots_with_allocator s n adr alloc \<in> {[False, False, False, False], [False, True, False, False]}"
  by (auto simp: plan_packet_data_traffic_slots_with_allocator_def Let_def PACKET_DATA_ASSIGNED_SCCH_TS_def slot_index_def)

lemma assign_slot_keeps:
  assumes "ts \<in> {2, 3, 4}" and "planned \<in> {[False, False, False, False], [False, True, False, False]}"
  shows "same_but_assignments (fst sa) (fst (assign_slot planned a ts sa))"
proof -
  obtain s alloc where sa: "sa = (s, alloc)" by (cases sa)
  have "planned ! slot_index ts \<longrightarrow> slot_index ts = Suc 0" using assms by (auto simp: slot_index_numeral)
  then show ?thesis
    using assignments_ok_clear [of "packet_data_assignments s" "slot_index ts"] assignments_ok_ts2 [of "packet_data_assignments s" "Some a"]
    by (auto simp: assign_slot_def sa same_but_assignments_def Let_def split_beta split: option.splits)
qed

lemma quit_slot_keeps: "same_but_assignments (fst sa) (fst (quit_slot adr ts sa))"
  by (cases sa) (auto simp: quit_slot_def same_but_assignments_def assignments_ok_clear split: option.splits)

lemma sync_slot_keeps: "same_but_assignments (fst sa) (fst (sync_slot ts sa))"
  by (cases sa) (auto simp: sync_slot_def clear_packet_data_assignment_for_slot_def same_but_assignments_def assignments_ok_clear
      split: option.splits)

lemma assign_fold:
  assumes "planned \<in> {[False, False, False, False], [False, True, False, False]}"
  shows "same_but_assignments s (fst (fold (assign_slot planned a) [2, 3, 4] (s, alloc)))"
proof -
  have "same_but_assignments (fst (s, alloc)) (fst (fold (assign_slot planned a) [2, 3, 4] (s, alloc)))"
    by (rule same_but_fold, rule assign_slot_keeps) (use assms in auto)
  then show ?thesis by (simp only: fst_conv)
qed

lemma quit_fold: "same_but_assignments s (fst (fold (quit_slot adr) [2, 3, 4] (s, alloc)))"
proof -
  have "same_but_assignments (fst (s, alloc)) (fst (fold (quit_slot adr) [2, 3, 4] (s, alloc)))"
    by (rule same_but_fold, rule quit_slot_keeps)
  then show ?thesis by (simp only: fst_conv)
qed

lemma assign_keeps:
  assumes "apply_packet_data_assignment_update_with_allocator upd now (s, alloc) = Some sa"
  shows "same_but_assignments s (fst sa)"
proof (cases upd)
  case (UpdQuitAndGo adr)
  then have "sa = fold (quit_slot adr) [2, 3, 4] (s, alloc)" using assms by (auto simp: bind_eq_Some_conv)
  then show ?thesis using quit_fold by blast
next
  case (UpdReplace adr bs d c)
  then obtain n a where "sa = fold (assign_slot (plan_packet_data_traffic_slots_with_allocator s n adr alloc) a) [2, 3, 4] (s, alloc)"
    using assms by (auto simp: bind_eq_Some_conv Let_def)
  then show ?thesis using assign_fold [OF plan_only_ts2] by blast
next
  case (UpdAdditional adr bs d c)
  then obtain n a where "sa = fold (assign_slot (plan_packet_data_traffic_slots_with_allocator s n adr alloc) a) [2, 3, 4] (s, alloc)"
    using assms by (auto simp: bind_eq_Some_conv Let_def)
  then show ?thesis using assign_fold [OF plan_only_ts2] by blast
qed

lemma expire_keeps: "expire_loop now tss (s, alloc) = Some sa \<Longrightarrow> same_but_assignments s (fst sa)"
proof (induction tss arbitrary: s alloc)
  case (Cons ts tss)
  have c: "same_but_assignments s (s\<lparr>packet_data_assignments := (packet_data_assignments s)[slot_index ts := None]\<rparr>)"
    by (simp add: same_but_assignments_def assignments_ok_clear)
  show ?case
  proof (cases "packet_data_assignments s ! slot_index ts")
    case (Some a)
    then obtain left where "diff (pda_expires_at a) now = Some left" using Cons.prems by (auto simp: bind_eq_Some_conv)
    then show ?thesis using Cons Some same_but_trans [OF c] by (auto split: if_splits)
  qed (use Cons in simp)
qed (auto simp: same_but_assignments_def)

text \<open>Operations on the circuits.\<close>

lemma circuits_ok_cong: "circuits_ok m \<Longrightarrow> mgr_ok m' \<Longrightarrow> mgr_dl m' = mgr_dl m \<Longrightarrow> mgr_ul m' = mgr_ul m \<Longrightarrow> circuits_ok m'"
  by (simp add: circuits_ok_def)

lemma media_step_ul: "mgr_ul (snd (media_step p s)) = mgr_ul s"
  by (cases p)
    (simp_all add: put_block_with_source_def put_raw_tch_s_half_slot_with_source_def push_tx_data_bounded_def
       take_block_def Let_def split: list.split)

lemma circuits_media: "circuits_ok m \<Longrightarrow> circuits_ok (snd (media_step p m))"
  by (rule circuits_ok_cong [OF _ media_step_keeps(1) media_step_dl media_step_ul]) (simp_all add: circuits_ok_def)

lemma circuits_clear:
  assumes "circuits_ok m"
  shows "circuits_ok (snd (clear_tx_data ts m))" and "circuits_ok (snd (clear_tx_data_except_source ts src adr m))"
proof -
  have m: "mgr_ok m" using assms by (simp add: circuits_ok_def)
  show "circuits_ok (snd (clear_tx_data ts m))"
    by (rule circuits_ok_cong [OF assms clear_ok(1) [OF m]]) (simp_all add: clear_tx_data_def)
  show "circuits_ok (snd (clear_tx_data_except_source ts src adr m))"
    by (rule circuits_ok_cong [OF assms clear_ok(2) [OF m]]) (simp_all add: clear_tx_data_except_source_def Let_def)
qed

text \<open>What a manager carries after an operation was there before, is the same circuit with another media
  source, or is the new circuit.\<close>

definition carries :: "circuit_mgr \<Rightarrow> nat \<Rightarrow> circuit \<Rightarrow> bool" where
  "carries m i c \<longleftrightarrow> mgr_dl m ! i = Some c \<or> mgr_ul m ! i = Some c"

lemma circuits_ok_carries:
  "circuits_ok m \<longleftrightarrow> mgr_ok m \<and> (\<forall>c. \<not> carries m 0 c) \<and> (\<forall>i < 4. \<forall>c. carries m i c \<longrightarrow> marker_ok (circ_usage c))"
  by (cases "mgr_dl m ! 0"; cases "mgr_ul m ! 0") (auto simp: circuits_ok_def carries_def)

lemma close_carries: "mgr_ok m \<Longrightarrow> i < 4 \<Longrightarrow> carries (snd (mgr_close_circuit dir ts m)) i c \<Longrightarrow> carries m i c"
  by (cases dir) (auto simp: mgr_close_circuit_def carries_def split: if_splits dest: nth_update_None(2))

lemma circuits_close: "circuits_ok m \<Longrightarrow> circuits_ok (snd (mgr_close_circuit dir ts m))"
  by (auto simp: circuits_ok_carries mgr_close_ok dest: close_carries [rotated 2])

lemma put_carries:
  assumes "mgr_ok m" and "i < 4" and "ts_in_range (circ_ts c)"
    and "carries (m\<lparr>mgr_dl := (mgr_dl m)[slot_index (circ_ts c) := Some c]\<rparr>) i x \<or> carries (m\<lparr>mgr_ul := (mgr_ul m)[slot_index (circ_ts c) := Some c]\<rparr>) i x"
  shows "carries m i x \<or> i = slot_index (circ_ts c) \<and> x = c"
proof -
  have "length (mgr_dl m) = 4" "length (mgr_ul m) = 4" using assms(1) by (simp_all add: mgr_ok_def)
  then show ?thesis using assms(4) slot_index_less [OF assms(3)] by (auto simp: carries_def nth_list_update split: if_splits)
qed

lemma create_carries:
  assumes "mgr_ok m" and "i < 4" and "carries (mgr_create_circuit dir c m) i x"
  shows "carries m i x \<or> i = slot_index (circ_ts c) \<and> x = c"
proof (cases "ts_in_range (circ_ts c)")
  case True
  define m1 where "m1 = (if is_active m dir (circ_ts c) then snd (mgr_close_circuit dir (circ_ts c) m) else m)"
  have m1: "mgr_ok m1" using assms(1) mgr_close_ok by (simp add: m1_def)
  have old: "carries m1 i x \<Longrightarrow> carries m i x" using close_carries [OF assms(1,2)] by (simp add: m1_def split: if_splits)
  have cr: "mgr_create_circuit dir c m =
      (case dir of
         DirDl \<Rightarrow> (if mgr_tx_data m1 ! slot_index (circ_ts c) \<noteq> []
           then m1\<lparr>mgr_tx_data := (mgr_tx_data m1)[slot_index (circ_ts c) := []]\<rparr> else m1)\<lparr>mgr_dl := (mgr_dl m1)[slot_index (circ_ts c) := Some c]\<rparr>
       | DirUl \<Rightarrow> m1\<lparr>mgr_ul := (mgr_ul m1)[slot_index (circ_ts c) := Some c]\<rparr>
       | _ \<Rightarrow> m1)"
    using True unfolding mgr_create_circuit_def Let_def m1_def [symmetric] by (simp split: direction.split)
  have "carries m1 i x \<or> i = slot_index (circ_ts c) \<and> x = c"
  proof (cases dir)
    case DirDl
    then have "carries (m1\<lparr>mgr_dl := (mgr_dl m1)[slot_index (circ_ts c) := Some c]\<rparr>) i x"
      using assms(3) unfolding cr by (auto simp: carries_def split: if_splits)
    then show ?thesis using put_carries [OF m1 assms(2) True] by blast
  next
    case DirUl
    then have "carries (m1\<lparr>mgr_ul := (mgr_ul m1)[slot_index (circ_ts c) := Some c]\<rparr>) i x"
      using assms(3) unfolding cr by simp
    then show ?thesis using put_carries [OF m1 assms(2) True] by blast
  qed (use assms(3) [unfolded cr] in simp_all)
  then show ?thesis using old by blast
qed (use assms(3) in \<open>simp add: mgr_create_circuit_def\<close>)

lemma circuits_create:
  assumes "circuits_ok m" and "ts_in_range (circ_ts c)" and "circ_ts c \<noteq> 1" and "marker_ok (circ_usage c)"
  shows "circuits_ok (mgr_create_circuit dir c m)"
proof -
  have "slot_index (circ_ts c) \<noteq> 0" using assms(2,3) by (auto simp: slot_index_def ts_in_range_def word_le_nat_alt word_unat_eq_iff)
  then show ?thesis
    using assms(1,4) create_carries [of m _ dir c] mgr_create_ok [of m dir c] unfolding circuits_ok_carries by (metis zero_less_numeral)
qed

lemma nth_update_map: "xs[i := map_option f (xs ! i)] ! j = Some c \<Longrightarrow> \<exists>c'. xs ! j = Some c' \<and> (c = c' \<or> c = f c')"
  by (cases "i < length xs") (auto simp: nth_list_update list_update_beyond split: if_splits)

lemma circuits_media_source:
  assumes "circuits_ok m"
  shows "circuits_ok (snd (set_dl_media_source ts src m))"
proof -
  have "\<exists>c'. carries m i c' \<and> circ_usage c' = circ_usage c" if "i < 4" "carries (snd (set_dl_media_source ts src m)) i c" for i c
    using that by (auto simp: set_dl_media_source_def carries_def Let_def split: if_splits dest!: nth_update_map)
  then show ?thesis
    using assms set_dl_media_source_ok [of m ts src] unfolding circuits_ok_carries by (metis zero_less_numeral)
qed

text \<open>A round for a pending grant: an upper bound for the rounds that are left, the slots of the grant
  that is sent, where a half slot counts as one, and what a round leaves of a debt as the code makes
  them.\<close>

definition debt_rounds :: "pending_grant_debt \<Rightarrow> nat" where
  "debt_rounds d = 25 * remaining_slots d + (24 - unat (wait_grants d))"

definition debt_ok :: "pending_grant_debt \<Rightarrow> bool" where
  "debt_ok d \<longleftrightarrow> remaining_slots d \<le> 68 \<and> (debt_is_halfslot d \<longrightarrow> remaining_slots d = 1)"

definition is_wait :: "(basic_slotgrant \<times> u8 option) option \<Rightarrow> bool" where
  "is_wait g \<longleftrightarrow> (\<exists>grant marker. g = Some (grant, marker) \<and> granting_delay grant = WaitForAnotherSlotgrantMessage)"

fun slots_sent :: "(basic_slotgrant \<times> u8 option) option \<Rightarrow> nat" where
  "slots_sent None = 0"
| "slots_sent (Some (grant, marker)) =
     (if granting_delay grant = WaitForAnotherSlotgrantMessage then 0
      else if capacity_allocation grant \<in> {FirstSubslotGranted, SecondSubslotGranted} then 1
      else to_req_slotcount (capacity_allocation grant))"

definition round_ok :: "pending_grant_debt \<Rightarrow> (basic_slotgrant \<times> u8 option) option \<Rightarrow> pending_grant_debt option \<Rightarrow> bool" where
  "round_ok debt g d \<longleftrightarrow>
     (case d of
        None \<Rightarrow> g = None \<or> slots_sent g = remaining_slots debt
      | Some d' \<Rightarrow> g \<noteq> None \<and> debt_ok d' \<and> debt_rounds d' < debt_rounds debt
          \<and> slots_sent g + remaining_slots d' = remaining_slots debt
          \<and> unat (wait_grants d') = (if is_wait g then unat (wait_grants debt) + 1 else 0))"

lemma debt_ok_new: "debt_ok (debt_new r)"
  by (cases r) (simp_all add: debt_ok_def debt_new_def debt_is_halfslot_def)

lemma round_ok_none: "round_ok debt None None"
  by (simp add: round_ok_def)

lemma round_ok_wait:
  assumes "debt_ok debt" and "\<not> packet_data_wait_budget_exhausted debt"
  shows "round_ok debt (Some (\<lparr>capacity_allocation = c, granting_delay = WaitForAnotherSlotgrantMessage\<rparr>, None)) (Some (after_wait_grant debt))"
proof -
  have w: "unat (wait_grants debt) < 24"
    using assms(2) by (simp add: packet_data_wait_budget_exhausted_def MAX_PACKET_DATA_PENDING_GRANT_WAIT_GRANTS_def word_le_nat_alt)
  then have "wait_grants debt \<noteq> 255" "unat (wait_grants debt + 1) = unat (wait_grants debt) + 1"
    by (auto simp: unat_word_ariths)
  with w assms(1) show ?thesis
    by (auto simp: round_ok_def debt_rounds_def debt_ok_def after_wait_grant_def debt_is_halfslot_def is_wait_def)
qed

lemma slots_sent_grant:
  assumes "grant_outcome s s' base ts sub debt (Some (grant, marker, n))"
  shows "slots_sent (Some (grant, marker)) = n" and "1 \<le> n" and "n \<le> next_chunk_slots debt" and "\<not> is_wait (Some (grant, marker))"
proof -
  have n: "1 \<le> n" "n \<le> next_chunk_slots debt" "granting_delay grant \<noteq> WaitForAnotherSlotgrantMessage"
    "if debt_is_halfslot debt then capacity_allocation grant \<in> {FirstSubslotGranted, SecondSubslotGranted}
     else to_req_slotcount (capacity_allocation grant) = n"
    using assms by (auto simp: grant_outcome_def)
  have "next_chunk_slots debt \<le> 4" by (simp add: next_chunk_slots_def MAX_RESERVED_ACCESS_GRANT_CHUNK_SLOTS_def)
  then have "capacity_allocation grant \<notin> {FirstSubslotGranted, SecondSubslotGranted}" if "\<not> debt_is_halfslot debt"
    using n that by auto
  moreover have "n = 1" if "debt_is_halfslot debt" using n(1,2) that by (simp add: next_chunk_slots_def)
  ultimately show "slots_sent (Some (grant, marker)) = n" using n(3,4) by (auto split: if_splits)
  show "1 \<le> n" "n \<le> next_chunk_slots debt" "\<not> is_wait (Some (grant, marker))" using n by (simp_all add: is_wait_def)
qed

lemma round_ok_grant:
  assumes "debt_ok debt" and "grant_outcome s s' base ts sub debt (Some (grant, marker, n))"
  shows "round_ok debt (Some (grant, marker)) (remaining_after_grant debt n)"
proof -
  note g = slots_sent_grant [OF assms(2)]
  have r: "res_req_from_req_slotcount k \<noteq> Req1Subslot" if "0 < k" for k
    using that by (simp add: res_req_from_req_slotcount_def)
  have le: "n \<le> remaining_slots debt" using g(3) assms(1) by (auto simp: next_chunk_slots_def debt_ok_def split: if_splits)
  show ?thesis
  proof (cases "debt_is_halfslot debt \<or> n \<ge> remaining_slots debt")
    case True
    then have "n = remaining_slots debt" using le g(2,3) assms(1) by (auto simp: debt_ok_def)
    then show ?thesis using True g(1) by (simp add: round_ok_def remaining_after_grant_def)
  next
    case False
    then have "25 * (remaining_slots debt - n) + 24 < 25 * remaining_slots debt" using g(2) by linarith
    then show ?thesis
      using False g(1,4) r [of "remaining_slots debt - n"] assms(1)
      by (auto simp: round_ok_def remaining_after_grant_def Let_def debt_rounds_def debt_ok_def debt_is_halfslot_def)
  qed
qed

lemma serve_pending:
  assumes "sched_ok s" and "is_valid ts"
  shows "\<exists>g d s'. serve_pending_grant ts adr debt origin alloc s = Some (g, d, s') \<and> sched_ok s' \<and> (debt_ok debt \<longrightarrow> round_ok debt g d)
    \<and> (g = None \<longrightarrow> \<not> packet_data_pending_grant_origin_is_valid s adr origin alloc \<or> packet_data_wait_budget_exhausted debt)"
proof (cases "packet_data_pending_grant_origin_is_valid s adr origin alloc")
  case False
  then show ?thesis using assms(1) round_ok_none by (simp add: serve_pending_grant_def)
next
  case True
  have r: "ts_in_range (tt_t ts)" using assms(2) by (auto simp: is_valid_def ts_in_range_def)
  have "entries_ok (ulsched s)" "markers_ok (next_usage_marker s)" using assms(1) by (simp_all add: sched_ok_def)
  from process_grant [OF this assms(2) r, of adr debt alloc] obtain r u ms where
    p: "ul_process_pending_grant_from_with_allocator ts (tt_t ts) adr debt alloc s = Some (r, s\<lparr>next_usage_marker := ms, ulsched := u\<rparr>)"
      "entries_ok u" "markers_ok ms" "grant_outcome s (s\<lparr>next_usage_marker := ms, ulsched := u\<rparr>) ts (tt_t ts) (ssi adr) debt r" by blast
  define s1 where "s1 = s\<lparr>next_usage_marker := ms, ulsched := u\<rparr>"
  have s1: "sched_ok s1" using assms(1) p(2,3) by (simp add: sched_ok_def s1_def)
  show ?thesis
  proof (cases r)
    case (Some x)
    obtain grant marker n where x: "x = (grant, marker, n)" by (cases x) auto
    have "round_ok debt (Some (grant, marker)) (remaining_after_grant debt n)" if "debt_ok debt"
      using that p(4) unfolding Some x by (rule round_ok_grant)
    then show ?thesis using True p(1) s1 by (simp add: serve_pending_grant_def Some x s1_def [symmetric])
  next
    case None
    show ?thesis
    proof (cases "packet_data_wait_budget_exhausted debt")
      case False
      then show ?thesis using True p(1) s1 round_ok_wait [OF _ False] by (simp add: serve_pending_grant_def None s1_def [symmetric])
    next
      case ex: True
      show ?thesis
      proof (cases origin)
        case CommonControlOrigin
        then show ?thesis using True p(1) s1 ex round_ok_none by (simp add: serve_pending_grant_def None s1_def [symmetric])
      next
        case (PacketDataOrigin a)
        have a: "a = 2" using True
          by (auto simp: PacketDataOrigin packet_data_pending_grant_origin_is_valid_def PACKET_DATA_ASSIGNED_SCCH_TS_def split: if_splits)
        have l: "length (packet_data_assignments s1) = 4" using s1 by (simp add: sched_ok_def assignments_ok_def)
        have "sched_ok (s1\<lparr>packet_data_assignments := (packet_data_assignments s1)[1 := None]\<rparr>)"
          using s1 by (simp add: sched_ok_def assignments_ok_clear)
        moreover have "usize_pred (2 :: u8) = Some 1" by (simp add: usize_pred_def)
        ultimately show ?thesis using True p(1) s1 ex l round_ok_none
          by (auto simp: serve_pending_grant_def None PacketDataOrigin a nth_opt_def s1_def [symmetric] split: option.splits)
      qed
    qed
  qed
qed

lemma sched_step_ok:
  assumes "sched_ok s" and "op_allowed p" and "sched_step p s = Some s'"
  shows "sched_ok s'"
proof (cases p)
  case (OpGrant base t adr debt alloc)
  then show ?thesis
    using assms process_grant [of s base t adr debt alloc] by (auto simp: sched_ok_def)
next
  case (OpServe t adr debt origin alloc)
  then show ?thesis using assms serve_pending [of s t adr debt origin alloc] by auto
next
  case (OpSync alloc)
  then have "s' = fst (fold sync_slot [2, 3, 4] (s, alloc))"
    using assms(3) by (simp add: sync_packet_data_assignments_with_allocator_def)
  then show ?thesis
    using same_but_ok [OF same_but_fold [of "[2, 3, 4]" sync_slot "(s, alloc)"]] sync_slot_keeps assms(1) by simp
next
  case (OpCreateCircuit dir c)
  then show ?thesis
    using assms entries_ok_cleared [OF _ slot_index_less [of "circ_ts c"], of "ulsched s"] circuits_create [of "circuits s" c dir]
    by (auto simp: sched_create_circuit_def clear_packet_data_assignment_for_slot_def clear_future_uplink_reservations_for_timeslot_def
        sched_ok_def assignments_ok_clear Let_def split: option.splits)
next
  case (OpReleasePassed t)
  then show ?thesis using assms release_passed_ok by simp
next
  case (OpAssign upd now alloc)
  then obtain sa where "apply_packet_data_assignment_update_with_allocator upd now (s, alloc) = Some sa" "s' = fst sa"
    using assms(3) by (auto simp del: apply_packet_data_assignment_update_with_allocator.simps)
  then show ?thesis using same_but_ok [OF assign_keeps assms(1)] by blast
next
  case (OpExpire now alloc)
  then obtain sa where "expire_loop now [2, 3, 4] (s, alloc) = Some sa" "s' = fst sa"
    using assms(3) by (auto simp: expire_packet_data_assignments_with_allocator_def simp del: expire_loop.simps)
  then show ?thesis using same_but_ok [OF expire_keeps assms(1)] by blast
next
  case (OpCloseCircuit dir ts)
  then show ?thesis
    using assms circuits_close [of "circuits s" dir ts]
    by (auto simp: sched_close_circuit_def sched_ok_def Let_def split_beta split: if_splits)
qed (use assms circuits_media circuits_clear circuits_media_source entries_ok_empty in
    \<open>auto simp: sched_ok_def set_dl_time_def purge_schedule_def assignments_ok_def tick_start_def set_hangtime_def
       drain_packet_data_allocator_loss_events_def bind_eq_Some_conv split: if_splits\<close>)

lemma reachable_ok: "sched_reachable s \<Longrightarrow> sched_ok s"
  by (induction rule: sched_reachable.induct) (auto intro: sched_ok_new sched_step_ok)

section \<open>The access assignment announces the schedule\<close>

lemma ul_usage_total:
  assumes "sched_ok s" and "is_valid ts"
  shows "\<exists>e u. sched_elem (ulsched s) ts = Some e \<and> elem_ok e \<and> ul_get_usage s ts = Some u
    \<and> (case sched_marker e of Some m \<Rightarrow> u = UlTraffic m \<and> marker_ok m \<and> m \<le> 62
       | None \<Rightarrow> u = (if ul2 e \<noteq> None then UlAssignedOnly else if ul1 e \<noteq> None then UlCommonAndAssigned else UlCommonOnly))"
proof -
  obtain e where e: "sched_elem (ulsched s) ts = Some e" "elem_ok e"
    using assms entries_ok_iff [of "ulsched s"] by (auto simp: sched_ok_def)
  have "marker_ok m" if "4 \<le> m" "m \<le> 62" for m
    using that by (auto simp: marker_ok_def fits_def word_le_nat_alt word_less_nat_alt)
  then show ?thesis using e by (auto simp: ul_get_usage_def elem_ok_def split: option.splits)
qed

lemma bbk_field_ok: "field_ok (bbk_field r)" "field_ok \<lparr>access_code = 0, base_frame_len = 1\<rparr>" "field_ok \<lparr>access_code = 0, base_frame_len = 0\<rparr>"
  by (simp_all add: bbk_field_def field_ok_def fits_def)

text \<open>A reserved half is marked reserved, or the slot is announced as traffic of its marker.\<close>

definition announces :: "timeslot_schedule \<Rightarrow> access_assign_ul_usage \<Rightarrow> access_field option \<Rightarrow> access_field option \<Rightarrow> bool" where
  "announces e usage f1 f2 =
     (case sched_marker e of
        Some m \<Rightarrow> usage = UlTraffic m
      | None \<Rightarrow> (ul1 e \<noteq> None \<longrightarrow> f1 = Some (bbk_field True)) \<and> (ul2 e \<noteq> None \<longrightarrow> f2 = Some (bbk_field True)))"

lemma usage_marker_ok:
  assumes "circuits_ok m" and "get_usage m dir ts = Some u"
  shows "marker_ok u"
proof -
  have "ts_in_range ts" using assms(2) by (auto simp: get_usage_def split: if_splits)
  then show ?thesis
    using assms slot_index_less [of ts] by (auto simp: get_usage_def circuits_ok_def split: direction.splits)
qed

lemma bbk_aach_ts1:
  assumes "sched_ok s" and "is_valid ts" and "tt_t ts = 1"
  shows "\<exists>a e. bbk_aach s ts p alloc = Some (Some a) \<and> aa_valid a \<and> sched_elem (ulsched s) ts = Some e
    \<and> announces e (aa_ul_usage (aa_norm a)) (aa_f1_af1 (aa_norm a)) (aa_f2_af2 (aa_norm a))"
proof -
  obtain e u where e: "sched_elem (ulsched s) ts = Some e" "elem_ok e" "ul_get_usage s ts = Some u"
    "case sched_marker e of Some m \<Rightarrow> u = UlTraffic m \<and> marker_ok m \<and> m \<le> 62
       | None \<Rightarrow> u = (if ul2 e \<noteq> None then UlAssignedOnly else if ul1 e \<noteq> None then UlCommonAndAssigned else UlCommonOnly)"
    using ul_usage_total [OF assms(1,2)] by blast
  have g: "get_usage (circuits s) DirUl 1 = None" "get_usage (circuits s) DirDl 1 = None"
    using assms(1) by (simp_all add: sched_ok_def circuits_ok_def get_usage_def slot_index_def)
  define a where "a = (case sched_marker e of
      Some m \<Rightarrow> aa_default\<lparr>dl_usage := DlCommonControl, aa_ul_usage := UlTraffic m\<rparr>
    | None \<Rightarrow> aa_default\<lparr>dl_usage := DlCommonControl, aa_ul_usage := UlCommonOnly,
        aa_f1_af1 := Some (bbk_field (ul1 e \<noteq> None)), aa_f2_af2 := Some (bbk_field (ul2 e \<noteq> None))\<rparr>)"
  have "bbk_aach s ts p alloc = Some (Some a)"
    using e g assms(3) by (auto simp: bbk_aach_def a_def split: option.splits)
  moreover have "aa_valid a" "announces e (aa_ul_usage (aa_norm a)) (aa_f1_af1 (aa_norm a)) (aa_f2_af2 (aa_norm a))"
    using e(4) by (auto simp: a_def aa_default_def aa_valid_def dl_ok_def announces_def aa_norm_def bbk_field_ok split: option.splits)
  ultimately show ?thesis using e(1) by blast
qed

lemma bbk_aach_traffic:
  assumes "sched_ok s" and "is_valid ts" and "tt_t ts \<noteq> 1"
  shows "\<exists>a. bbk_aach s ts p alloc = Some (Some a) \<and> aa_valid a"
proof -
  have t: "2 \<le> tt_t ts" "tt_t ts \<le> 4" and r: "ts_in_range (tt_t ts)"
    using assms(2,3) by (auto simp: is_valid_def ts_in_range_def word_le_nat_alt word_unat_eq_iff)
  have h: "nth_opt (hangtime s) (slot_index (tt_t ts)) = Some (hangtime s ! slot_index (tt_t ts))"
    "usize_pred (tt_t ts) = Some (slot_index (tt_t ts))"
    using assms(1) slot_index_less [OF r] usize_pred_valid(1) [OF assms(2)] by (simp_all add: sched_ok_def nth_opt_def slot_index_def)
  have m: "get_usage (circuits s) dir (tt_t ts) = Some u \<Longrightarrow> marker_ok u" for dir u
    using usage_marker_ok assms(1) by (auto simp: sched_ok_def)
  show ?thesis
    using t h m assms(3)
    by (auto simp: bbk_aach_def Let_def aa_default_def aa_valid_def dl_ok_def bbk_field_ok split: option.splits)
qed

lemma bbk_fr18:
  assumes "sched_ok s" and "is_valid ts"
  shows "\<exists>a e. bbk_aach_fr18 s ts = Some a \<and> fr18_valid a \<and> sched_elem (ulsched s) ts = Some e
    \<and> (is_mandatory_clch ts \<or> announces e (fr18_ul_usage (fr18_norm a)) (fr18_f1_af1 (fr18_norm a)) (fr18_f2_af2 (fr18_norm a)))"
proof -
  obtain e u where e: "sched_elem (ulsched s) ts = Some e" "elem_ok e" "ul_get_usage s ts = Some u"
    "case sched_marker e of Some m \<Rightarrow> u = UlTraffic m \<and> marker_ok m \<and> m \<le> 62
       | None \<Rightarrow> u = (if ul2 e \<noteq> None then UlAssignedOnly else if ul1 e \<noteq> None then UlCommonAndAssigned else UlCommonOnly)"
    using ul_usage_total [OF assms(1,2)] by blast
  show ?thesis
    using e
    by (auto simp: bbk_aach_fr18_def fr18_default_def fr18_valid_def announces_def fr18_norm_def bbk_field_ok elem_ok_def split: option.splits)
qed

lemma fixed_block_codec:
  assumes "emits w bits" and "parses p bits v" and "length bits = n"
  shows "\<exists>b. run_bb w (bb_new n) = Some ((), b) \<and> length (window b) = n \<and> thenM (seek 0) p b = Ok v (b\<lparr>bb_pos := bb_end b\<rparr>)"
proof -
  obtain b where b: "w (bb_new n) = Ok () b" "wrote (bb_new n) bits b"
    using emitsD [OF assms(1) can_write_new(1) [of "length bits" n]] assms(3) by auto
  have e: "bb_start b = 0" "bb_end b = n" "bb_wf b" "unread (b\<lparr>bb_pos := bb_start b\<rparr>) = bits @ []"
    using b(2) assms(3) wrote_unread_from [OF b(2)] by (auto simp: wrote_def bb_new_def)
  note k = seek_0_eq [OF e(3)]
  have "p (b\<lparr>bb_pos := bb_start b\<rparr>) = Ok v (bb_adv n (b\<lparr>bb_pos := bb_start b\<rparr>))"
    using parsesD [OF assms(2) _ e(4)] k assms(3) by simp
  moreover have "bb_adv n (b\<lparr>bb_pos := bb_start b\<rparr>) = b\<lparr>bb_pos := bb_end b\<rparr>" using e by (simp add: bb_adv_def)
  moreover have "length (window b) = n" using e by (simp add: window_def)
  ultimately show ?thesis using b(1) k by (auto simp: run_bb_def)
qed

section \<open>The opportunities of one timeslot\<close>

lemma filter_multiples: "filter (\<lambda>d. d mod 4 = 0) [0..<4 * n] = map (\<lambda>i. 4 * i) [0..<n]"
proof (induction n)
  case (Suc n)
  have "[0..<4 * Suc n] = [0..<4 * n] @ [4 * n, 4 * n + 1, 4 * n + 2, 4 * n + 3]"
    by (simp add: numeral_eq_Suc)
  moreover have "(4 * n + 1) mod 4 = 1" "(4 * n + 2) mod 4 = 2" "(4 * n + 3) mod 4 = 3" by presburger+
  ultimately show ?case using Suc by simp
qed simp

lemma first_opp_slot: "is_valid base \<Longrightarrow> ts_in_range ts \<Longrightarrow> tt_t (first_opp base ts) = ts"
  using forward_eq(2) [of base ts] by (simp add: first_opp_def ts_in_range_def)

lemma opp_slot:
  assumes "is_valid first"
  shows "tt_t (opp first d) = tt_t first \<longleftrightarrow> d mod 4 = 0"
proof -
  have t: "uint (tt_t first) = to_int first mod 4 + 1"
    using uint_from_int(1) [of "to_int first"] from_int_to_int [OF assms] by simp
  have "tt_t (opp first d) = tt_t first \<longleftrightarrow> uint (tt_t (opp first d)) = uint (tt_t first)" by (simp add: word_uint_eq_iff)
  also have "\<dots> \<longleftrightarrow> (to_int first + int d) mod 4 = to_int first mod 4" by (simp add: t opp_def uint_from_int)
  also have "\<dots> \<longleftrightarrow> int d mod 4 = 0" by presburger
  also have "\<dots> \<longleftrightarrow> d mod 4 = 0" by presburger
  finally show ?thesis .
qed

definition frame_opp :: "tdma_time \<Rightarrow> u8 \<Rightarrow> nat \<Rightarrow> tdma_time" where
  "frame_opp base ts i = opp (first_opp base ts) (4 * i)"

text \<open>One opportunity per frame, in 89 frames.\<close>

definition frame_opps :: "tdma_time \<Rightarrow> u8 \<Rightarrow> tdma_time list" where
  "frame_opps base ts = map (frame_opp base ts) [0..<89]"

lemma frame_opps_nth: "q < 89 \<Longrightarrow> frame_opps base ts ! q = frame_opp base ts q" "length (frame_opps base ts) = 89"
  by (simp_all add: frame_opps_def del: upt_rec_numeral)

lemma opportunities_eq:
  assumes "is_valid base" and "ts_in_range ts"
  shows "opportunities (first_opp base ts) [ts] = frame_opps base ts"
proof -
  have v: "is_valid (first_opp base ts)" by (simp add: first_opp_def from_int_valid)
  have m: "(\<lambda>t. tt_t t \<in> set [ts]) \<circ> opp (first_opp base ts) = (\<lambda>d. d mod 4 = 0)"
    using opp_slot [OF v] first_opp_slot [OF assms] by (auto simp: fun_eq_iff)
  have "[0..<356] = [0..<4 * 89 :: nat]" by (rule arg_cong [where f = "upt 0"]) simp
  then have "opportunities (first_opp base ts) [ts] = map (opp (first_opp base ts)) (map (\<lambda>i. 4 * i) [0..<89])"
    unfolding opportunities_def filter_map m filter_multiples [symmetric] by (simp only:)
  moreover have "frame_opp base ts = (\<lambda>i. opp (first_opp base ts) (4 * i))" by (simp add: fun_eq_iff frame_opp_def)
  ultimately show ?thesis unfolding frame_opps_def map_map by (simp only: o_def)
qed

definition usable_opps :: "tdma_time \<Rightarrow> u8 \<Rightarrow> tdma_time list" where
  "usable_opps base ts = filter (\<lambda>t. \<not> is_mandatory_clch t) (frame_opps base ts)"

definition slot_free :: "bs_sched \<Rightarrow> tdma_time \<Rightarrow> bool" where
  "slot_free s t \<longleftrightarrow> slot_owners s t = Some (None, None)"

lemma open_at_full: "open_at s False None = slot_free s"
  by (auto simp: fun_eq_iff slot_free_def open_at_def slot_owners_def slot_is_open_def split: option.splits)

lemma find_first_fit:
  assumes "dims (ulsched s)" and "is_valid base" and "ts_in_range ts" and "0 < n"
  shows "\<exists>r. ul_find_grant_opportunity_from s base ts n False = Some r
    \<and> map_option snd r = map_option (\<lambda>j. take n (drop j (usable_opps base ts))) (first_run (slot_free s) n (usable_opps base ts))
    \<and> (\<forall>k ys. r = Some (k, ys) \<longrightarrow> (\<exists>q < 89. frame_opp base ts q = hd ys
         \<and> counted is_mandatory_clch n (frame_opps base ts) k q))"
proof -
  let ?ops = "frame_opps base ts"
  let ?r = "run_search is_mandatory_clch (open_at s False None) n ?ops 0 []"
  have f: "ul_find_grant_opportunity_from s base ts n False = Some ?r"
    unfolding ul_find_grant_opportunity_from_def opportunities_eq [OF assms(2,3), symmetric]
    by (rule find_on_channel [OF assms(1-3)]) simp_all
  have m: "map_option snd ?r = map_option (\<lambda>j. take n (drop j (usable_opps base ts))) (first_run (slot_free s) n (usable_opps base ts))"
    using run_search_first [of "open_at s False None" "[]" n is_mandatory_clch ?ops 0] assms(4)
    unfolding usable_opps_def open_at_full by simp
  have "\<exists>q < length ([] @ ?ops). ([] @ ?ops) ! q = hd ys \<and> counted is_mandatory_clch n ([] @ ?ops) k q" if "?r = Some (k, ys)" for k ys
    by (rule run_search_delay [OF that assms(4)]) (use assms(4) in \<open>simp_all add: delay_inv_def counted_def\<close>)
  then have "\<exists>q < 89. frame_opp base ts q = hd ys \<and> counted is_mandatory_clch n ?ops k q" if "?r = Some (k, ys)" for k ys
    using that frame_opps_nth by fastforce
  then show ?thesis using f m by blast
qed

lemma search_undercounts:
  assumes "open_at s False reuse a" "\<not> is_mandatory_clch a" "is_mandatory_clch b" "\<not> open_at s False reuse c" "\<not> is_mandatory_clch c"
    "open_at s False reuse d" "\<not> is_mandatory_clch d" "open_at s False reuse e" "\<not> is_mandatory_clch e"
  shows "run_search is_mandatory_clch (open_at s False reuse) 2 (a # b # c # d # e # rest) 0 [] = Some (2, [d, e])"
  using assms by simp

lemma frame_of_opp:
  assumes "is_mandatory_clch (frame_opp base ts 1)"
  shows "\<not> is_mandatory_clch (frame_opp base ts 0)" "\<not> is_mandatory_clch (frame_opp base ts 2)"
    "\<not> is_mandatory_clch (frame_opp base ts 3)" "\<not> is_mandatory_clch (frame_opp base ts 4)"
proof -
  define n where "n = to_int (first_opp base ts)"
  have f: "tt_f (frame_opp base ts i) = 18 \<longleftrightarrow> (n + 4 * int i) div 4 mod 18 = 17" for i
    using uint_from_int(2) [of "n + 4 * int i"]
    by (auto simp: frame_opp_def opp_def n_def word_uint_eq_iff)
  define k where "k = n div 4"
  have d: "(n + 4 * int i) div 4 = k + int i" for i by (simp add: k_def)
  have "tt_f (frame_opp base ts 1) = 18" using assms by (simp add: is_mandatory_clch_def)
  then have k: "(k + 1) mod 18 = 17" unfolding f d by simp
  have "(k + 0) mod 18 \<noteq> 17" using k by presburger
  moreover have "(k + 2) mod 18 \<noteq> 17" using k by presburger
  moreover have "(k + 3) mod 18 \<noteq> 17" using k by presburger
  moreover have "(k + 4) mod 18 \<noteq> 17" using k by presburger
  ultimately have "tt_f (frame_opp base ts 0) \<noteq> 18" "tt_f (frame_opp base ts 2) \<noteq> 18"
    "tt_f (frame_opp base ts 3) \<noteq> 18" "tt_f (frame_opp base ts 4) \<noteq> 18"
    unfolding f d by simp_all
  then show "\<not> is_mandatory_clch (frame_opp base ts 0)" "\<not> is_mandatory_clch (frame_opp base ts 2)"
    "\<not> is_mandatory_clch (frame_opp base ts 3)" "\<not> is_mandatory_clch (frame_opp base ts 4)"
    by (simp_all add: is_mandatory_clch_def)
qed

lemma first_five: "\<exists>rest. frame_opps base ts =
    frame_opp base ts 0 # frame_opp base ts 1 # frame_opp base ts 2 # frame_opp base ts 3 # frame_opp base ts 4 # rest"
proof -
  have "[0..<89 :: nat] = [0..<5] @ [5..<89]" using upt_add_eq_append [of 0 5 84] by (simp del: upt_rec_numeral)
  moreover have "[0..<5 :: nat] = [0, 1, 2, 3, 4]" by code_simp
  ultimately have "[0..<89 :: nat] = 0 # 1 # 2 # 3 # 4 # [5..<89]" by (simp only: append.simps)
  then have "frame_opps base ts = map (frame_opp base ts) (0 # 1 # 2 # 3 # 4 # [5..<89])" by (simp only: frame_opps_def)
  then show ?thesis by (simp only: list.map) blast
qed

section \<open>An example of a reachable state\<close>

definition example_base :: tdma_time where
  "example_base = \<lparr>tt_t = 2, tt_f = 17, tt_m = 1, tt_h = 0\<rparr>"

definition example_ops :: "sched_op list" where
  "example_ops =
     [OpAssign (UpdReplace (address_issi 1000) [False, True, False, False] Ul 1) example_base None,
      OpGrant example_base 2 (address_issi 1000) (debt_new Req1Slot) None,
      OpGrant example_base 2 (address_issi 2000) (debt_new Req1Slot) None]"

fun sched_run :: "sched_op list \<Rightarrow> bs_sched \<Rightarrow> bs_sched option" where
  "sched_run [] s = Some s"
| "sched_run (p # ps) s = Option.bind (sched_step p s) (sched_run ps)"

lemma sched_run_reachable: "sched_run ps s = Some s' \<Longrightarrow> list_all op_allowed ps \<Longrightarrow> sched_reachable s \<Longrightarrow> sched_reachable s'"
  by (induction ps arbitrary: s) (auto simp: bind_eq_Some_conv intro: sched_reachable.step)

definition example_check :: "bs_sched \<Rightarrow> bool" where
  "example_check s \<longleftrightarrow> 2 \<in> set (packet_data_active_uplink_slots_for_addr_with_allocator s (address_issi 1000) None)
    \<and> slot_owners s (frame_opp example_base 2 0) = Some (Some 1000, Some 1000)
    \<and> slot_owners s (frame_opp example_base 2 2) = Some (Some 2000, Some 2000)
    \<and> slot_free s (frame_opp example_base 2 3) \<and> slot_free s (frame_opp example_base 2 4)"

lemma example_evaluates: "(case sched_run example_ops bs_sched_new of None \<Rightarrow> False | Some s \<Rightarrow> example_check s)"
  by code_simp

lemma example_facts: "is_mandatory_clch (frame_opp example_base 2 1)" "list_all op_allowed example_ops" "is_valid example_base"
  by code_simp+

lemma example_finds: "(case sched_run example_ops bs_sched_new of None \<Rightarrow> False
    | Some s \<Rightarrow> ul_find_grant_opportunity_from s example_base 2 2 False
        = Some (Some (3, [frame_opp example_base 2 3, frame_opp example_base 2 4])))"
  by code_simp

section \<open>Properties\<close>

text \<open>C3: a request for uplink capacity never makes the scheduler panic and keeps its invariant; it is
  either refused without a change, or granted with an element that can be transmitted (a delay of at
  most 13) for at most the requested chunk, and then exactly the granted number of slots, of the
  right timeslot, within the next 89 frames and outside the linearisation slots, that were free or
  already the station's own, are reserved for the station; every other entry of the schedule is as
  before, and a grant of several slots is announced by its usage marker.\<close>

theorem uplink_grants_are_exclusive:
  assumes "sched_ok s" and "is_valid base" and "ts_in_range ts"
  shows "\<exists>r s'. ul_process_pending_grant_from_with_allocator base ts adr debt alloc s = Some (r, s')
    \<and> sched_ok s' \<and> grant_outcome s s' base ts (ssi adr) debt r"
proof -
  have "entries_ok (ulsched s)" "markers_ok (next_usage_marker s)" using assms(1) by (simp_all add: sched_ok_def)
  from process_grant [OF this assms(2,3), of adr debt alloc] obtain r u ms where
    "ul_process_pending_grant_from_with_allocator base ts adr debt alloc s = Some (r, s\<lparr>next_usage_marker := ms, ulsched := u\<rparr>)"
    "entries_ok u" "markers_ok ms" "grant_outcome s (s\<lparr>next_usage_marker := ms, ulsched := u\<rparr>) base ts (ssi adr) debt r" by blast
  moreover have "sched_ok (s\<lparr>next_usage_marker := ms, ulsched := u\<rparr>)" using assms(1) calculation(2,3) by (simp add: sched_ok_def)
  ultimately show ?thesis by blast
qed

theorem uplink_grants_are_exclusive_witness:
  "\<exists>r s'. ul_process_pending_grant_from_with_allocator tdma_default 1 (address_issi 7) (debt_new Req4Slots) None bs_sched_new = Some (r, s')
    \<and> grant_outcome bs_sched_new s' tdma_default 1 7 (debt_new Req4Slots) r"
proof -
  have "is_valid tdma_default" "ts_in_range 1" by (simp_all add: is_valid_def tdma_default_def ts_in_range_def)
  from uplink_grants_are_exclusive [OF sched_ok_new this, of "address_issi 7" "debt_new Req4Slots" None] show ?thesis
    by (auto simp: address_issi_def address_new_def)
qed

text \<open>C7: the search for uplink capacity is a first fit: on one opportunity per frame in the next 89
  frames, without the linearisation slots, it returns the first run of as many free slots as asked
  for, or nothing when there is no such run.  The granting delay never exceeds the number of
  opportunities before the grant and equals it for a single slot, and whenever no linearisation slot
  comes before the grant.\<close>

theorem grant_search_is_first_fit:
  assumes "sched_ok s" and "is_valid base" and "ts_in_range ts" and "0 < n"
  shows "case ul_find_grant_opportunity_from s base ts n False of
      None \<Rightarrow> False
    | Some None \<Rightarrow>
        (\<forall>i. i + n \<le> length (usable_opps base ts) \<longrightarrow>
          \<not> list_all (slot_free s) (take n (drop i (usable_opps base ts))))
    | Some (Some (delay, ys)) \<Rightarrow>
        (\<exists>j. ys = take n (drop j (usable_opps base ts)) \<and> length ys = n
          \<and> list_all (slot_free s) ys
          \<and> (\<forall>i < j. \<not> list_all (slot_free s) (take n (drop i (usable_opps base ts)))))
        \<and> (\<exists>q < 89. hd ys = frame_opp base ts q \<and> delay \<le> q
          \<and> (n = 1 \<or> (\<forall>t \<in> set (take q (frame_opps base ts)). \<not> is_mandatory_clch t) \<longrightarrow> delay = q))"
proof -
  let ?us = "usable_opps base ts"
  let ?P = "slot_free s"
  have "dims (ulsched s)" using assms(1) by (simp add: sched_ok_def entries_ok_def)
  from find_first_fit [OF this assms(2-4)] obtain r where r: "ul_find_grant_opportunity_from s base ts n False = Some r"
    "map_option snd r = map_option (\<lambda>j. take n (drop j ?us)) (first_run ?P n ?us)"
    "\<forall>k ys. r = Some (k, ys) \<longrightarrow> (\<exists>q < 89. frame_opp base ts q = hd ys \<and> counted is_mandatory_clch n (frame_opps base ts) k q)"
    by blast
  show ?thesis
  proof (cases r)
    case None
    then have "first_run ?P n ?us = None" using r(2) by simp
    then show ?thesis using first_run_None [of ?P n ?us] assms(4) r(1) None by auto
  next
    case (Some p)
    then obtain k ys where p: "r = Some (k, ys)" by (cases p) auto
    then obtain j where j: "first_run ?P n ?us = Some j" "ys = take n (drop j ?us)" using r(2) [symmetric] by auto
    have "length ys = n" "list_all ?P ys" using first_run_Some [OF j(1)] j(2) by auto
    moreover have "\<forall>i < j. \<not> list_all ?P (take n (drop i ?us))" using first_run_least [OF j(1)] by blast
    moreover obtain q where "q < 89" "frame_opp base ts q = hd ys" "counted is_mandatory_clch n (frame_opps base ts) k q"
      using r(3) p by blast
    ultimately show ?thesis using r(1) p j(2) by (auto simp: counted_def)
  qed
qed

theorem grant_search_is_first_fit_witness:
  "\<exists>s j. sched_run example_ops bs_sched_new = Some s
    \<and> ul_find_grant_opportunity_from s example_base 2 2 False
        = Some (Some (3, [frame_opp example_base 2 3, frame_opp example_base 2 4]))
    \<and> [frame_opp example_base 2 3, frame_opp example_base 2 4] = take 2 (drop j (usable_opps example_base 2))
    \<and> (\<forall>i < j. \<not> list_all (slot_free s) (take 2 (drop i (usable_opps example_base 2))))"
proof -
  obtain s where s: "sched_run example_ops bs_sched_new = Some s"
    "ul_find_grant_opportunity_from s example_base 2 2 False
        = Some (Some (3, [frame_opp example_base 2 3, frame_opp example_base 2 4]))"
    using example_finds by (cases "sched_run example_ops bs_sched_new") auto
  have ok: "sched_ok s" by (rule reachable_ok [OF sched_run_reachable [OF s(1) example_facts(2) sched_reachable.init]])
  have "ts_in_range 2" by (simp add: ts_in_range_def)
  from grant_search_is_first_fit [OF ok example_facts(3) this zero_less_numeral, of "num.Bit0 num.One"] show ?thesis
    unfolding s(2) option.case prod.case using s by blast
qed

text \<open>C11: the granting delay is too small when a linearisation slot falls into a run of slots that the
  search gives up: a packet-data station that holds the slot before the linearisation slot, while
  another station holds the slot behind it, and asks for two slots, is told to wait for two
  opportunities; its slots come after three, and the slot after two belongs to the other station.\<close>

theorem granting_delay_misses_linearisation_slot:
  assumes "sched_ok s" and "is_valid base"
    and "2 \<in> set (packet_data_active_uplink_slots_for_addr_with_allocator s adr alloc)"
    and "slot_owners s (frame_opp base 2 0) = Some (Some (ssi adr), Some (ssi adr))"
    and "is_mandatory_clch (frame_opp base 2 1)"
    and "slot_owners s (frame_opp base 2 2) = Some (Some other, Some other)" and "other \<noteq> ssi adr"
    and "slot_free s (frame_opp base 2 3)" and "slot_free s (frame_opp base 2 4)"
  shows "ul_find_grant_opportunity_for_addr_from s base 2 adr 2 False alloc = Some (Some (2, [frame_opp base 2 3, frame_opp base 2 4]))
    \<and> ul_get_slot_owner s (frame_opp base 2 2) BothBlocks = Some (Some other)"
proof -
  let ?slots = "packet_data_active_uplink_slots_for_addr_with_allocator s adr alloc"
  have d: "dims (ulsched s)" using assms(1) by (simp add: sched_ok_def entries_ok_def)
  have r: "ts_in_range 2" by (simp add: ts_in_range_def)
  have "set ?slots = {2}" using active_uplink_slots [of s adr alloc] assms(3) by (auto simp: PACKET_DATA_ASSIGNED_SCCH_TS_def)
  then have ops: "opportunities (first_opp base 2) ?slots = frame_opps base 2"
    unfolding opportunities_eq [OF assms(2) r, symmetric] by (simp add: opportunities_def)
  obtain rest where five: "frame_opps base 2 =
      frame_opp base 2 0 # frame_opp base 2 1 # frame_opp base 2 2 # frame_opp base 2 3 # frame_opp base 2 4 # rest"
    using first_five by blast
  have o: "open_at s False (Some (ssi adr)) (frame_opp base 2 0)" "\<not> open_at s False (Some (ssi adr)) (frame_opp base 2 2)"
    "open_at s False (Some (ssi adr)) (frame_opp base 2 3)" "open_at s False (Some (ssi adr)) (frame_opp base 2 4)"
    using assms(4,6-9) by (auto simp: open_at_def slot_owners_def slot_is_open_def slot_free_def)
  have "ul_find_grant_opportunity_for_addr_from s base 2 adr 2 False alloc
      = Some (run_search is_mandatory_clch (open_at s False (Some (ssi adr))) 2 (frame_opps base 2) 0 [])"
    using assms(3) find_on_channel [OF d assms(2) r assms(3), of False 2 "Some (ssi adr)"]
    by (simp add: ul_find_grant_opportunity_for_addr_from_def ops)
  moreover have "run_search is_mandatory_clch (open_at s False (Some (ssi adr))) 2 (frame_opps base 2) 0 []
      = Some (2, [frame_opp base 2 3, frame_opp base 2 4])"
    unfolding five using o frame_of_opp [OF assms(5)] assms(5) by (intro search_undercounts) auto
  moreover have "ul_get_slot_owner s (frame_opp base 2 2) BothBlocks = Some (Some other)"
    using assms(6) by (auto simp: ul_get_slot_owner_def slot_owners_def)
  ultimately show ?thesis by simp
qed

theorem granting_delay_misses_linearisation_slot_witness:
  "\<exists>s. sched_run example_ops bs_sched_new = Some s
    \<and> ul_find_grant_opportunity_for_addr_from s example_base 2 (address_issi 1000) 2 False None
        = Some (Some (2, [frame_opp example_base 2 3, frame_opp example_base 2 4]))
    \<and> ul_get_slot_owner s (frame_opp example_base 2 2) BothBlocks = Some (Some 2000)"
proof -
  obtain s where s: "sched_run example_ops bs_sched_new = Some s" "example_check s"
    using example_evaluates by (cases "sched_run example_ops bs_sched_new") auto
  have ok: "sched_ok s" by (rule reachable_ok [OF sched_run_reachable [OF s(1) example_facts(2) sched_reachable.init]])
  have a: "ssi (address_issi 1000) = 1000" by (simp add: address_issi_def address_new_def)
  have "ul_find_grant_opportunity_for_addr_from s example_base 2 (address_issi 1000) 2 False None
        = Some (Some (2, [frame_opp example_base 2 3, frame_opp example_base 2 4]))
    \<and> ul_get_slot_owner s (frame_opp example_base 2 2) BothBlocks = Some (Some 2000)"
    using s(2) by (intro granting_delay_misses_linearisation_slot [OF ok example_facts(3) _ _ example_facts(1)])
      (auto simp: example_check_def a)
  then show ?thesis using s(1) by blast
qed

text \<open>C10: in every state the scheduler can reach, whatever the order of ticks, grants, releases of
  passed slots, packet-data assignments and circuits, its fields have the shapes and ranges the code
  relies on: the second half of a slot is never reserved without the first, so that the arm the code
  declares unreachable is unreachable; usage markers are between 4 and 62; timeslot 1 has no circuit;
  packet data is assigned on timeslot 2 only; a media queue has at most eighteen blocks.\<close>

theorem scheduler_states_are_well_formed:
  assumes "sched_reachable s" and "is_valid ts"
  shows "sched_ok s \<and> (\<exists>u. ul_get_usage s ts = Some u \<and> (\<forall>m. u = UlTraffic m \<longrightarrow> 4 \<le> m \<and> m \<le> 62))"
proof -
  have ok: "sched_ok s" by (rule reachable_ok [OF assms(1)])
  obtain e :: timeslot_schedule and u where u: "ul_get_usage s ts = Some u \<and> (case sched_marker e of Some m \<Rightarrow> u = UlTraffic m \<and> marker_ok m \<and> m \<le> 62
       | None \<Rightarrow> u = (if ul2 e \<noteq> None then UlAssignedOnly else if ul1 e \<noteq> None then UlCommonAndAssigned else UlCommonOnly))"
    using ul_usage_total [OF ok assms(2)] by blast
  have "4 \<le> m \<and> m \<le> 62" if "u = UlTraffic m" for m
    using u that by (cases "sched_marker e") (auto simp: marker_ok_def not_less split: if_splits)
  then show ?thesis using ok u by blast
qed

theorem scheduler_states_are_well_formed_witness:
  "\<exists>s. sched_run example_ops bs_sched_new = Some s \<and> sched_ok s \<and> (\<exists>u. ul_get_usage s example_base = Some u)"
proof -
  obtain s where s: "sched_run example_ops bs_sched_new = Some s"
    using example_evaluates by (cases "sched_run example_ops bs_sched_new") auto
  have "sched_reachable s" by (rule sched_run_reachable [OF s example_facts(2) sched_reachable.init])
  from scheduler_states_are_well_formed [OF this example_facts(3)] show ?thesis using s by blast
qed

text \<open>On timeslots 2 to 4 outside frame 18 the access assignment does not look at the reservations.\<close>

lemma traffic_assignment_ignores_reservations:
  assumes "tt_t ts \<noteq> 1" and "tt_f ts \<noteq> 18"
  shows "generate_bbk_block_with_group_floor_grant (s\<lparr>ulsched := u\<rparr>) ts grant_pending alloc
    = generate_bbk_block_with_group_floor_grant s ts grant_pending alloc"
  using assms by (simp add: generate_bbk_block_with_group_floor_grant_def bbk_aach_def Let_def
      packet_data_assignment_for_timeslot_with_allocator_def packet_data_slot_has_voice_circuit_def cong: if_cong option.case_cong)

text \<open>C9: for every slot of the clock and every reachable state the access assignment is generated
  without a panic, fills the fourteen bits of its block and is parsed by a receiver.  On timeslot 1, and
  in frame 18 outside the linearisation slots on every timeslot, what the receiver reads protects the
  reservations: a slot with a usage marker is announced as its traffic, and otherwise every reserved half
  is marked as not available for random access.  In the other slots, timeslots 2 to 4 in frames 1 to 17,
  nothing is protected: the block is the same whatever is reserved.\<close>

theorem access_assignment_protects_reservations:
  assumes "sched_reachable s" and "is_valid ts"
  shows "\<exists>b e. generate_bbk_block_with_group_floor_grant s ts grant_pending alloc = Some b \<and> length (window b) = 14
    \<and> sched_elem (ulsched s) ts = Some e
    \<and> (if tt_f ts = 18
       then \<exists>a. thenM (seek 0) fr18_from_bitbuf b = Ok a (b\<lparr>bb_pos := bb_end b\<rparr>)
         \<and> (is_mandatory_clch ts \<or> announces e (fr18_ul_usage a) (fr18_f1_af1 a) (fr18_f2_af2 a))
       else \<exists>a. thenM (seek 0) aa_from_bitbuf b = Ok a (b\<lparr>bb_pos := bb_end b\<rparr>)
         \<and> (if tt_t ts = 1 then announces e (aa_ul_usage a) (aa_f1_af1 a) (aa_f2_af2 a)
             else \<forall>u. generate_bbk_block_with_group_floor_grant (s\<lparr>ulsched := u\<rparr>) ts grant_pending alloc = Some b))"
proof -
  have ok: "sched_ok s" by (rule reachable_ok [OF assms(1)])
  show ?thesis
  proof (cases "tt_f ts = 18")
    case True
    obtain a e where a: "bbk_aach_fr18 s ts = Some a" "fr18_valid a" "sched_elem (ulsched s) ts = Some e"
      "is_mandatory_clch ts \<or> announces e (fr18_ul_usage (fr18_norm a)) (fr18_f1_af1 (fr18_norm a)) (fr18_f2_af2 (fr18_norm a))"
      using bbk_fr18 [OF ok assms(2)] by blast
    obtain b where "run_bb (fr18_to_bitbuf a) (bb_new 14) = Some ((), b)" "length (window b) = 14"
      "thenM (seek 0) fr18_from_bitbuf b = Ok (fr18_norm a) (b\<lparr>bb_pos := bb_end b\<rparr>)"
      using fixed_block_codec [OF fr18.enc_emits [OF a(2)] fr18.dec_parses [OF a(2)] length_aa_bits(2) [OF a(2)]] by blast
    then show ?thesis using a True by (auto simp: generate_bbk_block_with_group_floor_grant_def)
  next
    case False
    have "\<exists>a e. bbk_aach s ts grant_pending alloc = Some (Some a) \<and> aa_valid a \<and> sched_elem (ulsched s) ts = Some e
      \<and> (tt_t ts = 1 \<longrightarrow> announces e (aa_ul_usage (aa_norm a)) (aa_f1_af1 (aa_norm a)) (aa_f2_af2 (aa_norm a)))"
      using bbk_aach_ts1 [OF ok assms(2), of grant_pending alloc] bbk_aach_traffic [OF ok assms(2), of grant_pending alloc]
        ul_usage_total [OF ok assms(2)] by (cases "tt_t ts = 1") blast+
    then obtain a e where a: "bbk_aach s ts grant_pending alloc = Some (Some a)" "aa_valid a" "sched_elem (ulsched s) ts = Some e"
      "tt_t ts = 1 \<longrightarrow> announces e (aa_ul_usage (aa_norm a)) (aa_f1_af1 (aa_norm a)) (aa_f2_af2 (aa_norm a))" by blast
    obtain b where "run_bb (aa_to_bitbuf a) (bb_new 14) = Some ((), b)" "length (window b) = 14"
      "thenM (seek 0) aa_from_bitbuf b = Ok (aa_norm a) (b\<lparr>bb_pos := bb_end b\<rparr>)"
      using fixed_block_codec [OF aa.enc_emits [OF a(2)] aa.dec_parses [OF a(2)] length_aa_bits(1) [OF a(2)]] by blast
    moreover from this(1) have "generate_bbk_block_with_group_floor_grant s ts grant_pending alloc = Some b"
      using a(1) False by (simp add: generate_bbk_block_with_group_floor_grant_def)
    ultimately show ?thesis using a False by (auto simp: traffic_assignment_ignores_reservations)
  qed
qed

definition reserved_ts1_ops :: "sched_op list" where
  "reserved_ts1_ops = [OpGrant tdma_default 1 (address_issi 7) (debt_new Req1Slot) None]"

lemma reserved_ts1_evaluates:
  "(case sched_run reserved_ts1_ops bs_sched_new of None \<Rightarrow> False
    | Some s \<Rightarrow> slot_owners s tdma_default = Some (Some 7, Some 7) \<and> map_option sched_marker (sched_elem (ulsched s) tdma_default) = Some None)"
  by code_simp

lemma reserved_ts1_allowed: "list_all op_allowed reserved_ts1_ops" "is_valid tdma_default" "tt_t tdma_default = 1" "tt_f tdma_default \<noteq> 18"
  by code_simp+

theorem access_assignment_protects_reservations_witness:
  "\<exists>s b a. sched_run reserved_ts1_ops bs_sched_new = Some s \<and> slot_owners s tdma_default = Some (Some 7, Some 7)
    \<and> generate_bbk_block_with_group_floor_grant s tdma_default False None = Some b
    \<and> thenM (seek 0) aa_from_bitbuf b = Ok a (b\<lparr>bb_pos := bb_end b\<rparr>)
    \<and> aa_f1_af1 a = Some (bbk_field True) \<and> aa_f2_af2 a = Some (bbk_field True)"
proof -
  obtain s where s: "sched_run reserved_ts1_ops bs_sched_new = Some s" "slot_owners s tdma_default = Some (Some 7, Some 7)"
    "map_option sched_marker (sched_elem (ulsched s) tdma_default) = Some None"
    using reserved_ts1_evaluates by (cases "sched_run reserved_ts1_ops bs_sched_new") auto
  have "sched_reachable s" by (rule sched_run_reachable [OF s(1) reserved_ts1_allowed(1) sched_reachable.init])
  from access_assignment_protects_reservations [OF this reserved_ts1_allowed(2), of False None]
  obtain b e a where b: "generate_bbk_block_with_group_floor_grant s tdma_default False None = Some b"
    "sched_elem (ulsched s) tdma_default = Some e" "thenM (seek 0) aa_from_bitbuf b = Ok a (b\<lparr>bb_pos := bb_end b\<rparr>)"
    "announces e (aa_ul_usage a) (aa_f1_af1 a) (aa_f2_af2 a)"
    using reserved_ts1_allowed(3,4) by auto
  then show ?thesis using s by (auto simp: announces_def slot_owners_def)
qed

text \<open>So a reserved slot of a packet-data channel can be left open: in the example state of this theory the
  slot two frames after the start belongs to station 2000 in both halves, and a receiver reads an access
  field with base frame length 4, which invites random access.\<close>

definition read_access :: "bitbuf \<Rightarrow> access_assign option" where
  "read_access b = (case thenM (seek 0) aa_from_bitbuf b of Ok a b' \<Rightarrow> Some a | _ \<Rightarrow> None)"

theorem reserved_packet_data_slot_is_left_open:
  "(case sched_run example_ops bs_sched_new of None \<Rightarrow> False
    | Some s \<Rightarrow> slot_owners s (frame_opp example_base 2 2) = Some (Some 2000, Some 2000)
        \<and> map_option aa_f2_af (Option.bind (generate_bbk_block_with_group_floor_grant s (frame_opp example_base 2 2) False None) read_access)
          = Some (Some (bbk_field False)))"
  by code_simp

text \<open>The rounds for one pending grant, each in the state and at the time the scheduler has then.  Before a
  round the queue may have merged another debt of the station into this one, as
  \<open>coalesce_ready_grant_or_ack\<close> does; the flag tells whether the other debt was queued first.  The result is what was sent to the station, and the debt that is
  left when the rounds are used up.\<close>

type_synonym round = "tdma_time \<times> timeslot_allocator option \<times> bs_sched \<times> (bool \<times> pending_grant_debt) option"

definition merged :: "pending_grant_debt \<Rightarrow> (bool \<times> pending_grant_debt) option \<Rightarrow> pending_grant_debt" where
  "merged debt m =
     (case m of None \<Rightarrow> debt | Some (first, other) \<Rightarrow> if first then coalesce_max other debt else coalesce_max debt other)"

fun serve_rounds ::
  "tetra_address \<Rightarrow> pending_grant_origin \<Rightarrow> round list \<Rightarrow> pending_grant_debt
     \<Rightarrow> ((basic_slotgrant \<times> u8 option) option list \<times> pending_grant_debt option) option" where
  "serve_rounds adr origin [] debt = Some ([], Some debt)"
| "serve_rounds adr origin ((ts, alloc, s, m) # rs) debt =
     Option.bind (serve_pending_grant ts adr (merged debt m) origin alloc s) (\<lambda>(g, d, s').
       case d of
         None \<Rightarrow> Some ([g], None)
       | Some d' \<Rightarrow> map_option (\<lambda>(gs, left). (g # gs, left)) (serve_rounds adr origin rs d'))"

fun round_allowed :: "round \<Rightarrow> bool" where
  "round_allowed (ts, alloc, s, m) \<longleftrightarrow> is_valid ts \<and> sched_ok s \<and> (\<forall>first other. m = Some (first, other) \<longrightarrow> debt_ok other)"

fun other_debts :: "round list \<Rightarrow> pending_grant_debt list" where
  "other_debts [] = []"
| "other_debts ((ts, alloc, s, m) # rs) = (case m of None \<Rightarrow> [] | Some (first, other) \<Rightarrow> [other]) @ other_debts rs"

fun origin_kept :: "tetra_address \<Rightarrow> pending_grant_origin \<Rightarrow> round \<Rightarrow> bool" where
  "origin_kept adr origin (ts, alloc, s, m) = packet_data_pending_grant_origin_is_valid s adr origin alloc"

lemma merged_ok:
  assumes "debt_ok debt" and "\<forall>first other. m = Some (first, other) \<longrightarrow> debt_ok other"
  shows "debt_ok (merged debt m)" and "remaining_slots debt \<le> remaining_slots (merged debt m)"
    and "remaining_slots (merged debt m) \<le> remaining_slots debt + (case m of None \<Rightarrow> 0 | Some (first, other) \<Rightarrow> remaining_slots other)"
    and "debt_rounds (merged debt m) \<le> debt_rounds debt + (if m = None then 0 else 1725)"
proof -
  show "debt_ok (merged debt m)" "remaining_slots debt \<le> remaining_slots (merged debt m)"
    "remaining_slots (merged debt m) \<le> remaining_slots debt + (case m of None \<Rightarrow> 0 | Some (first, other) \<Rightarrow> remaining_slots other)"
    using assms by (auto simp: merged_def coalesce_max_def debt_ok_def debt_is_halfslot_def split: option.splits)
  then show "debt_rounds (merged debt m) \<le> debt_rounds debt + (if m = None then 0 else 1725)"
    by (auto simp: debt_rounds_def debt_ok_def merged_def split: option.splits)
qed

definition settled :: "pending_grant_debt \<Rightarrow> round list \<Rightarrow> (basic_slotgrant \<times> u8 option) option list \<Rightarrow> bool" where
  "settled debt rs gs \<longleftrightarrow> gs \<noteq> []
     \<and> sum_list (map slots_sent gs) \<le> remaining_slots debt + sum_list (map remaining_slots (other_debts rs))
     \<and> (last gs \<noteq> None \<longrightarrow> remaining_slots debt \<le> sum_list (map slots_sent gs))"

definition gave_up :: "tetra_address \<Rightarrow> pending_grant_origin \<Rightarrow> pending_grant_debt \<Rightarrow> round list
    \<Rightarrow> (basic_slotgrant \<times> u8 option) option list \<Rightarrow> bool" where
  "gave_up adr origin debt rs gs \<longleftrightarrow>
     \<not> list_all (origin_kept adr origin) rs \<or> 24 \<le> unat (wait_grants debt) + length (filter is_wait gs)"

lemma serve_rounds_settle:
  assumes "list_all round_allowed rs" and "debt_ok debt" and "debt_rounds debt + 1725 * length (other_debts rs) < length rs"
  shows "\<exists>gs. serve_rounds adr origin rs debt = Some (gs, None)
    \<and> length gs \<le> debt_rounds debt + 1725 * length (other_debts rs) + 1 \<and> settled debt rs gs
    \<and> (last gs = None \<and> other_debts rs = [] \<longrightarrow> gave_up adr origin debt rs gs)"
  using assms
proof (induction rs arbitrary: debt)
  case (Cons x rs)
  obtain ts alloc s m where x: "x = (ts, alloc, s, m)" by (cases x) auto
  then have a: "is_valid ts" "sched_ok s" "\<forall>first other. m = Some (first, other) \<longrightarrow> debt_ok other" using Cons.prems(1) by simp_all
  define d0 where "d0 = merged debt m"
  note d0 = merged_ok [OF Cons.prems(2) a(3), folded d0_def]
  from serve_pending [OF a(2,1), of adr d0 origin alloc] d0(1) obtain g d s' where
    g: "serve_pending_grant ts adr d0 origin alloc s = Some (g, d, s')" "round_ok d0 g d"
      "g = None \<longrightarrow> \<not> packet_data_pending_grant_origin_is_valid s adr origin alloc \<or> packet_data_wait_budget_exhausted d0" by blast
  let ?o = "case m of None \<Rightarrow> [] | Some (first, other) \<Rightarrow> [other]"
  have o: "other_debts (x # rs) = ?o @ other_debts rs" by (simp add: x)
  have sum: "remaining_slots d0 \<le> remaining_slots debt + sum_list (map remaining_slots ?o)" using d0(3) by (cases m) auto
  have b: "debt_rounds d0 + 1725 * length (other_debts rs) \<le> debt_rounds debt + 1725 * length (other_debts (x # rs))"
    using d0(4) unfolding o by (cases m) auto
  show ?case
  proof (cases d)
    case None
    have "gave_up adr origin debt (x # rs) [g]" if "g = None" "m = None"
      using g(3) that by (auto simp: x gave_up_def d0_def merged_def packet_data_wait_budget_exhausted_def
          MAX_PACKET_DATA_PENDING_GRANT_WAIT_GRANTS_def word_le_nat_alt)
    moreover have "settled debt (x # rs) [g]"
      using g(2) sum d0(2) unfolding settled_def o by (auto simp: None round_ok_def)
    ultimately show ?thesis using g(1) by (auto simp: x None d0_def split: option.splits)
  next
    case (Some d')
    have d': "g \<noteq> None" "debt_ok d'" "debt_rounds d' < debt_rounds d0" "slots_sent g + remaining_slots d' = remaining_slots d0"
      "unat (wait_grants d') = (if is_wait g then unat (wait_grants d0) + 1 else 0)"
      using g(2) by (simp_all add: round_ok_def Some)
    have "list_all round_allowed rs" "debt_rounds d' + 1725 * length (other_debts rs) < length rs"
      using Cons.prems(1,3) d'(3) b by auto
    from Cons.IH [OF this(1) d'(2) this(2)] obtain gs where gs: "serve_rounds adr origin rs d' = Some (gs, None)"
      "length gs \<le> debt_rounds d' + 1725 * length (other_debts rs) + 1" "settled d' rs gs"
      "last gs = None \<and> other_debts rs = [] \<longrightarrow> gave_up adr origin d' rs gs" by blast
    have "settled debt (x # rs) (g # gs)"
      using gs(3) d'(4) sum d0(2) unfolding settled_def o by auto
    moreover have "last (g # gs) = None \<and> other_debts (x # rs) = [] \<longrightarrow> gave_up adr origin debt (x # rs) (g # gs)"
    proof (intro impI, elim conjE)
      assume that: "last (g # gs) = None" "other_debts (x # rs) = []"
      have "m = None" "other_debts rs = []" using that(2) unfolding o by (auto split: option.splits)
      moreover have "last gs = None" using that(1) gs(3) by (simp add: settled_def)
      ultimately show "gave_up adr origin debt (x # rs) (g # gs)" using gs(4) d'(5) by (auto simp: gave_up_def d0_def merged_def split: if_splits)
    qed
    moreover have "length (g # gs) \<le> debt_rounds debt + 1725 * length (other_debts (x # rs)) + 1" using gs(2) d'(3) b by simp
    moreover have "serve_rounds adr origin (x # rs) debt = Some (g # gs, None)" using g(1) gs(1) by (simp add: x Some d0_def)
    ultimately show ?thesis by (intro exI [of _ "g # gs"] conjI)
  qed
qed simp

text \<open>C8: a pending grant that stays queued is settled after finitely many rounds, in whatever well-formed
  states and at whatever times they take place.  With \<open>n\<close> slots left to grant, at most 25 rounds per
  slot and 25 more pass, and at most 1725 more for each other debt of the station that the queue merges
  into it; no round panics.  Either the last round grants, and then all slots of the debt have been
  granted, or the debt is given up; without merging this happens only when the packet-data channel of
  the station is gone or after 24 waits.  The slots granted in all rounds together are never more than
  those of the debt and of the debts merged into it; a half slot counts as one.\<close>

theorem pending_grants_are_settled:
  assumes "list_all round_allowed rs" and "debt_ok debt"
    and "25 * remaining_slots debt + 25 + 1725 * length (other_debts rs) \<le> length rs"
  shows "\<exists>gs. serve_rounds adr origin rs debt = Some (gs, None)
    \<and> length gs \<le> 25 * remaining_slots debt + 25 + 1725 * length (other_debts rs)
    \<and> sum_list (map slots_sent gs) \<le> remaining_slots debt + sum_list (map remaining_slots (other_debts rs))
    \<and> (last gs \<noteq> None \<longrightarrow> remaining_slots debt \<le> sum_list (map slots_sent gs))
    \<and> (last gs = None \<and> other_debts rs = [] \<longrightarrow>
         \<not> list_all (origin_kept adr origin) rs \<or> 24 \<le> unat (wait_grants debt) + length (filter is_wait gs))"
proof -
  have b: "debt_rounds debt < 25 * remaining_slots debt + 25" by (simp add: debt_rounds_def)
  with assms(3) have "debt_rounds debt + 1725 * length (other_debts rs) < length rs" by simp
  from serve_rounds_settle [OF assms(1,2) this, of adr origin] obtain gs where
    "serve_rounds adr origin rs debt = Some (gs, None)" "length gs \<le> debt_rounds debt + 1725 * length (other_debts rs) + 1"
    "settled debt rs gs" "last gs = None \<and> other_debts rs = [] \<longrightarrow> gave_up adr origin debt rs gs" by blast
  then show ?thesis using b unfolding settled_def gave_up_def by (intro exI [of _ gs]) auto
qed

theorem pending_grants_are_settled_witness:
  "\<exists>gs. serve_rounds (address_issi 7) CommonControlOrigin (replicate 125 (tdma_default, None, bs_sched_new, None)) (debt_new Req4Slots)
      = Some (gs, None)
    \<and> sum_list (map slots_sent gs) \<le> 4 \<and> (last gs \<noteq> None \<longrightarrow> 4 \<le> sum_list (map slots_sent gs))"
proof -
  let ?rs = "replicate 125 (tdma_default, None, bs_sched_new, None) :: round list"
  have "is_valid tdma_default" by (simp add: is_valid_def tdma_default_def)
  then have "list_all round_allowed ?rs" using sched_ok_new by (auto simp: list_all_iff in_set_replicate)
  moreover have "other_debts (replicate n (tdma_default, None, bs_sched_new, None)) = []" for n by (induction n) simp_all
  then have o: "other_debts ?rs = []" by blast
  moreover have r: "remaining_slots (debt_new Req4Slots) = 4" by (simp add: debt_new_def)
  ultimately have "\<exists>gs. serve_rounds (address_issi 7) CommonControlOrigin ?rs (debt_new Req4Slots) = Some (gs, None)
    \<and> length gs \<le> 25 * remaining_slots (debt_new Req4Slots) + 25 + 1725 * length (other_debts ?rs)
    \<and> sum_list (map slots_sent gs) \<le> remaining_slots (debt_new Req4Slots) + sum_list (map remaining_slots (other_debts ?rs))
    \<and> (last gs \<noteq> None \<longrightarrow> remaining_slots (debt_new Req4Slots) \<le> sum_list (map slots_sent gs))
    \<and> (last gs = None \<and> other_debts ?rs = [] \<longrightarrow> \<not> list_all (origin_kept (address_issi 7) CommonControlOrigin) ?rs
         \<or> 24 \<le> unat (wait_grants (debt_new Req4Slots)) + length (filter is_wait gs))"
    using debt_ok_new by (intro pending_grants_are_settled) (simp_all only: length_replicate, simp)
  then show ?thesis unfolding o r by (metis add_0_right list.map(1) sum_list.Nil)
qed


end
