(* ===== verification/Spec2Isabelle.thy ===== *)
theory Spec2Isabelle
  imports Typed_Fields Crc Scrambler Interleaver Conv_Code Viterbi Error_Control Tdma_Time Timeslot_Alloc Tx_Receipt Ssi_Ranges Bs_Frag Defrag Mac_Broadcast Ms_Delivery Circuit_Mgr Sched_Inv
begin

text \<open>
  \<^bold>\<open>Nexus-BS: bit buffer, channel coding, MAC layer and uplink scheduler of a TETRA base station.\<close>

  The program is a base station for TETRA, written in Rust as a stack of entities that exchange
  messages: the physical layer moves bursts, the lower MAC codes and decodes them, the upper MAC
  builds and parses MAC blocks, grants uplink capacity and fragments, and above it stand the link
  layer, mobility management, call control, short data and packet data.  This development models the
  foundations all of them share and the two lower protocol layers.  Paths below are relative to
  \<^verbatim>\<open>src/crates\<close>.

  \<^bold>\<open>How the code is modelled.\<close>  Machine integers are words of their width; \<open>usize\<close> is a natural number,
  with subtractions that could underflow written as partial ones.  A computation on a buffer is a
  function to an outcome: \<open>Ok\<close> with the new buffer, \<open>Err\<close> with the error and the buffer as it was left, or
  \<open>Panic\<close> (\<^verbatim>\<open>Nexus_Prelude\<close>).  Code that owns several objects is written in the option monad, where
  \<open>None\<close> is a panic: an assertion, an index out of range, an \<open>unwrap\<close> or an \<open>expect\<close>.  Structs are records,
  enums are datatypes, hash maps are association lists.  Log output has no effect and is left out.

  \<^bold>\<open>Foundations\<close> (\<^verbatim>\<open>tetra-core/src\<close>).
  \<^item> \<^verbatim>\<open>Bit_Buffer\<close> models \<^verbatim>\<open>bitbuffer.rs\<close>: the byte vector, its window and cursor, and the byte-wise
    readers and writers.  They are shown to implement reading and writing of lists of bits.
  \<^item> \<^verbatim>\<open>Codec\<close> and \<^verbatim>\<open>Field_Codec\<close> hold the proof library for PDUs: the judgments \<open>emits\<close>, \<open>parses\<close> and
    \<open>safe\<close>, and the locales \<open>pdu_codec\<close> (a serialiser and a parser that agree on the bits of a value)
    and \<open>raw_enum\<close>.  Every PDU and enumeration below interprets one of them.
  \<^item> \<^verbatim>\<open>Typed_Fields\<close> models \<^verbatim>\<open>typed_pdu_fields.rs\<close>: the optional elements of types 2, 3 and 4, their
    round trips, which parsers never panic and which one does.
  \<^item> \<^verbatim>\<open>Tdma_Time\<close> (\<^verbatim>\<open>tdma_time.rs\<close>): the clock as a bijection with linear time and the laws of time
    differences.  \<^verbatim>\<open>Timeslot_Alloc\<close> (\<^verbatim>\<open>timeslot_alloc.rs\<close>): who owns a timeslot.  \<^verbatim>\<open>Tx_Receipt\<close>
    (\<^verbatim>\<open>tx_receipt.rs\<close>): the state machine of transmit receipts.  \<^verbatim>\<open>Ssi_Ranges\<close> (\<^verbatim>\<open>ranges.rs\<close>): the
    look-up with early exit equals membership.

  \<^bold>\<open>Channel coding\<close> (\<^verbatim>\<open>tetra-entities/src/lmac/components\<close>).  \<^verbatim>\<open>Crc\<close> (with the frame check sequence of the
  link layer), \<^verbatim>\<open>Scrambler\<close>, \<^verbatim>\<open>Interleaver\<close>, \<^verbatim>\<open>Conv_Code\<close>, \<^verbatim>\<open>Viterbi\<close>, \<^verbatim>\<open>Rm3014\<close> and \<^verbatim>\<open>Tch_Reorder\<close>
  model one file each; \<^verbatim>\<open>Punctured_Code\<close> shows what encoder, puncturing and decoder do together;
  \<^verbatim>\<open>Error_Control\<close> models the chains of \<^verbatim>\<open>errorcontrol.rs\<close>.  The Viterbi decoder is shown to
  implement a decoder on exact integers and so to be a maximum-likelihood decoder, as long as its metrics
  fit 16 bits; every control channel and the speech channel
  are shown to be decoded to what was coded, and the access assignment to survive one bit error.

  \<^bold>\<open>MAC PDUs\<close> (\<^verbatim>\<open>tetra-pdus/src/umac\<close>).  \<^verbatim>\<open>Mac_Fields\<close> (addresses, slot grants, channel allocations),
  \<^verbatim>\<open>Mac_Dl\<close>, \<^verbatim>\<open>Mac_Ul\<close>, \<^verbatim>\<open>Mac_Broadcast\<close> and \<^verbatim>\<open>Access_Assign\<close> model the PDUs in both directions.  Each
  has its bits, its round trip, and where it holds the safety of its parser on every input.  Where a
  parser does not return what was written, a function named after the PDU with \<open>_norm\<close> says what it
  returns; for the broadcast of extended services without a security class this is a security class.

  \<^bold>\<open>Upper MAC\<close> (\<^verbatim>\<open>tetra-entities/src/umac\<close>).
  \<^item> \<^verbatim>\<open>Fill_Bits\<close> and \<^verbatim>\<open>Bs_Frag\<close> model \<^verbatim>\<open>subcomp/fillbits.rs\<close> and the downlink fragmenter
    \<^verbatim>\<open>subcomp/bs_frag.rs\<close>.
  \<^item> \<^verbatim>\<open>Defrag\<close> models both defragmenters.  The locale \<open>reassembler\<close> states what they promise, that the
    fragments of each key are reassembled as if no other key existed, and both interpret it.
  \<^item> \<^verbatim>\<open>Umac_Ms\<close> models \<^verbatim>\<open>umac_ms.rs\<close>, every handler of the mobile station, and shows that its loop over
    the PDUs of a block ends, that its invariant is kept, what its random access sends, and that its scrambling code is that of
    the base station except for colour code 0.
  \<^item> \<^verbatim>\<open>Ms_Delivery\<close> composes the fragmenter with the mobile station: an SDU is delivered once, bit for
    bit, after a bounded number of blocks, unless it ends in the incomplete octet of its first block.  It also shows which SDUs lose their last bits and which
    length indications make the station panic.
  \<^item> \<^verbatim>\<open>Circuit_Mgr\<close> models \<^verbatim>\<open>subcomp/circuit_mgr.rs\<close>: the circuits and the bounded media queues, which
    are shown to be queues of the last eighteen blocks.
  \<^item> \<^verbatim>\<open>Ul_Sched\<close> models the uplink side of \<^verbatim>\<open>subcomp/bs_sched.rs\<close>: the schedule of reserved slots, the
    search for and the reservation of capacity, usage markers, the rounds of pending grants, packet-data
    assignments with the timeslot allocator, circuits, and the access assignment block.  The locale
    \<open>slot_store\<close> states that the schedule is a store addressed by time, across every wrap of the
    clock, as long as the times are less than ninety frames apart.
  \<^item> \<^verbatim>\<open>Sched_Inv\<close> closes these operations under every order (\<open>sched_reachable\<close>) and shows the invariant,
    that grants are exclusive and never panic, that the search is a first fit, that every pending grant
    is settled after a bounded number of rounds, that the access assignment keeps other stations off
    the reserved slots of timeslot 1 and frame 18 and does not look at those of the other slots, and
    where the granting delay is too small.

  \<^bold>\<open>Bounds and fuel.\<close>  Loops are structural recursions or functions with a termination proof.  The loop
  over the PDUs of a signalling block has fuel, one round per octet and one more; the property on its
  end shows that this is always enough.  The search for capacity visits the 356 slots the code visits.
  The Viterbi decoder has the \<open>i8\<close> products and \<open>i16\<close> sums of the code with checked arithmetic, where an
  overflow is \<open>None\<close>; its properties state the bounds on the soft bits under which none happens.

  \<^bold>\<open>Simplifications.\<close>  Transmit receipts are atomic cells in the code and one step per operation here.
  The scheduler state has the fields of the uplink side; the calls inside \<open>set_hangtime\<close>,
  \<open>create_circuit\<close>, \<open>clear_packet_data_assignment_for_slot\<close> and the rounds of pending grants that only purge
  or fill the downlink queues are left out, since no modelled operation reads these queues, and the one bit the access assignment
  takes from them, that a floor grant is pending, is an argument.  A round for a pending grant returns
  the debt the code queues again; the merging of two debts of one station in the queue is the function
  \<open>coalesce_max\<close>, which the property on pending grants allows before every round, with the bound on the
  rounds growing by a constant for each debt merged in.  It is about a debt that stays queued.  Circuits are opened with usage
  numbers between 4 and 63, as the comment of the record demands of its callers.

  \<^bold>\<open>Not modelled.\<close>  The downlink queues of the scheduler and the dispatcher \<^verbatim>\<open>umac_bs.rs\<close>, which depend on
  the configuration and the subscriber registry; the event label store, whose look-up depends on the
  order of a hash map; the entities of the lower MAC, which dispatch bursts to the modelled coding; the
  link layer, mobility management, call control, short data and packet data, whose state machines
  depend on timers, the network link and each other; the physical layer (floating-point signal
  processing and the radio device); the network link, dashboard, telemetry, remote control, health
  supervision and configuration, which are input and output on threads of their own; and the programs.
\<close>

end
